(* ===== verification/Prelude.thy ===== *)
theory Prelude
  imports Main "HOL-Library.Word"
begin

text \<open>
  Shared ground of the development: C integer types as words, errno values, the faults that a
  C statement can run into (reads and writes outside an allocation, a spinlock taken twice, a
  loop that never ends), byte buffers with little-endian and big-endian accesses, the list of
  stores a request builder performs, and two interfaces as locales: \<open>byte_codec\<close> (an integer
  and its bytes in memory) and \<open>frame_walk\<close> (a buffer that is a sequence of self-delimiting
  frames). The components interpret both.
\<close>

section \<open>Types, errno values and faults\<close>

type_synonym u8 = "8 word"
type_synonym u16 = "16 word"
type_synonym u32 = "32 word"
type_synonym u64 = "64 word"

text \<open>A buffer is the allocation a pointer points to; a pointer may be NULL.\<close>

type_synonym bytes = "u8 list"
type_synonym ptr = "u8 list option"

abbreviation (input) "ENOMEM \<equiv> (12 :: int)"
abbreviation (input) "EFAULT \<equiv> (14 :: int)"
abbreviation (input) "EINVAL \<equiv> (22 :: int)"
abbreviation (input) "ENOMSG \<equiv> (42 :: int)"
abbreviation (input) "ENODATA \<equiv> (61 :: int)"
abbreviation (input) "ENXIO \<equiv> (6 :: int)"
abbreviation (input) "EBADF \<equiv> (9 :: int)"
abbreviation (input) "EINTR \<equiv> (4 :: int)"
abbreviation (input) "EPERM \<equiv> (1 :: int)"
abbreviation (input) "EBADR \<equiv> (53 :: int)"
abbreviation (input) "EBADRQC \<equiv> (56 :: int)"
abbreviation (input) "ETIME \<equiv> (62 :: int)"
abbreviation (input) "EOVERFLOW \<equiv> (75 :: int)"
abbreviation (input) "ETOOMANYREFS \<equiv> (109 :: int)"

text \<open>
  What the C code can do besides returning: undefined or deadlocking behaviour. A function of
  the model returns \<open>Inl\<close> of one of these, or \<open>Inr\<close> of its result.
\<close>

datatype fault =
    OOB_Read nat        \<comment> \<open>a load outside the buffer, at this offset\<close>
  | OOB_Write nat       \<comment> \<open>a store outside the buffer, at this offset\<close>
  | Null_Deref          \<comment> \<open>a load or store through a NULL pointer\<close>
  | Diverges            \<comment> \<open>the loop never ends\<close>
  | Deadlock            \<comment> \<open>a spinlock is taken while it is held by the same thread\<close>
  | Bad_Unlock          \<comment> \<open>a spinlock is released while it is not held\<close>
  | Wild_Pointer        \<comment> \<open>an access through a pointer computed for another object\<close>
  | Skb_Panic           \<comment> \<open>skb_put or skb_push beyond the room of the socket buffer\<close>

section \<open>The fault monad\<close>

definition bnd :: "'e + 'a \<Rightarrow> ('a \<Rightarrow> 'e + 'b) \<Rightarrow> 'e + 'b" where
  "bnd m f = (case m of Inl e \<Rightarrow> Inl e | Inr x \<Rightarrow> f x)"

lemma bnd_simps [simp]:
  "bnd (Inl e) f = Inl e"
  "bnd (Inr x) f = f x"
  by (simp_all add: bnd_def)

lemma bnd_Inr_right [simp]: "bnd m Inr = m"
  by (cases m) simp_all

lemma bnd_assoc: "bnd (bnd m f) g = bnd m (\<lambda>x. bnd (f x) g)"
  by (cases m) simp_all

text \<open>Used as a congruence rule by the recursive functions over steps that can fault.\<close>

lemma bnd_cong:
  "m = m' \<Longrightarrow> (\<And>x. m' = Inr x \<Longrightarrow> f x = f' x) \<Longrightarrow> bnd m f = bnd m' f'"
  by (cases m') simp_all

named_theorems returns_iff \<open>when a step returns a value\<close>

lemma bnd_Inr_iff [returns_iff]: "bnd m f = Inr y \<longleftrightarrow> (\<exists>x. m = Inr x \<and> f x = Inr y)"
  by (cases m) auto

lemma bnd_Inl_iff: "bnd m f = Inl e \<longleftrightarrow> m = Inl e \<or> (\<exists>x. m = Inr x \<and> f x = Inl e)"
  by (cases m) auto

lemma bnd_split:
  "P (bnd m f) \<longleftrightarrow> (\<forall>e. m = Inl e \<longrightarrow> P (Inl e)) \<and> (\<forall>x. m = Inr x \<longrightarrow> P (f x))"
  by (cases m) auto

definition no_fault :: "'e + 'a \<Rightarrow> bool" where
  "no_fault m = (case m of Inl _ \<Rightarrow> False | Inr _ \<Rightarrow> True)"

lemma no_fault_simps [simp]:
  "no_fault (Inr x)"
  "\<not> no_fault (Inl e)"
  by (simp_all add: no_fault_def)

lemma no_fault_iff: "no_fault m \<longleftrightarrow> (\<exists>x. m = Inr x)"
  by (cases m) simp_all

lemma no_fault_bnd [simp]:
  "no_fault (bnd m f) \<longleftrightarrow> (\<exists>x. m = Inr x \<and> no_fault (f x))"
  by (cases m) simp_all

section \<open>Integers and their bytes\<close>

text \<open>A wider integer passed as an \<open>int\<close>.\<close>

definition as_int :: "int \<Rightarrow> int" where
  "as_int n = (n + 2 ^ 31) mod 2 ^ 32 - 2 ^ 31"

definition le16 :: "u16 \<Rightarrow> bytes" where
  "le16 w = [word_of_nat (unat w mod 256), word_of_nat (unat w div 256 mod 256)]"

definition of_le16 :: "bytes \<Rightarrow> u16" where
  "of_le16 bs = word_of_nat (unat (bs ! 0) + 256 * unat (bs ! 1))"

definition be16 :: "u16 \<Rightarrow> bytes" where
  "be16 w = [word_of_nat (unat w div 256 mod 256), word_of_nat (unat w mod 256)]"

definition of_be16 :: "bytes \<Rightarrow> u16" where
  "of_be16 bs = word_of_nat (256 * unat (bs ! 0) + unat (bs ! 1))"

definition le32 :: "u32 \<Rightarrow> bytes" where
  "le32 w = [word_of_nat (unat w mod 256), word_of_nat (unat w div 256 mod 256),
             word_of_nat (unat w div 65536 mod 256), word_of_nat (unat w div 16777216 mod 256)]"

definition of_le32 :: "bytes \<Rightarrow> u32" where
  "of_le32 bs = word_of_nat (unat (bs ! 0) + 256 * unat (bs ! 1)
                 + 65536 * unat (bs ! 2) + 16777216 * unat (bs ! 3))"

definition le64 :: "u64 \<Rightarrow> bytes" where
  "le64 w = le32 (word_of_nat (unat w mod 4294967296))
           @ le32 (word_of_nat (unat w div 4294967296 mod 4294967296))"

definition of_le64 :: "bytes \<Rightarrow> u64" where
  "of_le64 bs = word_of_nat (unat (of_le32 bs) + 4294967296 * unat (of_le32 (drop 4 bs)))"

lemma unat_u8_lt [simp]: "unat (b :: u8) < 256"
  using unsigned_less [of b] by simp

lemma unat_u16_lt [simp]: "unat (w :: u16) < 65536"
  using unsigned_less [of w] by simp

lemma unat_u32_lt [simp]: "unat (w :: u32) < 4294967296"
  using unsigned_less [of w] by simp

lemma unat_u64_lt [simp]: "unat (w :: u64) < 18446744073709551616"
  using unsigned_less [of w] by simp

lemma unat_u8_of_nat: "unat (word_of_nat n :: u8) = n mod 256"
  by (simp add: unat_of_nat)

lemma unat_u16_of_nat: "unat (word_of_nat n :: u16) = n mod 65536"
  by (simp add: unat_of_nat)

lemma unat_u32_of_nat: "unat (word_of_nat n :: u32) = n mod 4294967296"
  by (simp add: unat_of_nat)

lemma unat_u64_of_nat: "unat (word_of_nat n :: u64) = n mod 18446744073709551616"
  by (simp add: unat_of_nat)

lemmas unat_of_nat_widths = unat_u8_of_nat unat_u16_of_nat unat_u32_of_nat unat_u64_of_nat

lemma unat_u32_add: "unat (a :: u32) + unat b < 2 ^ 32 \<Longrightarrow> unat (a + b) = unat a + unat b"
  by (simp add: unat_word_ariths(1))

lemma unat_u16_add: "unat ((a :: u16) + b) = (unat a + unat b) mod 65536"
  by (simp add: unat_word_ariths)

lemma unat_u16_inc:
  assumes "(a :: u16) < b"
  shows "unat (a + 1) = unat a + 1"
proof -
  have "unat a + 1 < 65536" using assms [unfolded word_less_nat_alt] unat_u16_lt [of b] by linarith
  then show ?thesis by (simp add: unat_u16_add)
qed

lemma unat_ucast_u32 [simp]: "unat (ucast (m :: u16) :: u32) = unat m"
proof -
  have "unat m < 2 ^ 32" by (rule less_trans [OF unat_u16_lt]) simp
  then show ?thesis by (simp add: unsigned_ucast_eq take_bit_nat_eq_self)
qed

lemma unat_ucast_u16: "unat (n :: u32) < 65536 \<Longrightarrow> unat (ucast n :: u16) = unat n"
  by (simp add: unsigned_ucast_eq take_bit_nat_eq_self)

lemma ucast_u16_u32 [simp]: "ucast (ucast (n :: u16) :: u32) = n"
  by (simp add: word_unat_eq_iff unat_ucast_u16 del: unsigned_ucast_eq)

lemma ucast_less_of:
  assumes "(n :: u32) < ucast (m :: u16)"
  shows "(ucast n :: u16) < m"
proof -
  have lt: "unat n < unat m" using assms by (simp add: word_less_nat_alt)
  then have "unat n < 65536" using unat_u16_lt [of m] by linarith
  then show ?thesis using lt by (simp add: word_less_nat_alt unat_ucast_u16)
qed

lemma word_nat_id: "word_of_nat (unat x) = x"
  by simp

text \<open>
  The interface of an integer and its bytes: \<open>enc\<close> is what a store of that width writes,
  \<open>dec\<close> what a load of that width returns.
\<close>

locale byte_codec =
  fixes enc :: "'a \<Rightarrow> bytes"
    and dec :: "bytes \<Rightarrow> 'a"
    and w :: nat
  assumes len_enc: "length (enc x) = w"
    and dec_enc: "dec (enc x) = x"
    and dec_take: "w \<le> length bs \<Longrightarrow> dec (take w bs) = dec bs"
    and w_pos: "0 < w"
begin

lemma dec_enc_append: "dec (enc x @ bs) = x"
  using dec_take [of "enc x @ bs"] by (simp add: len_enc dec_enc)

lemma dec_at: "dec (drop (length pre) (pre @ enc x @ post)) = x"
  by (simp add: dec_enc_append)

lemma enc_inject: "enc x = enc y \<longleftrightarrow> x = y"
  using dec_enc by metis

lemma enc_not_Nil: "enc x \<noteq> []"
  using len_enc [of x] w_pos by auto

end

lemma word_byte_split16:
  assumes "(n :: nat) < 65536"
  shows "n mod 256 + 256 * (n div 256 mod 256) = n"
proof -
  have "n div 256 < 256" using assms by (simp add: less_mult_imp_div_less)
  then show ?thesis by simp
qed

lemma word_byte_split32:
  assumes "(n :: nat) < 4294967296"
  shows "n mod 256 + 256 * (n div 256 mod 256) + 65536 * (n div 65536 mod 256)
           + 16777216 * (n div 16777216 mod 256) = n"
proof -
  define a where "a = n div 256"
  define b where "b = a div 256"
  have 1: "n div 65536 = b" "n div 16777216 = b div 256"
    by (simp_all add: a_def b_def div_mult2_eq [symmetric])
  have "b div 256 < 256"
    using assms 1(2) by (simp add: less_mult_imp_div_less flip: 1(2))
  then have "b mod 256 + 256 * (b div 256 mod 256) = b" by simp
  moreover have "a mod 256 + 256 * b = a" by (simp add: b_def)
  moreover have "n mod 256 + 256 * a = n" by (simp add: a_def)
  ultimately show ?thesis unfolding 1 a_def [symmetric] by linarith
qed

lemma word_half_split64:
  assumes "(n :: nat) < 18446744073709551616"
  shows "n mod 4294967296 + 4294967296 * (n div 4294967296 mod 4294967296) = n"
proof -
  have "n div 4294967296 < 4294967296" using assms by (simp add: less_mult_imp_div_less)
  then show ?thesis by simp
qed

interpretation le16: byte_codec le16 of_le16 2
proof
  fix x :: u16
  show "length (le16 x) = 2" by (simp add: le16_def)
  have "unat (le16 x ! 0) + 256 * unat (le16 x ! 1) = unat x"
    using word_byte_split16 [of "unat x"] by (simp add: le16_def unat_of_nat_widths)
  then show "of_le16 (le16 x) = x"
    unfolding of_le16_def by (simp only: word_nat_id)
next
  fix bs :: bytes
  assume "2 \<le> length bs"
  then show "of_le16 (take 2 bs) = of_le16 bs" by (simp add: of_le16_def)
qed simp

interpretation be16: byte_codec be16 of_be16 2
proof
  fix x :: u16
  show "length (be16 x) = 2" by (simp add: be16_def)
  have "256 * unat (be16 x ! 0) + unat (be16 x ! 1) = unat x"
    using word_byte_split16 [of "unat x"] by (simp add: be16_def unat_of_nat_widths)
  then show "of_be16 (be16 x) = x"
    unfolding of_be16_def by (simp only: word_nat_id)
next
  fix bs :: bytes
  assume "2 \<le> length bs"
  then show "of_be16 (take 2 bs) = of_be16 bs" by (simp add: of_be16_def)
qed simp

interpretation le32: byte_codec le32 of_le32 4
proof
  fix x :: u32
  show "length (le32 x) = 4" by (simp add: le32_def)
  have "unat (le32 x ! 0) + 256 * unat (le32 x ! 1) + 65536 * unat (le32 x ! 2)
          + 16777216 * unat (le32 x ! 3) = unat x"
    using word_byte_split32 [of "unat x"] by (simp add: le32_def unat_of_nat_widths del: mod_less)
  then show "of_le32 (le32 x) = x"
    unfolding of_le32_def by (simp only: word_nat_id)
next
  fix bs :: bytes
  assume "4 \<le> length bs"
  then show "of_le32 (take 4 bs) = of_le32 bs" by (simp add: of_le32_def)
qed simp

interpretation le64: byte_codec le64 of_le64 8
proof
  fix x :: u64
  show "length (le64 x) = 8" by (simp add: le64_def le32.len_enc)
  have "unat (of_le32 (le64 x)) + 4294967296 * unat (of_le32 (drop 4 (le64 x))) = unat x"
    using word_half_split64 [of "unat x"]
    by (simp add: le64_def le32.dec_enc_append le32.dec_enc le32.len_enc unat_of_nat_widths)
  then show "of_le64 (le64 x) = x"
    unfolding of_le64_def by (simp only: word_nat_id)
next
  fix bs :: bytes
  assume "8 \<le> length bs"
  then show "of_le64 (take 8 bs) = of_le64 bs"
    by (simp add: of_le64_def of_le32_def drop_take)
qed simp

declare le16.len_enc [simp] le32.len_enc [simp] le64.len_enc [simp] be16.len_enc [simp]
declare le16.enc_not_Nil [simp] le32.enc_not_Nil [simp] be16.enc_not_Nil [simp]

lemma unat_of_le16: "unat (of_le16 bs) = unat (bs ! 0) + 256 * unat (bs ! 1)"
proof -
  have "unat (bs ! 0) + 256 * unat (bs ! 1) < 65536"
    using unat_u8_lt [of "bs ! 0"] unat_u8_lt [of "bs ! 1"] by linarith
  then show ?thesis
    unfolding of_le16_def by (simp only: unat_u16_of_nat mod_less)
qed

section \<open>Loads, stores and copies\<close>

definition rd8 :: "bytes \<Rightarrow> nat \<Rightarrow> fault + u8" where
  "rd8 b i = (if i < length b then Inr (b ! i) else Inl (OOB_Read i))"

definition rd16 :: "bytes \<Rightarrow> nat \<Rightarrow> fault + u16" where
  "rd16 b i = (if i + 2 \<le> length b then Inr (of_le16 (drop i b)) else Inl (OOB_Read i))"

definition rd16be :: "bytes \<Rightarrow> nat \<Rightarrow> fault + u16" where
  "rd16be b i = (if i + 2 \<le> length b then Inr (of_be16 (drop i b)) else Inl (OOB_Read i))"

definition rd32 :: "bytes \<Rightarrow> nat \<Rightarrow> fault + u32" where
  "rd32 b i = (if i + 4 \<le> length b then Inr (of_le32 (drop i b)) else Inl (OOB_Read i))"

text \<open>\<open>put b i v\<close> stores the bytes \<open>v\<close> at offset \<open>i\<close>.\<close>

definition put :: "bytes \<Rightarrow> nat \<Rightarrow> bytes \<Rightarrow> fault + bytes" where
  "put b i v = (if i + length v \<le> length b
                then Inr (take i b @ v @ drop (i + length v) b) else Inl (OOB_Write i))"

text \<open>One C assignment through a casted pointer: \<open>*(uN *)(p + off) = value\<close>.\<close>

datatype store = W8 nat u8 | W16 nat u16 | W32 nat u32

fun st_off :: "store \<Rightarrow> nat" where
  "st_off (W8 i v) = i"
| "st_off (W16 i v) = i"
| "st_off (W32 i v) = i"

fun st_bytes :: "store \<Rightarrow> bytes" where
  "st_bytes (W8 i v) = [v]"
| "st_bytes (W16 i v) = le16 v"
| "st_bytes (W32 i v) = le32 v"

fun do_stores :: "bytes \<Rightarrow> store list \<Rightarrow> fault + bytes" where
  "do_stores b [] = Inr b"
| "do_stores b (s # ss) = bnd (put b (st_off s) (st_bytes s)) (\<lambda>b'. do_stores b' ss)"

fun contiguous :: "nat \<Rightarrow> store list \<Rightarrow> bool" where
  "contiguous k [] = True"
| "contiguous k (s # ss) = (st_off s = k \<and> contiguous (k + length (st_bytes s)) ss)"

definition stores_bytes :: "store list \<Rightarrow> bytes" where
  "stores_bytes ss = concat (map st_bytes ss)"

lemma stores_bytes_simps [simp]:
  "stores_bytes [] = []"
  "stores_bytes (s # ss) = st_bytes s @ stores_bytes ss"
  by (simp_all add: stores_bytes_def)

text \<open>A run of adjacent stores writes one block and leaves the rest of the buffer alone.\<close>

lemma do_stores_contiguous:
  assumes "contiguous k ss" and "k + length (stores_bytes ss) \<le> length b"
  shows "do_stores b ss
           = Inr (take k b @ stores_bytes ss @ drop (k + length (stores_bytes ss)) b)"
  using assms
proof (induction ss arbitrary: k b)
  case Nil
  then show ?case by simp
next
  case (Cons s ss)
  let ?v = "st_bytes s"
  let ?b = "take k b @ ?v @ drop (k + length ?v) b"
  from Cons.prems have p: "put b (st_off s) ?v = Inr ?b" by (simp add: put_def)
  have "do_stores ?b ss
          = Inr (take (k + length ?v) ?b @ stores_bytes ss
                 @ drop (k + length ?v + length (stores_bytes ss)) ?b)"
    using Cons.prems by (intro Cons.IH) (simp_all add: min_absorb2)
  moreover have "take (k + length ?v) ?b = take k b @ ?v"
    using Cons.prems by (simp add: min_absorb2)
  moreover have "drop (k + length ?v + length (stores_bytes ss)) ?b
      = drop (k + length ?v + length (stores_bytes ss)) b"
    using Cons.prems by (simp add: min_absorb2 add.commute add.left_commute)
  ultimately show ?case
    using p by (simp add: add.assoc)
qed

lemma do_stores_append:
  "do_stores b (ss @ ts) = bnd (do_stores b ss) (\<lambda>b'. do_stores b' ts)"
  by (induction ss arbitrary: b) (simp_all add: bnd_assoc)

lemma rd8_append_mid: "rd8 (pre @ v # post) (length pre) = Inr v"
  by (simp add: rd8_def)

lemma rd16_append_mid: "rd16 (pre @ le16 v @ post) (length pre) = Inr v"
  by (simp add: rd16_def le16.len_enc le16.dec_enc_append)

text \<open>
  The byte-by-byte copy loop that replaces memcpy: \<open>for (i = 0; i < n; i++) dst[i] = src[s + i]\<close>.
\<close>

function copy_loop :: "bytes \<Rightarrow> nat \<Rightarrow> bytes \<Rightarrow> nat \<Rightarrow> nat \<Rightarrow> fault + bytes" where
  "copy_loop src s dst i n =
     (if i < n
      then bnd (rd8 src (s + i)) (\<lambda>v.
           if i < length dst then copy_loop src s (dst[i := v]) (Suc i) n
           else Inl (OOB_Write i))
      else Inr dst)"
  by pat_completeness auto
termination
  by (relation "measure (\<lambda>(src, s, dst, i, n). n - i)") auto

declare copy_loop.simps [simp del]

lemma copy_loop_spec:
  assumes "s + n \<le> length src" and "n \<le> length dst" and "i \<le> n"
  shows "copy_loop src s dst i n
           = Inr (take i dst @ take (n - i) (drop (s + i) src) @ drop n dst)"
  using assms
proof (induction src s dst i n rule: copy_loop.induct)
  case (1 src s dst i n)
  show ?case
  proof (cases "i < n")
    case True
    with "1.prems" have "s + i < length src" and "i < length dst" by auto
    with True "1.prems" have IH:
      "copy_loop src s (dst[i := src ! (s + i)]) (Suc i) n
         = Inr (take (Suc i) (dst[i := src ! (s + i)])
                @ take (n - Suc i) (drop (s + Suc i) src) @ drop n (dst[i := src ! (s + i)]))"
      by (intro "1.IH") (simp_all add: rd8_def)
    have "take (n - i) (drop (s + i) src)
            = src ! (s + i) # take (n - Suc i) (drop (s + Suc i) src)"
      using True \<open>s + i < length src\<close>
      by (simp add: Cons_nth_drop_Suc [symmetric] take_Cons' )
    moreover have "take (Suc i) (dst[i := src ! (s + i)]) = take i dst @ [src ! (s + i)]"
      using \<open>i < length dst\<close> by (simp add: take_Suc_conv_app_nth)
    ultimately show ?thesis
      using True \<open>s + i < length src\<close> \<open>i < length dst\<close> IH
      by (subst copy_loop.simps) (simp add: rd8_def)
  next
    case False
    with "1.prems" show ?thesis by (subst copy_loop.simps) simp
  qed
qed

lemma copy_loop_oob:
  assumes "length src < s + n" and "n \<le> length dst" and "i \<le> n" and "s + i \<le> length src"
  shows "copy_loop src s dst i n = Inl (OOB_Read (length src))"
  using assms
proof (induction src s dst i n rule: copy_loop.induct)
  case (1 src s dst i n)
  show ?case
  proof (cases "s + i < length src")
    case True
    with "1.prems" have "i < n" and "i < length dst" by auto
    with True "1.prems" have "copy_loop src s (dst[i := src ! (s + i)]) (Suc i) n
         = Inl (OOB_Read (length src))"
      by (intro "1.IH") (simp_all add: rd8_def)
    with True \<open>i < n\<close> \<open>i < length dst\<close> show ?thesis
      by (subst copy_loop.simps) (simp add: rd8_def)
  next
    case False
    with "1.prems" have "i < n" and "s + i = length src" by auto
    then show ?thesis by (subst copy_loop.simps) (simp add: rd8_def)
  qed
qed

lemma copy_loop_not_Diverges: "copy_loop src s dst i n \<noteq> Inl Diverges"
proof (induction src s dst i n rule: copy_loop.induct)
  case (1 src s dst i n)
  then show ?case
    by (subst copy_loop.simps) (auto simp: rd8_def)
qed

lemma copy_loop_woob:
  assumes "s + n \<le> length src" and "length dst < n" and "i \<le> length dst"
  shows "copy_loop src s dst i n = Inl (OOB_Write (length dst))"
  using assms
proof (induction src s dst i n rule: copy_loop.induct)
  case (1 src s dst i n)
  show ?case
  proof (cases "i < length dst")
    case True
    with "1.prems" have "copy_loop src s (dst[i := src ! (s + i)]) (Suc i) n
         = Inl (OOB_Write (length dst))"
      by (intro trans [OF "1.IH"]) (simp_all add: rd8_def)
    with True "1.prems" show ?thesis
      by (subst copy_loop.simps) (simp add: rd8_def)
  next
    case False
    with "1.prems" have "i < n" and "i = length dst" by auto
    with "1.prems" show ?thesis by (subst copy_loop.simps) (simp add: rd8_def)
  qed
qed

text \<open>\<open>memcpy\<close> from offset \<open>off\<close>: the block of \<open>n\<close> bytes, or the first byte outside.\<close>

definition rd_block :: "bytes \<Rightarrow> nat \<Rightarrow> nat \<Rightarrow> fault + bytes" where
  "rd_block b off n = (if off + n \<le> length b then Inr (take n (drop off b))
                       else Inl (OOB_Read (max off (length b))))"

section \<open>Buffers that are sequences of frames\<close>

text \<open>
  The interface shared by the TLV walk of QMI and the QMAP walk of the receive path: frames are
  encoded one after the other, and the header at a frame's offset tells the distance to the
  next one.
\<close>

locale frame_walk =
  fixes enc :: "'f \<Rightarrow> bytes"
    and valid :: "'f \<Rightarrow> bool"
    and size_at :: "bytes \<Rightarrow> nat \<Rightarrow> nat"
  assumes size_at_enc: "valid f \<Longrightarrow> size_at (pre @ enc f @ post) (length pre) = length (enc f)"
    and enc_pos: "valid f \<Longrightarrow> 0 < length (enc f)"
begin

abbreviation "encs fs \<equiv> concat (map enc fs)"

lemma encs_append: "encs (fs @ gs) = encs fs @ encs gs"
  by simp

text \<open>From the offset of one frame the walk reaches the offset of the next.\<close>

lemma next_offset:
  assumes "valid f" and "b = pre @ encs (fs @ f # gs) @ post"
    and "off = length pre + length (encs fs)"
  shows "off + size_at b off = length pre + length (encs (fs @ [f]))"
proof -
  have "b = (pre @ encs fs) @ enc f @ (encs gs @ post)" using assms(2) by simp
  then have "size_at b off = length (enc f)"
    using size_at_enc [OF assms(1), of "pre @ encs fs" "encs gs @ post"] assms(3) by simp
  then show ?thesis using assms(3) by simp
qed

lemma encs_mono: "length (encs fs) \<le> length (encs (fs @ gs))"
  by simp

lemma encs_pos: "\<forall>f \<in> set fs. valid f \<Longrightarrow> fs \<noteq> [] \<Longrightarrow> 0 < length (encs fs)"
  by (cases fs) (auto dest: enc_pos)

lemma length_le_encs: "\<forall>f \<in> set fs. valid f \<Longrightarrow> length fs \<le> length (encs fs)"
proof (induction fs)
  case (Cons f fs)
  then have "0 < length (enc f)" using enc_pos [of f] by simp
  with Cons show ?case by (simp del: length_greater_0_conv)
qed simp

end

end
