(* ===== verification/QmiTlv.thy ===== *)
theory QmiTlv
  imports Prelude
begin

text \<open>
  The QMUX header and the TLV area of a QMI message: \<open>QMUXHeaderSize\<close>, \<open>ParseQMUX\<close>,
  \<open>FillQMUX\<close>, \<open>GetTLV\<close>, \<open>ValidQMIMessage\<close> and \<open>GetQMIMessageID\<close> of
  \<^verbatim>\<open>src/src/linux/qcom_usbnet/qmi.c\<close>, the abstract message format they work on
  (\<open>qmi_msg\<close>, a message id and a list of TLVs), and what they do on messages of that format
  and outside it.
\<close>

unbundle bit_operations_syntax

section \<open>The QMUX header\<close>

text \<open>\<open>sizeof( sQMUX )\<close>: a packed struct of five fields, six bytes.\<close>

record sQMUX =
  mTF :: u8
  mLength :: u16
  mCtrlFlag :: u8
  mQMIService :: u8
  mQMIClientID :: u8

definition sizeof_sQMUX :: nat where
  "sizeof_sQMUX = 1 + 2 + 1 + 1 + 1"

lemma sizeof_sQMUX_6 [simp]: "sizeof_sQMUX = 6"
  by (simp add: sizeof_sQMUX_def)

definition QMUXHeaderSize :: u16 where
  "QMUXHeaderSize = word_of_nat sizeof_sQMUX"

definition ParseQMUX :: "u16 \<Rightarrow> ptr \<Rightarrow> u16 \<Rightarrow> fault + (int \<times> u16)" where
  "ParseQMUX pClientID pBuffer buffSize =
     (case pBuffer of
        None \<Rightarrow> Inr (- ENOMEM, pClientID)
      | Some b \<Rightarrow>
          if buffSize < 12 then Inr (- ENOMEM, pClientID)
          else
            bnd (rd8 b 0) (\<lambda>tf.
            if tf \<noteq> 1 then Inr (- EINVAL, pClientID) else
            bnd (rd16 b 1) (\<lambda>len.
            if int (unat len) \<noteq> int (unat buffSize) - 1 then Inr (- EINVAL, pClientID) else
            bnd (rd8 b 3) (\<lambda>flag.
            if flag \<noteq> 0x80 then Inr (- EINVAL, pClientID) else
            bnd (rd8 b 5) (\<lambda>client.
            bnd (rd8 b 4) (\<lambda>service.
            Inr (int sizeof_sQMUX, push_bit 8 (ucast client) + ucast service)))))))"

definition FillQMUX :: "u16 \<Rightarrow> ptr \<Rightarrow> u16 \<Rightarrow> fault + (int \<times> ptr)" where
  "FillQMUX clientID pBuffer buffSize =
     (case pBuffer of
        None \<Rightarrow> Inr (- ENOMEM, None)
      | Some b \<Rightarrow>
          if unat buffSize < sizeof_sQMUX then Inr (- ENOMEM, Some b)
          else bnd (do_stores b
                 [W8 0 1,
                  W16 1 (buffSize - 1),
                  W8 3 0,
                  W8 4 (ucast (clientID AND 0xff)),
                  W8 5 (ucast (drop_bit 8 clientID))])
               (\<lambda>b'. Inr (0, Some b')))"

text \<open>The header as the bytes that travel.\<close>

definition qmux_bytes :: "u16 \<Rightarrow> u8 \<Rightarrow> u16 \<Rightarrow> bytes" where
  "qmux_bytes len flag clientID = [1] @ le16 len @ [flag] @ le16 clientID"

lemma length_qmux_bytes [simp]: "length (qmux_bytes len flag cid) = 6"
  by (simp add: qmux_bytes_def le16.len_enc)

lemma clientID_bytes:
  "[ucast (c AND 0xff), ucast (drop_bit 8 c)] = le16 (c :: u16)"
proof -
  have 1: "unat (ucast (c AND 0xff) :: u8) = unat c mod 256"
  proof -
    have "(0xff :: u16) = mask 8" by (simp add: mask_eq_exp_minus_1)
    then have "c AND 0xff = take_bit 8 c" by (simp only: take_bit_eq_mask)
    then show ?thesis
      by (simp only: unsigned_ucast_eq unsigned_take_bit_eq) (simp add: take_bit_eq_mod)
  qed
  have 2: "unat (ucast (drop_bit 8 c) :: u8) = unat c div 256 mod 256"
    by (simp only: unsigned_ucast_eq unsigned_drop_bit_eq)
      (simp add: take_bit_eq_mod drop_bit_eq_div)
  show ?thesis
    by (simp add: le16_def word_unat_eq_iff 1 2 unat_of_nat_widths del: of_nat_unat)
qed

lemma clientID_of_bytes:
  "push_bit 8 (ucast (b1 :: u8)) + ucast (b0 :: u8) = (of_le16 [b0, b1] :: u16)"
proof -
  have m: "unat b0 mod 65536 = unat b0" "unat b1 mod 65536 = unat b1"
    "unat b1 * 256 mod 65536 = unat b1 * 256"
    "(unat b1 * 256 + unat b0) mod 65536 = unat b1 * 256 + unat b0"
    using unat_u8_lt [of b1] unat_u8_lt [of b0] by (intro mod_less, linarith)+
  have "unat (push_bit 8 (ucast b1 :: u16)) = unat b1 mod 65536 * 256 mod 65536"
    unfolding unsigned_push_bit_eq
    by (simp add: push_bit_eq_mult take_bit_eq_mod unsigned_ucast_eq)
  moreover have "unat (ucast b0 :: u16) = unat b0 mod 65536"
    by (simp add: unsigned_ucast_eq take_bit_eq_mod)
  ultimately have "unat (push_bit 8 (ucast b1) + ucast b0 :: u16) = unat b1 * 256 + unat b0"
    by (simp only: unat_u16_add m)
  then show ?thesis by (simp add: word_unat_eq_iff unat_of_le16)
qed

lemma FillQMUX_writes:
  assumes "6 \<le> unat buffSize" and "6 \<le> length b"
  shows "FillQMUX cid (Some b) buffSize
           = Inr (0, Some (qmux_bytes (buffSize - 1) 0 cid @ drop 6 b))"
proof -
  let ?ss = "[W8 0 1, W16 1 (buffSize - 1), W8 3 0, W8 4 (ucast (cid AND 0xff)),
              W8 5 (ucast (drop_bit 8 cid))]"
  have b: "stores_bytes ?ss = qmux_bytes (buffSize - 1) 0 cid"
    by (simp add: qmux_bytes_def flip: clientID_bytes)
  have "do_stores b ?ss
          = Inr (take 0 b @ stores_bytes ?ss @ drop (0 + length (stores_bytes ?ss)) b)"
    using assms(2) unfolding b
    by (subst do_stores_contiguous [of 0]) (simp_all add: le16.len_enc b [simplified])
  then show ?thesis
    using assms(1) unfolding FillQMUX_def b by simp
qed

lemma ParseQMUX_reads:
  assumes "12 \<le> unat buffSize"
  shows "ParseQMUX c0 (Some (qmux_bytes len flag cid @ rest)) buffSize
           = (if unat len + 1 = unat buffSize \<and> flag = 0x80 then Inr (6, cid)
              else Inr (- EINVAL, c0))"
proof -
  let ?b = "qmux_bytes len flag cid @ rest"
  have b: "?b = 1 # le16 len @ flag # le16 cid @ rest" by (simp add: qmux_bytes_def)
  have l: "\<exists>x y. le16 w = [x, y]" for w by (simp add: le16_def)
  obtain x y where xy: "le16 len = [x, y]" using l by blast
  obtain s c where sc: "le16 cid = [s, c]" using l by blast
  have "of_le16 (x # y # flag # s # c # rest) = len"
    using le16.dec_enc_append [of len "flag # s # c # rest"] by (simp add: xy)
  then have r: "rd8 ?b 0 = Inr 1" "rd16 ?b 1 = Inr len" "rd8 ?b 3 = Inr flag"
    "rd8 ?b 4 = Inr s" "rd8 ?b 5 = Inr c"
    unfolding b xy sc by (simp_all add: rd8_def rd16_def)
  note r = r r [simplified]
  have "push_bit 8 (ucast c) + ucast s = cid"
    using le16.dec_enc [of cid] by (simp add: clientID_of_bytes sc)
  moreover have "\<not> buffSize < 12"
    using assms by (simp add: word_less_nat_alt)
  moreover have "int (unat len) = int (unat buffSize) - 1 \<longleftrightarrow> unat len + 1 = unat buffSize"
    using assms by linarith
  ultimately show ?thesis
    using r by (cases "flag = 0x80") (simp_all add: ParseQMUX_def)
qed

section \<open>The TLV area\<close>

text \<open>
  The loop of \<open>GetTLV\<close>: \<open>pos\<close> is a \<open>u16\<close>, so \<open>pos += tlvSize + 3\<close> wraps. The loop can
  run for ever; not returning is \<open>None\<close> of \<open>GetTLV_loop\<close> and the fault \<open>Diverges\<close>
  of \<open>GetTLV\<close>. The guard is computed in \<open>int\<close> (no wrap).
\<close>

partial_function (option) GetTLV_loop ::
  "bytes \<Rightarrow> u16 \<Rightarrow> u8 \<Rightarrow> bytes \<Rightarrow> u16 \<Rightarrow> u16 \<Rightarrow> (fault + (int \<times> ptr)) option" where
  "GetTLV_loop msg messageLen type out bufferLen pos =
     (if unat pos + 3 < unat messageLen
      then (case rd16 msg (unat pos + 1) of
              Inl e \<Rightarrow> Some (Inl e)
            | Inr tlvSize \<Rightarrow>
                (case rd8 msg (unat pos) of
                   Inl e \<Rightarrow> Some (Inl e)
                 | Inr t \<Rightarrow>
                     if t = type
                     then (if bufferLen < tlvSize
                           then Some (Inr (- ENOMEM, Some out))
                           else Some (bnd (copy_loop msg (unat pos + 3) out 0 (unat tlvSize))
                                  (\<lambda>out'. Inr (int (unat tlvSize), Some out'))))
                     else GetTLV_loop msg messageLen type out bufferLen (pos + (tlvSize + 3))))
      else Some (Inr (- ENOMSG, Some out)))"

definition GetTLV :: "ptr \<Rightarrow> u16 \<Rightarrow> u8 \<Rightarrow> ptr \<Rightarrow> u16 \<Rightarrow> fault + (int \<times> ptr)" where
  "GetTLV pQMIMessage messageLen type pOutDataBuf bufferLen =
     (case (pQMIMessage, pOutDataBuf) of
        (Some msg, Some out) \<Rightarrow>
          (case GetTLV_loop msg messageLen type out bufferLen 4 of
             None \<Rightarrow> Inl Diverges
           | Some r \<Rightarrow> r)
      | _ \<Rightarrow> Inr (- ENOMEM, pOutDataBuf))"

definition ValidQMIMessage :: "ptr \<Rightarrow> u16 \<Rightarrow> fault + int" where
  "ValidQMIMessage pQMIMessage messageLen =
     bnd (GetTLV pQMIMessage messageLen 2 (Some [0, 0, 0, 0]) 4) (\<lambda>(n, mandTLV).
     (case mandTLV of
        None \<Rightarrow> Inl Null_Deref
      | Some m \<Rightarrow>
          if n = 4
          then bnd (rd16 m 0) (\<lambda>code.
               if code \<noteq> 0 then bnd (rd16 m 2) (\<lambda>err. Inr (int (unat err)))
               else Inr 0)
          else Inr (- ENOMSG)))"

definition GetQMIMessageID :: "ptr \<Rightarrow> u16 \<Rightarrow> fault + int" where
  "GetQMIMessageID pQMIMessage messageLen =
     (if messageLen < 2 then Inr (- ENODATA)
      else (case pQMIMessage of
              None \<Rightarrow> Inl Null_Deref
            | Some b \<Rightarrow> bnd (rd16 b 0) (\<lambda>w. Inr (int (unat w)))))"

section \<open>The message format\<close>

type_synonym tlv = "u8 \<times> bytes"

fun enc_tlv :: "tlv \<Rightarrow> bytes" where
  "enc_tlv (t, v) = t # le16 (word_of_nat (length v)) @ v"

fun tlv_valid :: "tlv \<Rightarrow> bool" where
  "tlv_valid (t, v) = (length v < 65536)"

abbreviation enc_tlvs :: "tlv list \<Rightarrow> bytes" where
  "enc_tlvs tlvs \<equiv> concat (map enc_tlv tlvs)"

definition tlv_size_at :: "bytes \<Rightarrow> nat \<Rightarrow> nat" where
  "tlv_size_at b off = 3 + unat (of_le16 (drop (off + 1) b))"

text \<open>A message without its SDU header: id, length of the TLV area, TLVs.\<close>

definition qmi_msg :: "u16 \<Rightarrow> tlv list \<Rightarrow> bytes" where
  "qmi_msg msgid tlvs
     = le16 msgid @ le16 (word_of_nat (length (enc_tlvs tlvs))) @ enc_tlvs tlvs"

text \<open>
  What \<open>GetTLV\<close> looks up: the first TLV of the type, except that the guard
  \<open>pos + 3 < messageLen\<close> makes an empty TLV at the very end invisible.
\<close>

fun tlv_lookup :: "u8 \<Rightarrow> tlv list \<Rightarrow> bytes option" where
  "tlv_lookup t [] = None"
| "tlv_lookup t ((u, v) # r) =
     (if r = [] \<and> v = [] then None else if u = t then Some v else tlv_lookup t r)"

lemma tlv_lookup_map_of: "(\<forall>(u, v) \<in> set tlvs. v \<noteq> []) \<Longrightarrow> tlv_lookup t tlvs = map_of tlvs t"
  by (induction tlvs) (auto split: if_splits)

lemma length_enc_tlv: "length (enc_tlv (t, v)) = 3 + length v"
  by (simp add: le16.len_enc)

lemma length_qmi_msg: "length (qmi_msg i tlvs) = 4 + length (enc_tlvs tlvs)"
  by (simp add: qmi_msg_def le16.len_enc)

interpretation tlv: frame_walk enc_tlv tlv_valid tlv_size_at
proof
  fix f :: tlv and pre post :: bytes
  assume "tlv_valid f"
  moreover obtain t v where f: "f = (t, v)" by (cases f)
  moreover have "drop (length pre + 1) (pre @ enc_tlv (t, v) @ post)
      = le16 (word_of_nat (length v)) @ v @ post"
    by simp
  ultimately show "tlv_size_at (pre @ enc_tlv f @ post) (length pre) = length (enc_tlv f)"
    by (simp add: tlv_size_at_def le16.dec_enc_append le16.len_enc unat_of_nat_widths
        del: drop_append)
next
  fix f :: tlv
  show "0 < length (enc_tlv f)" by (cases f) simp
qed

section \<open>What the loop does at one TLV\<close>

lemma GetTLV_loop_end:
  "\<not> unat pos + 3 < unat messageLen \<Longrightarrow>
   GetTLV_loop msg messageLen t out bl pos = Some (Inr (- ENOMSG, Some out))"
  by (subst GetTLV_loop.simps) simp

lemma tlv_reads:
  assumes "unat pos = length pre" and "length v < 65536"
  shows "rd16 (pre @ enc_tlv (u, v) @ post) (unat pos + 1) = Inr (word_of_nat (length v))"
    and "rd16 (pre @ enc_tlv (u, v) @ post) (Suc (unat pos)) = Inr (word_of_nat (length v))"
    and "rd8 (pre @ enc_tlv (u, v) @ post) (unat pos) = Inr u"
  using assms
  by (simp_all add: rd16_def rd8_def le16.len_enc le16.dec_enc_append)

lemma GetTLV_loop_hit:
  assumes pos: "unat pos = length pre" and v: "length v < 65536"
    and inside: "unat pos + 3 < unat messageLen"
  shows "GetTLV_loop (pre @ enc_tlv (t, v) @ post) messageLen t out bl pos
     = Some (if unat bl < length v then Inr (- ENOMEM, Some out)
             else if length v \<le> length out
             then Inr (int (length v), Some (v @ drop (length v) out))
             else bnd (copy_loop (pre @ enc_tlv (t, v) @ post) (unat pos + 3) out 0 (length v))
                    (\<lambda>out'. Inr (int (length v), Some out')))"
proof -
  let ?b = "pre @ enc_tlv (t, v) @ post"
  have "drop (length pre + 3) ?b = v @ post"
    using le16.len_enc [of "word_of_nat (length v)"] by (simp add: numeral_3_eq_3)
  then have "length v \<le> length out \<Longrightarrow>
      copy_loop ?b (length pre + 3) out 0 (length v) = Inr (v @ drop (length v) out)"
    by (subst copy_loop_spec) (simp_all add: le16.len_enc)
  then show ?thesis
    using inside v
    by (subst GetTLV_loop.simps)
      (simp add: tlv_reads [OF pos v] tlv_reads [OF pos v, unfolded pos] pos word_less_nat_alt
        unat_of_nat_widths del: enc_tlv.simps)
qed

lemma GetTLV_loop_skip:
  assumes pos: "unat pos = length pre" and v: "length v < 65536"
    and inside: "unat pos + 3 < unat messageLen" and "u \<noteq> t"
  shows "GetTLV_loop (pre @ enc_tlv (u, v) @ post) messageLen t out bl pos
     = GetTLV_loop (pre @ enc_tlv (u, v) @ post) messageLen t out bl
         (pos + (word_of_nat (length v) + 3))"
  using assms(3,4)
  by (subst GetTLV_loop.simps) (simp add: tlv_reads [OF pos v] del: enc_tlv.simps)

text \<open>The loop on a whole TLV area, from any prefix.\<close>

lemma GetTLV_loop_spec:
  assumes "unat pos = length pre" and "\<forall>f \<in> set tlvs. tlv_valid f"
    and "length pre + length (enc_tlvs tlvs) = unat messageLen"
  shows "GetTLV_loop (pre @ enc_tlvs tlvs @ post) messageLen t out bl pos
     = Some (case tlv_lookup t tlvs of
               None \<Rightarrow> Inr (- ENOMSG, Some out)
             | Some v \<Rightarrow>
                 if unat bl < length v then Inr (- ENOMEM, Some out)
                 else if length v \<le> length out
                 then Inr (int (length v), Some (v @ drop (length v) out))
                 else Inl (OOB_Write (length out)))"
  using assms
proof (induction tlvs arbitrary: pre pos)
  case Nil
  then show ?case by (simp add: GetTLV_loop_end)
next
  case (Cons f r)
  obtain u v where f: "f = (u, v)" by (cases f)
  let ?b = "pre @ enc_tlvs (f # r) @ post"
  have b: "?b = pre @ enc_tlv (u, v) @ (enc_tlvs r @ post)" by (simp add: f)
  from Cons.prems(2) have v: "length v < 65536" by (simp add: f)
  have len: "length pre + 3 + length v + length (enc_tlvs r) = unat messageLen"
    using Cons.prems(3) by (simp add: f le16.len_enc)
  have rv: "(r = [] \<and> v = []) \<longleftrightarrow> \<not> unat pos + 3 < unat messageLen"
  proof -
    have "length r \<le> length (enc_tlvs r)"
      using Cons.prems(2) by (intro tlv.length_le_encs) simp
    then have "r = [] \<and> v = [] \<longleftrightarrow> length v + length (enc_tlvs r) = 0"
      by (cases r) auto
    then show ?thesis using len Cons.prems(1) by linarith
  qed
  show ?case
  proof (cases "r = [] \<and> v = []")
    case True
    then show ?thesis using rv by (simp add: f GetTLV_loop_end)
  next
    case False
    with rv have inside: "unat pos + 3 < unat messageLen" by simp
    show ?thesis
    proof (cases "u = t")
      case True
      have "length out < length v \<Longrightarrow>
         copy_loop ?b (unat pos + 3) out 0 (length v) = Inl (OOB_Write (length out))"
        by (rule copy_loop_woob)
          (use Cons.prems(1) in \<open>simp_all add: f le16.len_enc\<close>)
      then show ?thesis
        using False True GetTLV_loop_hit [OF Cons.prems(1) v inside, of t "enc_tlvs r @ post" out bl]
        unfolding b f by (auto simp del: enc_tlv.simps)
    next
      case other: False
      let ?pos' = "pos + (word_of_nat (length v) + 3)"
      have lt: "length v + 3 < 65536" "length pre + (length v + 3) < 65536"
        using len unat_u16_lt [of messageLen] by linarith+
      have pos': "unat ?pos' = length (pre @ enc_tlv (u, v))"
        using lt Cons.prems(1)
        by (simp add: unat_u16_add unat_of_nat_widths le16.len_enc)
      have "GetTLV_loop ((pre @ enc_tlv (u, v)) @ enc_tlvs r @ post) messageLen t out bl ?pos'
        = Some (case tlv_lookup t r of
               None \<Rightarrow> Inr (- ENOMSG, Some out)
             | Some v \<Rightarrow>
                 if unat bl < length v then Inr (- ENOMEM, Some out)
                 else if length v \<le> length out
                 then Inr (int (length v), Some (v @ drop (length v) out))
                 else Inl (OOB_Write (length out)))"
        using Cons.prems(2) len by (intro Cons.IH [OF pos']) (simp_all add: le16.len_enc)
      then show ?thesis
        using False other GetTLV_loop_skip [OF Cons.prems(1) v inside other, of "enc_tlvs r @ post" out bl]
        unfolding b f by (simp del: enc_tlv.simps)
    qed
  qed
qed

section \<open>GetTLV on messages of the format\<close>

text \<open>What the caller of \<open>GetTLV\<close> sees, as a function of the message alone.\<close>

definition tlv_result :: "u8 \<Rightarrow> tlv list \<Rightarrow> bytes \<Rightarrow> u16 \<Rightarrow> fault + (int \<times> ptr)" where
  "tlv_result t tlvs out bl =
     (case tlv_lookup t tlvs of
        None \<Rightarrow> Inr (- ENOMSG, Some out)
      | Some v \<Rightarrow>
          if unat bl < length v then Inr (- ENOMEM, Some out)
          else if length v \<le> length out
          then Inr (int (length v), Some (v @ drop (length v) out))
          else Inl (OOB_Write (length out)))"

lemma GetTLV_result:
  assumes "\<forall>f \<in> set tlvs. tlv_valid f"
    and "unat messageLen = length (qmi_msg i tlvs)"
  shows "GetTLV (Some (qmi_msg i tlvs @ post)) messageLen t (Some out) bl
           = tlv_result t tlvs out bl"
proof -
  let ?pre = "le16 i @ le16 (word_of_nat (length (enc_tlvs tlvs)))"
  have "unat (4 :: u16) = length ?pre" by (simp add: le16.len_enc)
  moreover have "length ?pre + length (enc_tlvs tlvs) = unat messageLen"
    using assms(2) by (simp add: length_qmi_msg le16.len_enc)
  ultimately have "GetTLV_loop (?pre @ enc_tlvs tlvs @ post) messageLen t out bl 4
      = Some (tlv_result t tlvs out bl)"
    using assms(1) unfolding tlv_result_def by (intro GetTLV_loop_spec)
  then show ?thesis
    by (simp add: GetTLV_def qmi_msg_def)
qed

lemma GetQMIMessageID_msg:
  assumes "unat messageLen = length (qmi_msg i tlvs)"
  shows "GetQMIMessageID (Some (qmi_msg i tlvs @ post)) messageLen = Inr (int (unat i))"
proof -
  have "\<not> messageLen < 2"
    using assms by (simp add: word_less_nat_alt length_qmi_msg)
  then show ?thesis
    by (simp add: GetQMIMessageID_def qmi_msg_def rd16_def le16.len_enc le16.dec_enc_append)
qed

text \<open>The mandatory result TLV: type 2, a 16-bit result code and a 16-bit error code.\<close>

definition result_tlv :: "u16 \<Rightarrow> u16 \<Rightarrow> tlv" where
  "result_tlv code err = (2, le16 code @ le16 err)"

definition valid_result :: "tlv list \<Rightarrow> int" where
  "valid_result tlvs =
     (case tlv_lookup 2 tlvs of
        None \<Rightarrow> - ENOMSG
      | Some v \<Rightarrow>
          if length v \<noteq> 4 then - ENOMSG
          else if of_le16 v \<noteq> 0 then int (unat (of_le16 (drop 2 v))) else 0)"

lemma ValidQMIMessage_result:
  assumes "\<forall>f \<in> set tlvs. tlv_valid f"
    and "unat messageLen = length (qmi_msg i tlvs)"
  shows "ValidQMIMessage (Some (qmi_msg i tlvs @ post)) messageLen = Inr (valid_result tlvs)"
  unfolding ValidQMIMessage_def GetTLV_result [OF assms] tlv_result_def valid_result_def
  by (auto simp: rd16_def split: option.splits)

lemma valid_result_ok:
  "tlv_lookup 2 tlvs = Some (le16 code @ le16 err) \<Longrightarrow>
   valid_result tlvs = (if code = 0 then 0 else int (unat err))"
  by (simp add: valid_result_def le16.len_enc le16.dec_enc_append le16.dec_enc)

lemma valid_result_cases: "valid_result tlvs = - ENOMSG \<or> 0 \<le> valid_result tlvs"
  by (auto simp: valid_result_def split: option.splits)

section \<open>GetTLV on other messages\<close>

lemma GetTLV_loop_stuck:
  assumes inside: "unat pos + 3 < unat messageLen"
    and size: "rd16 msg (unat pos + 1) = Inr 0xFFFD"
    and type: "rd8 msg (unat pos) = Inr u" "u \<noteq> t"
  shows "GetTLV_loop msg messageLen t out bl pos = None"
proof (rule ccontr)
  assume "\<not> ?thesis"
  then obtain r where ret: "GetTLV_loop msg messageLen t out bl pos = Some r" by auto
  let ?P = "\<lambda>m ml ty o' b p r. \<not> (m = msg \<and> ml = messageLen \<and> ty = t \<and> p = pos)"
  have "?P msg messageLen t out bl pos r"
  proof (rule GetTLV_loop.raw_induct [where P = ?P, OF _ ret])
    fix f m ml ty o' b p r
    assume IH: "\<And>m ml ty o' b p r. f m ml ty o' b p = Some r \<Longrightarrow>
        \<not> (m = msg \<and> ml = messageLen \<and> ty = t \<and> p = pos)"
      and eq: "(if unat p + 3 < unat ml
      then (case rd16 m (unat p + 1) of
              Inl e \<Rightarrow> Some (Inl e)
            | Inr tlvSize \<Rightarrow>
                (case rd8 m (unat p) of
                   Inl e \<Rightarrow> Some (Inl e)
                 | Inr t \<Rightarrow>
                     if t = ty
                     then (if b < tlvSize
                           then Some (Inr (- ENOMEM, Some o'))
                           else Some (bnd (copy_loop m (unat p + 3) o' 0 (unat tlvSize))
                                  (\<lambda>out'. Inr (int (unat tlvSize), Some out'))))
                     else f m ml ty o' b (p + (tlvSize + 3))))
      else Some (Inr (- ENOMSG, Some o'))) = Some r"
    show "\<not> (m = msg \<and> ml = messageLen \<and> ty = t \<and> p = pos)"
    proof
      assume a: "m = msg \<and> ml = messageLen \<and> ty = t \<and> p = pos"
      have wrap: "pos + (0xFFFD + 3) = pos" by (simp add: word_unat_eq_iff unat_u16_add)
      from eq a inside size type have "f msg messageLen t o' b (pos + (0xFFFD + 3)) = Some r"
        by (simp del: add_numeral_special Num.add_num_simps)
      then have "f msg messageLen t o' b pos = Some r" by (simp only: wrap)
      from IH [OF this] show False by simp
    qed
  qed
  then show False by simp
qed

lemma GetTLV_loop_returns:
  assumes nowrap: "\<forall>i s. i + 3 < unat messageLen \<longrightarrow> rd16 msg (i + 1) = Inr s \<longrightarrow>
                     i + 3 + unat s < 65536"
  shows "\<exists>r. GetTLV_loop msg messageLen t out bl pos = Some r \<and> r \<noteq> Inl Diverges"
proof (induction "65536 - unat pos" arbitrary: pos rule: less_induct)
  case less
  show ?case
  proof (cases "unat pos + 3 < unat messageLen")
    case False
    then show ?thesis by (simp add: GetTLV_loop_end)
  next
    case True
    show ?thesis
    proof (cases "rd16 msg (unat pos + 1)")
      case (Inl e)
      moreover from Inl have "e \<noteq> Diverges" by (auto simp: rd16_def split: if_splits)
      ultimately show ?thesis using True by (subst GetTLV_loop.simps) simp
    next
      case (Inr s)
      with nowrap True have lt: "unat pos + 3 + unat s < 65536" by blast
      then have "unat s + 3 < 65536" by simp
      then have "unat (s + 3) = unat s + 3" by (simp add: unat_u16_add)
      with lt have "unat (pos + (s + 3)) = unat pos + (unat s + 3)"
        by (subst unat_u16_add) simp
      then have "65536 - unat (pos + (s + 3)) < 65536 - unat pos" using lt by simp
      then obtain r where "GetTLV_loop msg messageLen t out bl (pos + (s + 3)) = Some r"
        and "r \<noteq> Inl Diverges"
        using less by blast
      with True Inr show ?thesis
        by (subst GetTLV_loop.simps)
          (auto simp: bnd_Inl_iff copy_loop_not_Diverges rd8_def split: sum.split if_splits)
    qed
  qed
qed

section \<open>Properties\<close>

text \<open>A header written by FillQMUX and turned around by the device (control flag set to
  0x80) is parsed by ParseQMUX into the same client id, and the parser returns the header size:
  the two routines agree on the layout of the QMUX header, for every client id and every frame
  of at least 12 bytes.\<close>

theorem qmux_roundtrip:
  assumes "12 \<le> length b" and "unat buffSize = length b"
  shows "\<exists>b'. FillQMUX cid (Some b) buffSize = Inr (0, Some b')
           \<and> length b' = length b
           \<and> ParseQMUX c0 (Some (b'[3 := 0x80])) buffSize = Inr (6, cid)"
proof -
  let ?b' = "qmux_bytes (buffSize - 1) 0 cid @ drop 6 b"
  have f: "FillQMUX cid (Some b) buffSize = Inr (0, Some ?b')"
    using assms by (intro FillQMUX_writes) simp_all
  have "1 \<le> buffSize" using assms by (simp add: word_le_nat_alt)
  then have "unat (buffSize - 1) + 1 = unat buffSize"
    using assms by (simp add: unat_sub)
  moreover have "?b'[3 := 0x80] = qmux_bytes (buffSize - 1) 0x80 cid @ drop 6 b"
    by (simp add: qmux_bytes_def le16_def numeral_3_eq_3)
  ultimately have "ParseQMUX c0 (Some (?b'[3 := 0x80])) buffSize = Inr (6, cid)"
    using assms by (simp only:) (subst ParseQMUX_reads, simp_all)
  with f assms(1) show ?thesis by auto
qed

theorem qmux_roundtrip_witness:
  "\<exists>b'. FillQMUX 0x0102 (Some (replicate 16 0)) 16 = Inr (0, Some b')
       \<and> length b' = length (replicate 16 (0 :: u8))
       \<and> ParseQMUX 0 (Some (b'[3 := 0x80])) 16 = Inr (6, 0x0102)"
  by (rule qmux_roundtrip) simp_all

text \<open>C17: On every message of the QMI format (an id, a length, a list of TLVs, followed by
  anything), for every type asked for and every output buffer, GetTLV returns, and returns what
  the abstract lookup says: the first TLV of that type copied to the front of the output buffer
  with its length, -ENOMEM when it does not fit the buffer length, -ENOMSG when there is none;
  so it terminates and stays inside the message on all well-formed input.\<close>

theorem GetTLV_refines_lookup:
  assumes "\<forall>f \<in> set tlvs. tlv_valid f"
    and "unat messageLen = length (qmi_msg i tlvs)"
    and "unat bl \<le> length out"
  shows "GetTLV (Some (qmi_msg i tlvs @ post)) messageLen t (Some out) bl
           = Inr (case tlv_lookup t tlvs of
                    None \<Rightarrow> (- ENOMSG, Some out)
                  | Some v \<Rightarrow>
                      if unat bl < length v then (- ENOMEM, Some out)
                      else (int (length v), Some (v @ drop (length v) out)))"
  using assms(3) unfolding GetTLV_result [OF assms(1,2)] tlv_result_def
  by (simp split: option.split)

theorem GetTLV_refines_lookup_witness:
  "GetTLV (Some (qmi_msg 0x22 [(1, [5, 6]), (2, [0, 0, 0, 0])] @ [7])) 16 2 (Some [9, 9, 9, 9]) 4
     = Inr (4, Some [0, 0, 0, 0])"
proof -
  have "GetTLV (Some (qmi_msg 0x22 [(1, [5, 6]), (2, [0, 0, 0, 0])] @ [7])) 16 2 (Some [9, 9, 9, 9]) 4
     = Inr (case tlv_lookup 2 [(1, [5, 6]), (2, [0, 0, 0, 0])] of
                    None \<Rightarrow> (- ENOMSG, Some [9, 9, 9, 9])
                  | Some v \<Rightarrow>
                      if unat (4 :: u16) < length v then (- ENOMEM, Some [9, 9, 9, 9])
                      else (int (length v), Some (v @ drop (length v) [9, 9, 9, 9])))"
    by (rule GetTLV_refines_lookup) (simp_all add: length_qmi_msg)
  then show ?thesis by simp
qed

text \<open>C30: GetTLV never returns on a message whose first TLV has another type than the one asked
  for and the length field 0xFFFD: the 16-bit position wraps round to itself, so the loop of the
  kernel thread that parses the message never ends, whatever the rest of the message is.\<close>

theorem GetTLV_can_loop_forever:
  assumes "u \<noteq> t" and "7 < unat messageLen"
  shows "GetTLV (Some (le16 i @ le16 l @ [u] @ le16 0xFFFD @ rest)) messageLen t (Some out) bl
           = Inl Diverges"
proof -
  let ?m = "le16 i @ le16 l @ [u] @ le16 0xFFFD @ rest"
  have m: "?m = (le16 i @ le16 l @ [u]) @ le16 0xFFFD @ rest"
    "?m = (le16 i @ le16 l) @ u # le16 0xFFFD @ rest" by simp_all
  have "rd16 ?m 5 = Inr 0xFFFD"
    unfolding m(1) using rd16_append_mid [of "le16 i @ le16 l @ [u]"] by (simp add: le16.len_enc)
  moreover have "rd8 ?m 4 = Inr u"
    unfolding m(2) using rd8_append_mid [of "le16 i @ le16 l"] by (simp add: le16.len_enc)
  ultimately have "GetTLV_loop ?m messageLen t out bl 4 = None"
    using assms by (intro GetTLV_loop_stuck [where u = u]) simp_all
  then show ?thesis by (simp add: GetTLV_def)
qed

theorem GetTLV_can_loop_forever_witness:
  "GetTLV (Some (le16 0x22 @ le16 8 @ [1] @ le16 0xFFFD @ [0, 0, 0, 0, 0])) 12 2
     (Some [0, 0, 0, 0]) 4 = Inl Diverges"
  by (rule GetTLV_can_loop_forever) simp_all

text \<open>GetTLV returns on every buffer, well-formed or not, in which no 16-bit value at a
  position inside the message carries the position past 65535: the wrap-around of the position
  is the only way the loop fails to end.\<close>

theorem GetTLV_terminates_without_wrap:
  assumes "\<forall>i s. i + 3 < unat messageLen \<longrightarrow> rd16 msg (i + 1) = Inr s \<longrightarrow>
             i + 3 + unat s < 65536"
  shows "GetTLV (Some msg) messageLen t (Some out) bl \<noteq> Inl Diverges"
proof -
  obtain r where "GetTLV_loop msg messageLen t out bl 4 = Some r" and "r \<noteq> Inl Diverges"
    using GetTLV_loop_returns [OF assms] by blast
  then show ?thesis by (simp add: GetTLV_def)
qed

theorem GetTLV_terminates_without_wrap_witness:
  "GetTLV (Some (replicate 12 0)) 12 2 (Some [0, 0, 0, 0]) 4 \<noteq> Inl Diverges"
proof (rule GetTLV_terminates_without_wrap, intro allI impI)
  fix i :: nat and s :: u16
  assume "i + 3 < unat (12 :: u16)" and "rd16 (replicate 12 0) (i + 1) = Inr s"
  then have "i < 9" and "s = of_le16 (replicate (11 - i) 0)"
    by (auto simp: rd16_def split: if_splits)
  then show "i + 3 + unat s < 65536" by (simp add: of_le16_def)
qed

text \<open>GetTLV trusts the length field of the TLV it was asked for: when the message ends
  inside that TLV and the caller's buffer is large enough, the copy loop reads past the end of
  the message (here: past the allocation that holds exactly the message).\<close>

theorem GetTLV_overreads_truncated_tlv:
  assumes "1 \<le> length v" and "length v < unat n" and "unat n \<le> unat bl" and "unat n \<le> length out"
    and "unat messageLen = length (le16 i @ le16 l @ [t] @ le16 n @ v)"
  shows "GetTLV (Some (le16 i @ le16 l @ [t] @ le16 n @ v)) messageLen t (Some out) bl
           = Inl (OOB_Read (length (le16 i @ le16 l @ [t] @ le16 n @ v)))"
proof -
  let ?m = "le16 i @ le16 l @ [t] @ le16 n @ v"
  have m: "?m = (le16 i @ le16 l @ [t]) @ le16 n @ v"
    "?m = (le16 i @ le16 l) @ t # le16 n @ v" by simp_all
  have "rd16 ?m 5 = Inr n"
    unfolding m(1) using rd16_append_mid [of "le16 i @ le16 l @ [t]"] by (simp add: le16.len_enc)
  moreover have "rd8 ?m 4 = Inr t"
    unfolding m(2) using rd8_append_mid [of "le16 i @ le16 l"] by (simp add: le16.len_enc)
  ultimately have r: "rd16 ?m 5 = Inr n" "rd8 ?m 4 = Inr t" by blast+
  have "copy_loop ?m 7 out 0 (unat n) = Inl (OOB_Read (length ?m))"
    using assms(2,4) by (intro copy_loop_oob) (simp_all add: le16.len_enc)
  then have "GetTLV_loop ?m messageLen t out bl 4 = Some (Inl (OOB_Read (length ?m)))"
    using assms r by (subst GetTLV_loop.simps) (auto simp: word_less_nat_alt le16.len_enc)
  then show ?thesis by (simp add: GetTLV_def)
qed

theorem GetTLV_overreads_truncated_tlv_witness:
  "GetTLV (Some (le16 0x25 @ le16 17 @ [0x12] @ le16 14 @ [0x30])) 8 0x12 (Some (replicate 14 0)) 14
     = Inl (OOB_Read 8)"
proof -
  have "GetTLV (Some (le16 0x25 @ le16 17 @ [0x12] @ le16 14 @ [0x30])) 8 0x12
      (Some (replicate 14 0)) 14
     = Inl (OOB_Read (length (le16 0x25 @ le16 17 @ [0x12 :: u8] @ le16 14 @ [0x30])))"
    by (rule GetTLV_overreads_truncated_tlv) simp_all
  then show ?thesis by simp
qed

text \<open>ValidQMIMessage returns 0 for a well-formed response exactly when its first TLV of
  type 2 is a four-byte result TLV with result code 0; with another result code it returns the
  error code, and -ENOMSG when the result TLV is missing or has another size.\<close>

theorem ValidQMIMessage_spec:
  assumes "\<forall>f \<in> set tlvs. tlv_valid f"
    and "unat messageLen = length (qmi_msg i tlvs)"
  shows "ValidQMIMessage (Some (qmi_msg i tlvs @ post)) messageLen
           = Inr (case tlv_lookup 2 tlvs of
                    None \<Rightarrow> - ENOMSG
                  | Some v \<Rightarrow> if length v = 4
                      then (if of_le16 v = 0 then 0 else int (unat (of_le16 (drop 2 v))))
                      else - ENOMSG)"
  unfolding ValidQMIMessage_result [OF assms] valid_result_def
  by (simp split: option.split)

theorem ValidQMIMessage_spec_witness:
  "ValidQMIMessage (Some (qmi_msg 0x22 [(2, [1, 0, 5, 0])] @ [])) 11 = Inr 5"
proof -
  have "ValidQMIMessage (Some (qmi_msg 0x22 [(2, [1, 0, 5, 0])] @ [])) 11
    = Inr (case tlv_lookup 2 [(2, [1, 0, 5, 0])] of
                    None \<Rightarrow> - ENOMSG
                  | Some v \<Rightarrow> if length v = 4
                      then (if of_le16 v = 0 then 0 else int (unat (of_le16 (drop 2 v))))
                      else - ENOMSG)"
    by (rule ValidQMIMessage_spec) (simp_all add: length_qmi_msg)
  then show ?thesis by (simp add: of_le16_def)
qed

end
