(* ===== verification/QmiResp.thy ===== *)
theory QmiResp
  imports QmiTlv
begin

text \<open>
  The response parsers of \<^verbatim>\<open>src/src/linux/qcom_usbnet/qmi.c\<close> that only read the message:
  client id allocation and release, event reports, serial numbers, data format, start and stop
  network. An output parameter is an argument (its value before the call) and a component of the
  result (its value after); the callers never pass NULL for one.
\<close>

section \<open>Typed reads through GetTLV\<close>

definition get_tlv_bytes :: "ptr \<Rightarrow> u16 \<Rightarrow> u8 \<Rightarrow> bytes \<Rightarrow> u16 \<Rightarrow> fault + (int \<times> bytes)" where
  "get_tlv_bytes msg len t old bl =
     bnd (GetTLV msg len t (Some old) bl) (\<lambda>(n, out).
       Inr (n, case out of None \<Rightarrow> old | Some v \<Rightarrow> v))"

definition get_tlv_u16 :: "ptr \<Rightarrow> u16 \<Rightarrow> u8 \<Rightarrow> u16 \<Rightarrow> fault + (int \<times> u16)" where
  "get_tlv_u16 msg len t old =
     bnd (get_tlv_bytes msg len t (le16 old) 2) (\<lambda>(n, v). Inr (n, of_le16 v))"

definition get_tlv_u32 :: "ptr \<Rightarrow> u16 \<Rightarrow> u8 \<Rightarrow> u32 \<Rightarrow> fault + (int \<times> u32)" where
  "get_tlv_u32 msg len t old =
     bnd (get_tlv_bytes msg len t (le32 old) 4) (\<lambda>(n, v). Inr (n, of_le32 v))"

definition get_tlv_u64 :: "ptr \<Rightarrow> u16 \<Rightarrow> u8 \<Rightarrow> u64 \<Rightarrow> fault + (int \<times> u64)" where
  "get_tlv_u64 msg len t old =
     bnd (get_tlv_bytes msg len t (le64 old) 8) (\<lambda>(n, v). Inr (n, of_le64 v))"

text \<open>\<open>pBuffer = pBuffer + offset; buffSize -= offset\<close>, on a \<open>u16\<close> size that can wrap.\<close>

definition skip :: "nat \<Rightarrow> ptr \<Rightarrow> ptr" where
  "skip n p = map_option (drop n) p"

section \<open>The parsers\<close>

definition QMICTLGetClientIDResp :: "ptr \<Rightarrow> u16 \<Rightarrow> u16 \<Rightarrow> fault + (int \<times> u16)" where
  "QMICTLGetClientIDResp pBuffer buffSize pClientID =
     (let offset = sizeof_sQMUX + 2 in
      if pBuffer = None \<or> unat buffSize < offset then Inr (- ENOMEM, pClientID)
      else
        let msg = skip offset pBuffer; len = buffSize - word_of_nat offset in
        bnd (GetQMIMessageID msg len) (\<lambda>result.
        if result \<noteq> 0x22 then Inr (- EFAULT, pClientID) else
        bnd (ValidQMIMessage msg len) (\<lambda>result.
        if result \<noteq> 0 then Inr (- EFAULT, pClientID) else
        bnd (get_tlv_u16 msg len 0x01 pClientID) (\<lambda>(result, pClientID').
        if result \<noteq> 2 then Inr (- EFAULT, pClientID')
        else Inr (0, pClientID')))))"

definition QMICTLReleaseClientIDResp :: "ptr \<Rightarrow> u16 \<Rightarrow> fault + int" where
  "QMICTLReleaseClientIDResp pBuffer buffSize =
     (let offset = sizeof_sQMUX + 2 in
      if pBuffer = None \<or> unat buffSize < offset then Inr (- ENOMEM)
      else
        let msg = skip offset pBuffer; len = buffSize - word_of_nat offset in
        bnd (GetQMIMessageID msg len) (\<lambda>result.
        if result \<noteq> 0x23 then Inr (- EFAULT) else
        bnd (ValidQMIMessage msg len) (\<lambda>result.
        if result \<noteq> 0 then Inr (- EFAULT) else Inr 0)))"

record wds_event =
  ev_TXOk :: u32
  ev_RXOk :: u32
  ev_TXErr :: u32
  ev_RXErr :: u32
  ev_TXOfl :: u32
  ev_RXOfl :: u32
  ev_TXBytesOk :: u64
  ev_RXBytesOk :: u64
  ev_bLinkState :: bool
  ev_bReconfigure :: bool

definition QMIWDSEventResp :: "ptr \<Rightarrow> u16 \<Rightarrow> wds_event \<Rightarrow> fault + (int \<times> wds_event)" where
  "QMIWDSEventResp pBuffer buffSize ev =
     (let offset = sizeof_sQMUX + 3 in
      if pBuffer = None \<or> unat buffSize < offset then Inr (- ENOMEM, ev)
      else
        let msg = skip offset pBuffer; len = buffSize - word_of_nat offset in
        bnd (GetQMIMessageID msg len) (\<lambda>result.
        if result = 0x01 then
          bnd (get_tlv_u32 msg len 0x10 (ev_TXOk ev)) (\<lambda>(_, v).
          let ev = ev\<lparr>ev_TXOk := v\<rparr> in
          bnd (get_tlv_u32 msg len 0x11 (ev_RXOk ev)) (\<lambda>(_, v).
          let ev = ev\<lparr>ev_RXOk := v\<rparr> in
          bnd (get_tlv_u32 msg len 0x12 (ev_TXErr ev)) (\<lambda>(_, v).
          let ev = ev\<lparr>ev_TXErr := v\<rparr> in
          bnd (get_tlv_u32 msg len 0x13 (ev_RXErr ev)) (\<lambda>(_, v).
          let ev = ev\<lparr>ev_RXErr := v\<rparr> in
          bnd (get_tlv_u32 msg len 0x14 (ev_TXOfl ev)) (\<lambda>(_, v).
          let ev = ev\<lparr>ev_TXOfl := v\<rparr> in
          bnd (get_tlv_u32 msg len 0x15 (ev_RXOfl ev)) (\<lambda>(_, v).
          let ev = ev\<lparr>ev_RXOfl := v\<rparr> in
          bnd (get_tlv_u64 msg len 0x19 (ev_TXBytesOk ev)) (\<lambda>(_, v).
          let ev = ev\<lparr>ev_TXBytesOk := v\<rparr> in
          bnd (get_tlv_u64 msg len 0x1A (ev_RXBytesOk ev)) (\<lambda>(_, v).
          Inr (0, ev\<lparr>ev_RXBytesOk := v\<rparr>)))))))))
        else if result = 0x22 \<or> result = 0x20 then
          bnd (get_tlv_bytes msg len 0x01 [0, 0] 2) (\<lambda>(result, pktStatusRead).
          let ev1 = (if result \<ge> 1 then ev\<lparr>ev_bLinkState := (pktStatusRead ! 0 = 0x02)\<rparr> else ev);
              ev2 = (if result = 2 then ev1\<lparr>ev_bReconfigure := (pktStatusRead ! 1 = 0x01)\<rparr>
                     else ev1)
          in if result < 0 then Inr (result, ev2) else Inr (0, ev2))
        else Inr (- EFAULT, ev)))"

definition QMIDMSGetMEIDResp :: "ptr \<Rightarrow> u16 \<Rightarrow> bytes \<Rightarrow> int \<Rightarrow> fault + (int \<times> bytes)" where
  "QMIDMSGetMEIDResp pBuffer buffSize pMEID meidSize =
     (let offset = sizeof_sQMUX + 3 in
      if pBuffer = None \<or> unat buffSize < offset \<or> meidSize < 14 then Inr (- ENOMEM, pMEID)
      else
        let msg = skip offset pBuffer; len = buffSize - word_of_nat offset in
        bnd (GetQMIMessageID msg len) (\<lambda>result.
        if result \<noteq> 0x25 then Inr (- EFAULT, pMEID) else
        bnd (ValidQMIMessage msg len) (\<lambda>result.
        if result \<noteq> 0 then Inr (- EFAULT, pMEID) else
        bnd (get_tlv_bytes msg len 0x12 pMEID 14) (\<lambda>(result, pMEID').
        if result \<noteq> 14 then Inr (- EFAULT, pMEID') else Inr (0, pMEID')))))"

record agg_limits =
  al_DLDatagram :: u32
  al_DLDatagramSize :: u32
  al_ULDatagram :: u32
  al_ULDatagramSize :: u32

definition QMIWDASetDataFormatResp :: "ptr \<Rightarrow> u16 \<Rightarrow> agg_limits \<Rightarrow> fault + (int \<times> agg_limits)" where
  "QMIWDASetDataFormatResp pBuffer buffSize al =
     (let offset = sizeof_sQMUX + 3 in
      if pBuffer = None \<or> unat buffSize < offset then Inr (- ENOMEM, al)
      else
        let msg = skip offset pBuffer; len = buffSize - word_of_nat offset in
        bnd (GetQMIMessageID msg len) (\<lambda>result.
        if result \<noteq> 0x20 then Inr (- EFAULT, al) else
        bnd (ValidQMIMessage msg len) (\<lambda>result.
        if result \<noteq> 0 then Inr (- EFAULT, al) else
        bnd (get_tlv_u32 msg len 0x15 (al_DLDatagram al)) (\<lambda>(result, v).
        let al = al\<lparr>al_DLDatagram := v\<rparr> in
        if result \<noteq> 4 then Inr (- EFAULT, al) else
        bnd (get_tlv_u32 msg len 0x16 (al_DLDatagramSize al)) (\<lambda>(result, v).
        let al = al\<lparr>al_DLDatagramSize := v\<rparr> in
        if result \<noteq> 4 then Inr (- EFAULT, al) else
        bnd (get_tlv_u32 msg len 0x17 (al_ULDatagram al)) (\<lambda>(result, v).
        let al = al\<lparr>al_ULDatagram := v\<rparr> in
        if result \<noteq> 4 then Inr (- EFAULT, al) else
        bnd (get_tlv_u32 msg len 0x18 (al_ULDatagramSize al)) (\<lambda>(result, v).
        let al = al\<lparr>al_ULDatagramSize := v\<rparr> in
        if result \<noteq> 4 then Inr (- EFAULT, al) else Inr (0, al))))))))"

text \<open>No check of the buffer or its size before the header is skipped.\<close>

definition QMIWDSStartNetworkResp :: "ptr \<Rightarrow> u16 \<Rightarrow> bytes \<Rightarrow> int \<Rightarrow> fault + (int \<times> bytes)" where
  "QMIWDSStartNetworkResp pBuffer buffSize pMEID meidSize =
     (let offset = sizeof_sQMUX + 3;
          msg = skip offset pBuffer; len = buffSize - word_of_nat offset in
      bnd (GetQMIMessageID msg len) (\<lambda>result.
      if result \<noteq> 0x20 then Inr (- EFAULT, pMEID) else
      bnd (ValidQMIMessage msg len) (\<lambda>result.
      if result \<noteq> 0 then Inr (- EFAULT, pMEID) else
      bnd (get_tlv_bytes msg len 0x1 pMEID 4) (\<lambda>(result, pMEID').
      if result < 0 then Inr (result, pMEID') else Inr (0, pMEID')))))"

definition QMIWDSStopNetworkResp :: "ptr \<Rightarrow> u16 \<Rightarrow> fault + int" where
  "QMIWDSStopNetworkResp pBuffer buffSize =
     (let offset = sizeof_sQMUX + 3;
          msg = skip offset pBuffer; len = buffSize - word_of_nat offset in
      bnd (GetQMIMessageID msg len) (\<lambda>result.
      if result \<noteq> 0x20 then Inr (- EFAULT) else
      bnd (ValidQMIMessage msg len) (\<lambda>result.
      if result \<noteq> 0 then Inr (- EFAULT) else Inr 0)))"

section \<open>Responses in the message format\<close>

text \<open>
  A response as it arrives: QMUX header, SDU header (\<open>sdu\<close>: two bytes for the control
  service, three for the others), message, and whatever the buffer holds after it.
\<close>

definition response :: "bytes \<Rightarrow> bytes \<Rightarrow> u16 \<Rightarrow> tlv list \<Rightarrow> bytes" where
  "response hdr sdu i tlvs = hdr @ sdu @ qmi_msg i tlvs"

definition response_size :: "nat \<Rightarrow> tlv list \<Rightarrow> u16" where
  "response_size k tlvs = word_of_nat (6 + k + (4 + length (enc_tlvs tlvs)))"

definition well_formed_response :: "nat \<Rightarrow> bytes \<Rightarrow> bytes \<Rightarrow> tlv list \<Rightarrow> bool" where
  "well_formed_response k hdr sdu tlvs \<longleftrightarrow>
     length hdr = 6 \<and> length sdu = k \<and> list_all tlv_valid tlvs
     \<and> 6 + k + (4 + length (enc_tlvs tlvs)) < 65536"

lemma response_body:
  assumes "well_formed_response k hdr sdu tlvs"
  shows "skip (sizeof_sQMUX + k) (Some (response hdr sdu i tlvs @ post))
           = Some (qmi_msg i tlvs @ post)"
    and "unat (response_size k tlvs - word_of_nat (sizeof_sQMUX + k)) = length (qmi_msg i tlvs)"
    and "\<forall>f \<in> set tlvs. tlv_valid f"
    and "\<not> unat (response_size k tlvs) < sizeof_sQMUX + k"
proof -
  note wf = assms [unfolded well_formed_response_def]
  show "skip (sizeof_sQMUX + k) (Some (response hdr sdu i tlvs @ post))
           = Some (qmi_msg i tlvs @ post)"
    using wf by (simp add: skip_def response_def)
  have u: "unat (response_size k tlvs) = 6 + k + (4 + length (enc_tlvs tlvs))"
    using wf unfolding response_size_def by (simp only: unat_u16_of_nat mod_less)
  then show "\<not> unat (response_size k tlvs) < sizeof_sQMUX + k" by simp
  have "6 + k < 65536" using wf by linarith
  then have "unat (word_of_nat (6 + k) :: u16) = 6 + k"
    by (simp only: unat_u16_of_nat mod_less)
  then have "word_of_nat (6 + k) \<le> response_size k tlvs" by (simp only: word_le_nat_alt u)
  then have "unat (response_size k tlvs - word_of_nat (6 + k))
      = unat (response_size k tlvs) - unat (word_of_nat (6 + k) :: u16)" by (rule unat_sub)
  with u \<open>unat (word_of_nat (6 + k) :: u16) = 6 + k\<close>
  show "unat (response_size k tlvs - word_of_nat (sizeof_sQMUX + k)) = length (qmi_msg i tlvs)"
    by (simp add: length_qmi_msg)
  show "\<forall>f \<in> set tlvs. tlv_valid f" using wf by (simp add: list_all_iff)
qed

text \<open>The typed reads on a well-formed message never fault and follow the lookup.\<close>

definition tlv_read :: "u8 \<Rightarrow> tlv list \<Rightarrow> nat \<Rightarrow> bytes \<Rightarrow> int \<times> bytes" where
  "tlv_read t tlvs n old =
     (case tlv_lookup t tlvs of
        None \<Rightarrow> (- ENOMSG, old)
      | Some v \<Rightarrow> if n < length v then (- ENOMEM, old)
                  else (int (length v), v @ drop (length v) old))"

lemma get_tlv_bytes_msg:
  assumes "\<forall>f \<in> set tlvs. tlv_valid f" and "unat len = length (qmi_msg i tlvs)"
    and "unat bl \<le> length old"
  shows "get_tlv_bytes (Some (qmi_msg i tlvs @ post)) len t old bl
           = Inr (tlv_read t tlvs (unat bl) old)"
  using assms(3) unfolding get_tlv_bytes_def GetTLV_result [OF assms(1,2)] tlv_result_def tlv_read_def
  by (simp split: option.split)

lemma get_tlv_u16_msg:
  assumes "\<forall>f \<in> set tlvs. tlv_valid f" and "unat len = length (qmi_msg i tlvs)"
  shows "get_tlv_u16 (Some (qmi_msg i tlvs @ post)) len t old
           = Inr (map_prod id of_le16 (tlv_read t tlvs 2 (le16 old)))"
  by (simp add: get_tlv_u16_def get_tlv_bytes_msg [OF assms] split: prod.split)

lemma get_tlv_u32_msg:
  assumes "\<forall>f \<in> set tlvs. tlv_valid f" and "unat len = length (qmi_msg i tlvs)"
  shows "get_tlv_u32 (Some (qmi_msg i tlvs @ post)) len t old
           = Inr (map_prod id of_le32 (tlv_read t tlvs 4 (le32 old)))"
  by (simp add: get_tlv_u32_def get_tlv_bytes_msg [OF assms] split: prod.split)

lemma get_tlv_u64_msg:
  assumes "\<forall>f \<in> set tlvs. tlv_valid f" and "unat len = length (qmi_msg i tlvs)"
  shows "get_tlv_u64 (Some (qmi_msg i tlvs @ post)) len t old
           = Inr (map_prod id of_le64 (tlv_read t tlvs 8 (le64 old)))"
  by (simp add: get_tlv_u64_def get_tlv_bytes_msg [OF assms] split: prod.split)

lemmas msg_reads = get_tlv_bytes_msg get_tlv_u16_msg get_tlv_u32_msg get_tlv_u64_msg
  ValidQMIMessage_result

section \<open>Properties\<close>

text \<open>A client id is handed out exactly for a successful allocation response: on any
  well-formed control response the parser never faults, returns 0 if and only if the message id
  is 0x22, the result TLV says success and TLV 1 has two bytes, then stores exactly that
  value, and returns -EFAULT otherwise.\<close>

theorem GetClientIDResp_spec:
  assumes "well_formed_response 2 hdr sdu tlvs"
  shows "\<exists>r c. QMICTLGetClientIDResp (Some (response hdr sdu i tlvs @ post))
                 (response_size 2 tlvs) c0 = Inr (r, c)
           \<and> (r = 0 \<longleftrightarrow> i = 0x22 \<and> valid_result tlvs = 0
                \<and> (\<exists>v. tlv_lookup 1 tlvs = Some v \<and> length v = 2))
           \<and> (r = 0 \<longrightarrow> c = of_le16 (the (tlv_lookup 1 tlvs)))
           \<and> (r \<noteq> 0 \<longrightarrow> r = - EFAULT)"
proof -
  define len where "len = response_size 2 tlvs - word_of_nat (sizeof_sQMUX + 2)"
  note b = response_body [OF assms, folded len_def]
  have i: "uint i = 0x22 \<longleftrightarrow> i = 0x22" by (simp add: word_uint_eq_iff)
  show ?thesis
    unfolding QMICTLGetClientIDResp_def Let_def b(1) len_def [symmetric]
    using b(4)
    by (auto simp: msg_reads [OF b(3) b(2)] GetQMIMessageID_msg [OF b(2)] i tlv_read_def
        split: option.splits)
qed

theorem GetClientIDResp_spec_witness:
  "\<exists>r c. QMICTLGetClientIDResp
        (Some (response [1, 26, 0, 0x80, 0, 0] [1, 7] 0x22 [(2, [0, 0, 0, 0]), (1, [1, 9])] @ []))
        (response_size 2 [(2, [0, 0, 0, 0]), (1, [1, 9])]) 0 = Inr (r, c)
      \<and> r = 0 \<and> c = of_le16 [1, 9]"
proof -
  have w: "well_formed_response 2 [1, 26, 0, 0x80, 0, 0] [1, 7] [(2, [0, 0, 0, 0]), (1, [1, 9])]"
    by (simp add: well_formed_response_def)
  have v: "valid_result [(2, [0, 0, 0, 0]), (1, [1, 9])] = 0"
    by (simp add: valid_result_def of_le16_def)
  show ?thesis using GetClientIDResp_spec [OF w, of "0x22" "[]" 0] v by auto
qed

text \<open>The link state and the reconfiguration flag follow the packet-service TLV: on any
  well-formed status message (id 0x22 or 0x20) the event parser returns 0 when TLV 1 has one or
  two bytes, sets the link up exactly when the first byte is 2, and touches the reconfigure
  flag only when a second byte is there; a missing or oversized TLV is an error that changes
  nothing.\<close>

theorem EventResp_link_state:
  assumes "well_formed_response 3 hdr sdu tlvs" and "i = 0x22 \<or> i = 0x20"
  shows "QMIWDSEventResp (Some (response hdr sdu i tlvs @ post)) (response_size 3 tlvs) ev
     = Inr (case tlv_lookup 1 tlvs of
              None \<Rightarrow> (- ENOMSG, ev)
            | Some [] \<Rightarrow> (0, ev)
            | Some [s] \<Rightarrow> (0, ev\<lparr>ev_bLinkState := (s = 2)\<rparr>)
            | Some [s, r] \<Rightarrow> (0, ev\<lparr>ev_bLinkState := (s = 2), ev_bReconfigure := (r = 1)\<rparr>)
            | Some _ \<Rightarrow> (- ENOMEM, ev))"
proof -
  define len where "len = response_size 3 tlvs - word_of_nat (sizeof_sQMUX + 3)"
  note b = response_body [OF assms(1), folded len_def]
  have i: "int (unat i) = 0x22 \<or> int (unat i) = 0x20" "int (unat i) \<noteq> 0x01"
    using assms(2) by auto
  show ?thesis
    unfolding QMIWDSEventResp_def Let_def b(1) len_def [symmetric]
    using b(4) i
    by (auto simp: msg_reads [OF b(3) b(2)] GetQMIMessageID_msg [OF b(2)] tlv_read_def
        split: option.splits list.splits)
qed

theorem EventResp_link_state_witness:
  "\<forall>ev. QMIWDSEventResp (Some (response [1, 17, 0, 0x80, 1, 9] [4, 0, 0] 0x22 [(1, [2, 1])] @ []))
     (response_size 3 [(1, [2, 1])]) ev = Inr (0, ev\<lparr>ev_bLinkState := True, ev_bReconfigure := True\<rparr>)"
proof -
  have "well_formed_response 3 [1, 17, 0, 0x80, 1, 9] [4, 0, 0] [(1, [2, 1])]"
    by (simp add: well_formed_response_def)
  from EventResp_link_state [OF this, of "0x22" "[]"] show ?thesis by simp
qed

text \<open>Traffic counters are only updated by values the device sent: on a well-formed event
  report (id 1) the parser returns 0, leaves the link flags alone, and every counter keeps its
  value when its TLV is absent or too long and takes the TLV's value when it has the counter's
  width.\<close>

theorem EventResp_counters:
  assumes "well_formed_response 3 hdr sdu tlvs"
  shows "\<exists>ev'. QMIWDSEventResp (Some (response hdr sdu 1 tlvs @ post)) (response_size 3 tlvs) ev
              = Inr (0, ev')
          \<and> ev_bLinkState ev' = ev_bLinkState ev \<and> ev_bReconfigure ev' = ev_bReconfigure ev
          \<and> ev_TXOk ev' = of_le32 (snd (tlv_read 0x10 tlvs 4 (le32 (ev_TXOk ev))))
          \<and> ev_RXOk ev' = of_le32 (snd (tlv_read 0x11 tlvs 4 (le32 (ev_RXOk ev))))
          \<and> ev_TXErr ev' = of_le32 (snd (tlv_read 0x12 tlvs 4 (le32 (ev_TXErr ev))))
          \<and> ev_RXErr ev' = of_le32 (snd (tlv_read 0x13 tlvs 4 (le32 (ev_RXErr ev))))
          \<and> ev_TXOfl ev' = of_le32 (snd (tlv_read 0x14 tlvs 4 (le32 (ev_TXOfl ev))))
          \<and> ev_RXOfl ev' = of_le32 (snd (tlv_read 0x15 tlvs 4 (le32 (ev_RXOfl ev))))
          \<and> ev_TXBytesOk ev' = of_le64 (snd (tlv_read 0x19 tlvs 8 (le64 (ev_TXBytesOk ev))))
          \<and> ev_RXBytesOk ev' = of_le64 (snd (tlv_read 0x1A tlvs 8 (le64 (ev_RXBytesOk ev))))
          \<and> (tlv_lookup 0x10 tlvs = None \<longrightarrow> ev_TXOk ev' = ev_TXOk ev)
          \<and> (tlv_lookup 0x10 tlvs = Some (le32 n) \<longrightarrow> ev_TXOk ev' = n)"
proof -
  define len where "len = response_size 3 tlvs - word_of_nat (sizeof_sQMUX + 3)"
  note b = response_body [OF assms, folded len_def]
  show ?thesis
    unfolding QMIWDSEventResp_def Let_def b(1) len_def [symmetric]
    using b(4)
    by (auto simp: msg_reads [OF b(3) b(2)] GetQMIMessageID_msg [OF b(2)] map_prod_def split_def)
      (auto simp: tlv_read_def le32.dec_enc)
qed

theorem EventResp_counters_witness:
  "\<forall>ev. \<exists>ev'. QMIWDSEventResp
        (Some (response [1, 19, 0, 0x80, 1, 9] [4, 0, 0] 1 [(0x10, le32 7)] @ []))
        (response_size 3 [(0x10, le32 7)]) ev = Inr (0, ev')
      \<and> ev_TXOk ev' = 7 \<and> ev_RXOk ev' = of_le32 (le32 (ev_RXOk ev))"
proof -
  have "well_formed_response 3 [1, 19, 0, 0x80, 1, 9] [4, 0, 0] [(0x10, le32 7)]"
    by (simp add: well_formed_response_def)
  from EventResp_counters [OF this, of "[]" _ 7] show ?thesis
    by (auto simp: tlv_read_def)
qed

text \<open>The aggregation limits the driver runs with are the ones the device answered with: a
  well-formed successful data-format response that carries the four limits is accepted and
  stores each of them, and a response without one of them is rejected with -EFAULT.\<close>

theorem DataFormatResp_spec:
  assumes "well_formed_response 3 hdr sdu tlvs" and "valid_result tlvs = 0"
    and "tlv_lookup 0x15 tlvs = Some (le32 a)" and "tlv_lookup 0x16 tlvs = Some (le32 c)"
    and "tlv_lookup 0x17 tlvs = Some (le32 d)"
  shows "QMIWDASetDataFormatResp (Some (response hdr sdu 0x20 tlvs @ post)) (response_size 3 tlvs) al
     = Inr (case tlv_lookup 0x18 tlvs of
              None \<Rightarrow> (- EFAULT, al\<lparr>al_DLDatagram := a, al_DLDatagramSize := c,
                                   al_ULDatagram := d\<rparr>)
            | Some v \<Rightarrow>
                if length v = 4
                then (0, \<lparr>al_DLDatagram = a, al_DLDatagramSize = c, al_ULDatagram = d,
                          al_ULDatagramSize = of_le32 v\<rparr>)
                else (- EFAULT, al\<lparr>al_DLDatagram := a, al_DLDatagramSize := c, al_ULDatagram := d,
                       al_ULDatagramSize := of_le32 (snd (tlv_read 0x18 tlvs 4
                                                       (le32 (al_ULDatagramSize al))))\<rparr>))"
proof -
  define len where "len = response_size 3 tlvs - word_of_nat (sizeof_sQMUX + 3)"
  note b = response_body [OF assms(1), folded len_def]
  have r: "tlv_read 0x15 tlvs 4 x = (4, le32 a)" "tlv_read 0x16 tlvs 4 x = (4, le32 c)"
    "tlv_read 0x17 tlvs 4 x = (4, le32 d)" if "length x = 4" for x
    using assms(3-5) that by (simp_all add: tlv_read_def)
  show ?thesis
    unfolding QMIWDASetDataFormatResp_def Let_def b(1) len_def [symmetric]
    using b(4) assms(2)
    by (auto simp: msg_reads [OF b(3) b(2)] GetQMIMessageID_msg [OF b(2)] r le32.dec_enc)
      (auto simp: tlv_read_def le32.dec_enc split: option.splits)
qed

theorem DataFormatResp_spec_witness:
  "\<forall>al. QMIWDASetDataFormatResp (Some (response [1, 50, 0, 0x80, 0x1A, 1] [2, 3, 0] 0x20
      [(2, [0, 0, 0, 0]), (0x15, le32 32), (0x16, le32 0x7C00), (0x17, le32 16), (0x18, le32 8)] @ []))
      (response_size 3
        [(2, [0, 0, 0, 0]), (0x15, le32 32), (0x16, le32 0x7C00), (0x17, le32 16), (0x18, le32 8)]) al
   = Inr (0, \<lparr>al_DLDatagram = 32, al_DLDatagramSize = 0x7C00, al_ULDatagram = 16,
              al_ULDatagramSize = 8\<rparr>)"
proof -
  let ?t = "[(2, [0, 0, 0, 0]), (0x15, le32 32), (0x16, le32 0x7C00), (0x17, le32 16),
             (0x18, le32 8)] :: tlv list"
  have w: "well_formed_response 3 [1, 50, 0, 0x80, 0x1A, 1] [2, 3, 0] ?t"
    by (simp add: well_formed_response_def)
  have v: "valid_result ?t = 0" by (simp add: valid_result_def of_le16_def)
  have l: "tlv_lookup 0x15 ?t = Some (le32 32)" "tlv_lookup 0x16 ?t = Some (le32 0x7C00)"
    "tlv_lookup 0x17 ?t = Some (le32 16)" by simp_all
  from DataFormatResp_spec [OF w v l, of "[]"] show ?thesis by (simp add: le32.dec_enc)
qed

text \<open>The device serial number is stored exactly when the device sends 14 characters: on a
  well-formed response with id 0x25 and a successful result the parser returns 0 and fills the
  14-byte buffer with TLV 0x12 if that TLV has 14 bytes, and returns -EFAULT otherwise, without
  ever reading or writing outside its buffers.\<close>

theorem GetMEIDResp_spec:
  assumes "well_formed_response 3 hdr sdu tlvs" and "valid_result tlvs = 0"
    and "length pMEID = 14"
  shows "\<exists>r m. QMIDMSGetMEIDResp (Some (response hdr sdu 0x25 tlvs @ post)) (response_size 3 tlvs)
                 pMEID 14 = Inr (r, m)
           \<and> length m = 14
           \<and> (case tlv_lookup 0x12 tlvs of
                None \<Rightarrow> r = - EFAULT \<and> m = pMEID
              | Some v \<Rightarrow> if length v = 14 then r = 0 \<and> m = v else r = - EFAULT)"
proof -
  define len where "len = response_size 3 tlvs - word_of_nat (sizeof_sQMUX + 3)"
  note b = response_body [OF assms(1), folded len_def]
  show ?thesis
    unfolding QMIDMSGetMEIDResp_def Let_def b(1) len_def [symmetric]
    using b(4) assms(2,3)
    by (auto simp: msg_reads [OF b(3) b(2)] GetQMIMessageID_msg [OF b(2)] tlv_read_def
        split: option.splits)
qed

theorem GetMEIDResp_spec_witness:
  "\<exists>r m. QMIDMSGetMEIDResp (Some (response [1, 37, 0, 0x80, 2, 1] [2, 3, 0] 0x25
        [(2, [0, 0, 0, 0]), (0x12, replicate 14 0x33)] @ []))
        (response_size 3 [(2, [0, 0, 0, 0]), (0x12, replicate 14 0x33)]) (replicate 14 0) 14
      = Inr (r, m) \<and> r = 0 \<and> m = replicate 14 0x33"
proof -
  let ?t = "[(2, [0, 0, 0, 0]), (0x12, replicate 14 0x33)] :: tlv list"
  have w: "well_formed_response 3 [1, 37, 0, 0x80, 2, 1] [2, 3, 0] ?t"
    by (simp add: well_formed_response_def)
  have v: "valid_result ?t = 0" by (simp add: valid_result_def of_le16_def)
  have l: "length (replicate 14 (0 :: u8)) = 14" by simp
  from GetMEIDResp_spec [OF w v l, of "[]"] show ?thesis by auto
qed

text \<open>The parser of the stop-network response can never accept the response to the request
  the driver sends: QMIWDSStopNetworkReq sends message id 0x21, and the parser rejects every
  well-formed response with that id, because it compares with 0x20, the id of start-network.\<close>

theorem StopNetworkResp_rejects_its_response:
  assumes "well_formed_response 3 hdr sdu tlvs"
  shows "QMIWDSStopNetworkResp (Some (response hdr sdu 0x21 tlvs @ post)) (response_size 3 tlvs)
           = Inr (- EFAULT)"
proof -
  define len where "len = response_size 3 tlvs - word_of_nat (sizeof_sQMUX + 3)"
  note b = response_body [OF assms, folded len_def]
  show ?thesis
    unfolding QMIWDSStopNetworkResp_def Let_def b(1) len_def [symmetric]
    by (simp add: GetQMIMessageID_msg [OF b(2)])
qed

theorem StopNetworkResp_rejects_its_response_witness:
  "QMIWDSStopNetworkResp (Some (response [1, 19, 0, 0x80, 1, 1] [2, 3, 0] 0x21
      [(2, [0, 0, 0, 0])] @ [])) (response_size 3 [(2, [0, 0, 0, 0])]) = Inr (- EFAULT)"
  by (rule StopNetworkResp_rejects_its_response) (simp add: well_formed_response_def)

end
