(* ===== verification/Qmap.thy ===== *)
theory Qmap
  imports Prelude
begin

text \<open>
  The QMAP framing of the data path: \<open>qmap_mux\<close>, \<open>qmap_ip_ethertype\<close> and \<open>qmap_demux\<close>
  of \<^verbatim>\<open>src/src/linux/qcom_usbnet/qmap.c\<close> and the receive loop \<open>GobiNetDriver_rx_fixup\<close> of
  \<^verbatim>\<open>qcom_usbnet_main.c\<close>. \<open>common.h\<close> defines \<open>VIRTUAL_USB_CODE\<close>; kernels from 4.5.7 on.
  A socket buffer is its headroom, its data and its tailroom.
\<close>

unbundle bit_operations_syntax

section \<open>Socket buffers\<close>

record sk_buff =
  sk_head :: bytes
  sk_data :: bytes
  sk_tail :: bytes
  sk_protocol :: u16

definition skb_push :: "nat \<Rightarrow> sk_buff \<Rightarrow> fault + sk_buff" where
  "skb_push n skb =
     (if n \<le> length (sk_head skb)
      then Inr (skb\<lparr>sk_head := take (length (sk_head skb) - n) (sk_head skb),
                    sk_data := drop (length (sk_head skb) - n) (sk_head skb) @ sk_data skb\<rparr>)
      else Inl Skb_Panic)"

definition skb_pull :: "nat \<Rightarrow> sk_buff \<Rightarrow> sk_buff" where
  "skb_pull n skb =
     (if n \<le> length (sk_data skb)
      then skb\<lparr>sk_head := sk_head skb @ take n (sk_data skb), sk_data := drop n (sk_data skb)\<rparr>
      else skb)"

definition skb_put :: "nat \<Rightarrow> sk_buff \<Rightarrow> fault + sk_buff" where
  "skb_put n skb =
     (if n \<le> length (sk_tail skb)
      then Inr (skb\<lparr>sk_data := sk_data skb @ take n (sk_tail skb), sk_tail := drop n (sk_tail skb)\<rparr>)
      else Inl Skb_Panic)"

definition alloc_skb :: "nat \<Rightarrow> sk_buff" where
  "alloc_skb n = \<lparr>sk_head = [], sk_data = [], sk_tail = replicate n 0, sk_protocol = 0\<rparr>"

section \<open>Adding the QMAP header\<close>

definition sizeof_qmap_t :: nat where
  "sizeof_qmap_t = 1 + 1 + 2"

lemma sizeof_qmap_t_4 [simp]: "sizeof_qmap_t = 4"
  by (simp add: sizeof_qmap_t_def)

definition padding_count :: "nat \<Rightarrow> nat" where
  "padding_count ippacket_len =
     (if ippacket_len mod 4 > 0 then 4 - ippacket_len mod 4 else 0)"

definition qmap_mux :: "sk_buff \<Rightarrow> u8 \<Rightarrow> fault + sk_buff" where
  "qmap_mux skb data =
     (let ippacket_len = length (sk_data skb) in
      bnd (skb_push sizeof_qmap_t skb) (\<lambda>skb.
      \<comment> \<open>memset(qhdr, 0, sizeof(qmap_t)); mux_id; cd_rsvd_pad = 0\<close>
      bnd (put (sk_data skb) 0 (replicate sizeof_qmap_t 0)) (\<lambda>d.
      bnd (put d 1 [data]) (\<lambda>d.
      bnd (put d 0 [0]) (\<lambda>d.
      let padding = padding_count ippacket_len in
      bnd (put d 2 (be16 (word_of_nat (ippacket_len + padding)))) (\<lambda>d.
      bnd (rd8 d 0) (\<lambda>pad.
      bnd (put d 0 [pad OR word_of_nat padding]) (\<lambda>d.
      let skb = skb\<lparr>sk_data := d\<rparr> in
      if padding > 0 then
        bnd (skb_put padding skb) (\<lambda>skb'.
        bnd (put (sk_data skb') (length d) (replicate padding 0)) (\<lambda>d'.
        Inr (skb'\<lparr>sk_data := d'\<rparr>)))
      else Inr skb))))))))"

section \<open>Looking at the IP version\<close>

abbreviation (input) "ETH_P_IP \<equiv> (0x0800 :: u16)"
abbreviation (input) "ETH_P_IPV6 \<equiv> (0x86DD :: u16)"

definition qmap_ip_ethertype :: "sk_buff \<Rightarrow> fault + (u16 \<times> sk_buff)" where
  "qmap_ip_ethertype skb =
     bnd (rd8 (sk_data skb) 0) (\<lambda>b.
     let skb = (if b AND 0xf0 = 0x40 then skb\<lparr>sk_protocol := ETH_P_IP\<rparr>
                else if b AND 0xf0 = 0x60 then skb\<lparr>sk_protocol := ETH_P_IPV6\<rparr>
                else skb)
     in Inr (sk_protocol skb, skb))"

text \<open>The packet handed to the network stack, or nothing for a command packet.\<close>

definition qmap_demux :: "sk_buff \<Rightarrow> fault + sk_buff option" where
  "qmap_demux skb =
     bnd (rd8 (sk_data skb) 0) (\<lambda>b.
     if b AND 0x80 \<noteq> 0 then Inr None
     else bnd (qmap_ip_ethertype (skb_pull sizeof_qmap_t skb)) (\<lambda>(_, skb). Inr (Some skb)))"

section \<open>The receive loop\<close>

text \<open>The network device a frame goes to: the one the URB came in on, the main one, a MUX one.\<close>

datatype netdev = Dev_In | Main_Dev | Mux_Dev nat

definition rx_device :: "u8 \<Rightarrow> u8 \<Rightarrow> netdev" where
  "rx_device dev_mux mux_id =
     (if mux_id \<noteq> dev_mux then
        if mux_id \<le> 0x84 \<and> mux_id \<ge> 0x81 then
          if mux_id = 0x81 then Main_Dev else Mux_Dev (unat mux_id - 0x81 - 1)
        else Dev_In
      else Dev_In)"

type_synonym delivery = "netdev \<times> u16 \<times> bytes"

text \<open>The IP packet copied out of the frame, with the protocol the code sets on it.\<close>

definition rx_packet :: "netdev \<Rightarrow> bytes \<Rightarrow> fault + delivery" where
  "rx_packet dev pkt =
     bnd (skb_put (length pkt) (alloc_skb (length pkt))) (\<lambda>skbn.
     bnd (qmap_ip_ethertype (skbn\<lparr>sk_data := pkt\<rparr>)) (\<lambda>(protocol, skbn).
     let skbn = (if protocol = ETH_P_IP then skbn\<lparr>sk_protocol := ETH_P_IP\<rparr>
                 else skbn\<lparr>sk_protocol := ETH_P_IPV6\<rparr>)
     in Inr (dev, sk_protocol skbn, sk_data skbn)))"

text \<open>\<open>bound\<close> tells which of the devices exist; the pointer of any other one is NULL.\<close>

function rx_loop ::
  "(netdev \<Rightarrow> bool) \<Rightarrow> u8 \<Rightarrow> bytes \<Rightarrow> nat \<Rightarrow> delivery list \<Rightarrow> fault + (int \<times> delivery list)" where
  "rx_loop bound dev_mux buf offset out =
     (if offset < length buf then
        bnd (rd8 buf offset) (\<lambda>cd_rsvd_pad.
        let pad_len = unat (cd_rsvd_pad AND 0x3f) in
        bnd (rd16be buf (offset + 2)) (\<lambda>pkt_len.
        let packet_len = unat pkt_len in
        bnd (rd8 buf (offset + 1)) (\<lambda>mux_id.
        let dev = rx_device dev_mux mux_id in
        if cd_rsvd_pad AND 0x80 \<noteq> 0 then Inr (1, out)
        else if int packet_len - int pad_len > 0 then
          if \<not> bound dev then Inl Null_Deref
          else bnd (rd_block buf (offset + sizeof_qmap_t) (packet_len - pad_len)) (\<lambda>pkt.
          bnd (rx_packet dev pkt) (\<lambda>d.
          rx_loop bound dev_mux buf (offset + (packet_len + sizeof_qmap_t)) (out @ [d])))
        else rx_loop bound dev_mux buf (offset + (packet_len + sizeof_qmap_t)) out)))
      else Inr (1, out))"
  by pat_completeness auto
termination
  by (relation "measure (\<lambda>(bound, dev_mux, buf, offset, out). length buf - offset)") auto

declare rx_loop.simps [simp del]

definition GobiNetDriver_rx_fixup ::
  "(netdev \<Rightarrow> bool) \<Rightarrow> u8 \<Rightarrow> sk_buff \<Rightarrow> fault + (int \<times> delivery list)" where
  "GobiNetDriver_rx_fixup bound dev_mux skb_in = rx_loop bound dev_mux (sk_data skb_in) 0 []"

section \<open>Frames\<close>

text \<open>A data frame: mux id and IP packet; its bytes on the wire.\<close>

type_synonym qmap_frame = "u8 \<times> bytes"

fun enc_qmap :: "qmap_frame \<Rightarrow> bytes" where
  "enc_qmap (mux, pkt) =
     [word_of_nat (padding_count (length pkt)), mux]
     @ be16 (word_of_nat (length pkt + padding_count (length pkt)))
     @ pkt @ replicate (padding_count (length pkt)) 0"

fun qmap_valid :: "qmap_frame \<Rightarrow> bool" where
  "qmap_valid (mux, pkt) = (length pkt + padding_count (length pkt) < 65536)"

abbreviation "enc_qmaps fs \<equiv> concat (map enc_qmap fs)"

definition qmap_size_at :: "bytes \<Rightarrow> nat \<Rightarrow> nat" where
  "qmap_size_at b off = 4 + unat (of_be16 (drop (off + 2) b))"

lemma padding_count_lt: "padding_count n < 4"
  by (simp add: padding_count_def)

lemma padding_count_aligns: "4 dvd n + padding_count n"
  unfolding padding_count_def by presburger

interpretation qmap: frame_walk enc_qmap qmap_valid qmap_size_at
proof
  fix f :: qmap_frame and pre post :: bytes
  assume "qmap_valid f"
  moreover obtain m p where f: "f = (m, p)" by (cases f)
  let ?n = "length p + padding_count (length p)"
  have "drop (length pre + 2) (pre @ enc_qmap (m, p) @ post)
      = be16 (word_of_nat ?n) @ p @ replicate (padding_count (length p)) 0 @ post"
    by simp
  ultimately show "qmap_size_at (pre @ enc_qmap f @ post) (length pre) = length (enc_qmap f)"
    by (simp add: qmap_size_at_def be16.dec_enc_append unat_of_nat_widths f
        del: drop_append of_nat_add)
next
  fix f :: qmap_frame
  show "0 < length (enc_qmap f)" by (cases f) simp
qed

text \<open>What the driver delivers for a frame.\<close>

definition ip_protocol :: "bytes \<Rightarrow> u16" where
  "ip_protocol pkt = (if hd pkt AND 0xf0 = 0x40 then ETH_P_IP else ETH_P_IPV6)"

fun deliver :: "u8 \<Rightarrow> qmap_frame \<Rightarrow> delivery list" where
  "deliver dev_mux (mux, pkt) =
     (if pkt = [] then [] else [(rx_device dev_mux mux, ip_protocol pkt, pkt)])"

lemma rx_packet_ok:
  "pkt \<noteq> [] \<Longrightarrow> rx_packet dev pkt = Inr (dev, ip_protocol pkt, pkt)"
  by (cases pkt)
    (auto simp: rx_packet_def skb_put_def alloc_skb_def qmap_ip_ethertype_def rd8_def
      ip_protocol_def Let_def)

lemma pad_byte:
  assumes "n < 4"
  shows "unat ((word_of_nat n :: u8) AND 0x3f) = n" and "(word_of_nat n :: u8) AND 0x80 = 0"
proof -
  from assms have "n = 0 \<or> n = 1 \<or> n = 2 \<or> n = 3" by auto
  then show "unat ((word_of_nat n :: u8) AND 0x3f) = n" and "(word_of_nat n :: u8) AND 0x80 = 0"
    by auto
qed

lemma rx_loop_data:
  assumes len: "off < length b" and r0: "rd8 b off = Inr c" and r2: "rd16be b (off + 2) = Inr w"
    and r1: "rd8 b (off + 1) = Inr mux" and cmd: "c AND 0x80 = 0" and p: "unat (c AND 0x3f) = p"
    and w: "unat w = length pkt + p" and blk: "rd_block b (off + 4) (length pkt) = Inr pkt"
    and up: "pkt \<noteq> [] \<Longrightarrow> bound (rx_device dm mux)"
  shows "rx_loop bound dm b off out
     = rx_loop bound dm b (off + (length pkt + p + 4)) (out @ deliver dm (mux, pkt))"
proof (cases "pkt = []")
  case True
  with w have "\<not> int (unat w) - int p > 0" by simp
  then show ?thesis
    by (subst rx_loop.simps)
      (simp only: len r0 r2 r1 cmd p if_True if_False bnd_simps Let_def simp_thms w
        sizeof_qmap_t_4 deliver.simps True append_Nil2)
next
  case False
  then have d: "rx_packet (rx_device dm mux) pkt
      = Inr (rx_device dm mux, ip_protocol pkt, pkt)" by (rule rx_packet_ok)
  have pos: "(int (length pkt + p) - int p > 0) = True" and m: "length pkt + p - p = length pkt"
    using False by simp_all
  show ?thesis
    by (subst rx_loop.simps, simp only: len if_True r0 bnd_simps Let_def,
        simp only: r2 bnd_simps Let_def r1 cmd p w,
        simp only: simp_thms if_False pos if_True up [OF False],
        simp only: m sizeof_qmap_t_4 blk bnd_simps,
        simp only: d bnd_simps deliver.simps False if_False)
qed

lemma rx_loop_frame:
  assumes "qmap_valid f" and "off = length pre"
    and "snd f \<noteq> [] \<Longrightarrow> bound (rx_device dm (fst f))"
  shows "rx_loop bound dm (pre @ enc_qmap f @ post) off out
     = rx_loop bound dm (pre @ enc_qmap f @ post) (off + length (enc_qmap f))
         (out @ deliver dm f)"
proof -
  obtain mux pkt where f: "f = (mux, pkt)" by (cases f)
  let ?p = "padding_count (length pkt)"
  let ?n = "length pkt + ?p"
  let ?b = "pre @ enc_qmap f @ post"
  have n: "unat (word_of_nat ?n :: u16) = ?n"
    using assms(1) by (simp add: f unat_of_nat_widths del: of_nat_add)
  have "drop (length pre + 2) ?b = be16 (word_of_nat ?n) @ pkt @ replicate ?p 0 @ post"
    by (simp add: f)
  then have r16: "rd16be ?b (off + 2) = Inr (word_of_nat ?n)"
    using assms(2) by (simp add: f rd16be_def be16.dec_enc_append del: drop_append of_nat_add)
  have r0: "rd8 ?b off = Inr (word_of_nat ?p)" using assms(2) by (simp add: f rd8_def)
  have r1: "rd8 ?b (off + 1) = Inr mux" using assms(2) by (simp add: f rd8_def nth_append)
  have "drop (off + 4) ?b = pkt @ replicate ?p 0 @ post"
  proof -
    have "?b = (pre @ [word_of_nat ?p, mux] @ be16 (word_of_nat ?n)) @ pkt @ replicate ?p 0 @ post"
      by (simp add: f del: of_nat_add)
    moreover have "length (pre @ [word_of_nat ?p, mux] @ be16 (word_of_nat ?n)) = off + 4"
      using assms(2) by (simp del: of_nat_add)
    ultimately show ?thesis by (metis append_eq_conv_conj)
  qed
  then have blk: "rd_block ?b (off + 4) (length pkt) = Inr pkt"
    using assms(2) by (simp add: f rd_block_def)
  note c80 = pad_byte(2) [OF padding_count_lt [of "length pkt"]]
    and c3f = pad_byte(1) [OF padding_count_lt [of "length pkt"]]
  have len: "length (enc_qmap f) = ?n + 4" and off: "off < length ?b"
    using assms(2) by (simp_all add: f)
  have up: "pkt \<noteq> [] \<Longrightarrow> bound (rx_device dm mux)" using assms(3) f by simp
  show ?thesis
    unfolding len
    unfolding f
    using rx_loop_data [where bound = bound and dm = dm and out = out,
        OF off r0 r16 r1 c80 c3f n blk] up unfolding f by blast
qed

abbreviation "all_bound bound dm fs \<equiv>
  (\<forall>f \<in> set fs. snd f \<noteq> [] \<longrightarrow> bound (rx_device dm (fst f)))"

lemma rx_loop_frames:
  assumes "\<forall>f \<in> set fs. qmap_valid f" and "off = length pre" and "all_bound bound dm fs"
  shows "rx_loop bound dm (pre @ enc_qmaps fs @ post) off out
     = rx_loop bound dm (pre @ enc_qmaps fs @ post) (off + length (enc_qmaps fs))
         (out @ concat (map (deliver dm) fs))"
  using assms
proof (induction fs arbitrary: pre off out)
  case Nil
  then show ?case by simp
next
  case (Cons f fs)
  have "rx_loop bound dm (pre @ enc_qmap f @ (enc_qmaps fs @ post)) off out
      = rx_loop bound dm (pre @ enc_qmap f @ (enc_qmaps fs @ post)) (off + length (enc_qmap f))
          (out @ deliver dm f)"
    using Cons.prems by (intro rx_loop_frame) auto
  moreover have "rx_loop bound dm ((pre @ enc_qmap f) @ enc_qmaps fs @ post)
      (off + length (enc_qmap f)) (out @ deliver dm f)
    = rx_loop bound dm ((pre @ enc_qmap f) @ enc_qmaps fs @ post)
      (off + length (enc_qmap f) + length (enc_qmaps fs))
      ((out @ deliver dm f) @ concat (map (deliver dm) fs))"
    using Cons.prems by (intro Cons.IH) auto
  ultimately show ?case by (simp add: add.assoc)
qed

lemma rx_loop_end: "length buf \<le> off \<Longrightarrow> rx_loop bound dm buf off out = Inr (1, out)"
  by (subst rx_loop.simps) simp

section \<open>Properties of the framing\<close>

lemma skb_push_ok: "n \<le> length (sk_head skb) \<Longrightarrow>
  \<exists>h. length h = n \<and> skb_push n skb = Inr (skb\<lparr>sk_head := take (length (sk_head skb) - n) (sk_head skb),
    sk_data := h @ sk_data skb\<rparr>)"
  unfolding skb_push_def by (rule exI [of _ "drop (length (sk_head skb) - n) (sk_head skb)"]) simp

lemma put_front: "length v \<le> length h \<Longrightarrow> put (h @ d) 0 v = Inr (v @ drop (length v) h @ d)"
  by (simp add: put_def)

lemma qmap_mux_frame:
  assumes "sizeof_qmap_t \<le> length (sk_head skb)"
    and "padding_count (length (sk_data skb)) \<le> length (sk_tail skb)"
    and "length (sk_data skb) + padding_count (length (sk_data skb)) < 65536"
  shows "\<exists>skb'. qmap_mux skb mux = Inr skb' \<and> sk_data skb' = enc_qmap (mux, sk_data skb)"
proof -
  let ?d = "sk_data skb"
  let ?p = "padding_count (length ?d)"
  let ?n = "word_of_nat (length ?d + ?p) :: u16"
  obtain h where h: "length h = 4" and push: "skb_push 4 skb = Inr (skb\<lparr>sk_head :=
      take (length (sk_head skb) - 4) (sk_head skb), sk_data := h @ ?d\<rparr>)"
    using skb_push_ok [of 4 skb] assms(1) by auto
  obtain x y where be: "be16 ?n = [x, y]" by (simp add: be16_def)
  define w where "w = ?n"
  have hdr: "put (h @ ?d) 0 (replicate 4 0) = Inr ([0, 0, 0, 0] @ ?d)"
    using h by (simp add: put_def numeral_eq_Suc)
  have or0: "(0 :: u8) OR word_of_nat ?p = word_of_nat ?p" by simp
  show ?thesis
  proof (cases "?p = 0")
    case True
    then show ?thesis
      using be by (simp add: qmap_mux_def Let_def push hdr put_def rd8_def h del: of_nat_add)
  next
    case False
    then show ?thesis
      using be assms(2)
      by (simp add: qmap_mux_def Let_def push hdr put_def rd8_def skb_put_def h del: of_nat_add)
  qed
qed

text \<open>
  Qmap_mux puts exactly one QMAP data frame into the socket buffer: the header with the pad
  length, the MUX id and the padded length in network order, the packet itself, and zero bytes
  up to a multiple of four, provided the headroom holds the header and the tailroom the padding.
\<close>

theorem qmap_mux_builds_frame:
  assumes "sizeof_qmap_t \<le> length (sk_head skb)"
    and "padding_count (length (sk_data skb)) \<le> length (sk_tail skb)"
    and "length (sk_data skb) + padding_count (length (sk_data skb)) < 65536"
  shows "\<exists>skb'. qmap_mux skb mux = Inr skb' \<and> sk_data skb' = enc_qmap (mux, sk_data skb)
          \<and> 4 dvd length (sk_data skb')"
proof -
  obtain skb' where "qmap_mux skb mux = Inr skb'" "sk_data skb' = enc_qmap (mux, sk_data skb)"
    using qmap_mux_frame [OF assms] by blast
  moreover have "length (enc_qmap (mux, sk_data skb))
      = 4 + (length (sk_data skb) + padding_count (length (sk_data skb)))" by simp
  moreover have "4 dvd 4 + (length (sk_data skb) + padding_count (length (sk_data skb)))"
    using padding_count_aligns by (rule dvd_add [OF dvd_refl])
  ultimately show ?thesis by metis
qed

definition skb_example :: sk_buff where
  "skb_example = \<lparr>sk_head = [9, 9, 9, 9, 9, 9], sk_data = [0x45, 1, 2, 3, 4],
     sk_tail = [7, 7, 7, 7], sk_protocol = 0\<rparr>"

theorem qmap_mux_builds_frame_witness:
  "\<exists>skb'. qmap_mux skb_example 0x81 = Inr skb'
     \<and> sk_data skb' = [3, 0x81, 0, 8, 0x45, 1, 2, 3, 4, 0, 0, 0]"
proof -
  have "enc_qmap (0x81, sk_data skb_example) = [3, 0x81, 0, 8, 0x45, 1, 2, 3, 4, 0, 0, 0]"
  proof -
    have "length (sk_data skb_example) = 5" and "padding_count 5 = 3"
      by (simp_all add: skb_example_def padding_count_def)
    moreover have "replicate 3 (0 :: u8) = [0, 0, 0]" by (simp add: numeral_3_eq_3)
    ultimately show ?thesis by (simp add: be16_def) (simp add: skb_example_def)
  qed
  moreover have "sizeof_qmap_t \<le> length (sk_head skb_example)"
    "padding_count (length (sk_data skb_example)) \<le> length (sk_tail skb_example)"
    "length (sk_data skb_example) + padding_count (length (sk_data skb_example)) < 65536"
    by (simp_all add: skb_example_def padding_count_def)
  note qmap_mux_builds_frame [OF this, of "0x81"]
  ultimately show ?thesis by metis
qed

text \<open>
  C6: the receive loop takes a transfer that is a sequence of QMAP data frames apart: every
  non-empty packet is delivered exactly once, in order and byte for byte without header and
  padding, to the device its MUX id names and with the protocol of its first byte.
\<close>

theorem rx_fixup_delivers_frames:
  assumes "\<forall>f \<in> set fs. qmap_valid f" and "all_bound bound dm fs" and "sk_data skb = enc_qmaps fs"
  shows "GobiNetDriver_rx_fixup bound dm skb = Inr (1, concat (map (deliver dm) fs))"
  using rx_loop_frames [OF assms(1) _ assms(2), of 0 "[]" "[]" "[]"] assms(3)
  by (simp add: GobiNetDriver_rx_fixup_def rx_loop_end)

text \<open>Three frames: an IPv4 packet for the main device, an empty one, an IPv6 packet for MUX 0x82.\<close>

definition rx_example :: "qmap_frame list" where
  "rx_example = [(0x81, [0x45, 0xAA]), (0x84, []), (0x82, [0x60, 1, 2, 3, 4])]"

theorem rx_fixup_delivers_frames_witness:
  "GobiNetDriver_rx_fixup (\<lambda>_. True) 0x83 \<lparr>sk_head = [], sk_data = enc_qmaps rx_example,
      sk_tail = [], sk_protocol = 0\<rparr>
     = Inr (1, [(Main_Dev, ETH_P_IP, [0x45, 0xAA]), (Mux_Dev 0, ETH_P_IPV6, [0x60, 1, 2, 3, 4])])"
  using rx_fixup_delivers_frames [of rx_example "\<lambda>_. True" "0x83"
      "\<lparr>sk_head = [], sk_data = enc_qmaps rx_example, sk_tail = [], sk_protocol = 0\<rparr>"]
  by (simp add: rx_example_def padding_count_def rx_device_def ip_protocol_def)

text \<open>
  C24: what the transmit side frames, the receive side delivers: a packet that goes through
  qmap_mux and comes back on a transfer of its own is handed up unchanged.
\<close>

theorem qmap_mux_rx_roundtrip:
  assumes "sizeof_qmap_t \<le> length (sk_head skb)"
    and "padding_count (length (sk_data skb)) \<le> length (sk_tail skb)"
    and "length (sk_data skb) + padding_count (length (sk_data skb)) < 65536"
    and "sk_data skb \<noteq> []" and "bound (rx_device dm mux)"
  shows "bnd (qmap_mux skb mux) (GobiNetDriver_rx_fixup bound dm)
     = Inr (1, [(rx_device dm mux, ip_protocol (sk_data skb), sk_data skb)])"
proof -
  obtain skb' where m: "qmap_mux skb mux = Inr skb'"
    and d: "sk_data skb' = [] @ enc_qmaps [(mux, sk_data skb)] @ []"
    using qmap_mux_frame [OF assms(1-3)] by (auto simp del: enc_qmap.simps)
  have "GobiNetDriver_rx_fixup bound dm skb' = Inr (1, concat (map (deliver dm) [(mux, sk_data skb)]))"
    unfolding GobiNetDriver_rx_fixup_def d
    using assms(3-5) by (subst rx_loop_frames) (simp_all add: rx_loop_end del: enc_qmap.simps)
  then show ?thesis using m assms(4) by simp
qed

theorem qmap_mux_rx_roundtrip_witness:
  "bnd (qmap_mux skb_example 0x82) (GobiNetDriver_rx_fixup (\<lambda>d. d = Mux_Dev 0) 0x81)
     = Inr (1, [(Mux_Dev 0, ETH_P_IP, [0x45, 1, 2, 3, 4])])"
  using qmap_mux_rx_roundtrip [of skb_example "\<lambda>d. d = Mux_Dev 0" "0x81" "0x82"]
  by (simp add: skb_example_def padding_count_def rx_device_def ip_protocol_def)

text \<open>
  The receive loop trusts the length field: when the last frame of a transfer announces more
  bytes than the transfer holds, the copy reads past the end of the receive buffer, whatever
  well-formed frames came before it.
\<close>

theorem rx_fixup_overreads_truncated_frame:
  assumes "\<forall>f \<in> set fs. qmap_valid f" and "all_bound bound dm fs"
    and "bound (rx_device dm mux)" and "length rest < unat len"
  shows "GobiNetDriver_rx_fixup bound dm (skb\<lparr>sk_data := enc_qmaps fs @ [0, mux] @ be16 len @ rest\<rparr>)
     = Inl (OOB_Read (length (enc_qmaps fs) + 4 + length rest))"
proof -
  let ?post = "[0, mux] @ be16 len @ rest"
  let ?b = "enc_qmaps fs @ ?post"
  let ?off = "length (enc_qmaps fs)"
  have go: "GobiNetDriver_rx_fixup bound dm (skb\<lparr>sk_data := ?b\<rparr>)
      = rx_loop bound dm ?b ?off (concat (map (deliver dm) fs))"
    using rx_loop_frames [OF assms(1) _ assms(2), of 0 "[]" ?post "[]"]
    by (simp add: GobiNetDriver_rx_fixup_def)
  have r0: "rd8 ?b ?off = Inr 0" and r1: "rd8 ?b (?off + 1) = Inr mux"
    by (simp_all add: rd8_def nth_append)
  have len: "(?off < length ?b) = True" by simp
  have r2: "rd16be ?b (?off + 2) = Inr len" by (simp add: rd16be_def be16.dec_enc_append)
  have z: "(unat ((0 :: u8) AND 0x3f)) = 0" "((0 :: u8) AND 0x80 \<noteq> 0) = False" by simp_all
  have "0 < unat len" using assms(4) by linarith
  then have "int (unat len) - int 0 > 0" by linarith
  then have pos: "(int (unat len) - int 0 > 0) = True" by blast
  have blk: "rd_block ?b (?off + 4) (unat len - 0) = Inl (OOB_Read (?off + 4 + length rest))"
    using assms(4) by (simp add: rd_block_def)
  have up: "(\<not> bound (rx_device dm mux)) = False" using assms(3) by simp
  show ?thesis
    unfolding go
    by (subst rx_loop.simps, simp only: len if_True r0 bnd_simps Let_def,
        simp only: r2 bnd_simps Let_def r1 z if_False pos if_True up,
        simp only: sizeof_qmap_t_4 blk bnd_simps)
qed

theorem rx_fixup_overreads_truncated_frame_witness:
  "GobiNetDriver_rx_fixup (\<lambda>_. True) 0x81 (skb_example\<lparr>sk_data :=
      enc_qmaps [(0x81, [0x45, 0, 0, 0])] @ [0, 0x81] @ be16 0x05DC @ [0x45, 0]\<rparr>)
     = Inl (OOB_Read 14)"
  using rx_fixup_overreads_truncated_frame [of "[(0x81, [0x45, 0, 0, 0])]" "\<lambda>_. True" "0x81" "0x81"
      "[0x45, 0]" "0x05DC" skb_example]
  by (simp add: padding_count_def)

end
