(* ===== verification/QmiNet.thy ===== *)
theory QmiNet
  imports QmiResp Qmap
begin

text \<open>
  Applying the IP settings of \<^verbatim>\<open>src/src/linux/qcom_usbnet/qmi.c\<close>: the commands given to
  the user-mode helper script (\<open>QMI_IP_Down\<close>, \<open>QMIIPAssignment\<close>, \<open>IPRoute\<close>), formatted with
  \<open>sprintf\<close> into heap buffers of fixed size, and the handlers that read the settings out of QMI
  messages (\<open>QMIWDSGetRuntimeSettingsResp\<close>, \<open>QMIWDSReverseIPTransportConnInd\<close>).
  \<open>call_usermodehelper\<close> is the argument \<open>umh\<close>: the value it returns for a command. The commands
  run and the \<open>usbnet_change_mtu\<close> calls are logged in order, and the buffers obtained with
  \<open>kzalloc\<close> and not yet freed are counted. The unchecked \<open>kzalloc\<close> calls are taken to succeed.
\<close>

unbundle bit_operations_syntax

section \<open>Text\<close>

text \<open>\<open>sprintf\<close> into a buffer of \<open>n\<close> bytes: the text and its terminating NUL.\<close>

definition sprintf_to :: "nat \<Rightarrow> string \<Rightarrow> fault + string" where
  "sprintf_to n s = (if length s < n then Inr s else Inl (OOB_Write n))"

lemma sprintf_to_ok [simp]: "length s < n \<Longrightarrow> sprintf_to n s = Inr s"
  by (simp add: sprintf_to_def)

lemma sprintf_to_over [simp]: "n \<le> length s \<Longrightarrow> sprintf_to n s = Inl (OOB_Write n)"
  by (simp add: sprintf_to_def)

text \<open>\<open>%d\<close> of a non-negative number.\<close>

fun decimal :: "nat \<Rightarrow> string" where
  "decimal n = (if n < 10 then [char_of (48 + n)] else decimal (n div 10) @ [char_of (48 + n mod 10)])"

declare decimal.simps [simp del]

definition ip_text :: "u32 \<Rightarrow> string" where
  "ip_text addr = decimal (unat (drop_bit 24 addr)) @ ''.'' @ decimal (unat (drop_bit 16 addr AND 0xff))
     @ ''.'' @ decimal (unat (drop_bit 8 addr AND 0xff)) @ ''.'' @ decimal (unat (addr AND 0xff))"

section \<open>Network devices and settings\<close>

record net_device =
  nd_name :: string
  nd_up :: bool

datatype net_event = Run_Helper string | Change_Mtu netdev u32

record net_state =
  ns_dev :: "netdev \<Rightarrow> net_device option"
  ns_log :: "net_event list"
  ns_allocs :: int

record ip_config =
  MuxId :: u16
  IPv4Addr :: u32
  IPv4SubnetMask :: u32
  IPv4Gateway :: u32
  IPv4PrimaryDNS :: u32
  IPv4SecondaryDNS :: u32
  ipv6_address :: bytes
  ipv6_gateway :: bytes
  ipv6_primaydns :: bytes
  ipv6_secondarydns :: bytes

abbreviation "kzalloc n ns \<equiv> ns\<lparr>ns_allocs := ns_allocs ns + n\<rparr>"
abbreviation "kfree n ns \<equiv> ns\<lparr>ns_allocs := ns_allocs ns - n\<rparr>"
abbreviation "log e ns \<equiv> ns\<lparr>ns_log := ns_log ns @ [e]\<rparr>"

abbreviation "MAX_MUX_DEVICES \<equiv> (3 :: u32)"

text \<open>\<open>MuxId - 0x81\<close> as an unsigned number: 0 is the main device, 1 to 3 the MUX devices.\<close>

definition mux_netdev :: "u16 \<Rightarrow> netdev option" where
  "mux_netdev mux_id =
     (let MuxId = (ucast mux_id :: u32) - 0x81 in
      if MuxId = 0 then Some Main_Dev
      else if MuxId \<le> MAX_MUX_DEVICES then Some (Mux_Dev (unat (MuxId - 1)))
      else None)"

definition deref :: "'a option \<Rightarrow> fault + 'a" where
  "deref p = (case p of None \<Rightarrow> Inl Null_Deref | Some x \<Rightarrow> Inr x)"

lemma deref_simps [simp]: "deref None = Inl Null_Deref" "deref (Some x) = Inr x"
  by (simp_all add: deref_def)

section \<open>The commands\<close>

definition QMI_IP_Down :: "(string \<Rightarrow> int) \<Rightarrow> string \<Rightarrow> net_state \<Rightarrow> fault + (int \<times> net_state)" where
  "QMI_IP_Down umh InterfaceName ns =
     (let ns = kzalloc 1 ns; ns = kzalloc 1 ns in
      bnd (sprintf_to 30 (''sudo ip addr flush dev '' @ InterfaceName)) (\<lambda>cmdArg1.
      let ret = umh cmdArg1; ns = log (Run_Helper cmdArg1) ns in
      if ret \<noteq> 0 then Inr (0, kfree 1 (kfree 1 ns))
      else
        let ns = kfree 1 ns in
        bnd (sprintf_to 30 (''sudo ifconfig '' @ InterfaceName @ '' down'')) (\<lambda>cmdArg2.
        let ret = umh cmdArg2; ns = log (Run_Helper cmdArg2) ns in
        if ret \<noteq> 0 then Inr (0, kfree 1 ns) else Inr (1, kfree 1 ns))))"

definition QMIIPAssignment ::
  "(string \<Rightarrow> int) \<Rightarrow> u32 \<Rightarrow> string \<Rightarrow> u16 \<Rightarrow> net_state \<Rightarrow> fault + (int \<times> net_state)" where
  "QMIIPAssignment umh addr subnetMask mux_id ns =
     (let ns = kzalloc 1 ns; ns = kzalloc 1 ns in
      bnd (case mux_netdev mux_id of
             None \<Rightarrow> Inr []
           | Some d \<Rightarrow> bnd (deref (ns_dev ns d)) (\<lambda>net. Inr (nd_name net))) (\<lambda>InterfaceName.
      if drop_bit 24 addr > 0 then
        bnd (sprintf_to 16 (ip_text addr)) (\<lambda>ip.
        bnd (sprintf_to 65 (''sudo ifconfig '' @ InterfaceName @ '' '' @ ip @ '' netmask ''
                            @ subnetMask @ '' up'')) (\<lambda>cmdArg.
        let ret = umh cmdArg; ns = log (Run_Helper cmdArg) ns in
        if ret \<noteq> 0 then Inr (0, kfree 1 (kfree 1 ns)) else Inr (1, kfree 1 (kfree 1 ns))))
      else Inr (0, ns)))"

definition IPRoute ::
  "(string \<Rightarrow> int) \<Rightarrow> string \<Rightarrow> u32 \<Rightarrow> string \<Rightarrow> net_state \<Rightarrow> fault + (int \<times> net_state)" where
  "IPRoute umh netAddr addr subnetMask ns =
     (let ns = kzalloc 1 ns; ns = kzalloc 1 ns in
      if drop_bit 24 addr > 0 then
        bnd (sprintf_to 16 (ip_text addr)) (\<lambda>gatewayIP.
        bnd (sprintf_to 90 (''sudo route add -net '' @ netAddr @ '' netmask '' @ subnetMask
                            @ '' gw '' @ gatewayIP)) (\<lambda>cmdArg.
        let ret = umh cmdArg; ns = log (Run_Helper cmdArg) ns in
        if ret \<noteq> 0 then Inr (0, kfree 1 (kfree 1 ns)) else Inr (1, kfree 1 (kfree 1 ns))))
      else Inr (0, ns))"

section \<open>The handlers\<close>

text \<open>The MTU branch both handlers end with.\<close>

definition change_mtu :: "u16 \<Rightarrow> u32 \<Rightarrow> net_state \<Rightarrow> fault + net_state" where
  "change_mtu mux_id mtu ns =
     (case mux_netdev mux_id of
        None \<Rightarrow> Inr ns
      | Some d \<Rightarrow> bnd (deref (ns_dev ns d)) (\<lambda>net.
          Inr (if nd_up net then log (Change_Mtu d mtu) ns else ns)))"

definition ipv4_text :: "u32 \<Rightarrow> string \<Rightarrow> fault + string" where
  "ipv4_text addr old = (if drop_bit 24 addr > 0 then sprintf_to 16 (ip_text addr) else Inr old)"

text \<open>
  The settings response: the subnet mask, the address, the gateway and its route; then the name
  servers, the IPv6 settings and the MTU. \<open>addr0\<close>, \<open>ipv60\<close> and \<open>mtu0\<close> are what the
  uninitialised locals hold.
\<close>

definition runtime_rest ::
  "ptr \<Rightarrow> u16 \<Rightarrow> u32 \<Rightarrow> bytes \<Rightarrow> u32 \<Rightarrow> ip_config \<Rightarrow> net_state \<Rightarrow> fault + (int \<times> ip_config \<times> net_state)" where
  "runtime_rest msg len addr ipv60 mtu0 cfg ns =
     bnd (get_tlv_u32 msg len 0x15 addr) (\<lambda>(result, addr).
     let cfg = (if result > 0 then cfg\<lparr>IPv4PrimaryDNS := addr\<rparr> else cfg) in
     bnd (get_tlv_u32 msg len 0x16 addr) (\<lambda>(result, addr).
     let cfg = (if result > 0 then cfg\<lparr>IPv4SecondaryDNS := addr\<rparr> else cfg) in
     bnd (get_tlv_bytes msg len 0x25 ipv60 17) (\<lambda>(result, ipv6).
     let cfg = (if result > 0 then cfg\<lparr>ipv6_address := ipv6\<rparr> else cfg) in
     bnd (get_tlv_bytes msg len 0x26 ipv6 17) (\<lambda>(result, ipv6).
     let cfg = (if result > 0 then cfg\<lparr>ipv6_gateway := ipv6\<rparr> else cfg) in
     bnd (get_tlv_bytes msg len 0x27 ipv6 17) (\<lambda>(result, ipv6).
     let cfg = (if result > 0 then cfg\<lparr>ipv6_primaydns := ipv6\<rparr> else cfg) in
     bnd (get_tlv_bytes msg len 0x28 ipv6 17) (\<lambda>(result, ipv6).
     let cfg = (if result > 0 then cfg\<lparr>ipv6_secondarydns := ipv6\<rparr> else cfg) in
     bnd (get_tlv_u32 msg len 0x29 mtu0) (\<lambda>(result, mtu).
     bnd (if result > 0 then change_mtu (MuxId cfg) mtu ns else Inr ns) (\<lambda>ns.
     Inr (0, cfg, ns)))))))))"

definition runtime_address ::
  "(string \<Rightarrow> int) \<Rightarrow> ptr \<Rightarrow> u16 \<Rightarrow> u32 \<Rightarrow> ip_config \<Rightarrow> net_state
   \<Rightarrow> fault + (string \<times> u32 \<times> ip_config \<times> net_state)" where
  "runtime_address umh msg len addr0 cfg ns =
     bnd (get_tlv_u32 msg len 0x21 addr0) (\<lambda>(result, addr).
     bnd (if result > 0 then
            bnd (ipv4_text addr []) (\<lambda>subnetMask. Inr (subnetMask, cfg\<lparr>IPv4SubnetMask := addr\<rparr>))
          else Inr ([], cfg)) (\<lambda>(subnetMask, cfg).
     bnd (get_tlv_u32 msg len 0x1E addr) (\<lambda>(result, addr).
     if result > 0 then
       bnd (QMIIPAssignment umh addr subnetMask (MuxId cfg) ns) (\<lambda>(_, ns).
       Inr (subnetMask, addr, cfg\<lparr>IPv4Addr := addr\<rparr>, ns))
     else Inr (subnetMask, addr, cfg, ns))))"

definition runtime_gateway ::
  "(string \<Rightarrow> int) \<Rightarrow> ptr \<Rightarrow> u16 \<Rightarrow> string \<Rightarrow> u32 \<Rightarrow> ip_config \<Rightarrow> net_state
   \<Rightarrow> fault + (u32 \<times> ip_config \<times> net_state)" where
  "runtime_gateway umh msg len subnetMask addr cfg ns =
     bnd (get_tlv_u32 msg len 0x20 addr) (\<lambda>(result, addr).
     if result > 0 then
       let cfg = cfg\<lparr>IPv4Gateway := addr\<rparr>;
           addr_tmp = IPv4Addr cfg AND IPv4SubnetMask cfg in
       bnd (ipv4_text addr_tmp []) (\<lambda>netAddr.
       bnd (IPRoute umh netAddr addr subnetMask ns) (\<lambda>(_, ns).
       Inr (addr, cfg, kfree 1 (kfree 1 ns))))
     else Inr (addr, cfg, ns))"

definition QMIWDSGetRuntimeSettingsResp ::
  "(string \<Rightarrow> int) \<Rightarrow> u32 \<Rightarrow> bytes \<Rightarrow> u32 \<Rightarrow> ptr \<Rightarrow> u16 \<Rightarrow> ip_config \<Rightarrow> net_state
   \<Rightarrow> fault + (int \<times> ip_config \<times> net_state)" where
  "QMIWDSGetRuntimeSettingsResp umh addr0 ipv60 mtu0 pBuffer buffSize cfg ns =
     (let ns = kzalloc 1 (kzalloc 1 ns); offset = sizeof_sQMUX + 3;
          msg = skip offset pBuffer; len = buffSize - word_of_nat offset in
      bnd (GetQMIMessageID msg len) (\<lambda>result.
      if result \<noteq> 0x2D then Inr (- EFAULT, cfg, ns) else
      bnd (ValidQMIMessage msg len) (\<lambda>result.
      if result \<noteq> 0 then Inr (- EFAULT, cfg, ns) else
      bnd (runtime_address umh msg len addr0 cfg ns) (\<lambda>(subnetMask, addr, cfg, ns).
      bnd (runtime_gateway umh msg len subnetMask addr cfg ns) (\<lambda>(addr, cfg, ns).
      runtime_rest msg len addr ipv60 mtu0 cfg ns)))))"

definition QMIWDSReverseIPTransportConnInd ::
  "u32 \<Rightarrow> ptr \<Rightarrow> u16 \<Rightarrow> u16 \<Rightarrow> net_state \<Rightarrow> fault + (int \<times> net_state)" where
  "QMIWDSReverseIPTransportConnInd mtu0 pBuffer buffSize mux_id ns =
     (let offset = sizeof_sQMUX + 3;
          msg = skip offset pBuffer; len = buffSize - word_of_nat offset in
      bnd (GetQMIMessageID msg len) (\<lambda>result.
      if result \<noteq> 0x8E then Inr (- EFAULT, ns) else
      bnd (get_tlv_u32 msg len 0x15 mtu0) (\<lambda>(result, mtu).
      bnd (if result > 0 then change_mtu mux_id mtu ns else Inr ns) (\<lambda>ns.
      Inr (0, ns)))))"

section \<open>Lengths of the texts\<close>

lemma length_decimal: "n < 256 \<Longrightarrow> length (decimal n) \<le> 3"
proof -
  assume "n < 256"
  then have "n div 10 div 10 < 10" by linarith
  then show ?thesis
    by (subst decimal.simps, subst decimal.simps, subst decimal.simps) auto
qed

lemma unat_top_byte: "unat (drop_bit 24 (a :: u32)) < 256"
proof -
  have "unat (drop_bit 24 a) = unat a div 16777216" by (simp add: drop_bit_eq_div unat_div)
  then show ?thesis using unat_u32_lt [of a] by linarith
qed

lemma unat_and_ff: "unat (a AND 0xff :: u32) < 256"
proof -
  have "a AND 0xff \<le> 0xff" by (rule word_and_le1)
  then show ?thesis by (simp add: word_le_nat_alt)
qed

lemma length_ip_text: "length (ip_text a) \<le> 15"
  using length_decimal [OF unat_top_byte [of a]] length_decimal [OF unat_and_ff [of "drop_bit 16 a"]]
    length_decimal [OF unat_and_ff [of "drop_bit 8 a"]] length_decimal [OF unat_and_ff [of a]]
  by (simp add: ip_text_def)

lemma ipv4_text_eq: "ipv4_text a old = Inr (if drop_bit 24 a > 0 then ip_text a else old)"
  using length_ip_text [of a] by (simp add: ipv4_text_def)

section \<open>Properties\<close>

text \<open>
  Taking an interface down is safe exactly for short interface names: with up to six
  characters both commands fit their 30-byte buffers, the flush command runs first, the down
  command only if the flush succeeded, the result is 1 exactly when both succeed and all
  buffers are freed; with seven characters or more the first sprintf writes past its buffer.
\<close>

theorem QMI_IP_Down_safe_iff_short_name:
  "QMI_IP_Down umh name ns =
     (let c1 = ''sudo ip addr flush dev '' @ name; c2 = ''sudo ifconfig '' @ name @ '' down'' in
      if length name \<le> 6 then
        Inr (if umh c1 = 0 \<and> umh c2 = 0 then 1 else 0,
             ns\<lparr>ns_log := ns_log ns @ Run_Helper c1 # (if umh c1 = 0 then [Run_Helper c2] else [])\<rparr>)
      else Inl (OOB_Write 30))"
  by (auto simp: QMI_IP_Down_def Let_def)

text \<open>
  Assigning an address is safe exactly when the interface name, the address and the mask
  together have at most 37 characters: then the ifconfig command runs once and its
  buffers are freed; otherwise the sprintf writes past the 65-byte command buffer.
\<close>

theorem QMIIPAssignment_safe_iff:
  assumes "mux_netdev m = Some d" and "ns_dev ns d = Some net" and "drop_bit 24 addr > 0"
  shows "QMIIPAssignment umh addr sm m ns =
     (let c = ''sudo ifconfig '' @ nd_name net @ '' '' @ ip_text addr @ '' netmask '' @ sm @ '' up'' in
      if length (nd_name net) + length (ip_text addr) + length sm \<le> 37 then
        Inr (if umh c = 0 then 1 else 0, ns\<lparr>ns_log := ns_log ns @ [Run_Helper c]\<rparr>)
      else Inl (OOB_Write 65))"
proof -
  have "length (ip_text addr) < 16" using length_ip_text [of addr] by simp
  with assms show ?thesis by (auto simp: QMIIPAssignment_def Let_def)
qed

definition net_example :: "string \<Rightarrow> net_state" where
  "net_example name = \<lparr>ns_dev = (\<lambda>d. if d = Main_Dev then Some \<lparr>nd_name = name, nd_up = True\<rparr> else None),
     ns_log = [], ns_allocs = 0\<rparr>"

theorem QMIIPAssignment_safe_iff_witness:
  "QMIIPAssignment (\<lambda>_. 0) 0xC0A86464 ''255.255.255.255'' 0x81 (net_example ''wwp0s20f0u2'')
     = Inl (OOB_Write 65)"
  using QMIIPAssignment_safe_iff [of "0x81" Main_Dev "net_example ''wwp0s20f0u2''"
      "\<lparr>nd_name = ''wwp0s20f0u2'', nd_up = True\<rparr>" "0xC0A86464" "\<lambda>_. 0" "''255.255.255.255''"]
  by (simp add: mux_netdev_def net_example_def ip_text_def decimal.simps Let_def)

section \<open>What the settings handler stores\<close>

text \<open>The value of a TLV of the expected length, in place of the old one.\<close>

definition tlv_u32 :: "u8 \<Rightarrow> tlv list \<Rightarrow> u32 \<Rightarrow> u32" where
  "tlv_u32 t tlvs old = (case tlv_lookup t tlvs of None \<Rightarrow> old | Some v \<Rightarrow> of_le32 v)"

definition tlv_blob :: "u8 \<Rightarrow> tlv list \<Rightarrow> bytes \<Rightarrow> bytes" where
  "tlv_blob t tlvs old = (case tlv_lookup t tlvs of None \<Rightarrow> old | Some v \<Rightarrow> v)"

abbreviation "has_tlv t tlvs \<equiv> tlv_lookup t tlvs \<noteq> None"

definition sized_tlvs :: "tlv list \<Rightarrow> bool" where
  "sized_tlvs tlvs \<longleftrightarrow>
     (\<forall>t \<in> {0x15, 0x16, 0x1E, 0x20, 0x21, 0x29}. \<forall>v. tlv_lookup t tlvs = Some v \<longrightarrow> length v = 4)
     \<and> (\<forall>t \<in> {0x25, 0x26, 0x27, 0x28}. \<forall>v. tlv_lookup t tlvs = Some v \<longrightarrow> length v = 17)"

text \<open>The settings after the message: every TLV that is present replaces its field.\<close>

definition settings :: "tlv list \<Rightarrow> ip_config \<Rightarrow> ip_config" where
  "settings tlvs cfg = cfg\<lparr>IPv4SubnetMask := tlv_u32 0x21 tlvs (IPv4SubnetMask cfg),
     IPv4Addr := tlv_u32 0x1E tlvs (IPv4Addr cfg), IPv4Gateway := tlv_u32 0x20 tlvs (IPv4Gateway cfg),
     IPv4PrimaryDNS := tlv_u32 0x15 tlvs (IPv4PrimaryDNS cfg),
     IPv4SecondaryDNS := tlv_u32 0x16 tlvs (IPv4SecondaryDNS cfg),
     ipv6_address := tlv_blob 0x25 tlvs (ipv6_address cfg),
     ipv6_gateway := tlv_blob 0x26 tlvs (ipv6_gateway cfg),
     ipv6_primaydns := tlv_blob 0x27 tlvs (ipv6_primaydns cfg),
     ipv6_secondarydns := tlv_blob 0x28 tlvs (ipv6_secondarydns cfg)\<rparr>"

text \<open>The buffers a call leaves behind: those of a zero-net address, and the two texts unless a
  gateway is there to free them.\<close>

definition leaked :: "tlv list \<Rightarrow> int" where
  "leaked tlvs =
     (if has_tlv 0x20 tlvs then (if drop_bit 24 (tlv_u32 0x20 tlvs 0) > 0 then 0 else 2) else 2)
     + (if has_tlv 0x1E tlvs then (if drop_bit 24 (tlv_u32 0x1E tlvs 0) > 0 then 0 else 2) else 0)"

lemma of_le32_append: "length v = 4 \<Longrightarrow> of_le32 (v @ []) = of_le32 v"
  by simp

definition tlv_n :: "u8 \<Rightarrow> tlv list \<Rightarrow> int \<Rightarrow> int" where
  "tlv_n t tlvs n = (if has_tlv t tlvs then n else - ENOMSG)"

lemma tlv_n_pos [simp]: "0 < n \<Longrightarrow> 0 < tlv_n t tlvs n \<longleftrightarrow> has_tlv t tlvs"
  by (simp add: tlv_n_def)

lemma read_u32:
  assumes "\<forall>f \<in> set tlvs. tlv_valid f" and "unat len = length (qmi_msg i tlvs)"
    and "\<forall>v. tlv_lookup t tlvs = Some v \<longrightarrow> length v = 4"
  shows "get_tlv_u32 (Some (qmi_msg i tlvs @ post)) len t old
           = Inr (tlv_n t tlvs 4, tlv_u32 t tlvs old)"
  using assms(3) unfolding get_tlv_u32_msg [OF assms(1,2)]
  by (auto simp: tlv_read_def tlv_n_def tlv_u32_def le32.dec_enc split: option.splits)

lemma read_blob:
  assumes "\<forall>f \<in> set tlvs. tlv_valid f" and "unat len = length (qmi_msg i tlvs)"
    and "\<forall>v. tlv_lookup t tlvs = Some v \<longrightarrow> length v = 17" and "length old = 17"
  shows "get_tlv_bytes (Some (qmi_msg i tlvs @ post)) len t old 17
           = Inr (tlv_n t tlvs 17, tlv_blob t tlvs old)"
  using assms(3,4) get_tlv_bytes_msg [OF assms(1,2), of 17 old post t]
  by (auto simp: tlv_read_def tlv_n_def tlv_blob_def split: option.splits)

lemma length_tlv_blob:
  "length old = 17 \<Longrightarrow> \<forall>v. tlv_lookup t tlvs = Some v \<longrightarrow> length v = 17 \<Longrightarrow> length (tlv_blob t tlvs old) = 17"
  by (auto simp: tlv_blob_def split: option.splits)

text \<open>The commands on short names.\<close>

abbreviation "short_text s \<equiv> length s \<le> 15"

lemma assign_short:
  assumes "\<And>d. mux_netdev m = Some d \<Longrightarrow> \<exists>net. ns_dev ns d = Some net \<and> length (nd_name net) \<le> 7"
    and "short_text sm"
  shows "\<exists>r ns'. QMIIPAssignment umh a sm m ns = Inr (r, ns') \<and> ns_dev ns' = ns_dev ns
     \<and> ns_allocs ns' = ns_allocs ns + (if drop_bit 24 a > 0 then 0 else 2)"
proof -
  have i: "length (ip_text a) < 16" using length_ip_text [of a] by simp
  show ?thesis
    using assms i
    by (cases "mux_netdev m") (fastforce simp: QMIIPAssignment_def Let_def)+
qed

lemma route_short:
  assumes "short_text na" and "short_text sm"
  shows "\<exists>r ns'. IPRoute umh na a sm ns = Inr (r, ns') \<and> ns_dev ns' = ns_dev ns
     \<and> ns_allocs ns' = ns_allocs ns + (if drop_bit 24 a > 0 then 0 else 2)"
proof -
  have i: "length (ip_text a) < 16" using length_ip_text [of a] by simp
  then show ?thesis using assms by (auto simp: IPRoute_def Let_def)
qed

text \<open>The three parts on a well-formed message.\<close>

definition short_names :: "u16 \<Rightarrow> net_state \<Rightarrow> bool" where
  "short_names m ns \<longleftrightarrow> (case mux_netdev m of None \<Rightarrow> True
     | Some d \<Rightarrow> (case ns_dev ns d of None \<Rightarrow> False | Some net \<Rightarrow> length (nd_name net) \<le> 7))"

lemma short_names_dev: "ns_dev ns' = ns_dev ns \<Longrightarrow> short_names m ns' = short_names m ns"
  by (cases "mux_netdev m") (simp_all add: short_names_def)

lemma tlv_u32_irrelevant: "has_tlv t tlvs \<Longrightarrow> tlv_u32 t tlvs a = tlv_u32 t tlvs b"
  by (auto simp: tlv_u32_def)

lemma runtime_address_ok:
  assumes msg: "\<forall>f \<in> set tlvs. tlv_valid f" "unat len = length (qmi_msg i tlvs)"
    and "sized_tlvs tlvs" and "short_names (MuxId cfg) ns"
  shows "\<exists>sm ns'. runtime_address umh (Some (qmi_msg i tlvs @ post)) len addr0 cfg ns
       = Inr (sm, tlv_u32 0x1E tlvs (tlv_u32 0x21 tlvs addr0),
          cfg\<lparr>IPv4SubnetMask := tlv_u32 0x21 tlvs (IPv4SubnetMask cfg),
              IPv4Addr := tlv_u32 0x1E tlvs (IPv4Addr cfg)\<rparr>, ns')
     \<and> short_text sm \<and> ns_dev ns' = ns_dev ns
     \<and> ns_allocs ns' = ns_allocs ns
         + (if has_tlv 0x1E tlvs then (if drop_bit 24 (tlv_u32 0x1E tlvs 0) > 0 then 0 else 2) else 0)"
proof -
  let ?a1 = "tlv_u32 0x21 tlvs addr0" and ?a2 = "tlv_u32 0x1E tlvs (tlv_u32 0x21 tlvs addr0)"
  let ?sm = "if has_tlv 0x21 tlvs \<and> drop_bit 24 ?a1 > 0 then ip_text ?a1 else []"
  let ?cfg = "cfg\<lparr>IPv4SubnetMask := tlv_u32 0x21 tlvs (IPv4SubnetMask cfg)\<rparr>"
  have s: "short_text ?sm" using length_ip_text by simp
  have r: "get_tlv_u32 (Some (qmi_msg i tlvs @ post)) len t old = Inr (tlv_n t tlvs 4, tlv_u32 t tlvs old)"
    if "t = 0x21 \<or> t = 0x1E" for t old
    using that assms(3) by (intro read_u32 [OF msg]) (auto simp: sized_tlvs_def)
  obtain x ns' where q: "QMIIPAssignment umh ?a2 ?sm (MuxId cfg) ns = Inr (x, ns')"
    "ns_dev ns' = ns_dev ns" "ns_allocs ns' = ns_allocs ns + (if drop_bit 24 ?a2 > 0 then 0 else 2)"
    using assign_short [OF _ s, of "MuxId cfg" ns umh ?a2] assms(4)
    by (auto simp: short_names_def split: option.splits)
  have part1: "(if 0 < tlv_n 0x21 tlvs 4 then bnd (ipv4_text ?a1 [])
        (\<lambda>sm. Inr (sm, cfg\<lparr>IPv4SubnetMask := ?a1\<rparr>)) else Inr ([], cfg)) = Inr (?sm, ?cfg)"
    by (auto simp: ipv4_text_eq tlv_u32_def)
  show ?thesis
  proof (cases "has_tlv 0x1E tlvs")
    case True
    then have e: "?a2 = tlv_u32 0x1E tlvs 0" "tlv_u32 0x1E tlvs (IPv4Addr cfg) = tlv_u32 0x1E tlvs 0"
      by (rule tlv_u32_irrelevant)+
    have "runtime_address umh (Some (qmi_msg i tlvs @ post)) len addr0 cfg ns
        = Inr (?sm, ?a2, ?cfg\<lparr>IPv4Addr := ?a2\<rparr>, ns')"
      unfolding runtime_address_def r [OF disjI1 [OF refl]] r [OF disjI2 [OF refl]] bnd_simps prod.case part1
      using True q(1) by (simp del: if_split)
    then show ?thesis using q(2,3) s e True by (intro exI [of _ ?sm] exI [of _ ns']) simp
  next
    case False
    then have u: "tlv_u32 0x1E tlvs old = old" for old by (simp add: tlv_u32_def)
    have "runtime_address umh (Some (qmi_msg i tlvs @ post)) len addr0 cfg ns
        = Inr (?sm, ?a1, ?cfg, ns)"
      unfolding runtime_address_def r [OF disjI1 [OF refl]] r [OF disjI2 [OF refl]] bnd_simps prod.case part1
      using False by (simp add: u del: if_split)
    then show ?thesis using s u False by (intro exI [of _ ?sm] exI [of _ ns]) simp
  qed
qed

lemma runtime_gateway_ok:
  assumes msg: "\<forall>f \<in> set tlvs. tlv_valid f" "unat len = length (qmi_msg i tlvs)"
    and "sized_tlvs tlvs" and "short_text sm"
  shows "\<exists>ns'. runtime_gateway umh (Some (qmi_msg i tlvs @ post)) len sm addr cfg ns
       = Inr (tlv_u32 0x20 tlvs addr, cfg\<lparr>IPv4Gateway := tlv_u32 0x20 tlvs (IPv4Gateway cfg)\<rparr>, ns')
     \<and> ns_dev ns' = ns_dev ns
     \<and> ns_allocs ns' = ns_allocs ns + (if has_tlv 0x20 tlvs
         then (if drop_bit 24 (tlv_u32 0x20 tlvs 0) > 0 then 0 else 2) - 2 else 0)"
proof -
  have r: "get_tlv_u32 (Some (qmi_msg i tlvs @ post)) len 0x20 addr
      = Inr (tlv_n 0x20 tlvs 4, tlv_u32 0x20 tlvs addr)"
    using assms(3) by (intro read_u32 [OF msg]) (auto simp: sized_tlvs_def)
  show ?thesis
  proof (cases "has_tlv 0x20 tlvs")
    case True
    then have e: "tlv_u32 0x20 tlvs addr = tlv_u32 0x20 tlvs 0"
      "tlv_u32 0x20 tlvs (IPv4Gateway cfg) = tlv_u32 0x20 tlvs 0"
      by (rule tlv_u32_irrelevant)+
    define na where "na = (if drop_bit 24 (IPv4Addr cfg AND IPv4SubnetMask cfg) > 0
      then ip_text (IPv4Addr cfg AND IPv4SubnetMask cfg) else [])"
    have "short_text na" using length_ip_text by (simp add: na_def)
    from route_short [OF this assms(4), of umh "tlv_u32 0x20 tlvs 0" ns] obtain x ns' where
      q: "IPRoute umh na (tlv_u32 0x20 tlvs 0) sm ns = Inr (x, ns')" "ns_dev ns' = ns_dev ns"
      "ns_allocs ns' = ns_allocs ns + (if drop_bit 24 (tlv_u32 0x20 tlvs 0) > 0 then 0 else 2)" by blast
    have nt: "ipv4_text (IPv4Addr (cfg\<lparr>IPv4Gateway := g\<rparr>) AND IPv4SubnetMask (cfg\<lparr>IPv4Gateway := g\<rparr>)) []
        = Inr na" for g
      unfolding ipv4_text_eq na_def by simp
    have "runtime_gateway umh (Some (qmi_msg i tlvs @ post)) len sm addr cfg ns
        = Inr (tlv_u32 0x20 tlvs 0, cfg\<lparr>IPv4Gateway := tlv_u32 0x20 tlvs 0\<rparr>, kfree 1 (kfree 1 ns'))"
      unfolding runtime_gateway_def r e Let_def bnd_simps prod.case nt
      using True by (simp add: q(1))
    then show ?thesis using q(2,3) e True by simp
  next
    case False
    then have u: "tlv_u32 0x20 tlvs old = old" for old by (simp add: tlv_u32_def)
    with False show ?thesis by (simp add: runtime_gateway_def r)
  qed
qed

text \<open>A field of the record is replaced exactly when its TLV is there.\<close>

lemma settings_fields:
  "(if has_tlv t tlvs then cfg\<lparr>IPv4PrimaryDNS := tlv_u32 t tlvs a\<rparr> else cfg)
     = cfg\<lparr>IPv4PrimaryDNS := tlv_u32 t tlvs (IPv4PrimaryDNS cfg)\<rparr>"
  "(if has_tlv t tlvs then cfg\<lparr>IPv4SecondaryDNS := tlv_u32 t tlvs a\<rparr> else cfg)
     = cfg\<lparr>IPv4SecondaryDNS := tlv_u32 t tlvs (IPv4SecondaryDNS cfg)\<rparr>"
  "(if has_tlv t tlvs then cfg\<lparr>ipv6_address := tlv_blob t tlvs b\<rparr> else cfg)
     = cfg\<lparr>ipv6_address := tlv_blob t tlvs (ipv6_address cfg)\<rparr>"
  "(if has_tlv t tlvs then cfg\<lparr>ipv6_gateway := tlv_blob t tlvs b\<rparr> else cfg)
     = cfg\<lparr>ipv6_gateway := tlv_blob t tlvs (ipv6_gateway cfg)\<rparr>"
  "(if has_tlv t tlvs then cfg\<lparr>ipv6_primaydns := tlv_blob t tlvs b\<rparr> else cfg)
     = cfg\<lparr>ipv6_primaydns := tlv_blob t tlvs (ipv6_primaydns cfg)\<rparr>"
  "(if has_tlv t tlvs then cfg\<lparr>ipv6_secondarydns := tlv_blob t tlvs b\<rparr> else cfg)
     = cfg\<lparr>ipv6_secondarydns := tlv_blob t tlvs (ipv6_secondarydns cfg)\<rparr>"
  by (auto simp: tlv_u32_def tlv_blob_def)

lemma runtime_rest_ok:
  assumes msg: "\<forall>f \<in> set tlvs. tlv_valid f" "unat len = length (qmi_msg i tlvs)"
    and "sized_tlvs tlvs" and "short_names (MuxId cfg) ns" and "length ipv60 = 17"
  shows "\<exists>ns'. runtime_rest (Some (qmi_msg i tlvs @ post)) len addr ipv60 mtu0 cfg ns
       = Inr (0, cfg\<lparr>IPv4PrimaryDNS := tlv_u32 0x15 tlvs (IPv4PrimaryDNS cfg),
           IPv4SecondaryDNS := tlv_u32 0x16 tlvs (IPv4SecondaryDNS cfg),
           ipv6_address := tlv_blob 0x25 tlvs (ipv6_address cfg),
           ipv6_gateway := tlv_blob 0x26 tlvs (ipv6_gateway cfg),
           ipv6_primaydns := tlv_blob 0x27 tlvs (ipv6_primaydns cfg),
           ipv6_secondarydns := tlv_blob 0x28 tlvs (ipv6_secondarydns cfg)\<rparr>, ns')
     \<and> ns_allocs ns' = ns_allocs ns"
proof -
  have r: "get_tlv_u32 (Some (qmi_msg i tlvs @ post)) len t old
      = Inr (tlv_n t tlvs 4, tlv_u32 t tlvs old)" if "t \<in> {0x15, 0x16, 0x29}" for t old
    using that assms(3) by (intro read_u32 [OF msg]) (auto simp: sized_tlvs_def)
  have b: "get_tlv_bytes (Some (qmi_msg i tlvs @ post)) len t old 17
      = Inr (tlv_n t tlvs 17, tlv_blob t tlvs old)" "length (tlv_blob t tlvs old) = 17"
    if "t \<in> {0x25, 0x26, 0x27, 0x28}" "length old = 17" for t old
    using that assms(3) by (auto simp: sized_tlvs_def intro!: read_blob [OF msg] length_tlv_blob)
  have p: "0 < tlv_n t tlvs 4 \<longleftrightarrow> has_tlv t tlvs" "0 < tlv_n t tlvs 17 \<longleftrightarrow> has_tlv t tlvs" for t
    by simp_all
  have "\<exists>ns'. change_mtu (MuxId cfg) u ns = Inr ns' \<and> ns_allocs ns' = ns_allocs ns" for u
    using assms(4) by (auto simp: change_mtu_def short_names_def split: option.splits)
  then obtain ns' where m: "(if has_tlv 0x29 tlvs then change_mtu (MuxId cfg) (tlv_u32 0x29 tlvs mtu0) ns
      else Inr ns) = Inr ns'" and a: "ns_allocs ns' = ns_allocs ns"
    by (cases "has_tlv 0x29 tlvs") (simp_all only: if_True if_False simp_thms, blast+)
  have blobs: "length (tlv_blob 0x25 tlvs ipv60) = 17"
    "length (tlv_blob 0x26 tlvs (tlv_blob 0x25 tlvs ipv60)) = 17"
    "length (tlv_blob 0x27 tlvs (tlv_blob 0x26 tlvs (tlv_blob 0x25 tlvs ipv60))) = 17"
    using assms(5) by (simp_all add: b)
  have c: "(0x15 :: u8) \<in> {0x15, 0x16, 0x29}" "(0x16 :: u8) \<in> {0x15, 0x16, 0x29}"
    "(0x29 :: u8) \<in> {0x15, 0x16, 0x29}" "(0x25 :: u8) \<in> {0x25, 0x26, 0x27, 0x28}"
    "(0x26 :: u8) \<in> {0x25, 0x26, 0x27, 0x28}" "(0x27 :: u8) \<in> {0x25, 0x26, 0x27, 0x28}"
    "(0x28 :: u8) \<in> {0x25, 0x26, 0x27, 0x28}" by blast+
  note reads = r [OF c(1)] r [OF c(2)] r [OF c(3)] b(1) [OF c(4) assms(5)] b(1) [OF c(5) blobs(1)]
    b(1) [OF c(6) blobs(2)] b(1) [OF c(7) blobs(3)]
  have mx: "MuxId (cfg\<lparr>IPv4PrimaryDNS := u, IPv4SecondaryDNS := v, ipv6_address := w,
      ipv6_gateway := x, ipv6_primaydns := y, ipv6_secondarydns := z\<rparr>) = MuxId cfg"
    for u v w x y z by simp
  show ?thesis
    using a unfolding runtime_rest_def reads bnd_simps prod.case Let_def p settings_fields mx m
    by simp
qed


definition settings_example :: "tlv list" where
  "settings_example = [(2, [0, 0, 0, 0]), (0x21, [0, 255, 255, 255]), (0x1E, [2, 0, 168, 192]),
     (0x15, [8, 8, 8, 8]), (0x29, [0xDC, 5, 0, 0])]"

lemma settings_example_ok:
  "well_formed_response 3 (replicate 6 0) [0, 1, 0] settings_example"
  "valid_result settings_example = 0" "sized_tlvs settings_example"
  "short_names 0x81 (net_example ''usb0'')" "leaked settings_example = 2"
  "tlv_lookup 0x1E settings_example = Some [2, 0, 168, 192]"
  "tlv_lookup 0x20 settings_example = None"
  by (simp_all add: settings_example_def well_formed_response_def valid_result_def
      sized_tlvs_def short_names_def net_example_def mux_netdev_def leaked_def tlv_u32_def of_le32_def
      of_le16_def)

definition cfg_example :: ip_config where
  "cfg_example = \<lparr>MuxId = 0x81, IPv4Addr = 0, IPv4SubnetMask = 0, IPv4Gateway = 7, IPv4PrimaryDNS = 0,
     IPv4SecondaryDNS = 0, ipv6_address = [], ipv6_gateway = [], ipv6_primaydns = [],
     ipv6_secondarydns = []\<rparr>"


end
