(* ===== verification/ClientMem.thy ===== *)
theory ClientMem
  imports QmiNet
begin

text \<open>
  The client memory of \<^verbatim>\<open>src/src/linux/qcom_usbnet/qmidevice.c\<close>: per QMI device
  (\<open>mQMIDev\<close>, number 0 here, and the three \<open>mQMIMUXDev\<close>, 1 to 3) a list of clients, each with
  its unread data, its waiting notifications and its outstanding URBs, all under the spinlock
  \<open>mClientMemLock\<close>, which the model carries as a flag: taking it twice is \<open>Deadlock\<close>, giving
  back what is not held is \<open>Bad_Unlock\<close>. Allocation results are arguments.
\<close>

unbundle bit_operations_syntax

section \<open>State\<close>

text \<open>The notification functions.\<close>

datatype notify_fn = Fn_UpSem | Fn_QMIWDSCallback | Fn_QMIAIOReadcallback

record read_mem =
  rm_data :: bytes
  rm_tid :: u16
  rm_size :: u16

record notify_ent =
  nf_fun :: "notify_fn option"
  nf_tid :: u16
  nf_data :: nat

record client_mem =
  mClientID :: u16
  mList :: "read_mem list"
  mReadNotifyList :: "notify_ent list"
  mURBList :: "nat list"
  mWaitQueue :: nat

record qmi_dev =
  mClientMemList :: "client_mem list"
  mClientMemLock :: bool
  mQMITransactionID :: u16
  qd_cfg :: ip_config

record net_stats =
  tx_fifo_errors :: u64
  rx_fifo_errors :: u64
  tx_errors :: u64
  rx_errors :: u64
  tx_packets :: u64
  rx_packets :: u64
  tx_bytes :: u64
  rx_bytes :: u64

text \<open>An indication waiting for the worker thread.\<close>

record ind_data =
  ind_MsgId :: int
  ind_Data :: bytes
  ind_DataLen :: u16
  ind_ClientId :: u16
  ind_QMIDev :: nat

text \<open>
  The context of an asynchronous request of a user process (\<^verbatim>\<open>sIoData\<close>), by its address: the request it
  completes, the room left in the user's buffer, the duplicated iterator, and the data to copy.
  Work for the queue of the driver names the context it is for.
\<close>

record io_data =
  io_kiocb :: nat
  io_room :: nat
  io_to_free :: bool
  io_mpData :: ptr
  io_mDataLen :: u64

datatype work = Copy_Work nat | Cancel_Read_Work nat | Cancel_Write_Work nat

text \<open>The buffers and URBs of the read path: allocated or NULL; has the interrupt URB been filled?\<close>

record read_state =
  mpReadURB :: bool
  mpIntURB :: bool
  mpIntURB_dev :: bool
  mpReadBuffer :: bool
  mpIntBuffer :: bool
  mpReadSetupPacket :: bool

record gobi =
  mbQMIValid :: bool
  mbQMIReadyStatus :: bool
  mQMICTLTransactionID :: u32
  qmi_devs :: "nat \<Rightarrow> qmi_dev"
  semaphores :: "nat \<Rightarrow> nat"
  mDownReason :: u64
  net_link :: bool
  pStats :: net_stats
  mpIndDataInfoList :: "ind_data list"
  responseReadSem :: nat
  worker_ready :: bool
  rd :: read_state
  mIntfNum :: u8
  power_state :: int
  reset_resume :: bool
  mThreadDoWork :: nat
  int_submits :: nat
  read_submits :: nat
  usb_written :: "bytes list"
  mMEID :: bytes
  agg :: agg_limits
  io_ctxs :: "nat \<Rightarrow> io_data option"
  mpWorkQ :: "work list"

definition IsDeviceValid :: "gobi option \<Rightarrow> bool" where
  "IsDeviceValid pDev = (case pDev of None \<Rightarrow> False | Some g \<Rightarrow> mbQMIValid g)"

lemma IsDeviceValid_simps [simp]:
  "\<not> IsDeviceValid None"
  "IsDeviceValid (Some g) = mbQMIValid g"
  by (simp_all add: IsDeviceValid_def)

abbreviation "set_dev i f g \<equiv> g\<lparr>qmi_devs := (qmi_devs g)(i := f (qmi_devs g i))\<rparr>"

section \<open>The lock\<close>

definition spin_lock :: "nat \<Rightarrow> gobi \<Rightarrow> fault + gobi" where
  "spin_lock i g = (if mClientMemLock (qmi_devs g i) then Inl Deadlock
                    else Inr (set_dev i (\<lambda>d. d\<lparr>mClientMemLock := True\<rparr>) g))"

definition spin_unlock :: "nat \<Rightarrow> gobi \<Rightarrow> fault + gobi" where
  "spin_unlock i g = (if mClientMemLock (qmi_devs g i)
                      then Inr (set_dev i (\<lambda>d. d\<lparr>mClientMemLock := False\<rparr>) g)
                      else Inl Bad_Unlock)"

section \<open>Lists\<close>

text \<open>The first entry that matches and the list without it; the first entry that matches updated.\<close>

fun pop_first :: "('a \<Rightarrow> bool) \<Rightarrow> 'a list \<Rightarrow> ('a \<times> 'a list) option" where
  "pop_first P [] = None"
| "pop_first P (x # xs) =
     (if P x then Some (x, xs)
      else case pop_first P xs of None \<Rightarrow> None | Some (y, ys) \<Rightarrow> Some (y, x # ys))"

fun upd_first :: "('a \<Rightarrow> bool) \<Rightarrow> ('a \<Rightarrow> 'a) \<Rightarrow> 'a list \<Rightarrow> 'a list" where
  "upd_first P f [] = []"
| "upd_first P f (x # xs) = (if P x then f x # xs else x # upd_first P f xs)"

section \<open>The operations\<close>

definition FindClientMem :: "gobi \<Rightarrow> u16 \<Rightarrow> nat \<Rightarrow> client_mem option" where
  "FindClientMem g clientID i =
     (if \<not> IsDeviceValid (Some g) then None
      else if mClientMemList (qmi_devs g i) = [] then None
      else find (\<lambda>c. mClientID c = clientID) (mClientMemList (qmi_devs g i)))"

abbreviation "set_client clientID i f g \<equiv>
  set_dev i (\<lambda>d. d\<lparr>mClientMemList :=
    upd_first (\<lambda>c. mClientID c = clientID) f (mClientMemList d)\<rparr>) g"

definition AddToReadMemList ::
  "bool \<Rightarrow> gobi \<Rightarrow> u16 \<Rightarrow> u16 \<Rightarrow> bytes \<Rightarrow> u16 \<Rightarrow> nat \<Rightarrow> fault + (bool \<times> gobi)" where
  "AddToReadMemList alloc_ok g clientID transactionID pData dataSize i =
     (if \<not> IsDeviceValid (Some g) then Inr (False, g) else
      bnd (spin_lock i g) (\<lambda>g.
      case FindClientMem g clientID i of
        None \<Rightarrow> bnd (spin_unlock i g) (\<lambda>g. Inr (False, g))
      | Some _ \<Rightarrow>
          if \<not> alloc_ok then bnd (spin_unlock i g) (\<lambda>g. Inr (False, g))
          else
            let e = \<lparr>rm_data = pData, rm_tid = transactionID, rm_size = dataSize\<rparr>;
                g = set_client clientID i (\<lambda>c. c\<lparr>mList := mList c @ [e]\<rparr>) g
            in bnd (spin_unlock i g) (\<lambda>g. Inr (True, g))))"

text \<open>The result: the data and its size, or nothing (\<open>false\<close>).\<close>

definition PopFromReadMemList ::
  "gobi \<Rightarrow> u16 \<Rightarrow> u16 \<Rightarrow> nat \<Rightarrow> fault + ((bytes \<times> u16) option \<times> gobi)" where
  "PopFromReadMemList g clientID transactionID i =
     (if \<not> IsDeviceValid (Some g) then Inr (None, g) else
      bnd (spin_lock i g) (\<lambda>g.
      case FindClientMem g clientID i of
        None \<Rightarrow> bnd (spin_unlock i g) (\<lambda>g. Inr (None, g))
      | Some c \<Rightarrow>
          (case pop_first (\<lambda>e. transactionID = 0 \<or> transactionID = rm_tid e) (mList c) of
             Some (e, rest) \<Rightarrow>
               let g = set_client clientID i (\<lambda>c. c\<lparr>mList := rest\<rparr>) g
               in bnd (spin_unlock i g) (\<lambda>g. Inr (Some (rm_data e, rm_size e), g))
           | None \<Rightarrow> bnd (spin_unlock i g) (\<lambda>g. Inr (None, g)))))"

definition AddToNotifyList ::
  "bool \<Rightarrow> gobi \<Rightarrow> u16 \<Rightarrow> u16 \<Rightarrow> notify_fn option \<Rightarrow> nat \<Rightarrow> nat \<Rightarrow> fault + (bool \<times> gobi)" where
  "AddToNotifyList alloc_ok g clientID transactionID pNotifyFunct pData i =
     (if \<not> IsDeviceValid (Some g) then Inr (False, g) else
      bnd (spin_lock i g) (\<lambda>g.
      case FindClientMem g clientID i of
        None \<Rightarrow> bnd (spin_unlock i g) (\<lambda>g. Inr (False, g))
      | Some _ \<Rightarrow>
          if \<not> alloc_ok then bnd (spin_unlock i g) (\<lambda>g. Inr (False, g))
          else
            let e = \<lparr>nf_fun = pNotifyFunct, nf_tid = transactionID, nf_data = pData\<rparr>;
                g = set_client clientID i (\<lambda>c. c\<lparr>mReadNotifyList := mReadNotifyList c @ [e]\<rparr>) g
            in bnd (spin_unlock i g) (\<lambda>g. Inr (True, g))))"

definition AddToURBList :: "bool \<Rightarrow> gobi \<Rightarrow> u16 \<Rightarrow> nat \<Rightarrow> nat \<Rightarrow> fault + (bool \<times> gobi)" where
  "AddToURBList alloc_ok g clientID pURB i =
     (if \<not> IsDeviceValid (Some g) then Inr (False, g) else
      bnd (spin_lock i g) (\<lambda>g.
      case FindClientMem g clientID i of
        None \<Rightarrow> bnd (spin_unlock i g) (\<lambda>g. Inr (False, g))
      | Some _ \<Rightarrow>
          if \<not> alloc_ok then bnd (spin_unlock i g) (\<lambda>g. Inr (False, g))
          else
            let g = set_client clientID i (\<lambda>c. c\<lparr>mURBList := mURBList c @ [pURB]\<rparr>) g
            in bnd (spin_unlock i g) (\<lambda>g. Inr (True, g))))"

definition PopFromURBList :: "gobi \<Rightarrow> u16 \<Rightarrow> nat \<Rightarrow> fault + (nat option \<times> gobi)" where
  "PopFromURBList g clientID i =
     (if \<not> IsDeviceValid (Some g) then Inr (None, g) else
      bnd (spin_lock i g) (\<lambda>g.
      case FindClientMem g clientID i of
        None \<Rightarrow> bnd (spin_unlock i g) (\<lambda>g. Inr (None, g))
      | Some c \<Rightarrow>
          (case mURBList c of
             pURB # rest \<Rightarrow>
               let g = set_client clientID i (\<lambda>c. c\<lparr>mURBList := rest\<rparr>) g
               in bnd (spin_unlock i g) (\<lambda>g. Inr (Some pURB, g))
           | [] \<Rightarrow> bnd (spin_unlock i g) (\<lambda>g. Inr (None, g)))))"

section \<open>Down reasons and the link\<close>

abbreviation (input) "NO_NDIS_CONNECTION \<equiv> (0 :: nat)"
abbreviation (input) "CDC_CONNECTION_SPEED \<equiv> (1 :: nat)"

text \<open>The reason is not used: only the link goes down.\<close>

definition GobiSetDownReason :: "gobi \<Rightarrow> nat \<Rightarrow> gobi" where
  "GobiSetDownReason g reason = g\<lparr>net_link := False\<rparr>"

definition GobiClearDownReason :: "gobi \<Rightarrow> nat \<Rightarrow> gobi" where
  "GobiClearDownReason g reason =
     (if \<not> IsDeviceValid (Some g) then g
      else if mDownReason g = 0 then g\<lparr>net_link := True\<rparr> else g)"

definition GobiTestDownReason :: "gobi \<Rightarrow> nat \<Rightarrow> bool" where
  "GobiTestDownReason g reason = (IsDeviceValid (Some g) \<and> bit (mDownReason g) reason)"

section \<open>Transaction ids\<close>

text \<open>
  \<open>atomic_add_return\<close> through a cast works on 32 bits: the 16-bit counter and the MUX id
  stored behind it (\<open>struct sQMIDev\<close>, little endian).
\<close>

definition tid_word :: "qmi_dev \<Rightarrow> u32" where
  "tid_word d = ucast (mQMITransactionID d) + 0x10000 * ucast (MuxId (qd_cfg d))"

definition atomic_add_1 :: "qmi_dev \<Rightarrow> u32 \<times> qmi_dev" where
  "atomic_add_1 d =
     (let w = tid_word d + 1
      in (w, d\<lparr>mQMITransactionID := ucast w, qd_cfg := (qd_cfg d)\<lparr>MuxId := ucast (drop_bit 16 w)\<rparr>\<rparr>))"

definition GetTransactionID :: "qmi_dev \<Rightarrow> u16 \<times> qmi_dev" where
  "GetTransactionID d =
     (let (w, d) = atomic_add_1 d; transactionID = ucast w :: u16
      in if transactionID = 0 then let (w, d) = atomic_add_1 d in (ucast w, d)
         else (transactionID, d))"

text \<open>The QMICTL counter, an \<open>atomic_t\<close> of its own, read as one byte.\<close>

definition next_ctl_tid :: "gobi \<Rightarrow> u8 \<times> gobi" where
  "next_ctl_tid g =
     (let w = mQMICTLTransactionID g + 1; g = g\<lparr>mQMICTLTransactionID := w\<rparr>; transactionID = ucast w :: u8
      in if transactionID = 0
         then let w = w + 1 in (ucast w, g\<lparr>mQMICTLTransactionID := w\<rparr>)
         else (transactionID, g))"

section \<open>Notification functions\<close>

definition UpSem :: "gobi \<Rightarrow> u16 \<Rightarrow> nat \<Rightarrow> nat \<Rightarrow> fault + gobi" where
  "UpSem g clientID pData i =
     (if \<not> IsDeviceValid (Some g) then Inr g
      else Inr (g\<lparr>semaphores := (semaphores g)(pData := semaphores g pData + 1)\<rparr>))"

text \<open>\<open>pCallback\<close> is what running the callback does to the state.\<close>

definition ReadAsync ::
  "bool \<Rightarrow> gobi \<Rightarrow> u16 \<Rightarrow> u16 \<Rightarrow> notify_fn option \<Rightarrow> (gobi \<Rightarrow> fault + gobi) \<Rightarrow> nat \<Rightarrow> nat
   \<Rightarrow> fault + (int \<times> gobi)" where
  "ReadAsync alloc_ok g clientID transactionID f pCallback pData i =
     (if \<not> IsDeviceValid (Some g) then Inr (- ENXIO, g) else
      case FindClientMem g clientID i of
        None \<Rightarrow> Inr (- ENXIO, g)
      | Some c \<Rightarrow>
          if \<exists>e \<in> set (mList c). transactionID = 0 \<or> transactionID = rm_tid e
          then bnd (pCallback g) (\<lambda>g. Inr (0, g))
          else bnd (AddToNotifyList alloc_ok g clientID transactionID f pData i) (\<lambda>(_, g).
               Inr (0, g)))"

section \<open>The WDS event callback\<close>

text \<open>What a parsed event does: statistics (all-ones means not reported) and the link.\<close>

definition wds_event_init :: "bool \<Rightarrow> wds_event" where
  "wds_event_init link = \<lparr>ev_TXOk = - 1, ev_RXOk = - 1, ev_TXErr = - 1, ev_RXErr = - 1,
     ev_TXOfl = - 1, ev_RXOfl = - 1, ev_TXBytesOk = - 1, ev_RXBytesOk = - 1,
     ev_bLinkState = link, ev_bReconfigure = False\<rparr>"

definition update_stats :: "wds_event \<Rightarrow> net_stats \<Rightarrow> net_stats" where
  "update_stats ev s =
     (let s = (if ev_TXOfl ev \<noteq> - 1 then s\<lparr>tx_fifo_errors := ucast (ev_TXOfl ev)\<rparr> else s);
          s = (if ev_RXOfl ev \<noteq> - 1 then s\<lparr>rx_fifo_errors := ucast (ev_RXOfl ev)\<rparr> else s);
          s = (if ev_TXErr ev \<noteq> - 1 then s\<lparr>tx_errors := ucast (ev_TXErr ev)\<rparr> else s);
          s = (if ev_RXErr ev \<noteq> - 1 then s\<lparr>rx_errors := ucast (ev_RXErr ev)\<rparr> else s);
          s = (if ev_TXOk ev \<noteq> - 1 then s\<lparr>tx_packets := ucast (ev_TXOk ev) + tx_errors s\<rparr> else s);
          s = (if ev_RXOk ev \<noteq> - 1 then s\<lparr>rx_packets := ucast (ev_RXOk ev) + rx_errors s\<rparr> else s);
          s = (if ev_TXBytesOk ev \<noteq> - 1 then s\<lparr>tx_bytes := ev_TXBytesOk ev\<rparr> else s);
          s = (if ev_RXBytesOk ev \<noteq> - 1 then s\<lparr>rx_bytes := ev_RXBytesOk ev\<rparr> else s)
      in s)"

definition wds_apply :: "wds_event \<Rightarrow> gobi \<Rightarrow> gobi" where
  "wds_apply ev g =
     (let g = g\<lparr>pStats := update_stats ev (pStats g)\<rparr> in
      if ev_bReconfigure ev then
        GobiClearDownReason (GobiSetDownReason g NO_NDIS_CONNECTION) NO_NDIS_CONNECTION
      else if ev_bLinkState ev then GobiClearDownReason g NO_NDIS_CONNECTION
      else GobiSetDownReason g NO_NDIS_CONNECTION)"

declare bnd_cong [fundef_cong]

lemma ReadAsync_cong [fundef_cong]:
  "g = g' \<Longrightarrow> cb g' = cb' g' \<Longrightarrow>
   ReadAsync a g cid tid f cb p i = ReadAsync a g' cid tid f cb' p i"
  by (simp add: ReadAsync_def cong: option.case_cong if_cong)

text \<open>The number of unread entries of a client bounds the recursion of the callback.\<close>

definition unread :: "gobi \<Rightarrow> u16 \<Rightarrow> nat \<Rightarrow> nat" where
  "unread g cid i = (case FindClientMem g cid i of None \<Rightarrow> 0 | Some c \<Rightarrow> length (mList c))"

lemma pop_first_length: "pop_first P xs = Some (x, ys) \<Longrightarrow> length xs = Suc (length ys)"
  by (induction xs arbitrary: ys) (auto split: if_splits option.splits)

lemma find_upd_first_stable:
  "(\<And>x. P (f x) = P x) \<Longrightarrow> find P (upd_first P f xs) = map_option f (find P xs)"
  by (induction xs) auto

lemma upd_first_Nil [simp]: "upd_first P f xs = [] \<longleftrightarrow> xs = []"
  by (cases xs) auto

lemma FindClientMem_find:
  "FindClientMem g cid i
     = (if mbQMIValid g then find (\<lambda>c. mClientID c = cid) (mClientMemList (qmi_devs g i)) else None)"
  by (simp add: FindClientMem_def)

lemma Pop_unread:
  assumes "PopFromReadMemList g cid tid i = Inr (Some x, g')"
  shows "unread g cid i = Suc (unread g' cid i)" and "mbQMIValid g' = mbQMIValid g"
proof -
  have v: "mbQMIValid g"
    using assms by (auto simp: PopFromReadMemList_def split: if_splits)
  then obtain c e rest where c: "find (\<lambda>c. mClientID c = cid) (mClientMemList (qmi_devs g i)) = Some c"
    "pop_first (\<lambda>e. tid = 0 \<or> tid = rm_tid e) (mList c) = Some (e, rest)"
    "mClientMemList (qmi_devs g' i) = upd_first (\<lambda>c. mClientID c = cid) (\<lambda>c. c\<lparr>mList := rest\<rparr>)
       (mClientMemList (qmi_devs g i))" "mbQMIValid g' = mbQMIValid g"
    using assms
    by (auto simp: PopFromReadMemList_def spin_lock_def spin_unlock_def FindClientMem_find Let_def
        split: if_splits option.splits)
  then show "unread g cid i = Suc (unread g' cid i)" "mbQMIValid g' = mbQMIValid g"
    using v by (auto simp: unread_def FindClientMem_find find_upd_first_stable pop_first_length)
qed

lemma wds_apply_keeps [simp]:
  "qmi_devs (wds_apply ev g) = qmi_devs g"
  "mbQMIValid (wds_apply ev g) = mbQMIValid g"
  "semaphores (wds_apply ev g) = semaphores g"
  by (simp_all add: wds_apply_def GobiClearDownReason_def GobiSetDownReason_def Let_def)

lemma unread_wds_apply [simp]: "unread (wds_apply ev g) cid i = unread g cid i"
  by (simp add: unread_def FindClientMem_find)

text \<open>\<open>alloc_ok\<close>: whether the notification entry of the next read can be allocated.\<close>

function QMIWDSCallback :: "bool \<Rightarrow> gobi \<Rightarrow> u16 \<Rightarrow> nat \<Rightarrow> nat \<Rightarrow> fault + gobi" where
  "QMIWDSCallback alloc_ok g clientID pData i =
     (if \<not> IsDeviceValid (Some g) then Inr g else
      bnd (PopFromReadMemList g clientID 0 i) (\<lambda>(popped, g).
      case popped of
        None \<Rightarrow> Inr g
      | Some (pReadBuffer, readBufferSize) \<Rightarrow>
          bnd (QMIWDSEventResp (Some pReadBuffer) readBufferSize
                 (wds_event_init (\<not> GobiTestDownReason g NO_NDIS_CONNECTION))) (\<lambda>(result, ev).
          let g = (if result < 0 then g else wds_apply ev g) in
          bnd (ReadAsync alloc_ok g clientID 0 (Some Fn_QMIWDSCallback)
                 (\<lambda>g. QMIWDSCallback alloc_ok g clientID pData i) pData i) (\<lambda>(_, g).
          Inr g))))"
  by pat_completeness auto
termination
  by (relation "measure (\<lambda>(a, g, cid, p, i). unread g cid i)")
    (auto dest: Pop_unread(1) split: if_splits)

declare QMIWDSCallback.simps [simp del]

text \<open>
  The callback of an asynchronous read: the oldest message, without its QMUX header, goes into the
  context, and a worker is queued that copies it. A context that was freed is no context.
\<close>

definition QMIAIOReadcallback :: "gobi \<Rightarrow> u16 \<Rightarrow> nat \<Rightarrow> nat \<Rightarrow> fault + gobi" where
  "QMIAIOReadcallback g clientID pData i =
     (if \<not> IsDeviceValid (Some g) then Inr g else
      case io_ctxs g pData of None \<Rightarrow> Inl Wild_Pointer | Some aioDataCtx \<Rightarrow>
      bnd (PopFromReadMemList g clientID 0 i) (\<lambda>(popped, g).
      let aioDataCtx = (case popped of
            None \<Rightarrow> aioDataCtx\<lparr>io_mpData := None, io_mDataLen := 0\<rparr>
          | Some (pReadBuffer, readBufferSize) \<Rightarrow>
              aioDataCtx\<lparr>io_mDataLen := word_of_int (int (unat readBufferSize) - int (unat QMUXHeaderSize)),
                io_mpData := Some (drop (unat QMUXHeaderSize) pReadBuffer)\<rparr>)
      in Inr (g\<lparr>io_ctxs := (io_ctxs g)(pData := Some aioDataCtx), mpWorkQ := mpWorkQ g @ [Copy_Work pData]\<rparr>)))"

definition run_notify ::
  "bool \<Rightarrow> notify_fn \<Rightarrow> gobi \<Rightarrow> u16 \<Rightarrow> nat \<Rightarrow> nat \<Rightarrow> fault + gobi" where
  "run_notify alloc_ok f g clientID pData i =
     (case f of Fn_UpSem \<Rightarrow> UpSem g clientID pData i
      | Fn_QMIWDSCallback \<Rightarrow> QMIWDSCallback alloc_ok g clientID pData i
      | Fn_QMIAIOReadcallback \<Rightarrow> QMIAIOReadcallback g clientID pData i)"

definition NotifyAndPopNotifyList ::
  "bool \<Rightarrow> gobi \<Rightarrow> u16 \<Rightarrow> u16 \<Rightarrow> nat \<Rightarrow> fault + (bool \<times> gobi)" where
  "NotifyAndPopNotifyList alloc_ok g clientID transactionID i =
     (if \<not> IsDeviceValid (Some g) then Inr (False, g) else
      bnd (spin_lock i g) (\<lambda>g.
      case FindClientMem g clientID i of
        None \<Rightarrow> bnd (spin_unlock i g) (\<lambda>g. Inr (False, g))
      | Some c \<Rightarrow>
          (case pop_first (\<lambda>e. transactionID = 0 \<or> nf_tid e = 0 \<or> transactionID = nf_tid e)
                  (mReadNotifyList c) of
             Some (e, rest) \<Rightarrow>
               (case nf_fun e of
                  Some notifyFunct \<Rightarrow>
                    let g = set_client clientID i (\<lambda>c. c\<lparr>mReadNotifyList := rest\<rparr>) g in
                    bnd (spin_unlock i g) (\<lambda>g.
                    bnd (run_notify alloc_ok notifyFunct g clientID (nf_data e) i) (\<lambda>g.
                    Inr (True, g)))
                | None \<Rightarrow> Inr (True, g))
           | None \<Rightarrow> bnd (spin_unlock i g) (\<lambda>g. Inr (False, g)))))"

section \<open>Mailboxes\<close>

text \<open>
  The contract of the per-client lists (unread data, notifications): entries are added at the
  end and the first entry that matches is taken out.
\<close>

locale mailbox =
  fixes put_entry :: "'m \<Rightarrow> 's \<Rightarrow> 's"
    and take_entry :: "('m \<Rightarrow> bool) \<Rightarrow> 's \<Rightarrow> ('m \<times> 's) option"
    and contents :: "'s \<Rightarrow> 'm list"
  assumes contents_put: "contents (put_entry m s) = contents s @ [m]"
    and take_None: "take_entry P s = None \<longleftrightarrow> (\<forall>m \<in> set (contents s). \<not> P m)"
    and take_Some: "take_entry P s = Some (m, s') \<Longrightarrow> \<exists>xs ys. contents s = xs @ m # ys
      \<and> (\<forall>x \<in> set xs. \<not> P x) \<and> P m \<and> contents s' = xs @ ys"
begin

lemma first_match_unique:
  assumes "xs @ m # ys = xs' @ m' # ys'" and "\<forall>x \<in> set xs. \<not> P x" and "\<forall>x \<in> set xs'. \<not> P x"
    and "P m" and "P m'"
  shows "xs = xs' \<and> m = m' \<and> ys = ys'"
  using assms
proof (induction xs arbitrary: xs')
  case Nil
  then show ?case by (cases xs') auto
next
  case (Cons a xs)
  then show ?case by (cases xs') auto
qed

lemma take_put_fresh:
  assumes "\<forall>x \<in> set (contents s). \<not> P x" and "P m"
  shows "\<exists>s'. take_entry P (put_entry m s) = Some (m, s') \<and> contents s' = contents s"
proof -
  have "take_entry P (put_entry m s) \<noteq> None"
    using assms(2) by (simp add: take_None contents_put)
  then obtain x s' where t: "take_entry P (put_entry m s) = Some (x, s')" by fastforce
  obtain xs ys where d: "contents s @ m # [] = xs @ x # ys" "\<forall>x \<in> set xs. \<not> P x" "P x"
    "contents s' = xs @ ys"
    using take_Some [OF t] by (auto simp: contents_put)
  from first_match_unique [OF d(1) assms(1) d(2) assms(2) d(3)] d(4) t
  show ?thesis by auto
qed

lemma take_put_older:
  assumes "take_entry P s = Some (x, s')"
  shows "\<exists>s''. take_entry P (put_entry m s) = Some (x, s'') \<and> contents s'' = contents s' @ [m]"
proof -
  obtain xs ys where d: "contents s = xs @ x # ys" "\<forall>x \<in> set xs. \<not> P x" "P x" "contents s' = xs @ ys"
    using take_Some [OF assms] by blast
  then have "take_entry P (put_entry m s) \<noteq> None" by (simp add: take_None contents_put)
  then obtain y s'' where t: "take_entry P (put_entry m s) = Some (y, s'')" by fastforce
  obtain xs' ys' where d': "xs @ x # (ys @ [m]) = xs' @ y # ys'" "\<forall>x \<in> set xs'. \<not> P x" "P y"
    "contents s'' = xs' @ ys'"
    using take_Some [OF t] d(1) by (auto simp: contents_put)
  from first_match_unique [OF d'(1) d(2) d'(2) d(3) d'(3)] d(4) d'(4) t
  show ?thesis by auto
qed

text \<open>Taking for one purpose leaves what is there for another.\<close>

lemma take_others:
  assumes "take_entry P s = Some (x, s')" and "\<And>y. P y \<Longrightarrow> \<not> Q y"
  shows "filter Q (contents s') = filter Q (contents s)"
  using take_Some [OF assms(1)] assms(2) by auto

lemma take_shrinks: "take_entry P s = Some (x, s') \<Longrightarrow> length (contents s) = Suc (length (contents s'))"
  by (drule take_Some) auto

end

lemma pop_first_None: "pop_first P xs = None \<longleftrightarrow> (\<forall>x \<in> set xs. \<not> P x)"
  by (induction xs) (auto split: option.splits)

lemma pop_first_Some:
  "pop_first P xs = Some (x, zs) \<Longrightarrow> \<exists>as bs. xs = as @ x # bs \<and> (\<forall>y \<in> set as. \<not> P y) \<and> P x
     \<and> zs = as @ bs"
proof (induction xs arbitrary: zs)
  case (Cons a xs)
  show ?case
  proof (cases "P a")
    case True
    then show ?thesis using Cons.prems by (intro exI [of _ "[]"] exI [of _ xs]) simp
  next
    case False
    then obtain ys where "pop_first P xs = Some (x, ys)" "zs = a # ys"
      using Cons.prems by (auto split: option.splits)
    with Cons.IH obtain as bs where "xs = as @ x # bs" "\<forall>y \<in> set as. \<not> P y" "P x" "zs = (a # as) @ bs"
      by fastforce
    with False show ?thesis by (intro exI [of _ "a # as"] exI [of _ bs]) simp
  qed
qed simp

interpretation box: mailbox "\<lambda>m xs. xs @ [m]" pop_first "\<lambda>xs. xs"
  by unfold_locales (simp_all add: pop_first_None pop_first_Some)

section \<open>Locked operations\<close>

abbreviation "locked i g \<equiv> mClientMemLock (qmi_devs g i)"
abbreviation "clients i g \<equiv> mClientMemList (qmi_devs g i)"
abbreviation "client_ids i g \<equiv> map mClientID (clients i g)"

text \<open>
  What every operation on the client memory promises: started with the lock free it returns
  with the lock free, keeps the set of clients and touches no other device; started with the
  lock held by the caller it deadlocks.
\<close>

definition same_clients :: "nat \<Rightarrow> gobi \<Rightarrow> gobi \<Rightarrow> bool" where
  "same_clients i g g' \<longleftrightarrow> mbQMIValid g' = mbQMIValid g \<and> client_ids i g' = client_ids i g
     \<and> (\<forall>j. j \<noteq> i \<longrightarrow> qmi_devs g' j = qmi_devs g j)"

lemma same_clients_refl [simp]: "same_clients i g g"
  by (simp add: same_clients_def)

lemma same_clients_trans: "same_clients i a b \<Longrightarrow> same_clients i b c \<Longrightarrow> same_clients i a c"
  by (simp add: same_clients_def)

locale locked_op =
  fixes run :: "gobi \<Rightarrow> fault + ('r \<times> gobi)" and i :: nat
  assumes free: "\<not> locked i g \<Longrightarrow> \<exists>r g'. run g = Inr (r, g') \<and> \<not> locked i g' \<and> same_clients i g g'"
    and held: "mbQMIValid g \<Longrightarrow> locked i g \<Longrightarrow> run g = Inl Deadlock"
begin

lemma never_bad_unlock: "\<not> locked i g \<Longrightarrow> no_fault (run g)"
  using free by (fastforce simp: no_fault_iff)

lemma keeps_ids: "\<not> locked i g \<Longrightarrow> run g = Inr (r, g') \<Longrightarrow> client_ids i g' = client_ids i g"
  using free [of g] by (auto simp: same_clients_def)

lemma keeps_distinct:
  "\<not> locked i g \<Longrightarrow> run g = Inr (r, g') \<Longrightarrow> distinct (client_ids i g) \<Longrightarrow> distinct (client_ids i g')"
  by (simp add: keeps_ids)

text \<open>Two operations in a row, as in every caller.\<close>

lemma then_free:
  assumes "locked_op run' i" and "\<not> locked i g"
  shows "\<exists>r g'. bnd (run g) (\<lambda>(_, g). run' g) = Inr (r, g') \<and> \<not> locked i g' \<and> same_clients i g g'"
proof -
  obtain r g' where 1: "run g = Inr (r, g')" "\<not> locked i g'" "same_clients i g g'"
    using free [OF assms(2)] by blast
  obtain r' g'' where "run' g' = Inr (r', g'')" "\<not> locked i g''" "same_clients i g' g''"
    using locked_op.free [OF assms(1) 1(2)] by blast
  then show ?thesis using 1 same_clients_trans by fastforce
qed

end

lemma map_upd_first: "(\<And>x. h (f x) = h x) \<Longrightarrow> map h (upd_first P f xs) = map h xs"
  by (induction xs) auto

lemmas op_defs = spin_lock_def spin_unlock_def FindClientMem_find Let_def same_clients_def

interpretation add_read: locked_op "\<lambda>g. AddToReadMemList a g cid tid d n i" i for a cid tid d n i
  by unfold_locales (auto simp: AddToReadMemList_def op_defs map_upd_first split: option.splits)

interpretation pop_read: locked_op "\<lambda>g. PopFromReadMemList g cid tid i" i for cid tid i
  by unfold_locales (auto simp: PopFromReadMemList_def op_defs map_upd_first split: option.splits)

interpretation add_notify: locked_op "\<lambda>g. AddToNotifyList a g cid tid f p i" i for a cid tid f p i
  by unfold_locales (auto simp: AddToNotifyList_def op_defs map_upd_first split: option.splits)

interpretation add_urb: locked_op "\<lambda>g. AddToURBList a g cid u i" i for a cid u i
  by unfold_locales (auto simp: AddToURBList_def op_defs map_upd_first split: option.splits)

interpretation pop_urb: locked_op "\<lambda>g. PopFromURBList g cid i" i for cid i
  by unfold_locales (auto simp: PopFromURBList_def op_defs map_upd_first split: option.splits list.splits)

section \<open>What the operations do\<close>

lemma find_upd_first_other:
  "(\<And>x. P x \<Longrightarrow> \<not> Q x) \<Longrightarrow> (\<And>x. Q (f x) = Q x) \<Longrightarrow> find Q (upd_first P f xs) = find Q xs"
  by (induction xs) auto

lemma Find_set_client:
  assumes "\<And>c. mClientID (f c) = mClientID c"
  shows "FindClientMem (set_client cid i f g) cid' j
    = (if j = i \<and> cid' = cid then map_option f (FindClientMem g cid i) else FindClientMem g cid' j)"
  using assms
  by (auto simp: FindClientMem_find find_upd_first_stable find_upd_first_other)

lemma lock_update_idle:
  "\<not> mClientMemLock d \<Longrightarrow> d\<lparr>mClientMemLock := False\<rparr> = d"
  by (cases d) simp

lemma lock_body:
  assumes "\<not> locked i g"
  shows "bnd (spin_lock i g) (\<lambda>g. bnd (spin_unlock i g) (\<lambda>g. Inr (r, g))) = Inr (r, g)"
  using assms by (simp add: spin_lock_def spin_unlock_def lock_update_idle)

lemma Add_ok:
  assumes "mbQMIValid g" and "\<not> locked i g" and "FindClientMem g cid i = Some c"
  shows "AddToReadMemList True g cid tid d n i = Inr (True, set_client cid i
      (\<lambda>c. c\<lparr>mList := mList c @ [\<lparr>rm_data = d, rm_tid = tid, rm_size = n\<rparr>]\<rparr>) g)"
  using assms
  by (auto simp: AddToReadMemList_def op_defs lock_update_idle intro!: arg_cong [where f = "\<lambda>d. _\<lparr>qmi_devs := (qmi_devs g)(i := d)\<rparr>"])

lemma AddNotify_ok:
  assumes "mbQMIValid g" and "\<not> locked i g" and "FindClientMem g cid i = Some c"
  shows "AddToNotifyList True g cid tid f p i = Inr (True, set_client cid i
      (\<lambda>c. c\<lparr>mReadNotifyList := mReadNotifyList c @ [\<lparr>nf_fun = f, nf_tid = tid, nf_data = p\<rparr>]\<rparr>) g)"
  using assms by (auto simp: AddToNotifyList_def op_defs lock_update_idle)

lemma AddURB_ok:
  assumes "mbQMIValid g" and "\<not> locked i g" and "FindClientMem g cid i = Some c"
  shows "AddToURBList True g cid u i = Inr (True, set_client cid i
      (\<lambda>c. c\<lparr>mURBList := mURBList c @ [u]\<rparr>) g)"
  using assms by (auto simp: AddToURBList_def op_defs lock_update_idle)

abbreviation "for_tid tid \<equiv> (\<lambda>e. tid = 0 \<or> tid = rm_tid e)"

lemma Pop_ok:
  assumes "mbQMIValid g" and "\<not> locked i g" and "FindClientMem g cid i = Some c"
  shows "PopFromReadMemList g cid tid i =
    (case pop_first (for_tid tid) (mList c) of
       None \<Rightarrow> Inr (None, g)
     | Some (e, rest) \<Rightarrow> Inr (Some (rm_data e, rm_size e), set_client cid i (\<lambda>c. c\<lparr>mList := rest\<rparr>) g))"
  using assms
  by (auto simp: PopFromReadMemList_def op_defs lock_update_idle split: option.splits)

lemma PopURB_ok:
  assumes "mbQMIValid g" and "\<not> locked i g" and "FindClientMem g cid i = Some c"
  shows "PopFromURBList g cid i =
    (case mURBList c of [] \<Rightarrow> Inr (None, g)
     | u # rest \<Rightarrow> Inr (Some u, set_client cid i (\<lambda>c. c\<lparr>mURBList := rest\<rparr>) g))"
  using assms
  by (auto simp: PopFromURBList_def op_defs lock_update_idle split: list.splits)

lemma AddNotify_no_memory:
  assumes "mbQMIValid g" and "\<not> locked i g"
  shows "AddToNotifyList False g cid tid f p i = Inr (False, g)"
  using assms by (auto simp: AddToNotifyList_def op_defs lock_update_idle split: option.splits)

lemma ReadAsync_empty:
  assumes "mbQMIValid g" and "\<not> locked i g" and "FindClientMem g cid i = Some c"
    and "\<forall>e \<in> set (mList c). \<not> for_tid tid e"
  shows "ReadAsync a g cid tid f cb p i = Inr (0, if a then set_client cid i
      (\<lambda>c. c\<lparr>mReadNotifyList := mReadNotifyList c @ [\<lparr>nf_fun = f, nf_tid = tid, nf_data = p\<rparr>]\<rparr>) g else g)"
  using assms AddNotify_ok [OF assms(1-3)] AddNotify_no_memory [OF assms(1,2)]
  by (auto simp: ReadAsync_def)

lemma ReadAsync_found:
  assumes "mbQMIValid g" and "FindClientMem g cid i = Some c"
    and "\<exists>e \<in> set (mList c). for_tid tid e"
  shows "ReadAsync a g cid tid f cb p i = bnd (cb g) (\<lambda>g. Inr (0, g))"
  unfolding ReadAsync_def using assms by (simp only: option.case if_True IsDeviceValid_simps simp_thms if_False)

lemma set_client_locked [simp]: "locked j (set_client cid i f g) = locked j g"
  by simp

text \<open>The callback handles all unread events of its client and registers itself again, once.\<close>

abbreviation "again a p \<equiv> (if a then [\<lparr>nf_fun = Some Fn_QMIWDSCallback, nf_tid = 0, nf_data = p\<rparr>] else [])"

lemma QMIWDSCallback_drains_aux:
  assumes "QMIWDSCallback a g cid p i = Inr g'" and "mbQMIValid g" and "\<not> locked i g"
    and "FindClientMem g cid i = Some c" and "mList c \<noteq> []"
  shows "FindClientMem g' cid i = Some (c\<lparr>mList := [], mReadNotifyList := mReadNotifyList c @ again a p\<rparr>)
     \<and> \<not> locked i g' \<and> same_clients i g g' \<and> semaphores g' = semaphores g"
  using assms
proof (induction a g cid p i arbitrary: c g' rule: QMIWDSCallback.induct)
  case (1 a g cid p i)
  obtain e es where l: "mList c = e # es" using "1.prems"(5) by (cases "mList c") auto
  let ?g = "set_client cid i (\<lambda>c. c\<lparr>mList := es\<rparr>) g"
  have pop: "PopFromReadMemList g cid 0 i = Inr (Some (rm_data e, rm_size e), ?g)"
    using Pop_ok [OF "1.prems"(2-4), of 0] l by simp
  let ?ev = "wds_event_init (\<not> GobiTestDownReason ?g NO_NDIS_CONNECTION)"
  obtain r ev where ev: "QMIWDSEventResp (Some (rm_data e)) (rm_size e) ?ev = Inr (r, ev)"
    using "1.prems"(1,2) pop
    by (subst (asm) QMIWDSCallback.simps) (auto simp: returns_iff)
  define h where "h = (if r < 0 then ?g else wds_apply ev ?g)"
  have h: "mbQMIValid h" "\<not> locked i h"
    "FindClientMem h cid i = Some (c\<lparr>mList := es\<rparr>)"
    using "1.prems"(2-4) by (auto simp: h_def FindClientMem_find find_upd_first_stable)
  have keep: "same_clients i g h" "semaphores h = semaphores g"
    by (simp_all add: h_def same_clients_def map_upd_first)
  have run: "QMIWDSCallback a g cid p i = bnd (ReadAsync a h cid 0 (Some Fn_QMIWDSCallback)
      (\<lambda>g. QMIWDSCallback a g cid p i) p i) (\<lambda>(_, g). Inr g)"
    using "1.prems"(2) pop ev by (subst QMIWDSCallback.simps) (simp add: h_def Let_def)
  show ?case
  proof (cases es)
    case Nil
    then have "\<forall>x \<in> set (mList (c\<lparr>mList := es\<rparr>)). \<not> for_tid 0 x" by simp
    from ReadAsync_empty [OF h this, of a "Some Fn_QMIWDSCallback" "\<lambda>g. QMIWDSCallback a g cid p i" p]
    have "g' = (if a then set_client cid i (\<lambda>c. c\<lparr>mReadNotifyList := mReadNotifyList c
        @ [\<lparr>nf_fun = Some Fn_QMIWDSCallback, nf_tid = 0, nf_data = p\<rparr>]\<rparr>) h else h)"
      using run "1.prems"(1) by simp
    then show ?thesis using h keep Nil l
      by (auto simp: FindClientMem_find find_upd_first_stable same_clients_def map_upd_first)
  next
    case (Cons e' es')
    then have ra: "ReadAsync a h cid 0 (Some Fn_QMIWDSCallback) (\<lambda>g. QMIWDSCallback a g cid p i) p i
        = bnd (QMIWDSCallback a h cid p i) (\<lambda>g. Inr (0, g))"
      by (intro ReadAsync_found [OF h(1,3)] bexI [of _ e']) simp_all
    then have g': "QMIWDSCallback a h cid p i = Inr g'"
      using run "1.prems"(1) by (cases "QMIWDSCallback a h cid p i") auto
    have "FindClientMem g' cid i = Some ((c\<lparr>mList := es\<rparr>)\<lparr>mList := [], mReadNotifyList :=
        mReadNotifyList (c\<lparr>mList := es\<rparr>) @ again a p\<rparr>)
        \<and> \<not> locked i g' \<and> same_clients i h g' \<and> semaphores g' = semaphores h"
      using "1.prems"(2) Cons h pop ev g'
      by (intro "1.IH" [of "(Some (rm_data e, rm_size e), ?g)"
          "Some (rm_data e, rm_size e)" ?g "(rm_data e, rm_size e)" "rm_data e" "rm_size e" "(r, ev)" r ev h])
        (auto simp: h_def)
    then show ?thesis using keep same_clients_trans by auto
  qed
qed

lemma QMIWDSCallback_idle:
  assumes "mbQMIValid g" and "\<not> locked i g" and "\<forall>c. FindClientMem g cid i = Some c \<longrightarrow> mList c = []"
  shows "QMIWDSCallback a g cid p i = Inr g"
proof (cases "FindClientMem g cid i")
  case None
  with assms(1,2) have "PopFromReadMemList g cid 0 i = Inr (None, g)"
    by (auto simp: PopFromReadMemList_def op_defs lock_update_idle)
  with assms(1) show ?thesis by (subst QMIWDSCallback.simps) simp
next
  case (Some c)
  with assms show ?thesis by (subst QMIWDSCallback.simps) (simp add: Pop_ok [OF assms(1,2) Some])
qed

text \<open>Taking notifications: nothing to take, a waiting thread, and what every call keeps.\<close>

abbreviation "notifies tid \<equiv> (\<lambda>e. tid = 0 \<or> nf_tid e = 0 \<or> tid = nf_tid e)"

lemma Notify_none:
  assumes "mbQMIValid g" and "\<not> locked i g"
    and "\<forall>c. FindClientMem g cid i = Some c \<longrightarrow> pop_first (notifies tid) (mReadNotifyList c) = None"
  shows "NotifyAndPopNotifyList a g cid tid i = Inr (False, g)"
  using assms
  by (auto simp: NotifyAndPopNotifyList_def op_defs lock_update_idle split: option.splits)

lemma Notify_up:
  assumes "mbQMIValid g" and "\<not> locked i g" and "FindClientMem g cid i = Some c"
    and "pop_first (notifies tid) (mReadNotifyList c) = Some (e, rest)" and "nf_fun e = Some Fn_UpSem"
  shows "NotifyAndPopNotifyList a g cid tid i = Inr (True,
     (set_client cid i (\<lambda>c. c\<lparr>mReadNotifyList := rest\<rparr>) g)
       \<lparr>semaphores := (semaphores g)(nf_data e := semaphores g (nf_data e) + 1)\<rparr>)"
  using assms
  by (auto simp: NotifyAndPopNotifyList_def op_defs lock_update_idle run_notify_def UpSem_def)

lemma Notify_run:
  assumes "mbQMIValid g" and "\<not> locked i g" and "FindClientMem g cid i = Some c"
    and "pop_first (notifies tid) (mReadNotifyList c) = Some (e, rest)" and "nf_fun e = Some f"
  shows "NotifyAndPopNotifyList a g cid tid i =
     bnd (run_notify a f (set_client cid i (\<lambda>c. c\<lparr>mReadNotifyList := rest\<rparr>) g) cid (nf_data e) i)
       (\<lambda>g. Inr (True, g))"
  using assms
  by (auto simp: NotifyAndPopNotifyList_def op_defs lock_update_idle)

text \<open>An asynchronous read takes at most one message and leaves the waiters alone.\<close>

lemma QMIAIOReadcallback_runs:
  assumes "mbQMIValid g" and "\<not> locked i g" and "FindClientMem g cid i = Some c" and "io_ctxs g p = Some x"
  shows "QMIAIOReadcallback g cid p i = Inr (case mList c of
      [] \<Rightarrow> g\<lparr>io_ctxs := (io_ctxs g)(p \<mapsto> x\<lparr>io_mpData := None, io_mDataLen := 0\<rparr>), mpWorkQ := mpWorkQ g @ [Copy_Work p]\<rparr>
    | e # es \<Rightarrow> (set_client cid i (\<lambda>c. c\<lparr>mList := es\<rparr>) g)
        \<lparr>io_ctxs := (io_ctxs g)(p \<mapsto> x\<lparr>io_mDataLen := word_of_int (int (unat (rm_size e)) - 6),
           io_mpData := Some (drop 6 (rm_data e))\<rparr>), mpWorkQ := mpWorkQ g @ [Copy_Work p]\<rparr>)"
  using assms
  by (cases "mList c") (simp_all add: QMIAIOReadcallback_def Pop_ok QMUXHeaderSize_def sizeof_sQMUX_def)

text \<open>What is left to notify bounds the loops that notify every waiter.\<close>

definition to_notify :: "gobi \<Rightarrow> u16 \<Rightarrow> nat \<Rightarrow> nat" where
  "to_notify g cid i = (if locked i g then 0 else
     case FindClientMem g cid i of None \<Rightarrow> 1
     | Some c \<Rightarrow> 1 + length (mReadNotifyList c) + length (mList c))"

lemma Notify_decreases:
  assumes "NotifyAndPopNotifyList a g cid tid i = Inr (True, g')"
  shows "to_notify g' cid i < to_notify g cid i"
proof -
  have v: "mbQMIValid g" and l: "\<not> locked i g"
    using assms by (auto simp: NotifyAndPopNotifyList_def spin_lock_def split: if_splits)
  have "\<exists>c p. FindClientMem g cid i = Some c \<and> pop_first (notifies tid) (mReadNotifyList c) = Some p"
  proof (rule ccontr)
    assume "\<not> ?thesis"
    then have "NotifyAndPopNotifyList a g cid tid i = Inr (False, g)"
      by (intro Notify_none [OF v l]) fastforce
    with assms show False by simp
  qed
  then obtain c e rest where c: "FindClientMem g cid i = Some c"
    "pop_first (notifies tid) (mReadNotifyList c) = Some (e, rest)"
    by auto
  note len = pop_first_length [OF c(2)]
  show ?thesis
  proof (cases "nf_fun e")
    case None
    then have "locked i g'"
      using assms v l c by (auto simp: NotifyAndPopNotifyList_def op_defs)
    then show ?thesis using l c(1) by (simp add: to_notify_def)
  next
    case (Some f)
    let ?g = "set_client cid i (\<lambda>c. c\<lparr>mReadNotifyList := rest\<rparr>) g"
    have g': "run_notify a f ?g cid (nf_data e) i = Inr g'"
      using assms Notify_run [OF v l c Some, of a] by (auto simp: returns_iff)
    have f: "FindClientMem ?g cid i = Some (c\<lparr>mReadNotifyList := rest\<rparr>)"
      using c(1) by (simp add: Find_set_client)
    show ?thesis
    proof (cases f)
      case Fn_UpSem
      then show ?thesis using g' v l c(1) f len
        by (auto simp: run_notify_def UpSem_def to_notify_def FindClientMem_find split: if_splits)
    next
      case Fn_QMIAIOReadcallback
      then have q: "QMIAIOReadcallback ?g cid (nf_data e) i = Inr g'" using g' by (simp add: run_notify_def)
      then obtain x where "io_ctxs ?g (nf_data e) = Some x"
        using v by (auto simp: QMIAIOReadcallback_def split: option.splits)
      then have "mReadNotifyList c \<noteq> [] \<and> FindClientMem g' cid i
          = Some (c\<lparr>mReadNotifyList := rest, mList := tl (mList c)\<rparr>)"
        using q QMIAIOReadcallback_runs [OF _ _ f, of "nf_data e" x] v l len f
        by (cases "mList c") (auto simp: Find_set_client FindClientMem_find find_upd_first_stable split: if_splits)
      then show ?thesis using l c(1) len by (simp add: to_notify_def less_Suc_eq_le)
    next
      case Fn_QMIWDSCallback
      then have q: "QMIWDSCallback a ?g cid (nf_data e) i = Inr g'" using g' by (simp add: run_notify_def)
      show ?thesis
      proof (cases "mList c")
        case Nil
        then have "g' = ?g" using q QMIWDSCallback_idle [of ?g i cid a] v l f by auto
        then show ?thesis using f c(1) l len Nil by (simp add: to_notify_def)
      next
        case (Cons x xs)
        then show ?thesis
          using QMIWDSCallback_drains_aux [OF q _ _ f] v l c(1) len
          by (auto simp: to_notify_def)
      qed
    qed
  qed
qed

definition urbs :: "gobi \<Rightarrow> u16 \<Rightarrow> nat \<Rightarrow> nat" where
  "urbs g cid i = (case FindClientMem g cid i of None \<Rightarrow> 0 | Some c \<Rightarrow> length (mURBList c))"

lemma PopURB_decreases:
  assumes "PopFromURBList g cid i = Inr (Some u, g')"
  shows "urbs g' cid i < urbs g cid i"
proof -
  have v: "mbQMIValid g" and l: "\<not> locked i g"
    using assms by (auto simp: PopFromURBList_def spin_lock_def split: if_splits)
  then obtain c where c: "FindClientMem g cid i = Some c"
    using assms by (auto simp: PopFromURBList_def op_defs split: option.splits)
  show ?thesis using assms c
    by (auto simp: PopURB_ok [OF v l c] urbs_def Find_set_client split: list.splits)
qed

section \<open>Properties\<close>

definition client_example :: "u16 \<Rightarrow> client_mem" where
  "client_example cid = \<lparr>mClientID = cid, mList = [], mReadNotifyList = [], mURBList = [], mWaitQueue = 0\<rparr>"

definition dev_example :: "u16 list \<Rightarrow> qmi_dev" where
  "dev_example cids = \<lparr>mClientMemList = map client_example cids, mClientMemLock = False,
     mQMITransactionID = 0, qd_cfg = cfg_example\<rparr>"

definition gobi_example :: gobi where
  "gobi_example = \<lparr>mbQMIValid = True, mbQMIReadyStatus = False, mQMICTLTransactionID = 0,
     qmi_devs = (\<lambda>i. dev_example (if i = 0 then [0, 0x101] else [])), semaphores = (\<lambda>_. 0),
     mDownReason = 0, net_link = False,
     pStats = \<lparr>tx_fifo_errors = 0, rx_fifo_errors = 0, tx_errors = 0, rx_errors = 0, tx_packets = 0,
       rx_packets = 0, tx_bytes = 0, rx_bytes = 0\<rparr>,
     mpIndDataInfoList = [], responseReadSem = 0, worker_ready = True,
     rd = \<lparr>mpReadURB = True, mpIntURB = True, mpIntURB_dev = True, mpReadBuffer = True,
       mpIntBuffer = True, mpReadSetupPacket = True\<rparr>, mIntfNum = 0, power_state = 0,
     reset_resume = False, mThreadDoWork = 0, int_submits = 0, read_submits = 0, usb_written = [],
     mMEID = [], agg = \<lparr>al_DLDatagram = 0, al_DLDatagramSize = 0, al_ULDatagram = 0, al_ULDatagramSize = 0\<rparr>,
     io_ctxs = (\<lambda>_. None), mpWorkQ = []\<rparr>"

lemma gobi_example_ok [simp]:
  "mbQMIValid gobi_example" "\<not> locked i gobi_example"
  "FindClientMem gobi_example 0x101 0 = Some (client_example 0x101)"
  "FindClientMem gobi_example 0 0 = Some (client_example 0)"
  by (simp_all add: gobi_example_def dev_example_def client_example_def FindClientMem_find)

definition disciplined :: "nat \<Rightarrow> gobi \<Rightarrow> fault + ('r \<times> gobi) \<Rightarrow> bool" where
  "disciplined i g m = (if locked i g then m = Inl Deadlock
     else \<exists>r g'. m = Inr (r, g') \<and> \<not> locked i g' \<and> same_clients i g g')"

lemma disciplinedI: "locked_op run i \<Longrightarrow> mbQMIValid g \<Longrightarrow> disciplined i g (run g)"
  by (simp add: disciplined_def locked_op_def)



text \<open>
  The unread data of a client is a mailbox keyed by transaction id: data added for a
  transaction is what the next read for that transaction gets, with its size, when nothing older
  matches, and the client's memory is as before; data for other transactions is not touched.
\<close>

theorem read_mem_delivers:
  assumes "mbQMIValid g" and "\<not> locked i g" and "FindClientMem g cid i = Some c"
    and "\<forall>e \<in> set (mList c). \<not> for_tid key e" and "key = 0 \<or> key = tid"
  shows "bnd (AddToReadMemList True g cid tid d n i) (\<lambda>(_, g). PopFromReadMemList g cid key i)
     = Inr (Some (d, n), set_client cid i (\<lambda>c'. c'\<lparr>mList := mList c\<rparr>)
         (set_client cid i (\<lambda>c. c\<lparr>mList := mList c @ [\<lparr>rm_data = d, rm_tid = tid, rm_size = n\<rparr>]\<rparr>) g))"
proof -
  let ?e = "\<lparr>rm_data = d, rm_tid = tid, rm_size = n\<rparr>"
  let ?g = "set_client cid i (\<lambda>c. c\<lparr>mList := mList c @ [?e]\<rparr>) g"
  have "FindClientMem ?g cid i = Some (c\<lparr>mList := mList c @ [?e]\<rparr>)"
    using assms(3) by (simp add: Find_set_client)
  moreover have "pop_first (for_tid key) (mList c @ [?e]) = Some (?e, mList c)"
    using box.take_put_fresh [of "mList c" "for_tid key" ?e] assms(4,5) by auto
  ultimately show ?thesis
    using assms(1,2) by (simp add: Add_ok [OF assms(1-3)] Pop_ok)
qed

theorem read_mem_delivers_witness:
  "\<exists>g. bnd (AddToReadMemList True gobi_example 0x101 7 [1, 2] 2 0)
     (\<lambda>(_, g). PopFromReadMemList g 0x101 7 0) = Inr (Some ([1, 2], 2), g)"
  using read_mem_delivers [OF gobi_example_ok(1,2,3), of 7 7 "[1, 2]" 2]
  by (simp add: client_example_def)

text \<open>
  A notification entry without a function blocks its device for good: NotifyAndPopNotifyList
  reports success but keeps the entry and returns with mClientMemLock held, so that the next
  operation on any client of the device deadlocks.
\<close>

theorem null_notify_leaves_lock:
  assumes "mbQMIValid g" and "\<not> locked i g" and "FindClientMem g cid i = Some c"
    and "pop_first (\<lambda>e. tid = 0 \<or> nf_tid e = 0 \<or> tid = nf_tid e) (mReadNotifyList c) = Some (e, rest)"
    and "nf_fun e = None"
  shows "\<exists>g'. NotifyAndPopNotifyList a g cid tid i = Inr (True, g') \<and> FindClientMem g' cid i = Some c
     \<and> PopFromReadMemList g' cid' tid' i = Inl Deadlock"
proof -
  let ?g = "set_dev i (\<lambda>d. d\<lparr>mClientMemLock := True\<rparr>) g"
  have f: "FindClientMem ?g cid i = Some c"
    using assms(3) by (simp add: FindClientMem_find split: if_splits)
  have "NotifyAndPopNotifyList a g cid tid i = Inr (True, ?g)"
    using assms(1,2,4,5) f by (simp add: NotifyAndPopNotifyList_def spin_lock_def)
  moreover have "PopFromReadMemList ?g cid' tid' i = Inl Deadlock"
    using assms(1) by (intro pop_read.held) simp_all
  ultimately show ?thesis using f by blast
qed

theorem null_notify_leaves_lock_witness:
  "\<exists>g'. NotifyAndPopNotifyList True (set_client 0x101 0
       (\<lambda>c. c\<lparr>mReadNotifyList := [\<lparr>nf_fun = None, nf_tid = 0, nf_data = 0\<rparr>]\<rparr>) gobi_example) 0x101 5 0
     = Inr (True, g') \<and> PopFromReadMemList g' 0 0 0 = Inl Deadlock"
  using null_notify_leaves_lock [of "set_client 0x101 0
       (\<lambda>c. c\<lparr>mReadNotifyList := [\<lparr>nf_fun = None, nf_tid = 0, nf_data = 0\<rparr>]\<rparr>) gobi_example" 0 "0x101"
      "(client_example 0x101)\<lparr>mReadNotifyList := [\<lparr>nf_fun = None, nf_tid = 0, nf_data = 0\<rparr>]\<rparr>" 5
      "\<lparr>nf_fun = None, nf_tid = 0, nf_data = 0\<rparr>" "[]" True 0 0]
  by (auto simp: Find_set_client)

lemma atomic_add_1_spec:
  "atomic_add_1 d = (tid_word d + 1, d\<lparr>mQMITransactionID := mQMITransactionID d + 1,
     qd_cfg := (qd_cfg d)\<lparr>MuxId := (if mQMITransactionID d = 0xFFFF then MuxId (qd_cfg d) + 1
                                   else MuxId (qd_cfg d))\<rparr>\<rparr>)"
  and tid_word_low: "(ucast (tid_word d + 1) :: u16) = mQMITransactionID d + 1"
proof -
  let ?t = "mQMITransactionID d" and ?m = "MuxId (qd_cfg d)"
  have lt: "unat ?t < 65536" "unat ?m < 65536" by simp_all
  have "unat (tid_word d) = (unat ?t + 65536 * unat ?m) mod 4294967296"
    by (simp add: tid_word_def unat_word_ariths mod_simps del: unat_u16_lt)
  then have tw: "unat (tid_word d) = unat ?t + 65536 * unat ?m"
    using lt by simp
  have w: "unat (tid_word d + 1) = (unat ?t + 65536 * unat ?m + 1) mod 4294967296"
    using tw by (simp add: unat_word_ariths)
  have t1: "unat (?t + 1) = (unat ?t + 1) mod 65536" and m1: "unat (?m + 1) = (unat ?m + 1) mod 65536"
    by (simp_all add: unat_word_ariths)
  have full: "?t = 0xFFFF \<longleftrightarrow> unat ?t = 65535"
    by (auto simp: word_unat_eq_iff)
  have low: "unat (ucast (tid_word d + 1) :: u16) = (unat ?t + 1) mod 65536"
  proof -
    have "unat (ucast (tid_word d + 1) :: u16) = unat (tid_word d + 1) mod 65536"
      by (simp add: unsigned_ucast_eq take_bit_eq_mod)
    also have "\<dots> = (unat ?t + 65536 * unat ?m + 1) mod 65536"
      unfolding w by (simp add: mod_mod_cancel)
    also have "\<dots> = (unat ?t + 1 + 65536 * unat ?m) mod 65536"
      by (simp only: add.assoc add.commute [of "65536 * unat ?m"])
    also have "\<dots> = (unat ?t + 1) mod 65536" by (rule mod_mult_self2)
    finally show ?thesis .
  qed
  then show low': "(ucast (tid_word d + 1) :: u16) = ?t + 1"
    by (simp add: word_unat_eq_iff t1)
  have "unat (drop_bit 16 (tid_word d + 1)) = unat (tid_word d + 1) div 65536"
    by (simp add: drop_bit_eq_div unat_div)
  then have high: "unat (ucast (drop_bit 16 (tid_word d + 1)) :: u16)
      = unat (tid_word d + 1) div 65536 mod 65536"
    by (simp add: unsigned_ucast_eq take_bit_eq_mod)
  have "(ucast (drop_bit 16 (tid_word d + 1)) :: u16) = (if ?t = 0xFFFF then ?m + 1 else ?m)"
  proof (cases "unat ?t = 65535")
    case True
    then have "unat (tid_word d + 1) = (65536 * (unat ?m + 1)) mod 4294967296"
      unfolding w by simp
    also have "\<dots> = 65536 * ((unat ?m + 1) mod 65536)" by (simp add: mult_mod_right)
    finally show ?thesis using True full by (simp add: word_unat_eq_iff high m1)
  next
    case False
    then have "unat ?t + 1 < 65536" using lt by linarith
    then have "unat ?t + 65536 * unat ?m + 1 < 4294967296" using lt(2) by linarith
    then have "unat (tid_word d + 1) = (unat ?t + 1) + 65536 * unat ?m"
      unfolding w by (simp only: mod_less)
    then have "unat (tid_word d + 1) div 65536 = unat ?m"
      using \<open>unat ?t + 1 < 65536\<close> by simp
    then show ?thesis using False full lt by (simp add: word_unat_eq_iff high)
  qed
  then show "atomic_add_1 d = (tid_word d + 1, d\<lparr>mQMITransactionID := ?t + 1,
     qd_cfg := (qd_cfg d)\<lparr>MuxId := (if ?t = 0xFFFF then ?m + 1 else ?m)\<rparr>\<rparr>)"
    using low' by (simp add: atomic_add_1_def Let_def)
qed

text \<open>
  C29: transaction ids are never 0, but the counter is stepped with a 32-bit atomic addition on a
  16-bit field: when it wraps, the id becomes 1 and the carry goes into the MUX id stored behind
  it, which names the network device the QMI device configures.
\<close>

theorem GetTransactionID_spec:
  "GetTransactionID d =
     (if mQMITransactionID d = 0xFFFF
      then (1, d\<lparr>mQMITransactionID := 1, qd_cfg := (qd_cfg d)\<lparr>MuxId := MuxId (qd_cfg d) + 1\<rparr>\<rparr>)
      else (mQMITransactionID d + 1, d\<lparr>mQMITransactionID := mQMITransactionID d + 1\<rparr>))"
proof (cases "mQMITransactionID d = 0xFFFF")
  case True
  then have "mQMITransactionID d + 1 = 0" by simp
  then show ?thesis
    using True by (simp add: GetTransactionID_def atomic_add_1_spec tid_word_low Let_def)
next
  case False
  then have "mQMITransactionID d + 1 \<noteq> 0"
  proof (rule contrapos_nn)
    assume "mQMITransactionID d + 1 = 0"
    then have "mQMITransactionID d = - 1" by (simp add: eq_neg_iff_add_eq_0)
    then show "mQMITransactionID d = 0xFFFF" by simp
  qed
  then show ?thesis
    using False by (simp add: GetTransactionID_def atomic_add_1_spec tid_word_low Let_def)
qed


definition gobi_event_example :: gobi where
  "gobi_event_example = set_client 0x101 0 (\<lambda>c. c\<lparr>mList :=
     [\<lparr>rm_data = [1, 2, 3], rm_tid = 0, rm_size = 3\<rparr>]\<rparr>) gobi_example"


end
