(* ===== verification/ReadThread.thy ===== *)
theory ReadThread
  imports ClientMem
begin

text \<open>
  The callback-driven read path of \<^verbatim>\<open>qmidevice.c\<close> and its power management: \<open>StartRead\<close>
  and \<open>KillRead\<close> with the five allocations they own, \<open>ResubmitIntURB\<close>, \<open>IntCallback\<close>, and
  \<open>GobiSuspend\<close> and \<open>GobiResume\<close> of \<^verbatim>\<open>qcom_usbnet_main.c\<close> (kernels from 2.6.33 on). The
  results of the USB core (\<open>usb_alloc_urb\<close>, \<open>kzalloc\<close>, \<open>usb_submit_urb\<close>, \<open>usbnet_suspend\<close>,
  \<open>usbnet_resume\<close>, the endpoint table) are arguments.
\<close>

unbundle bit_operations_syntax

section \<open>Starting and killing\<close>

abbreviation "set_rd f g \<equiv> g\<lparr>rd := f (rd g)\<rparr>"

definition no_read_state :: read_state where
  "no_read_state = \<lparr>mpReadURB = False, mpIntURB = False, mpIntURB_dev = False, mpReadBuffer = False,
     mpIntBuffer = False, mpReadSetupPacket = False\<rparr>"

text \<open>An endpoint descriptor: address byte and attributes byte.\<close>

type_synonym endpoint = "u8 \<times> u8"

definition GetEndpoint :: "endpoint list \<Rightarrow> u8 \<Rightarrow> u8 \<Rightarrow> endpoint option" where
  "GetEndpoint eps type dir = find (\<lambda>(addr, attr). addr AND 0x80 = dir \<and> attr AND 0x03 = type) eps"

abbreviation (input) "USB_ENDPOINT_XFER_INT \<equiv> (3 :: u8)"
abbreviation (input) "USB_DIR_IN \<equiv> (0x80 :: u8)"

text \<open>What the kernel returns to \<open>StartRead\<close>: the five allocations in order, and the submission.\<close>

record start_env =
  se_read_urb :: bool
  se_int_urb :: bool
  se_read_buf :: bool
  se_int_buf :: bool
  se_setup :: bool
  se_endpoints :: "endpoint list"
  se_submit :: int

definition StartRead :: "start_env \<Rightarrow> gobi \<Rightarrow> int \<times> gobi" where
  "StartRead e g =
     (if \<not> IsDeviceValid (Some g) then (- ENXIO, g) else
      let g = set_rd (\<lambda>r. r\<lparr>mpReadURB := se_read_urb e\<rparr>) g in
      if \<not> mpReadURB (rd g) then (- ENOMEM, g) else
      let g = set_rd (\<lambda>r. r\<lparr>mpIntURB := se_int_urb e, mpIntURB_dev := False\<rparr>) g in
      if \<not> mpIntURB (rd g) then (- ENOMEM, set_rd (\<lambda>r. r\<lparr>mpReadURB := False\<rparr>) g) else
      let g = set_rd (\<lambda>r. r\<lparr>mpReadBuffer := se_read_buf e\<rparr>) g in
      if \<not> mpReadBuffer (rd g) then
        (- ENOMEM, set_rd (\<lambda>r. r\<lparr>mpIntURB := False, mpReadURB := False\<rparr>) g) else
      let g = set_rd (\<lambda>r. r\<lparr>mpIntBuffer := se_int_buf e\<rparr>) g in
      if \<not> mpIntBuffer (rd g) then
        (- ENOMEM, set_rd (\<lambda>r. r\<lparr>mpReadBuffer := False, mpIntURB := False, mpReadURB := False\<rparr>) g) else
      let g = set_rd (\<lambda>r. r\<lparr>mpReadSetupPacket := se_setup e\<rparr>) g in
      if \<not> mpReadSetupPacket (rd g) then
        (- ENOMEM, set_rd (\<lambda>r. r\<lparr>mpIntBuffer := False, mpReadBuffer := False, mpIntURB := False,
                               mpReadURB := False\<rparr>) g) else
      case GetEndpoint (se_endpoints e) USB_ENDPOINT_XFER_INT USB_DIR_IN of
        None \<Rightarrow> (- ENXIO, set_rd (\<lambda>r. r\<lparr>mpReadSetupPacket := False, mpIntBuffer := False,
                                       mpReadBuffer := False, mpIntURB := False, mpReadURB := False\<rparr>) g)
      | Some _ \<Rightarrow>
          let g = set_rd (\<lambda>r. r\<lparr>mpIntURB_dev := True\<rparr>) g in
          (se_submit e, if se_submit e = 0 then g\<lparr>int_submits := int_submits g + 1\<rparr> else g))"

definition KillRead :: "gobi \<Rightarrow> gobi" where
  "KillRead g =
     (if \<not> IsDeviceValid (Some g) then g else
      let g = (if mpReadURB (rd g) then g\<lparr>read_submits := 0\<rparr> else g);
          g = (if mpIntURB (rd g) then g\<lparr>int_submits := 0\<rparr> else g);
          g = set_rd (\<lambda>r. r\<lparr>mpReadSetupPacket := False\<rparr>) g;
          g = set_rd (\<lambda>r. r\<lparr>mpReadBuffer := False\<rparr>) g;
          g = set_rd (\<lambda>r. r\<lparr>mpIntBuffer := False\<rparr>) g;
          g = set_rd (\<lambda>r. r\<lparr>mpReadURB := False\<rparr>) g;
          g = set_rd (\<lambda>r. r\<lparr>mpIntURB := False\<rparr>) g
      in g)"

text \<open>Resubmission of an interrupt URB (\<open>present\<close>: the pointer is not NULL).\<close>

definition ResubmitIntURB :: "int \<Rightarrow> bool \<Rightarrow> gobi \<Rightarrow> int \<times> gobi" where
  "ResubmitIntURB status present g =
     (if \<not> present \<or> \<not> mpIntURB_dev (rd g) then (- EINVAL, g)
      else (status, if status = 0 then g\<lparr>int_submits := int_submits g + 1\<rparr> else g))"

section \<open>The interrupt callback\<close>

abbreviation (input) "USB_CDC_NOTIFY_RESPONSE_AVAILABLE \<equiv> (0x01 :: u8)"
abbreviation (input) "USB_CDC_NOTIFY_SPEED_CHANGE \<equiv> (0x2A :: u8)"
abbreviation (input) "CDC_CONNECTION_SPEED_CHANGE \<equiv> (0x08000000002AA1 :: u64)"

definition rd64 :: "bytes \<Rightarrow> nat \<Rightarrow> fault + u64" where
  "rd64 b i = (if i + 8 \<le> length b then Inr (of_le64 (drop i b)) else Inl (OOB_Read i))"

text \<open>
  \<open>buf\<close> is the interrupt transfer buffer, \<open>urb_status\<close> and \<open>actual_length\<close> those of the URB;
  \<open>read_status\<close> and \<open>int_status\<close> are the results of submitting the read URB and of
  resubmitting the interrupt URB. A URB being completed is no longer in flight.
\<close>

definition IntCallback ::
  "int \<Rightarrow> int \<Rightarrow> int \<Rightarrow> bytes \<Rightarrow> nat \<Rightarrow> gobi \<Rightarrow> fault + gobi" where
  "IntCallback read_status int_status urb_status buf actual_length g =
     (let g = g\<lparr>int_submits := int_submits g - 1\<rparr>;
          resubmit = (\<lambda>g. snd (ResubmitIntURB int_status True g)) in
      if \<not> IsDeviceValid (Some g) then Inr g
      else if urb_status \<noteq> 0 then
        if urb_status \<noteq> - EOVERFLOW then Inr g else Inr (resubmit g)
      else
        bnd (rd8 buf 1) (\<lambda>bNotificationType.
        if bNotificationType = USB_CDC_NOTIFY_RESPONSE_AVAILABLE then
          if read_status \<noteq> 0 then Inr (resubmit g)
          else Inr (g\<lparr>read_submits := read_submits g + 1\<rparr>)
        else if bNotificationType = USB_CDC_NOTIFY_SPEED_CHANGE then
          if actual_length = 16 then
            bnd (rd64 buf 0) (\<lambda>notification.
            if notification = CDC_CONNECTION_SPEED_CHANGE + ucast (mIntfNum g) * 0x100000000 then
              bnd (rd32 buf 8) (\<lambda>up.
              bnd (if up = 0 then Inr 0 else rd32 buf 12) (\<lambda>down.
              if up = 0 \<or> down = 0 then Inr (resubmit (GobiSetDownReason g CDC_CONNECTION_SPEED))
              else Inr (resubmit (GobiClearDownReason g CDC_CONNECTION_SPEED))))
            else Inr (resubmit g))
          else Inr (resubmit g)
        else Inr (resubmit g)))"

section \<open>Suspend and resume\<close>

abbreviation (input) "PM_EVENT_SUSPEND \<equiv> (2 :: int)"
abbreviation (input) "PM_EVENT_AUTO \<equiv> (0x400 :: int)"

definition GobiSuspend :: "int \<Rightarrow> int \<Rightarrow> gobi \<Rightarrow> int \<times> gobi" where
  "GobiSuspend usbnet_suspend powerEvent g =
     (let g = (if powerEvent AND PM_EVENT_AUTO = 0 then GobiSetDownReason g 2 else g);
          g = (if powerEvent AND PM_EVENT_SUSPEND \<noteq> 0 then
                 (KillRead g)\<lparr>reset_resume := False, power_state := powerEvent\<rparr>
               else g\<lparr>reset_resume := True\<rparr>)
      in (usbnet_suspend, g))"

definition GobiResume :: "int \<Rightarrow> start_env \<Rightarrow> gobi \<Rightarrow> int \<times> gobi" where
  "GobiResume usbnet_resume e g =
     (let oldPowerState = power_state g; g = g\<lparr>power_state := 0\<rparr> in
      if oldPowerState AND PM_EVENT_SUSPEND \<noteq> 0 then
        let g = GobiClearDownReason g 2; nRet = usbnet_resume in
        if nRet \<noteq> 0 then (nRet, g) else
        let (nRet, g) = StartRead e g in
        if nRet \<noteq> 0 then (nRet, g)
        else (nRet, g\<lparr>mThreadDoWork := mThreadDoWork g + 1\<rparr>)
      else (0, g))"

section \<open>Properties\<close>

definition all_read_state :: "read_state \<Rightarrow> bool" where
  "all_read_state r \<longleftrightarrow> mpReadURB r \<and> mpIntURB r \<and> mpIntURB_dev r \<and> mpReadBuffer r \<and> mpIntBuffer r
     \<and> mpReadSetupPacket r"

definition none_read_state :: "read_state \<Rightarrow> bool" where
  "none_read_state r \<longleftrightarrow> \<not> mpReadURB r \<and> \<not> mpIntURB r \<and> \<not> mpReadBuffer r \<and> \<not> mpIntBuffer r
     \<and> \<not> mpReadSetupPacket r"

lemma StartRead_0:
  assumes "StartRead e g = (0, g')"
  shows "all_read_state (rd g') \<and> int_submits g' = int_submits g + 1 \<and> read_submits g' = read_submits g
    \<and> net_link g' = net_link g \<and> mThreadDoWork g' = mThreadDoWork g \<and> qmi_devs g' = qmi_devs g"
  using assms
  by (auto simp: StartRead_def all_read_state_def Let_def split: if_splits option.splits)

lemma KillRead_all:
  assumes "mbQMIValid g" and "all_read_state (rd g)"
  shows "KillRead g = g\<lparr>read_submits := 0, int_submits := 0, rd := (rd g)\<lparr>mpReadSetupPacket := False,
    mpReadBuffer := False, mpIntBuffer := False, mpReadURB := False, mpIntURB := False\<rparr>\<rparr>"
  using assms by (simp add: KillRead_def all_read_state_def)


definition start_env_example :: start_env where
  "start_env_example = \<lparr>se_read_urb = True, se_int_urb = True, se_read_buf = True, se_int_buf = False,
     se_setup = True, se_endpoints = [(0x02, 2), (0x81, 3)], se_submit = 0\<rparr>"


text \<open>
  The read thread is kept alive by its own callbacks: with the interrupt URB in flight and
  nothing else, an interrupt completing without error (or with an overflow) on a valid device leaves exactly one
  URB in flight, the read URB after a response notification and the interrupt URB again in all
  other cases, provided the USB core accepts the submissions; any other error status ends the
  thread.
\<close>

theorem IntCallback_keeps_thread:
  assumes "mbQMIValid g" and "mpIntURB_dev (rd g)" and "int_submits g = 1" and "read_submits g = 0"
    and "IntCallback 0 0 st buf n g = Inr g'"
  shows "if st = 0 \<or> st = - EOVERFLOW then int_submits g' + read_submits g' = 1
           \<and> (read_submits g' = 1 \<longleftrightarrow> st = 0 \<and> buf ! 1 = USB_CDC_NOTIFY_RESPONSE_AVAILABLE)
         else int_submits g' + read_submits g' = 0"
  using assms
  by (auto simp: IntCallback_def ResubmitIntURB_def GobiSetDownReason_def GobiClearDownReason_def
      returns_iff rd8_def Let_def split: if_splits)

theorem IntCallback_keeps_thread_witness:
  "\<exists>g'. IntCallback 0 0 0 [0xA1, 1, 0, 0, 0, 0, 0, 0] 8 (gobi_example\<lparr>int_submits := 1\<rparr>) = Inr g'
     \<and> read_submits g' = 1"
proof -
  let ?g = "gobi_example\<lparr>int_submits := 1\<rparr>"
  have "mbQMIValid ?g" "mpIntURB_dev (rd ?g)" "int_submits ?g = 1" "read_submits ?g = 0"
    by (simp_all add: gobi_example_def)
  moreover obtain g' where g': "IntCallback 0 0 0 [0xA1, 1, 0, 0, 0, 0, 0, 0] 8 ?g = Inr g'"
    by (simp add: IntCallback_def rd8_def)
  ultimately show ?thesis
    using IntCallback_keeps_thread [of ?g 0 "[0xA1, 1, 0, 0, 0, 0, 0, 0]" 8 g'] by simp
qed

text \<open>
  A suspend and a resume restore the read path but not the link state: after a system suspend
  and a successful resume all five allocations are back and the interrupt URB is in flight, and the
  link is up even if it was down before, because no down reason is ever recorded.
\<close>

theorem suspend_resume:
  assumes "mbQMIValid g" and "mDownReason g = 0" and "all_read_state (rd g)"
    and "GobiResume 0 e (snd (GobiSuspend s PM_EVENT_SUSPEND g)) = (0, g')"
  shows "all_read_state (rd g') \<and> int_submits g' = 1 \<and> read_submits g' = 0 \<and> net_link g'
     \<and> mThreadDoWork g' = mThreadDoWork g + 1 \<and> qmi_devs g' = qmi_devs g"
proof -
  define h where "h = (KillRead (g\<lparr>net_link := False\<rparr>))\<lparr>reset_resume := False, power_state := PM_EVENT_SUSPEND\<rparr>"
  have susp: "snd (GobiSuspend s PM_EVENT_SUSPEND g) = h"
    by (simp add: GobiSuspend_def GobiSetDownReason_def h_def)
  define k where "k = h\<lparr>power_state := 0, net_link := True\<rparr>"
  have kill: "h = (g\<lparr>net_link := False, read_submits := 0, int_submits := 0, rd := (rd g)\<lparr>mpReadSetupPacket := False,
    mpReadBuffer := False, mpIntBuffer := False, mpReadURB := False, mpIntURB := False\<rparr>,
    reset_resume := False, power_state := PM_EVENT_SUSPEND\<rparr>)"
    using KillRead_all [of "g\<lparr>net_link := False\<rparr>"] assms(1,3) by (simp add: h_def)
  have k: "GobiClearDownReason (h\<lparr>power_state := 0\<rparr>) 2 = k" "power_state h = PM_EVENT_SUSPEND"
    using assms(1,2) by (simp_all add: GobiClearDownReason_def kill k_def)
  obtain r l where st: "StartRead e k = (r, l)" by fastforce
  have res: "(0, g') = (if r \<noteq> 0 then (r, l) else (r, l\<lparr>mThreadDoWork := mThreadDoWork l + 1\<rparr>))"
    using assms(4) by (simp add: susp GobiResume_def k st Let_def)
  then have "r = 0" and g': "g' = l\<lparr>mThreadDoWork := mThreadDoWork l + 1\<rparr>" by (auto split: if_splits)
  with StartRead_0 [of e k l] st show ?thesis by (simp add: k_def kill)
qed

theorem suspend_resume_witness:
  "\<exists>g'. GobiResume 0 (start_env_example\<lparr>se_int_buf := True\<rparr>)
       (snd (GobiSuspend 0 PM_EVENT_SUSPEND gobi_example)) = (0, g') \<and> net_link g' \<and> \<not> net_link gobi_example"
proof -
  obtain g' where g': "GobiResume 0 (start_env_example\<lparr>se_int_buf := True\<rparr>)
      (snd (GobiSuspend 0 PM_EVENT_SUSPEND gobi_example)) = (0, g')"
    by (simp add: GobiResume_def GobiSuspend_def KillRead_def StartRead_def start_env_example_def
        GetEndpoint_def GobiSetDownReason_def GobiClearDownReason_def Let_def gobi_example_def)
  have "mDownReason gobi_example = 0" "all_read_state (rd gobi_example)" "\<not> net_link gobi_example"
    by (simp_all add: gobi_example_def all_read_state_def)
  with suspend_resume [OF gobi_example_ok(1) _ _ g'] g' show ?thesis by auto
qed

end
