(* ===== verification/QmiReq.thy ===== *)
theory QmiReq
  imports QmiTlv
begin

text \<open>
  The request builders of \<^verbatim>\<open>src/src/linux/qcom_usbnet/qmi.c\<close>: each is the list of stores the
  C function performs on the caller's buffer, in its order, after its checks. The theorems say
  which QMI message (\<open>qmi_msg\<close>) each one leaves behind the QMUX header. \<open>TX_AGGR\<close> is
  defined by \<^verbatim>\<open>common.h\<close>, so the variants under it are the ones modelled.
\<close>

section \<open>Sizes\<close>

definition QMICTLGetClientIDReqSize :: u16 where
  "QMICTLGetClientIDReqSize = word_of_nat (sizeof_sQMUX + 10)"

definition QMICTLReleaseClientIDReqSize :: u16 where
  "QMICTLReleaseClientIDReqSize = word_of_nat (sizeof_sQMUX + 11)"

definition QMICTLReadyReqSize :: u16 where
  "QMICTLReadyReqSize = word_of_nat (sizeof_sQMUX + 10)"

definition QMIWDSSetEventReportReqSize :: u16 where
  "QMIWDSSetEventReportReqSize = word_of_nat (sizeof_sQMUX + 15)"

definition QMIWDSGetPKGSRVCStatusReqSize :: u16 where
  "QMIWDSGetPKGSRVCStatusReqSize = word_of_nat (sizeof_sQMUX + 7)"

definition QMIWDSStartNetworkReqSize :: u16 where
  "QMIWDSStartNetworkReqSize = word_of_nat (sizeof_sQMUX + 7 + 4)"

definition QMIWDASetDataFormatReqSettingsSize :: u16 where
  "QMIWDASetDataFormatReqSettingsSize = word_of_nat (sizeof_sQMUX + 11)"

definition QMIWDASetDataFormatReqSize :: u16 where
  "QMIWDASetDataFormatReqSize = word_of_nat (sizeof_sQMUX + 71)"

definition QMIWDSGetRuntimeSettingsReqSize :: u16 where
  "QMIWDSGetRuntimeSettingsReqSize = word_of_nat (sizeof_sQMUX + 14)"

definition QMIDMSGetMEIDReqSize :: u16 where
  "QMIDMSGetMEIDReqSize = word_of_nat (sizeof_sQMUX + 7)"

lemmas req_sizes = QMUXHeaderSize_def QMICTLGetClientIDReqSize_def
  QMICTLReleaseClientIDReqSize_def QMICTLReadyReqSize_def QMIWDSSetEventReportReqSize_def
  QMIWDSGetPKGSRVCStatusReqSize_def QMIWDSStartNetworkReqSize_def
  QMIWDASetDataFormatReqSettingsSize_def QMIWDASetDataFormatReqSize_def
  QMIWDSGetRuntimeSettingsReqSize_def QMIDMSGetMEIDReqSize_def

section \<open>The builders\<close>

text \<open>Perform the stores and return the resulting size.\<close>

definition fill_buffer :: "ptr \<Rightarrow> store list \<Rightarrow> nat \<Rightarrow> fault + (int \<times> ptr)" where
  "fill_buffer pBuffer ss len =
     (case pBuffer of
        None \<Rightarrow> Inl Null_Deref
      | Some b \<Rightarrow> bnd (do_stores b ss) (\<lambda>b'. Inr (int len, Some b')))"

definition QMICTLGetClientIDReq ::
  "ptr \<Rightarrow> u16 \<Rightarrow> u8 \<Rightarrow> u8 \<Rightarrow> fault + (int \<times> ptr)" where
  "QMICTLGetClientIDReq pBuffer buffSize transactionID serviceType =
     (if pBuffer = None \<or> buffSize < QMICTLGetClientIDReqSize
      then Inr (- ENOMEM, pBuffer)
      else fill_buffer pBuffer
        [W8 sizeof_sQMUX 0x00,
         W8 (sizeof_sQMUX + 1) transactionID,
         W16 (sizeof_sQMUX + 2) 0x0022,
         W16 (sizeof_sQMUX + 4) 0x0004,
         W8 (sizeof_sQMUX + 6) 0x01,
         W16 (sizeof_sQMUX + 7) 0x0001,
         W8 (sizeof_sQMUX + 9) serviceType]
        (sizeof_sQMUX + 10))"

definition QMICTLReleaseClientIDReq ::
  "ptr \<Rightarrow> u16 \<Rightarrow> u8 \<Rightarrow> u16 \<Rightarrow> fault + (int \<times> ptr)" where
  "QMICTLReleaseClientIDReq pBuffer buffSize transactionID clientID =
     (if pBuffer = None \<or> buffSize < QMICTLReleaseClientIDReqSize
      then Inr (- ENOMEM, pBuffer)
      else fill_buffer pBuffer
        [W8 sizeof_sQMUX 0x00,
         W8 (sizeof_sQMUX + 1) transactionID,
         W16 (sizeof_sQMUX + 2) 0x0023,
         W16 (sizeof_sQMUX + 4) 0x0005,
         W8 (sizeof_sQMUX + 6) 0x01,
         W16 (sizeof_sQMUX + 7) 0x0002,
         W16 (sizeof_sQMUX + 9) clientID]
        (sizeof_sQMUX + 11))"

definition QMICTLReadyReq ::
  "ptr \<Rightarrow> u16 \<Rightarrow> u8 \<Rightarrow> fault + (int \<times> ptr)" where
  "QMICTLReadyReq pBuffer buffSize transactionID =
     (if pBuffer = None \<or> buffSize < QMICTLReadyReqSize
      then Inr (- ENOMEM, pBuffer)
      else fill_buffer pBuffer
        [W8 sizeof_sQMUX 0x00,
         W8 (sizeof_sQMUX + 1) transactionID,
         W16 (sizeof_sQMUX + 2) 0x0021,
         W16 (sizeof_sQMUX + 4) 0x0004,
         W8 (sizeof_sQMUX + 6) 0x01,
         W16 (sizeof_sQMUX + 7) 0x0001,
         W8 (sizeof_sQMUX + 9) 0xFF]
        (sizeof_sQMUX + 10))"

definition QMIWDSSetEventReportReq ::
  "ptr \<Rightarrow> u16 \<Rightarrow> u16 \<Rightarrow> fault + (int \<times> ptr)" where
  "QMIWDSSetEventReportReq pBuffer buffSize transactionID =
     (if pBuffer = None \<or> buffSize < QMIWDSSetEventReportReqSize
      then Inr (- ENOMEM, pBuffer)
      else fill_buffer pBuffer
        [W8 sizeof_sQMUX 0x00,
         W16 (sizeof_sQMUX + 1) transactionID,
         W16 (sizeof_sQMUX + 3) 0x0001,
         W16 (sizeof_sQMUX + 5) 0x0008,
         W8 (sizeof_sQMUX + 7) 0x11,
         W16 (sizeof_sQMUX + 8) 0x0005,
         W8 (sizeof_sQMUX + 10) 0x01,
         W32 (sizeof_sQMUX + 11) 0x000000ff]
        (sizeof_sQMUX + 15))"

definition QMIWDASetDataFormatReqSettings ::
  "ptr \<Rightarrow> u16 \<Rightarrow> u16 \<Rightarrow> fault + (int \<times> ptr)" where
  "QMIWDASetDataFormatReqSettings pBuffer buffSize transactionID =
     (if pBuffer = None \<or> buffSize < QMIWDASetDataFormatReqSettingsSize
      then Inr (- ENOMEM, pBuffer)
      else fill_buffer pBuffer
        [W8 sizeof_sQMUX 0x00,
         W16 (sizeof_sQMUX + 1) transactionID,
         W16 (sizeof_sQMUX + 3) 0x002B,
         W16 (sizeof_sQMUX + 5) 0x0004,
         W8 (sizeof_sQMUX + 7) 0x10,
         W16 (sizeof_sQMUX + 8) 0x0001,
         W8 (sizeof_sQMUX + 10) 0x00]
        (sizeof_sQMUX + 11))"

text \<open>The fields of the device the data-format request reads.\<close>

record data_format =
  df_DLAggregationMaxDatagram :: u32
  df_DLAggregationMaxSize :: u32
  df_mIntfNum :: u32
  df_ULAggregationMaxDatagram :: u32
  df_ULAggregationMaxSize :: u32

definition QMIWDASetDataFormatReq ::
  "ptr \<Rightarrow> u16 \<Rightarrow> u16 \<Rightarrow> data_format \<Rightarrow> fault + (int \<times> ptr)" where
  "QMIWDASetDataFormatReq pBuffer buffSize transactionID pDev =
     (if pBuffer = None \<or> buffSize < QMIWDASetDataFormatReqSize
      then Inr (- ENOMEM, pBuffer)
      else fill_buffer pBuffer
        [W8 sizeof_sQMUX 0x00,
         W16 (sizeof_sQMUX + 1) transactionID,
         W16 (sizeof_sQMUX + 3) 0x0020,
         W16 (sizeof_sQMUX + 5) 0x0040,
         W8 (sizeof_sQMUX + 7) 0x10,
         W16 (sizeof_sQMUX + 8) 0x0001,
         W8 (sizeof_sQMUX + 10) 0x00,
         W8 (sizeof_sQMUX + 11) 0x11,
         W16 (sizeof_sQMUX + 12) 0x0004,
         W32 (sizeof_sQMUX + 14) 0x00000002,
         W8 (sizeof_sQMUX + 18) 0x12,
         W16 (sizeof_sQMUX + 19) 0x0004,
         W32 (sizeof_sQMUX + 21) 0x00000005,
         W8 (sizeof_sQMUX + 25) 0x13,
         W16 (sizeof_sQMUX + 26) 0x0004,
         W32 (sizeof_sQMUX + 28) 0x00000005,
         W8 (sizeof_sQMUX + 32) 0x15,
         W16 (sizeof_sQMUX + 33) 0x0004,
         W32 (sizeof_sQMUX + 35) (df_DLAggregationMaxDatagram pDev),
         W8 (sizeof_sQMUX + 39) 0x16,
         W16 (sizeof_sQMUX + 40) 0x0004,
         W32 (sizeof_sQMUX + 42) (df_DLAggregationMaxSize pDev),
         W8 (sizeof_sQMUX + 46) 0x17,
         W16 (sizeof_sQMUX + 47) 0x0008,
         W32 (sizeof_sQMUX + 49) 0x00000002,
         W32 (sizeof_sQMUX + 53) (df_mIntfNum pDev),
         W8 (sizeof_sQMUX + 57) 0x1B,
         W16 (sizeof_sQMUX + 58) 0x0004,
         W32 (sizeof_sQMUX + 60) (df_ULAggregationMaxDatagram pDev),
         W8 (sizeof_sQMUX + 64) 0x1C,
         W16 (sizeof_sQMUX + 65) 0x0004,
         W32 (sizeof_sQMUX + 67) (df_ULAggregationMaxSize pDev)]
        (sizeof_sQMUX + 71))"

definition QMIWDSGetPKGSRVCStatusReq ::
  "ptr \<Rightarrow> u16 \<Rightarrow> u16 \<Rightarrow> fault + (int \<times> ptr)" where
  "QMIWDSGetPKGSRVCStatusReq pBuffer buffSize transactionID =
     (if pBuffer = None \<or> buffSize < QMIWDSGetPKGSRVCStatusReqSize
      then Inr (- ENOMEM, pBuffer)
      else fill_buffer pBuffer
        [W8 sizeof_sQMUX 0x00,
         W16 (sizeof_sQMUX + 1) transactionID,
         W16 (sizeof_sQMUX + 3) 0x0022,
         W16 (sizeof_sQMUX + 5) 0x0000]
        (sizeof_sQMUX + 7))"

definition QMIDMSGetMEIDReq ::
  "ptr \<Rightarrow> u16 \<Rightarrow> u16 \<Rightarrow> fault + (int \<times> ptr)" where
  "QMIDMSGetMEIDReq pBuffer buffSize transactionID =
     (if pBuffer = None \<or> buffSize < QMIDMSGetMEIDReqSize
      then Inr (- ENOMEM, pBuffer)
      else fill_buffer pBuffer
        [W8 sizeof_sQMUX 0x00,
         W16 (sizeof_sQMUX + 1) transactionID,
         W16 (sizeof_sQMUX + 3) 0x0025,
         W16 (sizeof_sQMUX + 5) 0x0000]
        (sizeof_sQMUX + 7))"

text \<open>
  The builders below check only for a NULL buffer: \<open>buffSize\<close> is not compared with the size
  they write.
\<close>

definition QMIWDSStartNetworkReq ::
  "ptr \<Rightarrow> u16 \<Rightarrow> u16 \<Rightarrow> u8 \<Rightarrow> fault + (int \<times> ptr)" where
  "QMIWDSStartNetworkReq pBuffer buffSize transactionID profileid =
     (if pBuffer = None
      then Inr (- ENOMEM, pBuffer)
      else fill_buffer pBuffer
        [W8 sizeof_sQMUX 0x00,
         W16 (sizeof_sQMUX + 1) transactionID,
         W16 (sizeof_sQMUX + 3) 0x0020,
         W16 (sizeof_sQMUX + 5) 0x0004,
         W8 (sizeof_sQMUX + 7) 0x31,
         W16 (sizeof_sQMUX + 8) 0x0001,
         W8 (sizeof_sQMUX + 10) profileid]
        (sizeof_sQMUX + 11))"

definition QMIWDSStopNetworkReq ::
  "ptr \<Rightarrow> u16 \<Rightarrow> u16 \<Rightarrow> u32 \<Rightarrow> fault + (int \<times> ptr)" where
  "QMIWDSStopNetworkReq pBuffer buffSize transactionID connectid =
     (if pBuffer = None
      then Inr (- ENOMEM, pBuffer)
      else fill_buffer pBuffer
        [W8 sizeof_sQMUX 0x00,
         W16 (sizeof_sQMUX + 1) transactionID,
         W16 (sizeof_sQMUX + 3) 0x0021,
         W16 (sizeof_sQMUX + 5) 0x0007,
         W8 (sizeof_sQMUX + 7) 0x01,
         W16 (sizeof_sQMUX + 8) 0x0004,
         W32 (sizeof_sQMUX + 10) connectid]
        (sizeof_sQMUX + 14))"

definition QMIWDSGetRuntimeSettingsReq ::
  "ptr \<Rightarrow> u16 \<Rightarrow> u16 \<Rightarrow> fault + (int \<times> ptr)" where
  "QMIWDSGetRuntimeSettingsReq pBuffer buffSize transactionID =
     (if pBuffer = None
      then Inr (- ENOMEM, pBuffer)
      else fill_buffer pBuffer
        [W8 sizeof_sQMUX 0x00,
         W16 (sizeof_sQMUX + 1) transactionID,
         W16 (sizeof_sQMUX + 3) 0x002D,
         W16 (sizeof_sQMUX + 5) 0x0007,
         W8 (sizeof_sQMUX + 7) 0x10,
         W16 (sizeof_sQMUX + 8) 0x0004,
         W32 (sizeof_sQMUX + 10) 0x00002310]
        (sizeof_sQMUX + 14))"

definition QMIWDSSetIPFamilyPrefReq ::
  "ptr \<Rightarrow> u16 \<Rightarrow> u16 \<Rightarrow> u8 \<Rightarrow> fault + (int \<times> ptr)" where
  "QMIWDSSetIPFamilyPrefReq pBuffer buffSize transactionID ipType =
     (if pBuffer = None
      then Inr (- ENOMEM, pBuffer)
      else fill_buffer pBuffer
        [W8 sizeof_sQMUX 0x00,
         W16 (sizeof_sQMUX + 1) transactionID,
         W16 (sizeof_sQMUX + 3) 0x004D,
         W16 (sizeof_sQMUX + 5) 0x0004,
         W8 (sizeof_sQMUX + 7) 0x01,
         W16 (sizeof_sQMUX + 8) 0x0001,
         W8 (sizeof_sQMUX + 10) ipType]
        (sizeof_sQMUX + 11))"

text \<open>
  \<open>QMIWDSBindMuxPortReq\<close> reads the interface number of the device and the mux id of the QMI
  device (a \<open>u16\<close>, stored as a byte). The last store writes one byte of a four-byte value.
\<close>

definition QMIWDSBindMuxPortReq ::
  "ptr \<Rightarrow> u16 \<Rightarrow> u16 \<Rightarrow> u32 \<Rightarrow> u16 \<Rightarrow> fault + (int \<times> ptr)" where
  "QMIWDSBindMuxPortReq pBuffer buffSize transactionID mIntfNum MuxId =
     (if pBuffer = None
      then Inr (- ENOMEM, pBuffer)
      else fill_buffer pBuffer
        [W8 sizeof_sQMUX 0x00,
         W16 (sizeof_sQMUX + 1) transactionID,
         W16 (sizeof_sQMUX + 3) 0x00a2,
         W16 (sizeof_sQMUX + 5) 0x0016,
         W8 (sizeof_sQMUX + 7) 0x10,
         W16 (sizeof_sQMUX + 8) 0x0008,
         W32 (sizeof_sQMUX + 10) 0x00000002,
         W32 (sizeof_sQMUX + 14) mIntfNum,
         W8 (sizeof_sQMUX + 18) 0x11,
         W16 (sizeof_sQMUX + 19) 0x0001,
         W8 (sizeof_sQMUX + 21) (ucast MuxId),
         W8 (sizeof_sQMUX + 22) 0x13,
         W16 (sizeof_sQMUX + 23) 0x0004,
         W8 (sizeof_sQMUX + 25) 0x01]
        (sizeof_sQMUX + 29))"

section \<open>The messages they stand for\<close>

text \<open>
  A request as it travels behind the QMUX header: a control request has a one-byte transaction
  id, a service request a two-byte one.
\<close>

datatype request = Ctl u8 u16 "tlv list" | Svc u16 u16 "tlv list"

fun req_bytes :: "request \<Rightarrow> bytes" where
  "req_bytes (Ctl tid i tlvs) = [0, tid] @ qmi_msg i tlvs"
| "req_bytes (Svc tid i tlvs) = [0] @ le16 tid @ qmi_msg i tlvs"

text \<open>A buffer of at least \<open>6 + n\<close> bytes that holds the request behind its QMUX header.\<close>

definition holds_request :: "request \<Rightarrow> bytes \<Rightarrow> bytes \<Rightarrow> bool" where
  "holds_request r b b' \<longleftrightarrow>
     b' = take 6 b @ req_bytes r @ drop (6 + length (req_bytes r)) b"

lemma fill_buffer_contiguous:
  assumes "contiguous 6 ss" and "6 + length (stores_bytes ss) \<le> length b"
  shows "fill_buffer (Some b) ss n
           = Inr (int n, Some (take 6 b @ stores_bytes ss @ drop (6 + length (stores_bytes ss)) b))"
  by (simp add: fill_buffer_def do_stores_contiguous [OF assms])

lemmas req_bytes_eval = qmi_msg_def le16.len_enc le32.len_enc stores_bytes_simps

lemma builder_request:
  assumes "contiguous 6 ss" and "stores_bytes ss = req_bytes r"
    and "6 + length (req_bytes r) \<le> length b"
  shows "\<exists>b'. fill_buffer (Some b) ss n = Inr (int n, Some b') \<and> holds_request r b b'"
  using assms by (simp add: fill_buffer_contiguous holds_request_def)

text \<open>What each builder leaves in a buffer that is large enough.\<close>

lemma QMICTLGetClientIDReq_msg:
  assumes "16 \<le> unat buffSize" and "16 \<le> length b"
  shows "\<exists>b'. QMICTLGetClientIDReq (Some b) buffSize tid svc = Inr (16, Some b')
           \<and> holds_request (Ctl tid 0x22 [(0x01, [svc])]) b b'"
  using assms unfolding QMICTLGetClientIDReq_def
  by (auto simp: req_sizes word_less_nat_alt req_bytes_eval
      intro!: builder_request [where n = 16, simplified])

lemma QMICTLReleaseClientIDReq_msg:
  assumes "17 \<le> unat buffSize" and "17 \<le> length b"
  shows "\<exists>b'. QMICTLReleaseClientIDReq (Some b) buffSize tid cid = Inr (17, Some b')
           \<and> holds_request (Ctl tid 0x23 [(0x01, le16 cid)]) b b'"
  using assms unfolding QMICTLReleaseClientIDReq_def
  by (auto simp: req_sizes word_less_nat_alt req_bytes_eval
      intro!: builder_request [where n = 17, simplified])

lemma QMICTLReadyReq_msg:
  assumes "16 \<le> unat buffSize" and "16 \<le> length b"
  shows "\<exists>b'. QMICTLReadyReq (Some b) buffSize tid = Inr (16, Some b')
           \<and> holds_request (Ctl tid 0x21 [(0x01, [0xFF])]) b b'"
  using assms unfolding QMICTLReadyReq_def
  by (auto simp: req_sizes word_less_nat_alt req_bytes_eval
      intro!: builder_request [where n = 16, simplified])

lemma QMIWDSSetEventReportReq_msg:
  assumes "21 \<le> unat buffSize" and "21 \<le> length b"
  shows "\<exists>b'. QMIWDSSetEventReportReq (Some b) buffSize tid = Inr (21, Some b')
           \<and> holds_request (Svc tid 0x01 [(0x11, [0x01] @ le32 0xff)]) b b'"
  using assms unfolding QMIWDSSetEventReportReq_def
  by (auto simp: req_sizes word_less_nat_alt req_bytes_eval
      intro!: builder_request [where n = 21, simplified])

lemma QMIWDASetDataFormatReqSettings_msg:
  assumes "17 \<le> unat buffSize" and "17 \<le> length b"
  shows "\<exists>b'. QMIWDASetDataFormatReqSettings (Some b) buffSize tid = Inr (17, Some b')
           \<and> holds_request (Svc tid 0x2B [(0x10, [0x00])]) b b'"
  using assms unfolding QMIWDASetDataFormatReqSettings_def
  by (auto simp: req_sizes word_less_nat_alt req_bytes_eval
      intro!: builder_request [where n = 17, simplified])

definition data_format_tlvs :: "data_format \<Rightarrow> tlv list" where
  "data_format_tlvs d =
     [(0x10, [0x00]), (0x11, le32 2), (0x12, le32 5), (0x13, le32 5),
      (0x15, le32 (df_DLAggregationMaxDatagram d)), (0x16, le32 (df_DLAggregationMaxSize d)),
      (0x17, le32 2 @ le32 (df_mIntfNum d)),
      (0x1B, le32 (df_ULAggregationMaxDatagram d)), (0x1C, le32 (df_ULAggregationMaxSize d))]"

lemma QMIWDASetDataFormatReq_msg:
  assumes "77 \<le> unat buffSize" and "77 \<le> length b"
  shows "\<exists>b'. QMIWDASetDataFormatReq (Some b) buffSize tid d = Inr (77, Some b')
           \<and> holds_request (Svc tid 0x20 (data_format_tlvs d)) b b'"
  using assms unfolding QMIWDASetDataFormatReq_def
  by (auto simp: req_sizes word_less_nat_alt req_bytes_eval data_format_tlvs_def
      intro!: builder_request [where n = 77, simplified])

lemma QMIWDSGetPKGSRVCStatusReq_msg:
  assumes "13 \<le> unat buffSize" and "13 \<le> length b"
  shows "\<exists>b'. QMIWDSGetPKGSRVCStatusReq (Some b) buffSize tid = Inr (13, Some b')
           \<and> holds_request (Svc tid 0x22 []) b b'"
  using assms unfolding QMIWDSGetPKGSRVCStatusReq_def
  by (auto simp: req_sizes word_less_nat_alt req_bytes_eval
      intro!: builder_request [where n = 13, simplified])

lemma QMIDMSGetMEIDReq_msg:
  assumes "13 \<le> unat buffSize" and "13 \<le> length b"
  shows "\<exists>b'. QMIDMSGetMEIDReq (Some b) buffSize tid = Inr (13, Some b')
           \<and> holds_request (Svc tid 0x25 []) b b'"
  using assms unfolding QMIDMSGetMEIDReq_def
  by (auto simp: req_sizes word_less_nat_alt req_bytes_eval
      intro!: builder_request [where n = 13, simplified])

lemma QMIWDSStartNetworkReq_msg:
  assumes "17 \<le> length b"
  shows "\<exists>b'. QMIWDSStartNetworkReq (Some b) buffSize tid profile = Inr (17, Some b')
           \<and> holds_request (Svc tid 0x20 [(0x31, [profile])]) b b'"
  using assms unfolding QMIWDSStartNetworkReq_def
  by (auto simp: req_bytes_eval
      intro!: builder_request [where n = 17, simplified])

lemma QMIWDSStopNetworkReq_msg:
  assumes "20 \<le> length b"
  shows "\<exists>b'. QMIWDSStopNetworkReq (Some b) buffSize tid conn = Inr (20, Some b')
           \<and> holds_request (Svc tid 0x21 [(0x01, le32 conn)]) b b'"
  using assms unfolding QMIWDSStopNetworkReq_def
  by (auto simp: req_bytes_eval
      intro!: builder_request [where n = 20, simplified])

lemma QMIWDSGetRuntimeSettingsReq_msg:
  assumes "20 \<le> length b"
  shows "\<exists>b'. QMIWDSGetRuntimeSettingsReq (Some b) buffSize tid = Inr (20, Some b')
           \<and> holds_request (Svc tid 0x2D [(0x10, le32 0x2310)]) b b'"
  using assms unfolding QMIWDSGetRuntimeSettingsReq_def
  by (auto simp: req_bytes_eval
      intro!: builder_request [where n = 20, simplified])

lemma QMIWDSSetIPFamilyPrefReq_msg:
  assumes "17 \<le> length b"
  shows "\<exists>b'. QMIWDSSetIPFamilyPrefReq (Some b) buffSize tid ip = Inr (17, Some b')
           \<and> holds_request (Svc tid 0x4D [(0x01, [ip])]) b b'"
  using assms unfolding QMIWDSSetIPFamilyPrefReq_def
  by (auto simp: req_bytes_eval
      intro!: builder_request [where n = 17, simplified])

definition bind_mux_tlvs :: "u32 \<Rightarrow> u16 \<Rightarrow> bytes \<Rightarrow> tlv list" where
  "bind_mux_tlvs intf mux pad =
     [(0x10, le32 2 @ le32 intf), (0x11, [ucast mux]), (0x13, 1 # pad)]"

text \<open>The last TLV says four bytes; three of them are what the buffer held before.\<close>

lemma QMIWDSBindMuxPortReq_msg:
  assumes "35 \<le> length b"
  shows "\<exists>b'. QMIWDSBindMuxPortReq (Some b) buffSize tid intf mux = Inr (35, Some b')
           \<and> holds_request (Svc tid 0xa2 (bind_mux_tlvs intf mux (take 3 (drop 32 b)))) b b'"
proof -
  let ?ss = "[W8 6 0x00, W16 7 tid, W16 9 0x00a2, W16 11 0x0016, W8 13 0x10, W16 14 0x0008,
    W32 16 2, W32 20 intf, W8 24 0x11, W16 25 0x0001, W8 27 (ucast mux), W8 28 0x13,
    W16 29 0x0004, W8 31 1]"
  have len: "length (stores_bytes ?ss) = 26" by (simp add: le16.len_enc le32.len_enc)
  have c: "contiguous 6 ?ss" by (simp add: le16.len_enc le32.len_enc)
  have f: "QMIWDSBindMuxPortReq (Some b) buffSize tid intf mux
      = Inr (35, Some (take 6 b @ stores_bytes ?ss @ drop 32 b))"
    using fill_buffer_contiguous [OF c, of b 35] assms unfolding len
    by (simp add: QMIWDSBindMuxPortReq_def)
  have "drop 32 b = take 3 (drop 32 b) @ drop 35 b"
    using append_take_drop_id [of 3 "drop 32 b"] by simp
  moreover have "length (take 3 (drop 32 b)) = 3" using assms by simp
  ultimately have "holds_request (Svc tid 0xa2 (bind_mux_tlvs intf mux (take 3 (drop 32 b)))) b
      (take 6 b @ stores_bytes ?ss @ drop 32 b)"
    by (simp add: holds_request_def bind_mux_tlvs_def req_bytes_eval)
  with f show ?thesis by blast
qed

section \<open>Reading the requests back\<close>

lemma holds_Svc_body:
  assumes "holds_request (Svc tid i tlvs) b b'" and "6 + length (req_bytes (Svc tid i tlvs)) \<le> length b"
  shows "drop 9 b' = qmi_msg i tlvs @ drop (9 + length (qmi_msg i tlvs)) b"
proof -
  have "b' = (take 6 b @ [0] @ le16 tid) @ qmi_msg i tlvs @ drop (9 + length (qmi_msg i tlvs)) b"
    using assms by (simp add: holds_request_def le16.len_enc)
  moreover have "length (take 6 b @ [0] @ le16 tid) = 9"
    using assms(2) by (simp add: le16.len_enc)
  ultimately show ?thesis by (metis append_eq_conv_conj)
qed

section \<open>Properties\<close>



text \<open>The service requests of the data path (event report, packet service status, serial
  numbers, start and stop network, runtime settings, IP family) leave exactly the message of
  their id and TLVs behind the QMUX header, with consistent TLV and message lengths, whenever
  the buffer has the size they write.\<close>

theorem service_requests_well_formed:
  assumes "21 \<le> unat buffSize" and "21 \<le> length b"
  shows "(\<exists>b'. QMIWDSSetEventReportReq (Some b) buffSize tid = Inr (21, Some b')
             \<and> holds_request (Svc tid 0x01 [(0x11, [0x01] @ le32 0xff)]) b b')
       \<and> (\<exists>b'. QMIWDSGetPKGSRVCStatusReq (Some b) buffSize tid = Inr (13, Some b')
             \<and> holds_request (Svc tid 0x22 []) b b')
       \<and> (\<exists>b'. QMIDMSGetMEIDReq (Some b) buffSize tid = Inr (13, Some b')
             \<and> holds_request (Svc tid 0x25 []) b b')
       \<and> (\<exists>b'. QMIWDASetDataFormatReqSettings (Some b) buffSize tid = Inr (17, Some b')
             \<and> holds_request (Svc tid 0x2B [(0x10, [0x00])]) b b')
       \<and> (\<exists>b'. QMIWDSStartNetworkReq (Some b) buffSize tid prof = Inr (17, Some b')
             \<and> holds_request (Svc tid 0x20 [(0x31, [prof])]) b b')
       \<and> (\<exists>b'. QMIWDSStopNetworkReq (Some b) buffSize tid conn = Inr (20, Some b')
             \<and> holds_request (Svc tid 0x21 [(0x01, le32 conn)]) b b')
       \<and> (\<exists>b'. QMIWDSGetRuntimeSettingsReq (Some b) buffSize tid = Inr (20, Some b')
             \<and> holds_request (Svc tid 0x2D [(0x10, le32 0x2310)]) b b')
       \<and> (\<exists>b'. QMIWDSSetIPFamilyPrefReq (Some b) buffSize tid ip = Inr (17, Some b')
             \<and> holds_request (Svc tid 0x4D [(0x01, [ip])]) b b')"
  using assms
  by (intro conjI QMIWDSSetEventReportReq_msg QMIWDSGetPKGSRVCStatusReq_msg QMIDMSGetMEIDReq_msg
      QMIWDASetDataFormatReqSettings_msg QMIWDSStartNetworkReq_msg QMIWDSStopNetworkReq_msg
      QMIWDSGetRuntimeSettingsReq_msg QMIWDSSetIPFamilyPrefReq_msg) simp_all

theorem service_requests_well_formed_witness:
  "\<exists>b'. QMIWDSSetEventReportReq (Some (replicate 21 0)) 21 9 = Inr (21, Some b')
      \<and> holds_request (Svc 9 0x01 [(0x11, [0x01] @ le32 0xff)]) (replicate 21 0) b'"
  using service_requests_well_formed [of 21 "replicate 21 0" 9] by simp

text \<open>C26: The data-format request tells the device exactly the aggregation limits the driver
  holds: parsing the request with the driver's own parser, behind the QMUX and SDU headers,
  gives message id 0x20 and, for each of the four limits and the interface number, the value of
  the device record.\<close>

theorem data_format_request_roundtrip:
  assumes "77 \<le> unat buffSize" and "length b = 77"
  shows "\<exists>b'. QMIWDASetDataFormatReq (Some b) buffSize tid d = Inr (77, Some b')
           \<and> GetQMIMessageID (Some (drop 9 b')) 68 = Inr 0x20
           \<and> GetTLV (Some (drop 9 b')) 68 0x15 (Some [0, 0, 0, 0]) 4
               = Inr (4, Some (le32 (df_DLAggregationMaxDatagram d)))
           \<and> GetTLV (Some (drop 9 b')) 68 0x16 (Some [0, 0, 0, 0]) 4
               = Inr (4, Some (le32 (df_DLAggregationMaxSize d)))
           \<and> GetTLV (Some (drop 9 b')) 68 0x1B (Some [0, 0, 0, 0]) 4
               = Inr (4, Some (le32 (df_ULAggregationMaxDatagram d)))
           \<and> GetTLV (Some (drop 9 b')) 68 0x1C (Some [0, 0, 0, 0]) 4
               = Inr (4, Some (le32 (df_ULAggregationMaxSize d)))
           \<and> GetTLV (Some (drop 9 b')) 68 0x17 (Some (replicate 8 0)) 8
               = Inr (8, Some (le32 2 @ le32 (df_mIntfNum d)))"
proof -
  obtain b' where b': "QMIWDASetDataFormatReq (Some b) buffSize tid d = Inr (77, Some b')"
    and h: "holds_request (Svc tid 0x20 (data_format_tlvs d)) b b'"
    using QMIWDASetDataFormatReq_msg [of buffSize b tid d] assms by auto
  have l: "length (qmi_msg 0x20 (data_format_tlvs d)) = 68"
    by (simp add: length_qmi_msg data_format_tlvs_def le16.len_enc le32.len_enc)
  have d: "drop 9 b' = qmi_msg 0x20 (data_format_tlvs d) @ []"
    using holds_Svc_body [OF h] assms(2) l by (simp add: le16.len_enc)
  have v: "\<forall>f \<in> set (data_format_tlvs d). tlv_valid f"
    by (simp add: data_format_tlvs_def le32.len_enc)
  have m: "unat (68 :: u16) = length (qmi_msg 0x20 (data_format_tlvs d))" by (simp add: l)
  have g: "GetTLV (Some (drop 9 b')) 68 t (Some out) bl = tlv_result t (data_format_tlvs d) out bl"
    for t out bl unfolding d by (rule GetTLV_result [OF v m])
  have i: "GetQMIMessageID (Some (drop 9 b')) 68 = Inr 0x20"
    unfolding d by (subst GetQMIMessageID_msg [OF m]) simp
  show ?thesis
    using b' by (intro exI [of _ b'])
      (simp add: g i tlv_result_def data_format_tlvs_def le32.len_enc del: drop_append)
qed

theorem data_format_request_roundtrip_witness:
  "\<exists>b'. QMIWDASetDataFormatReq (Some (replicate 77 0)) 77 3
          \<lparr>df_DLAggregationMaxDatagram = 0x20, df_DLAggregationMaxSize = 0x7C00, df_mIntfNum = 4,
           df_ULAggregationMaxDatagram = 0x20, df_ULAggregationMaxSize = 0x7C00\<rparr>
        = Inr (77, Some b')
      \<and> GetTLV (Some (drop 9 b')) 68 0x1C (Some [0, 0, 0, 0]) 4 = Inr (4, Some (le32 0x7C00))"
proof -
  let ?d = "\<lparr>df_DLAggregationMaxDatagram = 0x20, df_DLAggregationMaxSize = 0x7C00, df_mIntfNum = 4,
           df_ULAggregationMaxDatagram = 0x20, df_ULAggregationMaxSize = 0x7C00\<rparr> :: data_format"
  have "77 \<le> unat (77 :: u16)" and "length (replicate 77 (0 :: u8)) = 77" by simp_all
  from data_format_request_roundtrip [OF this, of 3 ?d] show ?thesis by auto
qed

text \<open>The bind request, built in a zeroed buffer as its callers do, is a well-formed message
  that binds the interface number and the low byte of the mux id: the one-byte store into the
  four-byte client type leaves the value 1 because the rest of the buffer is zero.\<close>

theorem bind_mux_request_well_formed:
  "\<exists>b'. QMIWDSBindMuxPortReq (Some (replicate 35 0)) buffSize tid intf mux = Inr (35, Some b')
      \<and> b' = replicate 6 0 @ req_bytes (Svc tid 0xa2
               [(0x10, le32 2 @ le32 intf), (0x11, [ucast mux]), (0x13, le32 1)])"
proof -
  obtain b' where "QMIWDSBindMuxPortReq (Some (replicate 35 0)) buffSize tid intf mux
        = Inr (35, Some b')"
    and "holds_request (Svc tid 0xa2 (bind_mux_tlvs intf mux (take 3 (drop 32 (replicate 35 0)))))
          (replicate 35 0) b'"
    using QMIWDSBindMuxPortReq_msg [of "replicate 35 0"] by fastforce
  moreover have "bind_mux_tlvs intf mux (take 3 (drop 32 (replicate 35 0)))
      = [(0x10, le32 2 @ le32 intf), (0x11, [ucast mux]), (0x13, le32 1)]"
    by (simp add: bind_mux_tlvs_def le32_def numeral_3_eq_3)
  ultimately show ?thesis
    by (simp add: holds_request_def req_bytes_eval)
qed

end
