(* ===== verification/Transport.thy ===== *)
theory Transport
  imports ReadThread QmiReq
begin

text \<open>
  Messages between the device and the clients, from \<^verbatim>\<open>qmidevice.c\<close>: \<open>ReadCallback\<close> with
  the queue of indications it feeds, the synchronous reads and writes, and the allocation and
  release of client ids over the control service.

  The operations run against a \<open>world\<close>: the driver state, the results the kernel will return
  (allocations, USB core calls; when a list is used up the calls succeed), and the events that
  happen while a thread waits, in order: a completed read transfer, the end of the wait (time-out
  or signal), the removal of the device. \<open>live\<close> counts the URBs, request buffers and setup packets
  allocated here and not yet freed, \<open>autopm\<close> the power references held.
\<close>

unbundle bit_operations_syntax

section \<open>The world\<close>

datatype event = Transfer int bytes nat | Pause | Unplug

record world =
  gb :: gobi
  kmem :: "bool list"
  usb :: "int list"
  events :: "event list"
  live :: int
  autopm :: int
  next_urb :: nat

definition pop_kmem :: "world \<Rightarrow> bool \<times> world" where
  "pop_kmem w = (case kmem w of [] \<Rightarrow> (True, w) | b # bs \<Rightarrow> (b, w\<lparr>kmem := bs\<rparr>))"

definition pop_usb :: "world \<Rightarrow> int \<times> world" where
  "pop_usb w = (case usb w of [] \<Rightarrow> (0, w) | r # rs \<Rightarrow> (r, w\<lparr>usb := rs\<rparr>))"

text \<open>\<open>kzalloc\<close> or \<open>usb_alloc_urb\<close>; \<open>kfree\<close> or \<open>usb_free_urb\<close>.\<close>

definition alloc :: "world \<Rightarrow> bool \<times> world" where
  "alloc w = (let (ok, w) = pop_kmem w in (ok, if ok then w\<lparr>live := live w + 1\<rparr> else w))"

definition free :: "world \<Rightarrow> world" where
  "free w = w\<lparr>live := live w - 1\<rparr>"

text \<open>An operation on the driver state, with a result or without.\<close>

definition on_gb :: "(gobi \<Rightarrow> fault + ('a \<times> gobi)) \<Rightarrow> world \<Rightarrow> fault + ('a \<times> world)" where
  "on_gb f w = bnd (f (gb w)) (\<lambda>(x, g). Inr (x, w\<lparr>gb := g\<rparr>))"

abbreviation "upd_gb f w \<equiv> w\<lparr>gb := f (gb w)\<rparr>"
abbreviation "valid w \<equiv> IsDeviceValid (Some (gb w))"

section \<open>Indications\<close>

abbreviation (input) "QMICTL \<equiv> (0 :: u16)"
abbreviation (input) "QMIWDS \<equiv> (1 :: u8)"
abbreviation (input) "QMI_RESPONSE_CONTROL_FLAG \<equiv> (0x02 :: u8)"
abbreviation (input) "QMI_INDICATION_CONTROL_FLAG \<equiv> (0x04 :: u8)"
abbreviation (input) "QMI_WDS_GET_RUNTIME_SETTINGS_RESP \<equiv> (0x2D :: int)"
abbreviation (input) "QMI_WDS_PKT_SRVC_STATUS_IND \<equiv> (0x22 :: int)"
abbreviation (input) "QMI_WDS_EXTENDED_IP_CONFIG_IND \<equiv> (0x8C :: int)"
abbreviation (input) "QMI_WDS_REVERSE_IP_TRANSPORT_CONNECTION_IND \<equiv> (0x8E :: int)"

text \<open>The list lock and the semaphore of the worker are pointers that are set when it starts.\<close>

definition AddToProcessIndList ::
  "nat \<Rightarrow> int \<Rightarrow> bytes \<Rightarrow> u16 \<Rightarrow> u16 \<Rightarrow> world \<Rightarrow> fault + world" where
  "AddToProcessIndList i MsgId pData dataSize clientId w =
     (if dataSize = 0 then Inr w else
      let (ok, w) = pop_kmem w in
      if \<not> ok then Inr w else
      let (ok, w) = pop_kmem w in
      if \<not> ok then Inr w else
      bnd (rd_block pData 0 (unat dataSize)) (\<lambda>pDataCopy.
      if \<not> worker_ready (gb w) then Inl Null_Deref
      else Inr (upd_gb (\<lambda>g. g\<lparr>mpIndDataInfoList := mpIndDataInfoList g
             @ [\<lparr>ind_MsgId = MsgId, ind_Data = pDataCopy, ind_DataLen = dataSize,
                 ind_ClientId = clientId, ind_QMIDev = i\<rparr>]\<rparr>) w)))"

definition up_worker :: "world \<Rightarrow> fault + world" where
  "up_worker w = (if \<not> worker_ready (gb w) then Inl Null_Deref
                  else Inr (upd_gb (\<lambda>g. g\<lparr>responseReadSem := responseReadSem g + 1\<rparr>) w))"

definition processIndResponses ::
  "bytes \<Rightarrow> nat \<Rightarrow> u16 \<Rightarrow> u16 \<Rightarrow> world \<Rightarrow> fault + world" where
  "processIndResponses pDataCopy i dataSize clientId w =
     bnd (rd8 pDataCopy (unat QMUXHeaderSize)) (\<lambda>cntlFlg.
     if \<not> valid w then Inr w else
     bnd (rd8 pDataCopy 4) (\<lambda>mQMIService.
     if mQMIService = QMIWDS then
       let offset = sizeof_sQMUX + 3 in
       bnd (GetQMIMessageID (skip offset (Some pDataCopy)) (dataSize - word_of_nat offset)) (\<lambda>MsgId.
       if cntlFlg = QMI_INDICATION_CONTROL_FLAG then
         if MsgId = QMI_WDS_PKT_SRVC_STATUS_IND \<or> MsgId = QMI_WDS_EXTENDED_IP_CONFIG_IND
            \<or> MsgId = QMI_WDS_REVERSE_IP_TRANSPORT_CONNECTION_IND
         then bnd (AddToProcessIndList i MsgId pDataCopy dataSize clientId w) up_worker
         else Inr w
       else if cntlFlg = QMI_RESPONSE_CONTROL_FLAG then
         if MsgId = QMI_WDS_GET_RUNTIME_SETTINGS_RESP
         then bnd (AddToProcessIndList i MsgId pDataCopy dataSize clientId w) up_worker
         else Inr w
       else Inr w)
     else Inr w))"

section \<open>The read callback\<close>

text \<open>
  One pass over the clients of a device: False when storing failed, which ends the callback;
  after the client of a message that is no broadcast the pass ends.
\<close>

fun deliver_clients ::
  "nat \<Rightarrow> u16 \<Rightarrow> u16 \<Rightarrow> bytes \<Rightarrow> u16 \<Rightarrow> u16 list \<Rightarrow> world \<Rightarrow> fault + (bool \<times> world)" where
  "deliver_clients i clientID transactionID pData dataSize [] w = Inr (True, w)"
| "deliver_clients i clientID transactionID pData dataSize (c # cs) w =
     (if c = clientID \<or> c OR 0xff00 = clientID then
        let (ok, w) = pop_kmem w in
        if \<not> ok then Inl Null_Deref else
        bnd (rd_block pData 0 (unat dataSize)) (\<lambda>pDataCopy.
        bnd (processIndResponses pDataCopy i dataSize clientID w) (\<lambda>w.
        let (ok, w) = pop_kmem w in
        bnd (on_gb (\<lambda>g. AddToReadMemList ok g c transactionID pDataCopy dataSize i) w) (\<lambda>(added, w).
        if \<not> added then Inr (False, w) else
        let (ok, w) = pop_kmem w in
        bnd (on_gb (\<lambda>g. NotifyAndPopNotifyList ok g c transactionID i) w) (\<lambda>(_, w).
        let w = upd_gb (\<lambda>g. set_client c i (\<lambda>m. m\<lparr>mWaitQueue := mWaitQueue m + 1\<rparr>) g) w in
        if drop_bit 8 clientID \<noteq> 0xff then Inr (True, w)
        else deliver_clients i clientID transactionID pData dataSize cs w))))
      else deliver_clients i clientID transactionID pData dataSize cs w)"

fun deliver_mux ::
  "nat list \<Rightarrow> u16 \<Rightarrow> u16 \<Rightarrow> bytes \<Rightarrow> u16 \<Rightarrow> world \<Rightarrow> fault + (bool \<times> world)" where
  "deliver_mux [] clientID transactionID pData dataSize w = Inr (True, w)"
| "deliver_mux (i # is) clientID transactionID pData dataSize w =
     bnd (deliver_clients i clientID transactionID pData dataSize (client_ids i (gb w)) w) (\<lambda>(ok, w).
     if \<not> ok then Inr (False, w)
     else deliver_mux is clientID transactionID pData dataSize w)"

definition resubmit_int :: "world \<Rightarrow> world" where
  "resubmit_int w = (let (r, w) = pop_usb w in
     upd_gb (\<lambda>g. snd (ResubmitIntURB r (mpIntURB (rd g)) g)) w)"

text \<open>When storing fails for a MUX device the interrupt URB is not resubmitted.\<close>

definition ReadCallback :: "int \<Rightarrow> bytes \<Rightarrow> nat \<Rightarrow> world \<Rightarrow> fault + world" where
  "ReadCallback urb_status buf actual_length w =
     (let w = upd_gb (\<lambda>g. g\<lparr>read_submits := read_submits g - 1\<rparr>) w;
          dataSize = word_of_nat actual_length :: u16 in
      if \<not> valid w then Inr w
      else if urb_status \<noteq> 0 then Inr (resubmit_int w) else
      bnd (ParseQMUX 0 (Some buf) dataSize) (\<lambda>(result, clientID).
      if result < 0 then Inr (resubmit_int w)
      else if int (unat dataSize) < result + 3 then Inr (resubmit_int w) else
      bnd (if clientID = QMICTL then bnd (rd8 buf (nat result + 1)) (\<lambda>b. Inr (ucast b))
           else rd16 buf (nat result + 1)) (\<lambda>transactionID.
      bnd (deliver_clients 0 clientID transactionID buf dataSize (client_ids 0 (gb w)) w) (\<lambda>(ok, w).
      if \<not> ok then Inr (resubmit_int w) else
      bnd (deliver_mux [1, 2, 3] clientID transactionID buf dataSize w) (\<lambda>(ok, w).
      Inr (if ok then resubmit_int w else w))))))"

section \<open>Waiting\<close>

abbreviation "sema_init s w \<equiv> upd_gb (\<lambda>g. g\<lparr>semaphores := (semaphores g)(s := 0)\<rparr>) w"
abbreviation "take_sem s w \<equiv> upd_gb (\<lambda>g. g\<lparr>semaphores := (semaphores g)(s := semaphores g s - 1)\<rparr>) w"
abbreviation "unplug w \<equiv> upd_gb (\<lambda>g. g\<lparr>mbQMIValid := False\<rparr>) w"

text \<open>
  \<open>down_timeout\<close> and \<open>down_interruptible\<close>: True when the semaphore was taken. Removing the device
  wakes the waiting thread (its client is released).
\<close>

fun down_loop :: "nat \<Rightarrow> event list \<Rightarrow> world \<Rightarrow> fault + (bool \<times> world)" where
  "down_loop s [] w =
     (if semaphores (gb w) s > 0 then Inr (True, take_sem s w\<lparr>events := []\<rparr>)
      else Inr (False, w\<lparr>events := []\<rparr>))"
| "down_loop s (e # es) w =
     (if semaphores (gb w) s > 0 then Inr (True, take_sem s w\<lparr>events := e # es\<rparr>)
      else (case e of
              Pause \<Rightarrow> Inr (False, w\<lparr>events := es\<rparr>)
            | Unplug \<Rightarrow> Inr (True, unplug w\<lparr>events := es\<rparr>)
            | Transfer st b n \<Rightarrow> bnd (ReadCallback st b n w) (down_loop s es)))"

definition down_sem :: "nat \<Rightarrow> world \<Rightarrow> fault + (bool \<times> world)" where
  "down_sem s w = down_loop s (events w) w"

text \<open>\<open>msleep\<close>: what happens until the sleep is over.\<close>

fun sleep_loop :: "event list \<Rightarrow> world \<Rightarrow> fault + world" where
  "sleep_loop [] w = Inr (w\<lparr>events := []\<rparr>)"
| "sleep_loop (e # es) w =
     (case e of
        Pause \<Rightarrow> Inr (w\<lparr>events := es\<rparr>)
      | Unplug \<Rightarrow> sleep_loop es (unplug w)
      | Transfer st b n \<Rightarrow> bnd (ReadCallback st b n w) (sleep_loop es))"

definition msleep :: "world \<Rightarrow> fault + world" where
  "msleep w = sleep_loop (events w) w"

section \<open>Synchronous reads\<close>

text \<open>What a wait that succeeds on an empty semaphore has used up.\<close>

lemma down_loop_shorter:
  "down_loop s es w = Inr (ok, w') \<Longrightarrow> length (events w') \<le> length es
     \<and> (ok \<and> semaphores (gb w) s = 0 \<longrightarrow> length (events w') < length es)"
proof (induction s es w arbitrary: ok w' rule: down_loop.induct)
  case (2 s e es w)
  show ?case
  proof (cases "semaphores (gb w) s > 0")
    case False
    show ?thesis
    proof (cases e)
      case (Transfer st b n)
      then obtain v where v: "ReadCallback st b n w = Inr v" "down_loop s es v = Inr (ok, w')"
        using "2.prems" False by (auto simp: returns_iff)
      then show ?thesis using "2.IH" [OF False Transfer] by fastforce
    qed (use "2.prems" False in auto)
  qed (use "2.prems" in auto)
qed (auto split: if_splits)

lemma pop_kmem_keeps [simp]:
  "events (snd (pop_kmem w)) = events w" "gb (snd (pop_kmem w)) = gb w" "usb (snd (pop_kmem w)) = usb w"
  "live (snd (pop_kmem w)) = live w" "autopm (snd (pop_kmem w)) = autopm w"
  "next_urb (snd (pop_kmem w)) = next_urb w"
  by (simp_all add: pop_kmem_def split: list.splits)

lemma on_gb_events: "on_gb f w = Inr (x, w') \<Longrightarrow> events w' = events w"
  by (auto simp: on_gb_def returns_iff)

lemma AddToNotifyList_semaphores:
  "AddToNotifyList a g cid tid f p i = Inr (r, g') \<Longrightarrow> semaphores g' = semaphores g"
  by (auto simp: AddToNotifyList_def spin_lock_def spin_unlock_def Let_def split: if_splits option.splits)

text \<open>The entry of a wait that was given up is taken off the list again.\<close>

definition remove_waiter :: "nat \<Rightarrow> nat \<Rightarrow> u16 \<Rightarrow> gobi \<Rightarrow> fault + gobi" where
  "remove_waiter readSem i clientID g =
     bnd (spin_lock i g) (\<lambda>g.
     let g = set_client clientID i (\<lambda>c. c\<lparr>mReadNotifyList :=
               (case pop_first (\<lambda>e. nf_data e = readSem) (mReadNotifyList c) of
                  None \<Rightarrow> mReadNotifyList c | Some (_, rest) \<Rightarrow> rest)\<rparr>) g
     in spin_unlock i g)"

text \<open>\<open>readSem\<close> is the address of the semaphore on the stack, \<open>interrupted\<close> the value returned when
  the wait is given up.\<close>

function read_loop ::
  "int \<Rightarrow> nat \<Rightarrow> u16 \<Rightarrow> u16 \<Rightarrow> nat \<Rightarrow> world \<Rightarrow> fault + (int \<times> ptr \<times> world)" where
  "read_loop interrupted readSem clientID transactionID i w =
     bnd (on_gb (\<lambda>g. PopFromReadMemList g clientID transactionID i) w) (\<lambda>(popped, w).
     case popped of
       Some (pData, dataSize) \<Rightarrow> Inr (int (unat dataSize), Some pData, w)
     | None \<Rightarrow>
         let w = sema_init readSem w;
             (alloc_ok, w) = pop_kmem w in
         bnd (on_gb (\<lambda>g. AddToNotifyList alloc_ok g clientID transactionID (Some Fn_UpSem) readSem i) w)
           (\<lambda>(added, w).
         if \<not> added then Inr (- EFAULT, None, w) else
         bnd (down_sem readSem w) (\<lambda>(taken, w).
         if \<not> taken then
           bnd (remove_waiter readSem i clientID (gb w)) (\<lambda>g. Inr (interrupted, None, w\<lparr>gb := g\<rparr>))
         else if \<not> valid w then Inr (- ENXIO, None, w)
         else read_loop interrupted readSem clientID transactionID i w)))"
  by pat_completeness auto

termination
proof (relation "measure (\<lambda>(r, s, c, t, i, w). length (events w))", goal_cases)
  case (2 r s c t i w p x w1 q w2 ok w3 z added w4 z' taken w5)
  have s0: "semaphores (gb w4) s = 0"
    using 2 AddToNotifyList_semaphores
    by (auto simp: on_gb_def returns_iff pop_kmem_def split: list.splits)
  have "events w4 = events w3" "events w1 = events w"
    using 2 by (auto dest!: on_gb_events)
  moreover have "events w3 = events w1"
    using 2 by (auto simp: pop_kmem_def split: list.splits)
  ultimately have e: "events w4 = events w" by simp
  show ?case
    using 2 s0 e down_loop_shorter [of s "events w4" w4 taken w5] by (simp add: down_sem_def)
qed simp

declare read_loop.simps [simp del]

definition ReadSync :: "nat \<Rightarrow> u16 \<Rightarrow> u16 \<Rightarrow> nat \<Rightarrow> world \<Rightarrow> fault + (int \<times> ptr \<times> world)" where
  "ReadSync readSem clientID transactionID i w =
     (if \<not> valid w then Inr (- ENXIO, None, w)
      else case FindClientMem (gb w) clientID i of
             None \<Rightarrow> Inr (- ENXIO, None, w)
           | Some _ \<Rightarrow> read_loop (- EINTR) readSem clientID transactionID i w)"

definition ReadSyncTimeout ::
  "bool \<Rightarrow> nat \<Rightarrow> u16 \<Rightarrow> u16 \<Rightarrow> nat \<Rightarrow> world \<Rightarrow> fault + (int \<times> ptr \<times> world)" where
  "ReadSyncTimeout use_down_timeout readSem clientID transactionID i w =
     (if \<not> valid w then Inr (- ENXIO, None, w)
      else case FindClientMem (gb w) clientID i of
             None \<Rightarrow> Inr (- ENXIO, None, w)
           | Some _ \<Rightarrow> read_loop (if use_down_timeout then - ETIME else - EINTR)
                        readSem clientID transactionID i w)"

section \<open>Synchronous writes\<close>

text \<open>
  \<open>write_wait\<close>: 0 when the write completed, else the time-out or signal; the device may be
  removed meanwhile (transfers that complete during the write are handled after it).
\<close>

definition write_wait :: "world \<Rightarrow> int \<times> world" where
  "write_wait w = (let (r, w) = pop_usb w in
     (r, case events w of Unplug # es \<Rightarrow> unplug w\<lparr>events := es\<rparr> | _ \<Rightarrow> w))"

text \<open>Submission, wait and clean-up of a URB that is on the client's list.\<close>

definition write_submit ::
  "nat \<Rightarrow> ptr \<Rightarrow> int \<Rightarrow> u16 \<Rightarrow> nat \<Rightarrow> world \<Rightarrow> fault + (int \<times> world)" where
  "write_submit pWriteURB buf writeBufferSize clientID i w =
     (let (result, w) = pop_usb w in
      if result < 0 then
        bnd (on_gb (\<lambda>g. PopFromURBList g clientID i) w) (\<lambda>(popped, w).
        let w = (if popped \<noteq> Some pWriteURB then w else free w);
            w = w\<lparr>autopm := autopm w - 1\<rparr>
        in Inr (result, free w))
      else
      let w = upd_gb (\<lambda>g. g\<lparr>usb_written := usb_written g
                @ [take (nat writeBufferSize) (case buf of None \<Rightarrow> [] | Some b \<Rightarrow> b)]\<rparr>) w;
          (result, w) = write_wait w;
          w = w\<lparr>autopm := autopm w - 1\<rparr> in
      if \<not> valid w then Inr (- ENXIO, free w) else
      bnd (on_gb (\<lambda>g. PopFromURBList g clientID i) w) (\<lambda>(popped, w).
      if popped \<noteq> Some pWriteURB then
        let (ok, w) = pop_kmem w in
        bnd (on_gb (\<lambda>g. AddToURBList ok g clientID pWriteURB i) w) (\<lambda>(_, w).
        Inr (- EINVAL, free w))
      else
      let (status, w) = (if result = 0 then pop_usb w else (0, w));
          result = (if result = 0 then if status = 0 then writeBufferSize else status else result)
      in Inr (result, free (free w))))"

definition WriteSync :: "ptr \<Rightarrow> int \<Rightarrow> u16 \<Rightarrow> nat \<Rightarrow> world \<Rightarrow> fault + (int \<times> world)" where
  "WriteSync pWriteBuffer writeBufferSize clientID i w =
     (if \<not> valid w then Inr (- ENXIO, w) else
      let (ok, w) = alloc w in
      if \<not> ok then Inr (- ENOMEM, w) else
      let pWriteURB = next_urb w; w = w\<lparr>next_urb := next_urb w + 1\<rparr> in
      bnd (FillQMUX clientID pWriteBuffer (word_of_int writeBufferSize)) (\<lambda>(result, buf).
      if result < 0 then Inr (result, free w) else
      let (ok, w) = alloc w in
      if \<not> ok then Inr (- ENOMEM, w) else
      let (result, w) = pop_usb w in
      if result < 0 then
        let w = (if result = - EPERM
                 then let (s, w) = pop_usb w in upd_gb (\<lambda>g. snd (GobiSuspend s PM_EVENT_SUSPEND g)) w
                 else w)
        in Inr (result, free (free w))
      else
      let w = w\<lparr>autopm := autopm w + 1\<rparr>;
          (ok, w) = pop_kmem w in
      bnd (on_gb (\<lambda>g. AddToURBList ok g clientID pWriteURB i) w) (\<lambda>(added, w).
      if \<not> added then Inr (- EINVAL, free (free (w\<lparr>autopm := autopm w - 1\<rparr>)))
      else write_submit pWriteURB buf writeBufferSize clientID i w)))"

section \<open>Client ids\<close>

definition new_client :: "u16 \<Rightarrow> client_mem" where
  "new_client clientID = \<lparr>mClientID = clientID, mList = [], mReadNotifyList = [], mURBList = [],
     mWaitQueue = 0\<rparr>"

text \<open>The exchange with the control service; \<open>clientID\<close> is only set when the result is not negative.\<close>

definition get_id_exchange ::
  "bool \<Rightarrow> nat \<Rightarrow> u8 \<Rightarrow> world \<Rightarrow> fault + (int \<times> u16 \<times> world)" where
  "get_id_exchange use_down_timeout readSem serviceType w =
     (let writeBufferSize = QMICTLGetClientIDReqSize;
          (ok, w) = alloc w in
      if \<not> ok then Inr (- ENOMEM, 0, w) else
      let (transactionID, g) = next_ctl_tid (gb w); w = w\<lparr>gb := g\<rparr> in
      bnd (QMICTLGetClientIDReq (Some (replicate (unat writeBufferSize) 0)) writeBufferSize
             transactionID serviceType) (\<lambda>(result, pWriteBuffer).
      if result < 0 then Inr (result, 0, free w) else
      bnd (WriteSync pWriteBuffer (int (unat writeBufferSize)) QMICTL 0 w) (\<lambda>(result, w).
      let w = free w in
      if result < 0 then Inr (result, 0, w) else
      bnd (ReadSyncTimeout use_down_timeout readSem QMICTL (ucast transactionID) 0 w)
        (\<lambda>(result, pReadBuffer, w).
      if result < 0 then Inr (result, 0, w) else
      bnd (QMICTLGetClientIDResp pReadBuffer (word_of_int result) 0) (\<lambda>(result, clientID).
      Inr (result, clientID, w))))))"

definition GetClientID ::
  "bool \<Rightarrow> nat \<Rightarrow> u8 \<Rightarrow> nat \<Rightarrow> world \<Rightarrow> fault + (int \<times> world)" where
  "GetClientID use_down_timeout readSem serviceType i w =
     (if \<not> valid w then Inr (- ENXIO, w) else
      bnd (if serviceType \<noteq> 0 then get_id_exchange use_down_timeout readSem serviceType w
           else Inr (0, 0, w)) (\<lambda>(result, clientID, w).
      if result < 0 then Inr (result, w) else
      case FindClientMem (gb w) clientID i of
        Some _ \<Rightarrow> Inr (- ETOOMANYREFS, w)
      | None \<Rightarrow>
          let (ok, w) = pop_kmem w in
          if \<not> ok then Inr (- ENOMEM, w) else
          bnd (spin_lock i (gb w)) (\<lambda>g.
          let g = set_dev i (\<lambda>d. d\<lparr>mClientMemList := mClientMemList d @ [new_client clientID]\<rparr>) g in
          bnd (spin_unlock i g) (\<lambda>g.
          Inr (int (unat clientID), w\<lparr>gb := g\<rparr>)))))"

text \<open>The control service is told; errors are only logged.\<close>

definition release_exchange ::
  "bool \<Rightarrow> nat \<Rightarrow> u16 \<Rightarrow> world \<Rightarrow> fault + world" where
  "release_exchange use_down_timeout readSem clientID w =
     (let writeBufferSize = QMICTLReleaseClientIDReqSize;
          (ok, w) = alloc w in
      if \<not> ok then Inr w else
      let (transactionID, g) = next_ctl_tid (gb w); w = w\<lparr>gb := g\<rparr> in
      bnd (QMICTLReleaseClientIDReq (Some (replicate (unat writeBufferSize) 0)) writeBufferSize
             transactionID clientID) (\<lambda>(result, pWriteBuffer).
      if result < 0 then Inr (free w) else
      bnd (WriteSync pWriteBuffer (int (unat writeBufferSize)) QMICTL 0 w) (\<lambda>(result, w).
      let w = free w in
      if result < 0 then Inr w else
      bnd (ReadSyncTimeout use_down_timeout readSem QMICTL (ucast transactionID) 0 w)
        (\<lambda>(result, pReadBuffer, w).
      if result < 0 then Inr w else
      bnd (QMICTLReleaseClientIDResp pReadBuffer (word_of_int result)) (\<lambda>_. Inr w)))))"

text \<open>Emptying a client: every waiter is notified, every URB freed, every unread message dropped.\<close>

function notify_all :: "u16 \<Rightarrow> nat \<Rightarrow> world \<Rightarrow> fault + world" where
  "notify_all clientID i w =
     (let (ok, w) = pop_kmem w in
      bnd (on_gb (\<lambda>g. NotifyAndPopNotifyList ok g clientID 0 i) w) (\<lambda>(more, w).
      if more then notify_all clientID i w else Inr w))"
  by pat_completeness auto
termination
  by (relation "measure (\<lambda>(cid, i, w). to_notify (gb w) cid i)")
    (auto simp: on_gb_def returns_iff pop_kmem_def dest!: Notify_decreases split: list.splits)

function free_urbs :: "u16 \<Rightarrow> nat \<Rightarrow> world \<Rightarrow> fault + world" where
  "free_urbs clientID i w =
     bnd (on_gb (\<lambda>g. PopFromURBList g clientID i) w) (\<lambda>(popped, w).
     case popped of None \<Rightarrow> Inr w | Some _ \<Rightarrow> free_urbs clientID i (free w))"
  by pat_completeness auto
termination
  by (relation "measure (\<lambda>(cid, i, w). urbs (gb w) cid i)")
    (auto simp: on_gb_def returns_iff free_def dest: PopURB_decreases)

function free_unread :: "u16 \<Rightarrow> nat \<Rightarrow> world \<Rightarrow> fault + world" where
  "free_unread clientID i w =
     bnd (on_gb (\<lambda>g. PopFromReadMemList g clientID 0 i) w) (\<lambda>(popped, w).
     case popped of None \<Rightarrow> Inr w | Some _ \<Rightarrow> free_unread clientID i w)"
  by pat_completeness auto
termination
  by (relation "measure (\<lambda>(cid, i, w). unread (gb w) cid i)")
    (auto simp: on_gb_def returns_iff dest: Pop_unread(1))

declare notify_all.simps [simp del] free_urbs.simps [simp del] free_unread.simps [simp del]

text \<open>The walk over the clients: the lock is only given back where the client is found.\<close>

fun release_loop :: "u16 \<Rightarrow> nat \<Rightarrow> u16 list \<Rightarrow> world \<Rightarrow> fault + world" where
  "release_loop clientID i [] w = Inr w"
| "release_loop clientID i (c # cs) w =
     (if c = clientID then
        bnd (spin_unlock i (gb w)) (\<lambda>g.
        bnd (notify_all clientID i (w\<lparr>gb := g\<rparr>)) (\<lambda>w.
        bnd (free_urbs clientID i w) (\<lambda>w.
        bnd (free_unread clientID i w) (\<lambda>w.
        bnd (spin_lock i (gb w)) (\<lambda>g.
        let g = set_dev i (\<lambda>d. d\<lparr>mClientMemList :=
                  (case pop_first (\<lambda>c. mClientID c = clientID) (mClientMemList d) of
                     None \<Rightarrow> mClientMemList d | Some (_, rest) \<Rightarrow> rest)\<rparr>) g in
        bnd (spin_unlock i g) (\<lambda>g.
        release_loop clientID i cs (w\<lparr>gb := g\<rparr>)))))))
      else release_loop clientID i cs w)"

definition ReleaseClientID :: "bool \<Rightarrow> nat \<Rightarrow> u16 \<Rightarrow> nat \<Rightarrow> world \<Rightarrow> fault + world" where
  "ReleaseClientID use_down_timeout readSem clientID i w =
     (if \<not> valid w then Inr w else
      bnd (if clientID \<noteq> QMICTL then release_exchange use_down_timeout readSem clientID w
           else Inr w) (\<lambda>w.
      bnd (spin_lock i (gb w)) (\<lambda>g.
      release_loop clientID i (client_ids i g) (w\<lparr>gb := g\<rparr>))))"

end
