(* ===== verification/Delivery.thy ===== *)
theory Delivery
  imports Transport
begin

text \<open>
  What a read transfer and a synchronous read do: the message goes to the client it is addressed to,
  a thread that waits for it is woken and returns it, and a wait that is given up leaves nothing
  behind.
\<close>

unbundle bit_operations_syntax

section \<open>What a transfer does\<close>

definition idle :: "world \<Rightarrow> bool" where
  "idle w \<longleftrightarrow> mbQMIValid (gb w) \<and> (\<forall>i. \<not> locked i (gb w))"

text \<open>A message as it arrives: QMUX header of the right length, SDU and body.\<close>

definition message_for :: "u16 \<Rightarrow> bytes \<Rightarrow> bytes" where
  "message_for clientID body = qmux_bytes (word_of_nat (length body + 5)) 0x80 clientID @ body"

definition message_body_ok :: "bytes \<Rightarrow> bool" where
  "message_body_ok body \<longleftrightarrow> 6 \<le> length body \<and> length body + 6 < 65536"

text \<open>The transaction id of a message: one byte of the SDU for the control service, two for the others.\<close>

definition tid_of :: "u16 \<Rightarrow> bytes \<Rightarrow> u16" where
  "tid_of clientID body = (if clientID = QMICTL then ucast (body ! 1) else of_le16 (drop 1 body))"

abbreviation "unicast clientID \<equiv> drop_bit 8 clientID \<noteq> (0xff :: u16)"

lemma length_message_for [simp]: "length (message_for cid body) = length body + 6"
  by (simp add: message_for_def)

lemma message_parses:
  assumes "message_body_ok body"
  shows "ParseQMUX c0 (Some (message_for cid body)) (word_of_nat (length body + 6)) = Inr (6, cid)"
proof -
  have u: "unat (word_of_nat (length body + 5) :: u16) = length body + 5"
    "unat (word_of_nat (length body + 6) :: u16) = length body + 6"
    using assms by (simp_all add: unat_of_nat_widths message_body_ok_def del: of_nat_add)
  then show ?thesis
    unfolding message_for_def
    by (subst ParseQMUX_reads) (use assms in \<open>simp_all add: message_body_ok_def del: of_nat_add\<close>)
qed

lemma broadcast_mask: "drop_bit 8 (c OR 0xff00 :: u16) = 0xff"
proof -
  have "bit (drop_bit 8 (c OR 0xff00 :: u16)) n = bit (0xff :: u16) n" if "n < 16" for n
  proof -
    from that have "n \<in> {0,1,2,3,4,5,6,7,8,9,10,11,12,13,14,15}" by (simp only: insert_iff empty_iff) presburger
    moreover have "\<not> bit c (n + 8)" if "8 \<le> n"
      using that bit_imp_le_length [of c "n + 8"] by auto
    ultimately show ?thesis by (auto simp: bit_simps)
  qed
  then show ?thesis by (intro bit_word_eqI) auto
qed

lemma unicast_no_broadcast: "unicast cid \<Longrightarrow> c OR 0xff00 \<noteq> cid"
  using broadcast_mask by metis

text \<open>What the indication hook may leave behind.\<close>

abbreviation "queued inds k g \<equiv>
  g\<lparr>mpIndDataInfoList := mpIndDataInfoList g @ inds, responseReadSem := responseReadSem g + k\<rparr>"

lemma processIndResponses_queues:
  assumes "worker_ready (gb w)" and "kmem w = []"
    and "12 \<le> length b" and "length b < 65536"
  shows "\<exists>inds k. processIndResponses b i (word_of_nat (length b)) cid w = Inr (upd_gb (queued inds k) w)"
proof -
  define n where "n = (word_of_nat (length b) :: u16)"
  have n: "unat n = length b" using assms(4) by (simp add: n_def unat_of_nat_widths)
  then have "unat (n - 9) = length b - 9"
    using assms(3) by (subst unat_sub) (simp_all add: word_le_nat_alt)
  then have "\<not> n - 9 < 2" using assms(3) by (simp add: word_less_nat_alt)
  then have id: "\<exists>m. GetQMIMessageID (skip 9 (Some b)) (n - 9) = Inr m"
    using assms(3) by (auto simp: GetQMIMessageID_def skip_def rd16_def)
  have same: "upd_gb (queued [] 0) w = w" by simp
  have add: "AddToProcessIndList i m b n cid w = Inr (upd_gb (queued
      [\<lparr>ind_MsgId = m, ind_Data = b, ind_DataLen = n, ind_ClientId = cid, ind_QMIDev = i\<rparr>] 0) w)" for m
    using assms n by (auto simp: AddToProcessIndList_def pop_kmem_def rd_block_def word_unat_eq_iff)
  show ?thesis
  proof (cases "valid w \<and> b ! 4 = QMIWDS")
    case False
    then have "processIndResponses b i n cid w = Inr (upd_gb (queued [] 0) w)"
      using assms(3) unfolding same by (auto simp: processIndResponses_def rd8_def QMUXHeaderSize_def)
    then show ?thesis unfolding n_def by blast
  next
    case True
    obtain m where m: "GetQMIMessageID (skip 9 (Some b)) (n - 9) = Inr m" using id by blast
    have "processIndResponses b i n cid w = Inr w \<or> processIndResponses b i n cid w
        = bnd (AddToProcessIndList i m b n cid w) up_worker"
      using True m assms(3) by (simp add: processIndResponses_def rd8_def QMUXHeaderSize_def)
    then show ?thesis
    proof
      assume "processIndResponses b i n cid w = Inr w"
      then have "processIndResponses b i n cid w = Inr (upd_gb (queued [] 0) w)" by simp
      then show ?thesis unfolding n_def by blast
    next
      assume "processIndResponses b i n cid w = bnd (AddToProcessIndList i m b n cid w) up_worker"
      then have "processIndResponses b i n cid w = Inr (upd_gb (queued
          [\<lparr>ind_MsgId = m, ind_Data = b, ind_DataLen = n, ind_ClientId = cid, ind_QMIDev = i\<rparr>] 1) w)"
        using assms(1) by (simp add: add up_worker_def)
      then show ?thesis unfolding n_def by blast
    qed
  qed
qed

lemma deliver_none:
  "\<forall>c \<in> set cs. c \<noteq> cid \<and> c OR 0xff00 \<noteq> cid \<Longrightarrow> deliver_clients i cid tid b n cs w = Inr (True, w)"
  by (induction cs) auto

abbreviation "store_msg b tid n cid i g \<equiv> set_client cid i
  (\<lambda>c. c\<lparr>mList := mList c @ [\<lparr>rm_data = b, rm_tid = tid, rm_size = n\<rparr>]\<rparr>) g"
abbreviation "wake_poll cid i g \<equiv> set_client cid i (\<lambda>c. c\<lparr>mWaitQueue := mWaitQueue c + 1\<rparr>) g"

lemma deliver_hit:
  assumes "unicast cid" and "idle w" and "worker_ready (gb w)" and "kmem w = []"
    and "12 \<le> length b" and "length b < 65536" and "FindClientMem (gb w) cid i = Some c"
    and "\<And>inds k. \<exists>r. NotifyAndPopNotifyList True (store_msg b tid (word_of_nat (length b)) cid i
             (queued inds k (gb w))) cid tid i = Inr (r, queued inds k g')"
  shows "\<exists>inds k. deliver_clients i cid tid b (word_of_nat (length b)) (client_ids i (gb w)) w
     = Inr (True, w\<lparr>gb := wake_poll cid i (queued inds k g')\<rparr>)"
proof -
  have "cid \<in> set (client_ids i (gb w))"
    using assms(7) by (auto simp: FindClientMem_find find_Some_iff split: if_splits)
  then obtain as bs where ids: "client_ids i (gb w) = as @ cid # bs" "cid \<notin> set as"
    by (meson split_list_first)
  have skip: "deliver_clients i cid tid b n (as @ xs) w = deliver_clients i cid tid b n xs w" for n xs
    using ids(2) unicast_no_broadcast [OF assms(1)] by (induction as) auto
  obtain inds k where p: "processIndResponses b i (word_of_nat (length b)) cid w
      = Inr (upd_gb (queued inds k) w)"
    using processIndResponses_queues [OF assms(3-6)] by blast
  let ?g = "queued inds k (gb w)"
  have f: "FindClientMem ?g cid i = Some c" using assms(7) by (simp add: FindClientMem_find split: if_splits)
  have "mbQMIValid ?g" "\<not> locked i ?g" using assms(2) by (simp_all add: idle_def)
  note add = Add_ok [OF this f, of tid b "word_of_nat (length b)"]
  obtain r where nt: "NotifyAndPopNotifyList True (store_msg b tid (word_of_nat (length b)) cid i ?g) cid tid i
      = Inr (r, queued inds k g')"
    using assms(8) by blast
  have cp: "rd_block b 0 (unat (word_of_nat (length b) :: u16)) = Inr b"
    using assms(6) by (simp add: rd_block_def unat_of_nat_widths)
  have "deliver_clients i cid tid b (word_of_nat (length b)) (client_ids i (gb w)) w
     = Inr (True, w\<lparr>gb := wake_poll cid i (queued inds k g')\<rparr>)"
    unfolding ids(1) skip using assms(1,4) nt add
    by (simp add: pop_kmem_def cp p on_gb_def Let_def)
  then show ?thesis by blast
qed

text \<open>The devices in turn: one of them has the client, the others are passed over.\<close>

lemma deliver_mux_append:
  "deliver_mux (is @ js) cid tid b n w = bnd (deliver_mux is cid tid b n w) (\<lambda>(ok, w).
     if ok then deliver_mux js cid tid b n w else Inr (False, w))"
  by (induction "is" arbitrary: w) (auto simp: bnd_assoc split_def intro!: arg_cong [where f = "bnd _"])

lemma deliver_mux_none:
  assumes "unicast cid" and "\<forall>j \<in> set is. cid \<notin> set (client_ids j (gb w))"
  shows "deliver_mux is cid tid b n w = Inr (True, w)"
  using assms(2)
proof (induction "is")
  case (Cons j js)
  then have "deliver_clients j cid tid b n (client_ids j (gb w)) w = Inr (True, w)"
    using unicast_no_broadcast [OF assms(1)] by (intro deliver_none) auto
  with Cons show ?case by simp
qed simp

lemma deliver_mux_hit:
  assumes hit: "deliver_clients i cid tid b n (client_ids i (gb w)) w = Inr (True, w')"
    and "unicast cid" and "distinct is" and "i \<in> set is"
    and others: "\<forall>j \<in> set is. j \<noteq> i \<longrightarrow> cid \<notin> set (client_ids j (gb w))"
    and same: "\<forall>j. j \<noteq> i \<longrightarrow> client_ids j (gb w') = client_ids j (gb w)"
  shows "deliver_mux is cid tid b n w = Inr (True, w')"
proof -
  obtain as bs where s: "is = as @ i # bs" "i \<notin> set as" "i \<notin> set bs"
    using assms(3,4) by (metis distinct.simps(2) distinct_append not_distinct_conv_prefix split_list)
  have a: "deliver_mux as cid tid b n w = Inr (True, w)"
    using others s by (intro deliver_mux_none [OF assms(2)]) auto
  have b: "deliver_mux bs cid tid b n w' = Inr (True, w')"
    using others s same by (intro deliver_mux_none [OF assms(2)]) (metis Un_iff list.set_intros(2) set_append)
  show ?thesis by (simp add: s(1) deliver_mux_append a hit b)
qed

abbreviation "completed g \<equiv> g\<lparr>read_submits := read_submits g - 1\<rparr>"

text \<open>The client is registered with device \<open>i\<close> and with no other.\<close>

definition registered :: "u16 \<Rightarrow> nat \<Rightarrow> client_mem \<Rightarrow> gobi \<Rightarrow> bool" where
  "registered cid i c g \<longleftrightarrow> i \<le> 3 \<and> FindClientMem g cid i = Some c
     \<and> (\<forall>j \<le> 3. j \<noteq> i \<longrightarrow> cid \<notin> set (client_ids j g))"

text \<open>A driver that runs: valid, no lock held, the worker thread started, no allocation failing.\<close>

definition running :: "world \<Rightarrow> bool" where
  "running w \<longleftrightarrow> idle w \<and> worker_ready (gb w) \<and> kmem w = []"

lemma ReadCallback_hit:
  assumes "unicast cid" and "running w" and "message_body_ok body" and "registered cid i c (gb w)"
    and nt: "\<And>inds k. \<exists>r. NotifyAndPopNotifyList True (store_msg (message_for cid body) (tid_of cid body)
             (word_of_nat (length body + 6)) cid i (queued inds k (completed (gb w)))) cid (tid_of cid body) i
             = Inr (r, queued inds k g')"
    and same: "\<forall>j. j \<noteq> i \<longrightarrow> client_ids j g' = client_ids j (gb w)"
  shows "\<exists>inds k. ReadCallback 0 (message_for cid body) (length body + 6) w
     = Inr (resubmit_int (w\<lparr>gb := wake_poll cid i (queued inds k g')\<rparr>))"
proof -
  let ?b = "message_for cid body" and ?n = "word_of_nat (length body + 6) :: u16" and ?t = "tid_of cid body"
  define v where "v = upd_gb completed w"
  have v: "idle v" "worker_ready (gb v)" "kmem v = []" "FindClientMem (gb v) cid i = Some c"
    using assms(2,4)
    by (auto simp: v_def running_def idle_def registered_def FindClientMem_find split: if_splits)
  have len: "12 \<le> length ?b" "length ?b < 65536" "length ?b = length body + 6"
    using assms(3) by (simp_all add: message_body_ok_def)
  have un: "int (unat ?n) = int (length body) + 6"
    using len by (simp add: unat_of_nat_widths del: of_nat_add)
  obtain inds k where "deliver_clients i cid ?t ?b (word_of_nat (length ?b)) (client_ids i (gb v)) v
      = Inr (True, v\<lparr>gb := wake_poll cid i (queued inds k g')\<rparr>)"
    using deliver_hit [OF assms(1) v(1-3) len(1,2) v(4), of ?t g'] nt by (auto simp: v_def)
  then have d: "deliver_clients i cid ?t ?b ?n (client_ids i (gb v)) v
      = Inr (True, v\<lparr>gb := wake_poll cid i (queued inds k g')\<rparr>)" by simp
  have m: "deliver_mux [0, 1, 2, 3] cid ?t ?b ?n v = Inr (True, v\<lparr>gb := wake_poll cid i (queued inds k g')\<rparr>)"
  proof (rule deliver_mux_hit [OF d assms(1)])
    show "i \<in> set [0, 1, 2, 3]" using assms(4) by (auto simp: registered_def)
    show "\<forall>j \<in> set [0, 1, 2, 3]. j \<noteq> i \<longrightarrow> cid \<notin> set (client_ids j (gb v))"
      using assms(4) by (auto simp: registered_def v_def)
    show "\<forall>j. j \<noteq> i \<longrightarrow> client_ids j (gb (v\<lparr>gb := wake_poll cid i (queued inds k g')\<rparr>)) = client_ids j (gb v)"
      using same by (simp add: v_def)
  qed simp
  have rdt: "(if cid = QMICTL then bnd (rd8 ?b 7) (\<lambda>b. Inr (ucast b)) else rd16 ?b 7) = Inr ?t"
    using assms(3)
    by (auto simp: message_for_def tid_of_def rd8_def rd16_def nth_append message_body_ok_def)
  obtain w1 where w1: "deliver_clients 0 cid ?t ?b ?n (client_ids 0 (gb v)) v = Inr (True, w1)"
    "deliver_mux [1, 2, 3] cid ?t ?b ?n w1 = Inr (True, v\<lparr>gb := wake_poll cid i (queued inds k g')\<rparr>)"
    using m by (auto simp: returns_iff split: if_splits)
  have valid: "mbQMIValid (gb v)" using v(1) by (simp add: idle_def)
  have c: "\<not> (6 :: int) < 0" "\<not> int (unat ?n) < 6 + 3" "nat 6 + 1 = 7" "((0 :: int) \<noteq> 0) = False"
    using un assms(3) by (simp_all add: message_body_ok_def)
  have "ReadCallback 0 ?b (length body + 6) w
     = Inr (resubmit_int (v\<lparr>gb := wake_poll cid i (queued inds k g')\<rparr>))"
    unfolding ReadCallback_def Let_def v_def [symmetric]
    by (simp only: IsDeviceValid_simps valid message_parses [OF assms(3)] bnd_simps prod.case c rdt w1
        if_True if_False not_True_eq_False)
  then show ?thesis by (auto simp: v_def)
qed

lemma resubmit_int_keeps [simp]:
  "qmi_devs (gb (resubmit_int w)) = qmi_devs (gb w)" "mbQMIValid (gb (resubmit_int w)) = mbQMIValid (gb w)"
  "semaphores (gb (resubmit_int w)) = semaphores (gb w)" "worker_ready (gb (resubmit_int w)) = worker_ready (gb w)"
  "usb_written (gb (resubmit_int w)) = usb_written (gb w)"
  "events (resubmit_int w) = events w" "kmem (resubmit_int w) = kmem w" "live (resubmit_int w) = live w"
  "autopm (resubmit_int w) = autopm w" "next_urb (resubmit_int w) = next_urb w"
  by (simp_all add: resubmit_int_def pop_usb_def ResubmitIntURB_def Let_def split: list.splits)

lemma resubmit_int_usb: "usb w = [] \<Longrightarrow> usb (resubmit_int w) = []"
  by (simp add: resubmit_int_def pop_usb_def)

lemma resubmit_int_submits:
  "usb w = [] \<Longrightarrow> mpIntURB (rd (gb w)) \<Longrightarrow> mpIntURB_dev (rd (gb w)) \<Longrightarrow>
   int_submits (gb (resubmit_int w)) = int_submits (gb w) + 1"
  by (simp add: resubmit_int_def pop_usb_def ResubmitIntURB_def)

lemma find_cong_devs:
  "qmi_devs g = qmi_devs h \<Longrightarrow> mbQMIValid g = mbQMIValid h \<Longrightarrow> FindClientMem g = FindClientMem h"
  by (simp add: FindClientMem_find fun_eq_iff)

lemma Find_irrelevant [simp]:
  "FindClientMem (g\<lparr>mpIndDataInfoList := a\<rparr>) = FindClientMem g"
  "FindClientMem (g\<lparr>responseReadSem := b\<rparr>) = FindClientMem g"
  "FindClientMem (g\<lparr>read_submits := b\<rparr>) = FindClientMem g"
  "FindClientMem (g\<lparr>int_submits := b\<rparr>) = FindClientMem g"
  "FindClientMem (g\<lparr>semaphores := s\<rparr>) = FindClientMem g"
  "FindClientMem (g\<lparr>usb_written := u\<rparr>) = FindClientMem g"
  "FindClientMem (g\<lparr>mQMICTLTransactionID := t\<rparr>) = FindClientMem g"
  "FindClientMem (g\<lparr>mMEID := m\<rparr>) = FindClientMem g"
  "FindClientMem (g\<lparr>agg := l\<rparr>) = FindClientMem g"
  by (rule find_cong_devs; simp)+

lemma client_ids_set_client:
  assumes "\<And>c. mClientID (f c) = mClientID c"
  shows "client_ids j (set_client cid i f g) = client_ids j g"
  using assms by (simp add: map_upd_first)

text \<open>The transfer of a message nobody waits for, and of one a thread waits for.\<close>

lemma ReadCallback_stores:
  assumes "unicast cid" and "running w" and "message_body_ok body" and "registered cid i c (gb w)"
    and "pop_first (notifies (tid_of cid body)) (mReadNotifyList c) = None"
  shows "\<exists>inds k. ReadCallback 0 (message_for cid body) (length body + 6) w
     = Inr (resubmit_int (w\<lparr>gb := wake_poll cid i (queued inds k (store_msg (message_for cid body)
         (tid_of cid body) (word_of_nat (length body + 6)) cid i (completed (gb w))))\<rparr>))"
proof (rule ReadCallback_hit [OF assms(1-4)], goal_cases)
  case (1 inds k)
  have f: "FindClientMem (gb w) cid i = Some c" using assms(4) by (simp add: registered_def)
  have nf: "\<forall>c'. FindClientMem (store_msg (message_for cid body) (tid_of cid body)
        (word_of_nat (length body + 6)) cid i (queued inds k (completed (gb w)))) cid i = Some c'
      \<longrightarrow> pop_first (notifies (tid_of cid body)) (mReadNotifyList c') = None"
    using f assms(5) by (auto simp: FindClientMem_find find_upd_first_stable split: if_splits)
  have "mbQMIValid (gb w)" "\<not> locked i (gb w)" using assms(2) by (simp_all add: running_def idle_def)
  then show ?case
    by (subst Notify_none [OF _ _ nf]) (auto intro!: exI [of _ False])
next
  case 2
  show ?case by (simp add: map_upd_first)
qed

definition woken :: "notify_ent \<Rightarrow> gobi \<Rightarrow> gobi" where
  "woken e g = g\<lparr>semaphores := (semaphores g)(nf_data e := semaphores g (nf_data e) + 1)\<rparr>"

lemma woken_keeps [simp]:
  "qmi_devs (woken e g) = qmi_devs g" "mbQMIValid (woken e g) = mbQMIValid g"
  "worker_ready (woken e g) = worker_ready g" "rd (woken e g) = rd g"
  "usb_written (woken e g) = usb_written g"
  "semaphores (woken e g) = (semaphores g)(nf_data e := semaphores g (nf_data e) + 1)"
  by (simp_all add: woken_def)

lemma Find_woken [simp]: "FindClientMem (woken e g) = FindClientMem g"
  by (rule find_cong_devs) simp_all

lemma ReadCallback_wakes:
  assumes "unicast cid" and "running w" and "message_body_ok body" and "registered cid i c (gb w)"
    and "pop_first (notifies (tid_of cid body)) (mReadNotifyList c) = Some (e, rest)"
    and "nf_fun e = Some Fn_UpSem"
  shows "\<exists>inds k. ReadCallback 0 (message_for cid body) (length body + 6) w
     = Inr (resubmit_int (w\<lparr>gb := wake_poll cid i (queued inds k (woken e
         (set_client cid i (\<lambda>c. c\<lparr>mReadNotifyList := rest\<rparr>) (store_msg (message_for cid body)
         (tid_of cid body) (word_of_nat (length body + 6)) cid i (completed (gb w))))))\<rparr>))"
proof (rule ReadCallback_hit [OF assms(1-4)], goal_cases)
  case (1 inds k)
  let ?g = "store_msg (message_for cid body) (tid_of cid body)
        (word_of_nat (length body + 6)) cid i (queued inds k (completed (gb w)))"
  let ?c = "c\<lparr>mList := mList c @ [\<lparr>rm_data = message_for cid body, rm_tid = tid_of cid body,
        rm_size = word_of_nat (length body + 6)\<rparr>]\<rparr>"
  have f: "FindClientMem ?g cid i = Some ?c"
    using assms(4) by (auto simp: registered_def FindClientMem_find find_upd_first_stable split: if_splits)
  have "mbQMIValid (gb w)" "\<not> locked i (gb w)" using assms(2) by (simp_all add: running_def idle_def)
  then show ?case
    by (subst Notify_up [OF _ _ f, of _ e rest]) (use assms(5,6) in \<open>auto simp: woken_def intro!: exI [of _ True]\<close>)
next
  case 2
  show ?case by (simp add: map_upd_first)
qed

section \<open>What a read does\<close>

lemma read_loop_ready:
  assumes "idle w" and "FindClientMem (gb w) cid i = Some c"
    and "pop_first (for_tid tid) (mList c) = Some (e, rest)"
  shows "read_loop err s cid tid i w
     = Inr (int (unat (rm_size e)), Some (rm_data e), upd_gb (set_client cid i (\<lambda>c. c\<lparr>mList := rest\<rparr>)) w)"
proof -
  have "mbQMIValid (gb w)" "\<not> locked i (gb w)" using assms(1) by (simp_all add: idle_def)
  then show ?thesis
    by (subst read_loop.simps) (simp add: on_gb_def Pop_ok [OF _ _ assms(2)] assms(3))
qed

abbreviation "waiter s tid \<equiv> \<lparr>nf_fun = Some Fn_UpSem, nf_tid = tid, nf_data = s\<rparr>"

definition waiting :: "nat \<Rightarrow> u16 \<Rightarrow> u16 \<Rightarrow> nat \<Rightarrow> world \<Rightarrow> world" where
  "waiting s cid tid i w = upd_gb (\<lambda>g. set_client cid i
     (\<lambda>c. c\<lparr>mReadNotifyList := mReadNotifyList c @ [waiter s tid]\<rparr>)
     (g\<lparr>semaphores := (semaphores g)(s := 0)\<rparr>)) w"

lemma read_loop_wait:
  assumes "idle w" and "kmem w = []" and "FindClientMem (gb w) cid i = Some c"
    and "\<forall>e \<in> set (mList c). \<not> for_tid tid e"
  shows "read_loop err s cid tid i w = bnd (down_sem s (waiting s cid tid i w)) (\<lambda>(taken, w).
     if \<not> taken then
       bnd (remove_waiter s i cid (gb w)) (\<lambda>g. Inr (err, None, w\<lparr>gb := g\<rparr>))
     else if \<not> valid w then Inr (- ENXIO, None, w)
     else read_loop err s cid tid i w)"
proof -
  have v: "mbQMIValid (gb w)" "\<not> locked i (gb w)" using assms(1) by (simp_all add: idle_def)
  have p: "pop_first (for_tid tid) (mList c) = None" using assms(4) by (simp add: pop_first_None)
  let ?g = "(gb w)\<lparr>semaphores := (semaphores (gb w))(s := 0)\<rparr>"
  have f: "FindClientMem ?g cid i = Some c"
    using assms(3) by (simp add: FindClientMem_find split: if_splits)
  have "AddToNotifyList True ?g cid tid (Some Fn_UpSem) s i = Inr (True, set_client cid i
      (\<lambda>c. c\<lparr>mReadNotifyList := mReadNotifyList c @ [waiter s tid]\<rparr>) ?g)"
    using v by (intro AddNotify_ok [OF _ _ f]) simp_all
  then show ?thesis
    using assms(2) by (subst read_loop.simps)
      (simp add: on_gb_def Pop_ok [OF v assms(3)] p pop_kmem_def waiting_def Let_def)
qed

lemma waiting_keeps [simp]:
  "events (waiting s cid tid i w) = events w" "kmem (waiting s cid tid i w) = kmem w"
  "usb (waiting s cid tid i w) = usb w" "semaphores (gb (waiting s cid tid i w)) s = 0"
  "worker_ready (gb (waiting s cid tid i w)) = worker_ready (gb w)"
  "client_ids j (gb (waiting s cid tid i w)) = client_ids j (gb w)"
  "mbQMIValid (gb (waiting s cid tid i w)) = mbQMIValid (gb w)"
  "locked j (gb (waiting s cid tid i w)) = locked j (gb w)"
  "usb_written (gb (waiting s cid tid i w)) = usb_written (gb w)"
  "live (waiting s cid tid i w) = live w" "autopm (waiting s cid tid i w) = autopm w"
  by (simp_all add: waiting_def map_upd_first)

lemma Find_waiting:
  "FindClientMem (gb (waiting s cid tid i w)) cid' j = (if j = i \<and> cid' = cid
     then map_option (\<lambda>c. c\<lparr>mReadNotifyList := mReadNotifyList c @ [waiter s tid]\<rparr>) (FindClientMem (gb w) cid i)
     else FindClientMem (gb w) cid' j)"
proof -
  have "gb (waiting s cid tid i w) = set_client cid i
     (\<lambda>c. c\<lparr>mReadNotifyList := mReadNotifyList c @ [waiter s tid]\<rparr>)
     ((gb w)\<lparr>semaphores := (semaphores (gb w))(s := 0)\<rparr>)" by (simp add: waiting_def)
  then show ?thesis by (simp only:) (subst Find_set_client, simp, simp)
qed

text \<open>A wait that is given up leaves the client as it was.\<close>

lemma upd_first_undo:
  assumes "find P cs = Some c" and "\<And>c. P (f c) = P c" and "h (f c) = c"
  shows "upd_first P h (upd_first P f cs) = cs"
  using assms by (induction cs) (auto split: if_splits)

lemma remove_waiter_undoes:
  assumes "\<not> locked i (gb w)"
    and "\<forall>c \<in> set (clients i (gb w)). \<forall>e \<in> set (mReadNotifyList c). nf_data e \<noteq> s"
  shows "remove_waiter s i cid (gb (waiting s cid tid i w))
     = Inr ((gb w)\<lparr>semaphores := (semaphores (gb w))(s := 0)\<rparr>)"
proof -
  let ?P = "\<lambda>c. mClientID c = cid"
  let ?f = "\<lambda>c. c\<lparr>mReadNotifyList := mReadNotifyList c @ [waiter s tid]\<rparr>"
  let ?h = "\<lambda>c. c\<lparr>mReadNotifyList := (case pop_first (\<lambda>e. nf_data e = s) (mReadNotifyList c) of
      None \<Rightarrow> mReadNotifyList c | Some (_, rest) \<Rightarrow> rest)\<rparr>"
  have pop: "pop_first (\<lambda>e. nf_data e = s) (xs @ [waiter s tid]) = Some (waiter s tid, xs)"
    if "\<forall>e \<in> set xs. nf_data e \<noteq> s" for xs
    using box.take_put_fresh [of xs "\<lambda>e. nf_data e = s" "waiter s tid"] that by auto
  have "upd_first ?P ?h (upd_first ?P ?f cs) = cs"
    if "\<forall>c \<in> set cs. \<forall>e \<in> set (mReadNotifyList c). nf_data e \<noteq> s" for cs
    using that by (induction cs) (auto simp: pop)
  from this [OF assms(2)] show ?thesis
    using assms(1) by (simp add: remove_waiter_def waiting_def spin_lock_def spin_unlock_def
        lock_update_idle Let_def)
qed

lemma Find_store:
  "FindClientMem (store_msg b t n cid i g) cid' j = (if j = i \<and> cid' = cid
     then map_option (\<lambda>c. c\<lparr>mList := mList c @ [\<lparr>rm_data = b, rm_tid = t, rm_size = n\<rparr>]\<rparr>) (FindClientMem g cid i)
     else FindClientMem g cid' j)"
  by (subst Find_set_client, simp, simp)

lemma Find_wake:
  "FindClientMem (wake_poll cid i g) cid' j = (if j = i \<and> cid' = cid
     then map_option (\<lambda>c. c\<lparr>mWaitQueue := mWaitQueue c + 1\<rparr>) (FindClientMem g cid i)
     else FindClientMem g cid' j)"
  by (subst Find_set_client, simp, simp)

text \<open>The state in which the control service can be talked to.\<close>

definition ctl_ready :: "world \<Rightarrow> client_mem \<Rightarrow> bool" where
  "ctl_ready w c0 \<longleftrightarrow> running w \<and> usb w = [] \<and> registered QMICTL 0 c0 (gb w)
     \<and> mList c0 = [] \<and> mReadNotifyList c0 = [] \<and> mURBList c0 = []"

lemma client_example_sel [simp]:
  "mList (client_example cid) = []" "mReadNotifyList (client_example cid) = []"
  "mURBList (client_example cid) = []" "mClientID (client_example cid) = cid"
  "mpIntURB (rd gobi_example)" "mpIntURB_dev (rd gobi_example)"
  "client_ids 0 gobi_example = [0, 0x101]"
  by (simp_all add: client_example_def gobi_example_def dev_example_def)

definition world_example :: "event list \<Rightarrow> world" where
  "world_example es = \<lparr>gb = gobi_example, kmem = [], usb = [], events = es, live = 0, autopm = 0, next_urb = 1\<rparr>"

lemma world_example_ok [simp]:
  "gb (world_example es) = gobi_example" "kmem (world_example es) = []" "usb (world_example es) = []"
  "events (world_example es) = es" "live (world_example es) = 0"
  "running (world_example es)" "idle (world_example es)" "registered 0x101 0 (client_example 0x101) gobi_example"
  "ctl_ready (world_example es) (client_example 0)"
  by (simp_all add: world_example_def running_def idle_def registered_def ctl_ready_def)
    (simp_all add: gobi_example_def dev_example_def client_example_def)

section \<open>Properties of the transfers\<close>



lemma down_loop_ready:
  "semaphores (gb w) s > 0 \<Longrightarrow> down_loop s es w = Inr (True, take_sem s w\<lparr>events := es\<rparr>)"
  by (cases es) simp_all

lemma Find_take_sem:
  "FindClientMem (gb (take_sem s w\<lparr>events := es\<rparr>)) = FindClientMem (gb w)"
  by (rule find_cong_devs) simp_all

text \<open>A thread waits, the transfer with its message completes, and the thread is woken.\<close>

lemma waiting_thread_woken:
  assumes "running w" and "registered cid i c (gb w)" and "unicast cid" and "message_body_ok body"
    and "pop_first (notifies (tid_of cid body)) (mReadNotifyList c) = None"
    and "tid = 0 \<or> tid = tid_of cid body"
    and "events w = Transfer 0 (message_for cid body) (length body + 6) # es"
  shows "\<exists>u. down_sem s (waiting s cid tid i w) = Inr (True, u) \<and> events u = es \<and> running u
     \<and> (\<forall>j. client_ids j (gb u) = client_ids j (gb w))
     \<and> usb_written (gb u) = usb_written (gb w) \<and> live u = live w
     \<and> (\<forall>cid' j. FindClientMem (gb u) cid' j = (if j = i \<and> cid' = cid then
         Some (c\<lparr>mList := mList c @ [\<lparr>rm_data = message_for cid body, rm_tid = tid_of cid body,
           rm_size = word_of_nat (length body + 6)\<rparr>], mWaitQueue := mWaitQueue c + 1\<rparr>)
         else FindClientMem (gb w) cid' j))"
proof -
  let ?v = "waiting s cid tid i w"
  let ?c = "c\<lparr>mReadNotifyList := mReadNotifyList c @ [waiter s tid]\<rparr>"
  have c: "FindClientMem (gb w) cid i = Some c" using assms(2) by (simp add: registered_def)
  have v: "running ?v" "registered cid i ?c (gb ?v)"
    using assms(1,2) c by (simp_all add: running_def idle_def registered_def Find_waiting del: list.set_map)
  have pop: "pop_first (notifies (tid_of cid body)) (mReadNotifyList ?c) = Some (waiter s tid, mReadNotifyList c)"
    using box.take_put_fresh [of "mReadNotifyList c" "notifies (tid_of cid body)" "waiter s tid"]
      assms(5,6) by (auto simp: pop_first_None)
  let ?clear = "\<lambda>g. set_client cid i (\<lambda>c'. c'\<lparr>mReadNotifyList := mReadNotifyList c\<rparr>) g"
  let ?st = "store_msg (message_for cid body) (tid_of cid body) (word_of_nat (length body + 6)) cid i
        (completed (gb ?v))"
  obtain inds k where r: "ReadCallback 0 (message_for cid body) (length body + 6) ?v
      = Inr (resubmit_int (?v\<lparr>gb := wake_poll cid i (queued inds k (woken (waiter s tid) (?clear ?st)))\<rparr>))"
    using ReadCallback_wakes [OF assms(3) v(1) assms(4) v(2) pop] by auto
  define u where "u = resubmit_int (?v\<lparr>gb := wake_poll cid i (queued inds k (woken (waiter s tid) (?clear ?st)))\<rparr>)"
  have u: "running u" "semaphores (gb u) s > 0"
    using v(1) by (simp_all add: u_def running_def idle_def)
  have "FindClientMem (gb u) = FindClientMem (wake_poll cid i (?clear ?st))"
    by (rule find_cong_devs) (simp_all add: u_def)
  then have fu: "FindClientMem (gb u) cid' j = (if j = i \<and> cid' = cid then
         Some (c\<lparr>mList := mList c @ [\<lparr>rm_data = message_for cid body, rm_tid = tid_of cid body,
           rm_size = word_of_nat (length body + 6)\<rparr>], mWaitQueue := mWaitQueue c + 1\<rparr>)
         else FindClientMem (gb w) cid' j)" for cid' j
  proof -
    have cl: "FindClientMem (?clear g) cid' j = (if j = i \<and> cid' = cid
       then map_option (\<lambda>c'. c'\<lparr>mReadNotifyList := mReadNotifyList c\<rparr>) (FindClientMem g cid i)
       else FindClientMem g cid' j)" for g cid' j
      by (subst Find_set_client, simp, simp)
    assume "FindClientMem (gb u) = FindClientMem (wake_poll cid i (?clear ?st))"
    then show ?thesis
      by (simp only: Find_wake cl Find_store Find_irrelevant Find_waiting c) simp
  qed
  have "down_sem s ?v = down_loop s es u"
    using assms(7) r by (simp add: down_sem_def u_def)
  also have "\<dots> = Inr (True, take_sem s u\<lparr>events := es\<rparr>)" using u(2) by (rule down_loop_ready)
  finally have d: "down_sem s ?v = Inr (True, take_sem s u\<lparr>events := es\<rparr>)" .
  have "running (take_sem s u\<lparr>events := es\<rparr>)" using u(1) by (simp add: running_def idle_def)
  moreover have "client_ids j (gb (take_sem s u\<lparr>events := es\<rparr>)) = client_ids j (gb w)" for j
    by (simp add: u_def map_upd_first)
  moreover have "usb_written (gb (take_sem s u\<lparr>events := es\<rparr>)) = usb_written (gb w)"
    "live (take_sem s u\<lparr>events := es\<rparr>) = live w"
    by (simp_all add: u_def)
  ultimately show ?thesis using d fu
    by (intro exI [of _ "take_sem s u\<lparr>events := es\<rparr>"]) (simp only: Find_take_sem, simp)
qed

lemma read_loop_response:
  assumes "running w" and "registered cid i c (gb w)" and "unicast cid" and "message_body_ok body"
    and "\<forall>e \<in> set (mList c). \<not> for_tid tid e"
    and "pop_first (notifies (tid_of cid body)) (mReadNotifyList c) = None"
    and "tid = 0 \<or> tid = tid_of cid body"
    and "events w = Transfer 0 (message_for cid body) (length body + 6) # es"
  shows "\<exists>w'. (\<forall>err. read_loop err s cid tid i w = Inr (int (length body + 6), Some (message_for cid body), w'))
     \<and> events w' = es \<and> running w' \<and> (\<forall>j. client_ids j (gb w') = client_ids j (gb w))
     \<and> usb_written (gb w') = usb_written (gb w) \<and> live w' = live w
     \<and> (\<forall>cid' j. FindClientMem (gb w') cid' j = (if j = i \<and> cid' = cid
          then Some (c\<lparr>mWaitQueue := mWaitQueue c + 1\<rparr>) else FindClientMem (gb w) cid' j))"
proof -
  let ?m = "\<lparr>rm_data = message_for cid body, rm_tid = tid_of cid body,
           rm_size = word_of_nat (length body + 6)\<rparr>"
  obtain u where u: "down_sem s (waiting s cid tid i w) = Inr (True, u)" "events u = es" "running u"
    "\<And>j. client_ids j (gb u) = client_ids j (gb w)" "usb_written (gb u) = usb_written (gb w)"
    "live u = live w"
    "\<And>cid' j. FindClientMem (gb u) cid' j = (if j = i \<and> cid' = cid then
         Some (c\<lparr>mList := mList c @ [?m], mWaitQueue := mWaitQueue c + 1\<rparr>)
         else FindClientMem (gb w) cid' j)"
    using waiting_thread_woken [OF assms(1-4,6-8)] by blast
  have iw: "idle w" "kmem w = []" "FindClientMem (gb w) cid i = Some c"
    using assms(1,2) by (simp_all add: running_def registered_def)
  have iu: "idle u" "valid u" using u(3) by (simp_all add: running_def idle_def)
  have fu: "FindClientMem (gb u) cid i = Some (c\<lparr>mList := mList c @ [?m], mWaitQueue := mWaitQueue c + 1\<rparr>)"
    by (simp add: u(7))
  have pop: "pop_first (for_tid tid) (mList c @ [?m]) = Some (?m, mList c)"
    using box.take_put_fresh [of "mList c" "for_tid tid" ?m] assms(5,7) by auto
  have sz: "int (unat (word_of_nat (length body + 6) :: u16)) = int (length body + 6)"
    using assms(4) by (simp add: unat_of_nat_widths message_body_ok_def del: of_nat_add)
  let ?w' = "upd_gb (set_client cid i (\<lambda>c'. c'\<lparr>mList := mList c\<rparr>)) u"
  have "read_loop err s cid tid i w = read_loop err s cid tid i u" for err
    using iu by (simp add: read_loop_wait [OF iw assms(5)] u(1))
  also have "read_loop err s cid tid i u = Inr (int (length body + 6), Some (message_for cid body), ?w')" for err
    using read_loop_ready [OF iu(1) fu, of tid ?m "mList c" err s] pop sz
    by (simp del: of_nat_add)
  finally have r: "read_loop err s cid tid i w = Inr (int (length body + 6), Some (message_for cid body), ?w')" for err .
  have "gb ?w' = set_client cid i (\<lambda>c'. c'\<lparr>mList := mList c\<rparr>) (gb u)" by simp
  then have "FindClientMem (gb ?w') cid' j = (if j = i \<and> cid' = cid
          then Some (c\<lparr>mWaitQueue := mWaitQueue c + 1\<rparr>) else FindClientMem (gb w) cid' j)" for cid' j
    by (simp only:) (subst Find_set_client, simp, simp add: fu u(7))
  moreover have "running ?w'" using u(3) by (simp add: running_def idle_def)
  moreover have "client_ids j (gb ?w') = client_ids j (gb w)" for j
    by (simp add: map_upd_first u(4))
  ultimately show ?thesis using r u(2,5,6) by (intro exI [of _ ?w']) simp
qed

text \<open>
  C33: a read gets the answer it waits for: a thread that reads from a registered client with no unread
  data for its transaction is woken by the transfer that carries the message, returns exactly the
  message and its size, and takes it out again, so that all clients are as before but for the
  poll wake-up; the same for ReadSync and ReadSyncTimeout.
\<close>

theorem read_returns_response:
  assumes "running w" and "registered cid i c (gb w)" and "unicast cid" and "message_body_ok body"
    and "\<forall>e \<in> set (mList c). \<not> for_tid tid e"
    and "pop_first (notifies (tid_of cid body)) (mReadNotifyList c) = None"
    and "tid = 0 \<or> tid = tid_of cid body"
    and "events w = Transfer 0 (message_for cid body) (length body + 6) # es"
  shows "\<exists>w'. ReadSync s cid tid i w = Inr (int (length body + 6), Some (message_for cid body), w')
     \<and> ReadSyncTimeout dt s cid tid i w = ReadSync s cid tid i w
     \<and> events w' = es \<and> running w'
     \<and> (\<forall>cid' j. FindClientMem (gb w') cid' j = (if j = i \<and> cid' = cid
          then Some (c\<lparr>mWaitQueue := mWaitQueue c + 1\<rparr>) else FindClientMem (gb w) cid' j))"
proof -
  have w: "valid w" "FindClientMem (gb w) cid i = Some c" "idle w" "kmem w = []"
    using assms(1,2) by (simp_all add: running_def idle_def registered_def)
  obtain w' where r: "\<forall>err. read_loop err s cid tid i w
      = Inr (int (length body + 6), Some (message_for cid body), w')"
    and rest: "events w' = es" "running w'"
      "\<forall>cid' j. FindClientMem (gb w') cid' j = (if j = i \<and> cid' = cid
          then Some (c\<lparr>mWaitQueue := mWaitQueue c + 1\<rparr>) else FindClientMem (gb w) cid' j)"
    using read_loop_response [OF assms] by blast
  show ?thesis
    using w(1,2) r rest by (intro exI [of _ w']) (simp add: ReadSync_def ReadSyncTimeout_def)
qed

theorem read_returns_response_witness:
  "\<exists>w'. ReadSync 5 0x101 0 0 (world_example [Transfer 0 (message_for 0x101 [2, 7, 0, 0x20, 0, 0, 0]) 13, Pause])
     = Inr (13, Some (message_for 0x101 [2, 7, 0, 0x20, 0, 0, 0]), w') \<and> events w' = [Pause]"
  using read_returns_response [of "world_example [Transfer 0 (message_for 0x101 [2, 7, 0, 0x20, 0, 0, 0]) 13, Pause]"
      "0x101" 0 "client_example 0x101" "[2, 7, 0, 0x20, 0, 0, 0]" 0 "[Pause]" 5 True]
  by (auto simp: message_body_ok_def)

text \<open>
  A read that is given up leaves nothing behind: when the time-out or a signal comes before any
  message, the read returns -ETIME or -EINTR, and the waiting entry is off the client's list again,
  so that every client is exactly as before and no later message touches the dead semaphore.
\<close>

theorem read_gives_up:
  assumes "running w" and "FindClientMem (gb w) cid i = Some c"
    and "\<forall>e \<in> set (mList c). \<not> for_tid tid e"
    and "\<forall>c \<in> set (clients i (gb w)). \<forall>e \<in> set (mReadNotifyList c). nf_data e \<noteq> s"
    and "events w = [] \<or> events w = Pause # es"
  shows "ReadSyncTimeout dt s cid tid i w = Inr (if dt then - ETIME else - EINTR, None,
     w\<lparr>gb := (gb w)\<lparr>semaphores := (semaphores (gb w))(s := 0)\<rparr>, events := drop 1 (events w)\<rparr>)"
proof -
  have w: "valid w" "idle w" "kmem w = []" "\<not> locked i (gb w)"
    using assms(1) by (simp_all add: running_def idle_def)
  let ?v = "waiting s cid tid i w"
  have d: "down_sem s ?v = Inr (False, ?v\<lparr>events := drop 1 (events w)\<rparr>)"
    using assms(5) by (auto simp: down_sem_def)
  have "read_loop err s cid tid i w = Inr (err, None,
     w\<lparr>gb := (gb w)\<lparr>semaphores := (semaphores (gb w))(s := 0)\<rparr>, events := drop 1 (events w)\<rparr>)" for err
    using remove_waiter_undoes [OF w(4) assms(4), of cid tid]
    by (simp add: read_loop_wait [OF w(2,3) assms(2,3)] d) (simp add: waiting_def)
  then show ?thesis using w(1) assms(2) by (simp add: ReadSyncTimeout_def)
qed

theorem read_gives_up_witness:
  "\<exists>w'. ReadSyncTimeout True 5 0x101 7 0 (world_example []) = Inr (- ETIME, None, w')
     \<and> FindClientMem (gb w') 0x101 0 = Some (client_example 0x101)"
proof -
  have "\<forall>c \<in> set (clients 0 gobi_example). \<forall>e \<in> set (mReadNotifyList c). nf_data e \<noteq> 5"
    by (simp add: gobi_example_def dev_example_def client_example_def)
  then show ?thesis
    using read_gives_up [of "world_example []" "0x101" 0 "client_example 0x101" 7 5 "[]" True]
    by auto
qed

end
