(* ===== verification/ClientIds.thy ===== *)
theory ClientIds
  imports Delivery
begin

text \<open>
  What a synchronous write does with its resources, and the life of a client id: allocated and
  released by an exchange with the control service of the device, end to end over
  \<open>WriteSync\<close>, \<open>ReadCallback\<close> and \<open>ReadSyncTimeout\<close>.
\<close>

unbundle bit_operations_syntax

section \<open>What a write does\<close>

lemma client_urbs_undo:
  assumes "FindClientMem g cid i = Some c" and "mURBList c = []"
  shows "upd_first (\<lambda>c. mClientID c = cid) (\<lambda>c. c\<lparr>mURBList := []\<rparr>)
     (upd_first (\<lambda>c. mClientID c = cid) (\<lambda>c. c\<lparr>mURBList := mURBList c @ [u]\<rparr>) (clients i g)) = clients i g"
  using assms by (intro upd_first_undo [of _ _ c]) (auto simp: FindClientMem_find split: if_splits)

abbreviation "with_urb cid i u g \<equiv> set_client cid i (\<lambda>c. c\<lparr>mURBList := mURBList c @ [u]\<rparr>) g"

lemma set_client_undo:
  assumes "upd_first (\<lambda>c. mClientID c = cid) h (upd_first (\<lambda>c. mClientID c = cid) f (clients i g)) = clients i g"
  shows "set_client cid i h (set_client cid i f g) = g"
  using assms by simp

text \<open>Taking the URB back right after it was put on the list.\<close>

lemma urb_back:
  assumes "mbQMIValid g" and "\<not> locked i g" and "FindClientMem g cid i = Some c" and "mURBList c = []"
    and "qmi_devs h = qmi_devs (with_urb cid i u g)" and "mbQMIValid h"
  shows "PopFromURBList h cid i = Inr (Some u, h\<lparr>qmi_devs := qmi_devs g\<rparr>)"
proof -
  have "FindClientMem h cid i = Some (c\<lparr>mURBList := mURBList c @ [u]\<rparr>)"
  proof -
    have "FindClientMem h = FindClientMem (with_urb cid i u g)"
      using assms(1,5,6) by (intro find_cong_devs) simp_all
    then show ?thesis using assms(3) by (simp only:) (subst Find_set_client, simp, simp)
  qed
  moreover have "\<not> locked i h" using assms(2,5) by simp
  ultimately have "PopFromURBList h cid i = Inr (Some u, set_client cid i (\<lambda>c. c\<lparr>mURBList := []\<rparr>) h)"
    using assms(4,6) by (simp add: PopURB_ok)
  moreover have "set_client cid i (\<lambda>c. c\<lparr>mURBList := []\<rparr>) h = h\<lparr>qmi_devs := qmi_devs g\<rparr>"
    using client_urbs_undo [OF assms(3,4), of u] assms(5) by simp
  ultimately show ?thesis by simp
qed

lemma KillRead_devs [simp]: "qmi_devs (KillRead g) = qmi_devs g" "mbQMIValid (KillRead g) = mbQMIValid g"
  "usb_written (KillRead g) = usb_written g"
  by (simp_all add: KillRead_def Let_def)

lemma GobiSuspend_devs [simp]:
  "qmi_devs (snd (GobiSuspend s e g)) = qmi_devs g" "mbQMIValid (snd (GobiSuspend s e g)) = mbQMIValid g"
  "usb_written (snd (GobiSuspend s e g)) = usb_written g"
  by (simp_all add: GobiSuspend_def GobiSetDownReason_def Let_def)

lemma AddURB_no_memory:
  assumes "mbQMIValid g" and "\<not> locked i g"
  shows "AddToURBList False g cid u i = Inr (False, g)"
  using assms by (auto simp: AddToURBList_def op_defs lock_update_idle split: option.splits)

lemma on_gb_ok: "f (gb w) = Inr (x, g) \<Longrightarrow> on_gb f w = Inr (x, w\<lparr>gb := g\<rparr>)"
  by (simp add: on_gb_def)

lemma pop_usb_keeps [simp]:
  "gb (snd (pop_usb w)) = gb w" "events (snd (pop_usb w)) = events w" "kmem (snd (pop_usb w)) = kmem w"
  "live (snd (pop_usb w)) = live w" "autopm (snd (pop_usb w)) = autopm w"
  "next_urb (snd (pop_usb w)) = next_urb w"
  by (simp_all add: pop_usb_def split: list.splits)

text \<open>What a step of the kernel side leaves alone.\<close>

lemma alloc_facts:
  "alloc w = (ok, w') \<Longrightarrow> gb w' = gb w \<and> events w' = events w \<and> autopm w' = autopm w
     \<and> usb w' = usb w \<and> next_urb w' = next_urb w
     \<and> live w' = live w + (if ok then 1 else 0) \<and> kmem w' = tl (kmem w) \<and> (ok \<longleftrightarrow> kmem w = [] \<or> hd (kmem w))"
  by (auto simp: alloc_def pop_kmem_def split: list.splits if_splits)

lemma pop_usb_facts:
  "pop_usb w = (r, w') \<Longrightarrow> gb w' = gb w \<and> events w' = events w \<and> kmem w' = kmem w
     \<and> autopm w' = autopm w \<and> live w' = live w \<and> next_urb w' = next_urb w"
  by (auto simp: pop_usb_def split: list.splits)

lemma pop_kmem_facts:
  "pop_kmem w = (ok, w') \<Longrightarrow> gb w' = gb w \<and> events w' = events w \<and> usb w' = usb w
     \<and> autopm w' = autopm w \<and> live w' = live w \<and> next_urb w' = next_urb w"
  by (auto simp: pop_kmem_def split: list.splits)

lemma free_simps [simp]:
  "gb (free w) = gb w" "events (free w) = events w" "autopm (free w) = autopm w" "kmem (free w) = kmem w"
  "usb (free w) = usb w" "live (free w) = live w - 1" "next_urb (free w) = next_urb w"
  by (simp_all add: free_def)

abbreviation "no_unplug w \<equiv> (\<forall>es. events w \<noteq> Unplug # es)"

lemma write_wait_facts:
  "write_wait w = (r, w') \<Longrightarrow> no_unplug w \<Longrightarrow> gb w' = gb w \<and> events w' = events w \<and> kmem w' = kmem w
     \<and> autopm w' = autopm w \<and> live w' = live w \<and> next_urb w' = next_urb w"
  by (auto simp: write_wait_def pop_usb_def Let_def split: list.splits event.splits prod.splits)

lemma idle_devs: "qmi_devs (gb v) = qmi_devs (gb w) \<Longrightarrow> mbQMIValid (gb v) = mbQMIValid (gb w) \<Longrightarrow> idle v = idle w"
  by (simp add: idle_def)

lemma write_submit_ok:
  assumes "mbQMIValid g" and "\<not> locked i g" and "FindClientMem g cid i = Some c" and "mURBList c = []"
    and "gb w = with_urb cid i u g" and "no_unplug w"
  shows "\<exists>r w'. write_submit u buf n cid i w = Inr (r, w') \<and> qmi_devs (gb w') = qmi_devs g
     \<and> mbQMIValid (gb w') \<and> autopm w' = autopm w - 1 \<and> live w' = live w - 2 \<and> events w' = events w
     \<and> usb_written (gb w') \<in> {usb_written g, usb_written g @ [take (nat n) (case buf of None \<Rightarrow> [] | Some b \<Rightarrow> b)]}"
proof -
  note ub = urb_back [OF assms(1-4), of _ u]
  obtain r w1 where 1: "pop_usb w = (r, w1)" by fastforce
  note f1 = pop_usb_facts [OF 1]
  show ?thesis
  proof (cases "r < 0")
    case True
    have "PopFromURBList (gb w1) cid i = Inr (Some u, (gb w1)\<lparr>qmi_devs := qmi_devs g\<rparr>)"
      using assms(1,5) f1 by (intro ub) simp_all
    then show ?thesis
      using True f1 assms(1,5) by (simp add: write_submit_def 1 on_gb_ok)
  next
    case False
    let ?w2 = "upd_gb (\<lambda>g. g\<lparr>usb_written := usb_written g @ [take (nat n) (case buf of None \<Rightarrow> [] | Some b \<Rightarrow> b)]\<rparr>) w1"
    obtain r3 w3 where 3: "write_wait ?w2 = (r3, w3)" by fastforce
    have f3: "gb w3 = gb ?w2 \<and> events w3 = events w \<and> autopm w3 = autopm w \<and> live w3 = live w"
      using write_wait_facts [OF 3] f1 assms(6) by simp
    let ?g4 = "(gb w3)\<lparr>qmi_devs := qmi_devs g\<rparr>"
    have b: "PopFromURBList (gb w3) cid i = Inr (Some u, ?g4)"
      using assms(1,5) f1 f3 by (intro ub) simp_all
    let ?w4 = "w3\<lparr>autopm := autopm w3 - 1, gb := ?g4\<rparr>"
    obtain st w5 where 5: "(if r3 = 0 then pop_usb ?w4 else (0, ?w4)) = (st, w5)" by fastforce
    have f5: "gb w5 = ?g4 \<and> events w5 = events w \<and> autopm w5 = autopm w - 1 \<and> live w5 = live w"
      using 5 pop_usb_facts [of ?w4 st w5] f3 by (auto split: if_splits)
    have v3: "mbQMIValid (gb w3)" using assms(1,5) f1 f3 by simp
    have "write_submit u buf n cid i w
       = Inr (if r3 = 0 then if st = 0 then n else st else r3, free (free w5))"
      using False v3 by (simp add: write_submit_def 1 3 on_gb_def b 5)
    then show ?thesis using f5 f3 f1 v3 assms(5) by simp
  qed
qed

text \<open>What a write leaves behind, with \<open>lost\<close> of its two blocks not freed and \<open>sent\<close> what it may send.\<close>

definition write_done :: "int \<Rightarrow> bytes \<Rightarrow> world \<Rightarrow> world \<Rightarrow> bool" where
  "write_done lost sent w w' \<longleftrightarrow> qmi_devs (gb w') = qmi_devs (gb w) \<and> idle w' \<and> autopm w' = autopm w
     \<and> live w' = live w + lost \<and> usb_written (gb w') \<in> {usb_written (gb w), usb_written (gb w) @ [sent]}"

text \<open>From the moment both blocks are allocated, and from the moment the device is awake.\<close>

definition write_awake :: "nat \<Rightarrow> ptr \<Rightarrow> int \<Rightarrow> u16 \<Rightarrow> nat \<Rightarrow> world \<Rightarrow> fault + (int \<times> world)" where
  "write_awake u buf n cid i w =
     (let (ok, w) = pop_kmem (w\<lparr>autopm := autopm w + 1\<rparr>) in
      bnd (on_gb (\<lambda>g. AddToURBList ok g cid u i) w) (\<lambda>(added, w).
      if \<not> added then Inr (- EINVAL, free (free (w\<lparr>autopm := autopm w - 1\<rparr>)))
      else write_submit u buf n cid i w))"

definition write_started :: "nat \<Rightarrow> ptr \<Rightarrow> int \<Rightarrow> u16 \<Rightarrow> nat \<Rightarrow> world \<Rightarrow> fault + (int \<times> world)" where
  "write_started u buf n cid i w =
     (let (result, w) = pop_usb w in
      if result < 0 then
        let w = (if result = - EPERM
                 then let (s, w) = pop_usb w in upd_gb (\<lambda>g. snd (GobiSuspend s PM_EVENT_SUSPEND g)) w
                 else w)
        in Inr (result, free (free w))
      else write_awake u buf n cid i w)"

lemma write_awake_done:
  assumes "idle w" and "FindClientMem (gb w) cid i = Some c" and "mURBList c = []" and "no_unplug w"
  shows "\<exists>r w'. write_awake u (Some b) (int n) cid i w = Inr (r, w') \<and> write_done (- 2) (take n b) w w'"
proof -
  have v: "mbQMIValid (gb w)" "\<not> locked i (gb w)" using assms(1) by (simp_all add: idle_def)
  obtain ok w1 where 1: "pop_kmem (w\<lparr>autopm := autopm w + 1\<rparr>) = (ok, w1)" by fastforce
  note f1 = pop_kmem_facts [OF 1]
  have g1: "gb w1 = gb w" using f1 by simp
  show ?thesis
  proof (cases ok)
    case False
    then show ?thesis using f1 g1 assms(1)
      by (simp add: write_awake_def 1 on_gb_def AddURB_no_memory [OF v] idle_def write_done_def)
  next
    case True
    let ?w2 = "w1\<lparr>gb := with_urb cid i u (gb w)\<rparr>"
    have "no_unplug ?w2" "gb ?w2 = with_urb cid i u (gb w)" using f1 assms(4) by simp_all
    from write_submit_ok [OF v assms(2,3) this(2,1), of "Some b" "int n"]
    obtain r w' where r: "write_submit u (Some b) (int n) cid i ?w2 = Inr (r, w')"
      "qmi_devs (gb w') = qmi_devs (gb w)" "mbQMIValid (gb w')" "autopm w' = autopm w1 - 1"
      "live w' = live w1 - 2" "usb_written (gb w') \<in> {usb_written (gb w), usb_written (gb w) @ [take n b]}"
      by auto
    have "write_awake u (Some b) (int n) cid i w = Inr (r, w')"
      using True r(1) by (simp add: write_awake_def 1 on_gb_def g1 AddURB_ok [OF v assms(2)])
    then show ?thesis using r(2-6) f1 assms(1) by (auto simp: write_done_def idle_def)
  qed
qed

lemma write_started_done:
  assumes "idle w" and "FindClientMem (gb w) cid i = Some c" and "mURBList c = []" and "no_unplug w"
  shows "\<exists>r w'. write_started u (Some b) (int n) cid i w = Inr (r, w') \<and> write_done (- 2) (take n b) w w'"
proof -
  obtain r w1 where 1: "pop_usb w = (r, w1)" by fastforce
  note f1 = pop_usb_facts [OF 1]
  show ?thesis
  proof (cases "r < 0")
    case True
    obtain s w2 where 2: "pop_usb w1 = (s, w2)" by fastforce
    note f2 = pop_usb_facts [OF 2]
    let ?w3 = "if r = - EPERM then upd_gb (\<lambda>g. snd (GobiSuspend s PM_EVENT_SUSPEND g)) w2 else w1"
    have "write_started u (Some b) (int n) cid i w = Inr (r, free (free ?w3))"
      using True by (simp add: write_started_def 1 2)
    moreover have "qmi_devs (gb ?w3) = qmi_devs (gb w)" "mbQMIValid (gb ?w3)" "autopm ?w3 = autopm w"
      "live ?w3 = live w" "usb_written (gb ?w3) = usb_written (gb w)"
      using f1 f2 assms(1) by (simp_all add: idle_def)
    then have "write_done (- 2) (take n b) w (free (free ?w3))"
      using assms(1) unfolding write_done_def idle_def by simp
    ultimately show ?thesis by blast
  next
    case False
    have e: "idle w1" "FindClientMem (gb w1) cid i = Some c" "no_unplug w1"
      using f1 assms by (simp_all add: idle_def)
    have "write_started u (Some b) (int n) cid i w = write_awake u (Some b) (int n) cid i w1"
      using False by (simp add: write_started_def 1)
    moreover have "write_done (- 2) (take n b) w1 w' \<Longrightarrow> write_done (- 2) (take n b) w w'" for w'
      using f1 by (simp add: write_done_def)
    ultimately show ?thesis using write_awake_done [OF e(1,2) assms(3) e(3)] by metis
  qed
qed

lemma WriteSync_result:
  assumes "idle w" and "FindClientMem (gb w) cid i = Some c" and "mURBList c = []"
    and "6 \<le> n" and "n < 65536" and "n \<le> length b" and "no_unplug w"
  shows "\<exists>r w'. WriteSync (Some b) (int n) cid i w = Inr (r, w')
     \<and> write_done (if \<exists>ks. kmem w = True # False # ks then 1 else 0)
         (take n (qmux_bytes (word_of_nat n - 1) 0 cid @ drop 6 b)) w w'"
proof -
  let ?b = "qmux_bytes (word_of_nat n - 1) 0 cid @ drop 6 b"
  have fill: "FillQMUX cid (Some b) (word_of_nat n) = Inr (0, Some ?b)"
    using assms(4-6) by (intro FillQMUX_writes) (simp_all add: unat_of_nat_widths)
  have v: "valid w" using assms(1) by (simp add: idle_def)
  obtain ok1 w1 where 1: "alloc w = (ok1, w1)" by fastforce
  note f1 = alloc_facts [OF 1]
  show ?thesis
  proof (cases ok1)
    case False
    then show ?thesis
      using v f1 assms(1) by (intro exI [of _ "- ENOMEM"] exI [of _ w1])
        (auto simp: WriteSync_def 1 idle_def write_done_def)
  next
    case True
    obtain ok3 w3 where 3: "alloc (w1\<lparr>next_urb := next_urb w1 + 1\<rparr>) = (ok3, w3)" by fastforce
    note f3 = alloc_facts [OF 3]
    obtain r4 w4 where 4: "pop_usb w3 = (r4, w4)" by fastforce
    have start: "WriteSync (Some b) (int n) cid i w = (
      if \<not> ok3 then Inr (- ENOMEM, w3) else write_started (next_urb w1) (Some ?b) (int n) cid i w3)"
      using v True fill 3 by (simp add: WriteSync_def 1 4 Let_def write_started_def write_awake_def)
    have leak: "(\<exists>ks. kmem w = True # False # ks) \<longleftrightarrow> \<not> ok3"
      using f1 f3 True by (cases "kmem w"; cases "tl (kmem w)") auto
    show ?thesis
    proof (cases ok3)
      case False
      then show ?thesis using start leak f1 f3 True assms(1) by (auto simp: idle_def write_done_def)
    next
      case ok3: True
      have "idle w3" "FindClientMem (gb w3) cid i = Some c" "no_unplug w3"
        using f1 f3 assms by (simp_all add: idle_def)
      from write_started_done [OF this(1,2) assms(3) this(3)]
      obtain r w' where r: "write_started (next_urb w1) (Some ?b) (int n) cid i w3 = Inr (r, w')"
        "write_done (- 2) (take n ?b) w3 w'" by blast
      have "write_done 0 (take n ?b) w w'" using r(2) f1 f3 True ok3 by (simp add: write_done_def)
      moreover have "(if \<exists>ks. kmem w = True # False # ks then 1 else 0) = (0 :: int)" using leak ok3 by simp
      ultimately show ?thesis using start r(1) ok3 by simp
    qed
  qed
qed

text \<open>
  A write gives back what it takes: whatever the kernel answers (allocation failures, a device that
  cannot be woken, a rejected or interrupted transfer), a synchronous write of a registered client
  with no other URB outstanding returns, without fault, with the client memory and the power
  references as before and with every URB and packet freed, except that the URB is leaked when the
  setup packet cannot be allocated; at most one transfer is handed to the device, and it is the
  caller's buffer behind a QMUX header with the client's id and the length of the write.
\<close>

theorem WriteSync_resources:
  assumes "idle w" and "FindClientMem (gb w) cid i = Some c" and "mURBList c = []"
    and "6 \<le> n" and "n < 65536" and "n \<le> length b" and "no_unplug w"
  shows "\<exists>r w'. WriteSync (Some b) (int n) cid i w = Inr (r, w')
     \<and> qmi_devs (gb w') = qmi_devs (gb w) \<and> idle w' \<and> autopm w' = autopm w
     \<and> live w' = live w + (if \<exists>ks. kmem w = True # False # ks then 1 else 0)
     \<and> usb_written (gb w') \<in> {usb_written (gb w), usb_written (gb w)
         @ [take n (qmux_bytes (word_of_nat n - 1) 0 cid @ drop 6 b)]}"
  using WriteSync_result [OF assms] unfolding write_done_def by blast

theorem WriteSync_resources_witness:
  "\<exists>r w'. WriteSync (Some (replicate 16 0)) 16 0x101 0 ((world_example [])\<lparr>kmem := [True, False]\<rparr>) = Inr (r, w')
     \<and> live w' = 1 \<and> idle w'"
proof -
  have "idle ((world_example [])\<lparr>kmem := [True, False]\<rparr>)" by (simp add: idle_def)
  from WriteSync_resources [OF this, of "0x101" 0 "client_example 0x101" 16 "replicate 16 0"]
  show ?thesis by auto
qed

section \<open>Client ids are allocated and released\<close>

text \<open>A write on which nothing fails.\<close>

lemma WriteSync_sends:
  assumes "running w" and "usb w = []" and "no_unplug w"
    and "FindClientMem (gb w) cid i = Some c" and "mURBList c = []"
    and "6 \<le> n" and "n < 65536" and "n \<le> length b"
  shows "WriteSync (Some b) (int n) cid i w = Inr (int n,
     w\<lparr>gb := (gb w)\<lparr>usb_written := usb_written (gb w)
          @ [take n (qmux_bytes (word_of_nat n - 1) 0 cid @ drop 6 b)]\<rparr>,
       next_urb := next_urb w + 1\<rparr>)"
proof -
  have v: "mbQMIValid (gb w)" "\<not> locked i (gb w)" "kmem w = []"
    using assms(1) by (simp_all add: running_def idle_def)
  let ?b = "qmux_bytes (word_of_nat n - 1) 0 cid @ drop 6 b"
  have fill: "FillQMUX cid (Some b) (word_of_nat n) = Inr (0, Some ?b)"
    using assms(6-8) by (intro FillQMUX_writes) (simp_all add: unat_of_nat_widths)
  let ?g = "(with_urb cid i (next_urb w) (gb w))\<lparr>usb_written := usb_written (gb w) @ [take n ?b]\<rparr>"
  have pop: "PopFromURBList ?g cid i = Inr (Some (next_urb w), ?g\<lparr>qmi_devs := qmi_devs (gb w)\<rparr>)"
    using v(1) by (intro urb_back [OF v(1,2) assms(4,5)]) simp_all
  have sub: "write_submit (next_urb w) (Some ?b) (int n) cid i
      (w\<lparr>next_urb := next_urb w + 1, live := 2 + live w, autopm := autopm w + 1,
         gb := with_urb cid i (next_urb w) (gb w)\<rparr>)
    = Inr (int n, w\<lparr>gb := (gb w)\<lparr>usb_written := usb_written (gb w) @ [take n ?b]\<rparr>, next_urb := next_urb w + 1\<rparr>)"
    using v assms(2,3) pop
    by (simp add: write_submit_def pop_usb_def write_wait_def on_gb_def free_def Let_def split: list.splits event.splits)
  show ?thesis
    using v assms(2) fill sub AddURB_ok [OF v(1,2) assms(4), of "next_urb w"]
    by (simp add: WriteSync_def alloc_def pop_kmem_def pop_usb_def on_gb_def Let_def)
qed

lemma GetClientIDResp_ok:
  assumes "well_formed_response 2 hdr sdu tlvs" and "valid_result tlvs = 0"
    and "tlv_lookup 1 tlvs = Some v" and "length v = 2"
  shows "QMICTLGetClientIDResp (Some (response hdr sdu 0x22 tlvs)) (response_size 2 tlvs) c0 = Inr (0, of_le16 v)"
proof -
  define len where "len = response_size 2 tlvs - word_of_nat (sizeof_sQMUX + 2)"
  note b = response_body [OF assms(1), folded len_def]
  have l: "unat len = length (qmi_msg 0x22 tlvs)" using b(2) .
  have b1: "skip (sizeof_sQMUX + 2) (Some (response hdr sdu 0x22 tlvs)) = Some (qmi_msg 0x22 tlvs @ [])"
    using b(1) [of "0x22" "[]"] by (simp only: append_Nil2)
  show ?thesis
    unfolding QMICTLGetClientIDResp_def Let_def len_def [symmetric] b1
    using b(4) assms(2-4)
    by (simp add: get_tlv_u16_msg [OF b(3) l] ValidQMIMessage_result [OF b(3) l]
        GetQMIMessageID_msg [OF l] tlv_read_def del: append_Nil2) simp
qed

text \<open>The answer of the device to a request of the control service.\<close>

definition ctl_answer :: "u8 \<Rightarrow> u16 \<Rightarrow> tlv list \<Rightarrow> bytes" where
  "ctl_answer tid i tlvs = [1, tid] @ qmi_msg i tlvs"

lemma ctl_answer_ok:
  assumes "\<forall>f \<in> set tlvs. tlv_valid f" and "length (enc_tlvs tlvs) < 65000"
  shows "message_body_ok (ctl_answer tid i tlvs)" and "tid_of QMICTL (ctl_answer tid i tlvs) = ucast tid"
    and "message_for QMICTL (ctl_answer tid i tlvs)
       = response (qmux_bytes (word_of_nat (length (ctl_answer tid i tlvs) + 5)) 0x80 QMICTL) [1, tid] i tlvs"
    and "well_formed_response 2 (qmux_bytes (word_of_nat (length (ctl_answer tid i tlvs) + 5)) 0x80 QMICTL)
       [1, tid] tlvs"
    and "word_of_int (int (length (ctl_answer tid i tlvs) + 6)) = response_size 2 tlvs"
  using assms
  by (simp_all add: message_body_ok_def ctl_answer_def length_qmi_msg tid_of_def message_for_def
      response_def well_formed_response_def list_all_iff response_size_def algebra_simps)

lemma next_ctl_tid_keeps:
  "next_ctl_tid g = (tid, g') \<Longrightarrow> \<exists>t. g' = g\<lparr>mQMICTLTransactionID := t\<rparr>"
  by (auto simp: next_ctl_tid_def Let_def split: if_splits)

text \<open>One request to the control service and its answer.\<close>

lemma ctl_exchange:
  assumes "ctl_ready w c0" and "6 \<le> n" and "n < 65536" and "n \<le> length b"
    and "message_body_ok body"
    and "events w = Transfer 0 (message_for QMICTL body) (length body + 6) # es"
    and "tid = tid_of QMICTL body"
  shows "\<exists>w1 w2. WriteSync (Some b) (int n) QMICTL 0 w = Inr (int n, w1)
     \<and> ReadSyncTimeout dt s QMICTL tid 0 (free w1) = Inr (int (length body + 6), Some (message_for QMICTL body), w2)
     \<and> events w2 = es \<and> running w2 \<and> live w2 = live w - 1 \<and> (\<forall>j. client_ids j (gb w2) = client_ids j (gb w))
     \<and> (\<forall>cid j. (cid, j) \<noteq> (QMICTL, 0) \<longrightarrow> FindClientMem (gb w2) cid j = FindClientMem (gb w) cid j)
     \<and> FindClientMem (gb w2) QMICTL 0 \<noteq> None
     \<and> usb_written (gb w2) = usb_written (gb w)
         @ [take n (qmux_bytes (word_of_nat n - 1) 0 QMICTL @ drop 6 b)]"
proof -
  have w: "running w" "usb w = []" "no_unplug w" "FindClientMem (gb w) QMICTL 0 = Some c0"
    "mURBList c0 = []"
    using assms(1,6) by (simp_all add: ctl_ready_def registered_def)
  let ?wr = "usb_written (gb w) @ [take n (qmux_bytes (word_of_nat n - 1) 0 QMICTL @ drop 6 b)]"
  define w1 where "w1 = w\<lparr>gb := (gb w)\<lparr>usb_written := ?wr\<rparr>, next_urb := next_urb w + 1\<rparr>"
  have wr: "WriteSync (Some b) (int n) QMICTL 0 w = Inr (int n, w1)"
    using WriteSync_sends [OF w assms(2-4)] by (simp only: w1_def)
  have d: "qmi_devs (gb (free w1)) = qmi_devs (gb w)" "mbQMIValid (gb (free w1)) = mbQMIValid (gb w)"
    by (simp_all add: w1_def)
  note fd = find_cong_devs [OF d]
  have v: "running (free w1)" "registered QMICTL 0 c0 (gb (free w1))" "valid (free w1)"
    "FindClientMem (gb (free w1)) QMICTL 0 = Some c0"
    using assms(1) fd by (simp_all add: ctl_ready_def running_def idle_def registered_def w1_def)
  have e: "events (free w1) = Transfer 0 (message_for QMICTL body) (length body + 6) # es"
    using assms(6) by (simp add: w1_def)
  have q: "\<forall>e \<in> set (mList c0). \<not> for_tid tid e"
    "pop_first (notifies (tid_of QMICTL body)) (mReadNotifyList c0) = None" "unicast QMICTL"
    using assms(1) by (simp_all add: ctl_ready_def)
  obtain w2 where w2: "\<forall>err. read_loop err s QMICTL tid 0 (free w1)
      = Inr (int (length body + 6), Some (message_for QMICTL body), w2)" "events w2 = es" "running w2"
    "\<forall>j. client_ids j (gb w2) = client_ids j (gb (free w1))" "usb_written (gb w2) = usb_written (gb (free w1))"
    "live w2 = live (free w1)"
    "\<forall>cid' j. FindClientMem (gb w2) cid' j = (if j = 0 \<and> cid' = QMICTL
          then Some (c0\<lparr>mWaitQueue := mWaitQueue c0 + 1\<rparr>) else FindClientMem (gb (free w1)) cid' j)"
    using read_loop_response [OF v(1,2) q(3) assms(5) q(1,2) disjI2 [OF assms(7)] e] by blast
  have rd: "ReadSyncTimeout dt s QMICTL tid 0 (free w1)
      = Inr (int (length body + 6), Some (message_for QMICTL body), w2)"
    using v(3,4) w2(1) by (simp add: ReadSyncTimeout_def)
  have "usb_written (gb w2) = ?wr" using w2(5) by (simp add: w1_def)
  with wr rd w2(2-4,6,7) fd show ?thesis
    by (intro exI [of _ w1] exI [of _ w2]) (simp add: w1_def)
qed

text \<open>The device answers the request for an id.\<close>

lemma get_id_exchange_answered:
  assumes "ctl_ready w c0" and "next_ctl_tid (gb w) = (tid, g1)"
    and "\<forall>f \<in> set tlvs. tlv_valid f" and "length (enc_tlvs tlvs) < 65000"
    and "valid_result tlvs = 0" and "tlv_lookup 1 tlvs = Some v" and "length v = 2"
    and "events w = Transfer 0 (message_for QMICTL (ctl_answer tid 0x22 tlvs))
           (length (ctl_answer tid 0x22 tlvs) + 6) # es"
  shows "\<exists>w3. get_id_exchange dt s svc w = Inr (0, of_le16 v, w3) \<and> running w3 \<and> events w3 = es
     \<and> (\<forall>j. client_ids j (gb w3) = client_ids j (gb w))
     \<and> (\<forall>cid j. (cid, j) \<noteq> (QMICTL, 0) \<longrightarrow> FindClientMem (gb w3) cid j = FindClientMem (gb w) cid j)
     \<and> usb_written (gb w3) = usb_written (gb w)
         @ [qmux_bytes 15 0 QMICTL @ req_bytes (Ctl tid 0x22 [(0x01, [svc])])]"
proof -
  let ?body = "ctl_answer tid 0x22 tlvs"
  note a = ctl_answer_ok [OF assms(3,4), of tid "0x22"]
  have v: "kmem w = []" using assms(1) by (simp_all add: ctl_ready_def running_def idle_def)
  obtain t where g1: "g1 = (gb w)\<lparr>mQMICTLTransactionID := t\<rparr>"
    using next_ctl_tid_keeps [OF assms(2)] by blast
  define w1 where "w1 = w\<lparr>live := live w + 1, gb := g1\<rparr>"
  have w1: "ctl_ready w1 c0" "events w1 = Transfer 0 (message_for QMICTL ?body) (length ?body + 6) # es"
    using assms(1,8) by (simp_all add: w1_def g1 ctl_ready_def running_def idle_def registered_def)
  have sz: "unat QMICTLGetClientIDReqSize = 16" by (simp add: req_sizes)
  obtain b where b: "QMICTLGetClientIDReq (Some (replicate 16 0)) QMICTLGetClientIDReqSize tid svc
      = Inr (16, Some b)" "holds_request (Ctl tid 0x22 [(0x01, [svc])]) (replicate 16 0) b"
    using QMICTLGetClientIDReq_msg [of QMICTLGetClientIDReqSize "replicate 16 0" tid svc] sz by auto
  have bl: "length b = 16" "drop 6 b = req_bytes (Ctl tid 0x22 [(0x01, [svc])])"
    using b(2) by (simp_all add: holds_request_def req_bytes_eval)
  obtain w2 w3 where x: "WriteSync (Some b) 16 QMICTL 0 w1 = Inr (16, w2)"
    "ReadSyncTimeout dt s QMICTL (ucast tid) 0 (free w2)
      = Inr (int (length ?body + 6), Some (message_for QMICTL ?body), w3)"
    "events w3 = es" "running w3" "\<And>j. client_ids j (gb w3) = client_ids j (gb w)"
    "\<And>cid j. (cid, j) \<noteq> (QMICTL, 0) \<Longrightarrow> FindClientMem (gb w3) cid j = FindClientMem (gb w) cid j"
    "usb_written (gb w3) = usb_written (gb w) @ [qmux_bytes 15 0 QMICTL @ drop 6 b]"
    using ctl_exchange [OF w1(1), of 16 b ?body es "ucast tid" dt s] bl(1) a(1,2) w1(2)
    by (auto simp: w1_def g1)
  have rs: "QMICTLGetClientIDResp (Some (message_for QMICTL ?body)) (word_of_int (int (length ?body + 6))) 0
      = Inr (0, of_le16 v)"
    unfolding a(3,5) by (rule GetClientIDResp_ok [OF a(4) assms(5-7)])
  have ex: "get_id_exchange dt s svc w = Inr (0, of_le16 v, w3)"
    unfolding get_id_exchange_def Let_def alloc_def pop_kmem_def v
    using b(1) x(1,2) rs assms(2) by (simp add: sz w1_def)
  show ?thesis using ex x(3-7) bl(2) by auto
qed

text \<open>A new client is found at the end of the list.\<close>

lemma find_snoc: "find P (xs @ [y]) = (case find P xs of None \<Rightarrow> if P y then Some y else None | Some z \<Rightarrow> Some z)"
  by (induction xs) auto

text \<open>
  C34: allocating a client id works end to end: when the device answers the request of the control
  service with a successful allocation response, GetClientID sends exactly one well-formed
  request with a fresh transaction id, reads the response for that transaction, and returns the id
  the device gave, having registered a new empty client of that id at the end of the device's list
  and changed no other client's registration.
\<close>

theorem GetClientID_registers:
  assumes "ctl_ready w c0" and "svc \<noteq> 0" and "next_ctl_tid (gb w) = (tid, g1)"
    and "\<forall>f \<in> set tlvs. tlv_valid f" and "length (enc_tlvs tlvs) < 65000"
    and "valid_result tlvs = 0" and "tlv_lookup 1 tlvs = Some v" and "length v = 2"
    and "FindClientMem (gb w) (of_le16 v) i = None"
    and "events w = Transfer 0 (message_for QMICTL (ctl_answer tid 0x22 tlvs))
           (length (ctl_answer tid 0x22 tlvs) + 6) # es"
  shows "\<exists>w'. GetClientID dt s svc i w = Inr (int (unat (of_le16 v)), w') \<and> running w' \<and> events w' = es
     \<and> client_ids i (gb w') = client_ids i (gb w) @ [of_le16 v]
     \<and> (\<forall>j. j \<noteq> i \<longrightarrow> client_ids j (gb w') = client_ids j (gb w))
     \<and> FindClientMem (gb w') (of_le16 v) i = Some (new_client (of_le16 v))
     \<and> usb_written (gb w') = usb_written (gb w)
         @ [qmux_bytes 15 0 QMICTL @ req_bytes (Ctl tid 0x22 [(0x01, [svc])])]"
proof -
  have v: "valid w" using assms(1) by (simp add: ctl_ready_def running_def idle_def)
  obtain w3 where x: "get_id_exchange dt s svc w = Inr (0, of_le16 v, w3)" "running w3" "events w3 = es"
    "\<And>j. client_ids j (gb w3) = client_ids j (gb w)"
    "\<And>cid j. (cid, j) \<noteq> (QMICTL, 0) \<Longrightarrow> FindClientMem (gb w3) cid j = FindClientMem (gb w) cid j"
    "usb_written (gb w3) = usb_written (gb w)
         @ [qmux_bytes 15 0 QMICTL @ req_bytes (Ctl tid 0x22 [(0x01, [svc])])]"
    using get_id_exchange_answered [OF assms(1,3-8,10)] by blast
  have new: "(of_le16 v, i) \<noteq> (QMICTL, 0)"
    using assms(1,9) by (cases i) (auto simp: ctl_ready_def registered_def)
  have f3: "FindClientMem (gb w3) (of_le16 v) i = None" using x(5) [OF new] assms(9) by simp
  have r3: "mbQMIValid (gb w3)" "\<not> locked i (gb w3)" "kmem w3 = []"
    using x(2) by (simp_all add: running_def idle_def)
  define w' where "w' = upd_gb (set_dev i (\<lambda>d. d\<lparr>mClientMemList := mClientMemList d @ [new_client (of_le16 v)]\<rparr>)) w3"
  have run: "GetClientID dt s svc i w = Inr (int (unat (of_le16 v)), w')"
    using v assms(2) x(1) f3 r3
    by (simp add: GetClientID_def pop_kmem_def spin_lock_def spin_unlock_def lock_update_idle w'_def)
  have "FindClientMem (gb w') (of_le16 v) i = Some (new_client (of_le16 v))"
    using f3 r3(1) by (simp add: w'_def FindClientMem_find find_snoc new_client_def split: option.splits)
  moreover have "running w'" using x(2) by (simp add: w'_def running_def idle_def)
  moreover have "client_ids i (gb w') = client_ids i (gb w) @ [of_le16 v]"
    "\<forall>j. j \<noteq> i \<longrightarrow> client_ids j (gb w') = client_ids j (gb w)"
    using x(4) by (simp_all add: w'_def new_client_def)
  ultimately show ?thesis using run x(3,6) by (intro exI [of _ w']) (simp add: w'_def)
qed

theorem GetClientID_registers_witness:
  "\<exists>w'. GetClientID True 5 1 0 (world_example [Transfer 0 (message_for QMICTL
       (ctl_answer 1 0x22 [(2, [0, 0, 0, 0]), (1, [1, 9])])) 24])
     = Inr (int (unat (of_le16 [1, 9])), w') \<and> client_ids 0 (gb w') = [0, 0x101, of_le16 [1, 9]]"
proof -
  have f: "FindClientMem gobi_example (of_le16 [1, 9]) 0 = None"
    by (simp add: gobi_example_def dev_example_def client_example_def FindClientMem_find of_le16_def)
  have v: "valid_result [(2, [0, 0, 0, 0]), (1, [1, 9])] = 0" by (simp add: valid_result_def of_le16_def)
  have t: "next_ctl_tid gobi_example = (1, gobi_example\<lparr>mQMICTLTransactionID := 1\<rparr>)"
    by (simp add: next_ctl_tid_def gobi_example_def)
  have l: "length (ctl_answer 1 0x22 [(2, [0, 0, 0, 0]), (1, [1, 9])]) = 18"
    by (simp add: ctl_answer_def length_qmi_msg)
  show ?thesis
    using GetClientID_registers [of "world_example [Transfer 0 (message_for QMICTL
       (ctl_answer 1 0x22 [(2, [0, 0, 0, 0]), (1, [1, 9])])) 24]" "client_example 0" 1 1
      "gobi_example\<lparr>mQMICTLTransactionID := 1\<rparr>" "[(2, [0, 0, 0, 0]), (1, [1, 9])]" "[1, 9]" 0 "[]" True 5]
      f v t l
    by (auto simp del: list.set_map)
qed

section \<open>Emptying a client\<close>

abbreviation "set_clients i cs g \<equiv> g\<lparr>qmi_devs := (qmi_devs g)(i := (qmi_devs g i)\<lparr>mClientMemList := cs\<rparr>)\<rparr>"

text \<open>Entries whose notification cannot fault: a waiting thread, or an event callback with no events.\<close>

definition harmless :: "client_mem \<Rightarrow> bool" where
  "harmless c \<longleftrightarrow> (\<forall>e \<in> set (mReadNotifyList c). nf_fun e = Some Fn_UpSem
     \<or> nf_fun e = Some Fn_QMIWDSCallback \<and> mList c = [])"

lemma pop_first_True: "pop_first (\<lambda>e. True) xs = (case xs of [] \<Rightarrow> None | x # xs \<Rightarrow> Some (x, xs))"
  by (cases xs) simp_all

lemma upd_first_twice:
  "(\<And>c. P (f c) = P c) \<Longrightarrow> upd_first P h (upd_first P f cs) = upd_first P (\<lambda>c. h (f c)) cs"
  by (induction cs) auto

lemma upd_first_same:
  assumes "find P cs = Some c" and "f c = h c"
  shows "upd_first P f cs = upd_first P h cs"
  using assms by (induction cs) (auto split: if_splits)

lemma upd_first_id: "find P cs = Some c \<Longrightarrow> f c = c \<Longrightarrow> upd_first P f cs = cs"
  by (induction cs) (auto split: if_splits)

text \<open>What the loops keep: everything but the list they empty.\<close>

definition emptied :: "u16 \<Rightarrow> nat \<Rightarrow> (client_mem \<Rightarrow> client_mem) \<Rightarrow> world \<Rightarrow> world \<Rightarrow> bool" where
  "emptied cid i f w w' \<longleftrightarrow> qmi_devs (gb w') = qmi_devs (set_client cid i f (gb w))
     \<and> mbQMIValid (gb w') = mbQMIValid (gb w) \<and> events w' = events w \<and> autopm w' = autopm w
     \<and> usb_written (gb w') = usb_written (gb w)
     \<and> worker_ready (gb w') = worker_ready (gb w) \<and> (\<forall>s. semaphores (gb w) s \<le> semaphores (gb w') s)"

lemma emptied_find:
  assumes "emptied cid i f w w'" and "\<And>c. mClientID (f c) = mClientID c"
    and "FindClientMem (gb w) cid i = Some c"
  shows "FindClientMem (gb w') cid i = Some (f c)"
proof -
  have "FindClientMem (gb w') = FindClientMem (set_client cid i f (gb w))"
    using assms(1) by (intro find_cong_devs) (simp_all add: emptied_def)
  then show ?thesis using assms(2,3) by (simp only: Find_set_client) simp
qed

lemma emptied_idle: "emptied cid i f w w' \<Longrightarrow> idle w \<Longrightarrow> idle w'"
  by (simp add: emptied_def idle_def)

lemma emptied_trans:
  assumes "emptied cid i f w w1" and "emptied cid i h w1 w2" and "\<And>c. mClientID (f c) = mClientID c"
  shows "emptied cid i (\<lambda>c. h (f c)) w w2"
proof -
  have "semaphores (gb w) s \<le> semaphores (gb w2) s" for s
    using assms(1,2) order_trans by (fastforce simp: emptied_def)
  moreover have "qmi_devs (gb w2) = qmi_devs (set_client cid i (\<lambda>c. h (f c)) (gb w))"
    using assms by (simp add: emptied_def upd_first_twice)
  ultimately show ?thesis using assms(1,2) by (simp add: emptied_def)
qed

lemma notify_all_empties:
  assumes "idle w" and "FindClientMem (gb w) cid i = Some c" and "harmless c"
  shows "\<exists>w'. notify_all cid i w = Inr w' \<and> emptied cid i (\<lambda>c. c\<lparr>mReadNotifyList := []\<rparr>) w w'
     \<and> live w' = live w
     \<and> (\<forall>e \<in> set (mReadNotifyList c). nf_fun e = Some Fn_UpSem \<longrightarrow> semaphores (gb w') (nf_data e) > 0)"
  using assms
proof (induction "mReadNotifyList c" arbitrary: w c)
  case Nil
  obtain ok w1 where 1: "pop_kmem w = (ok, w1)" by fastforce
  note f1 = pop_kmem_facts [OF 1]
  have v: "mbQMIValid (gb w)" "\<not> locked i (gb w)" using Nil(2) by (simp_all add: idle_def)
  have "NotifyAndPopNotifyList ok (gb w) cid 0 i = Inr (False, gb w)"
    using Nil(1,3) by (intro Notify_none [OF v]) (simp add: pop_first_True)
  then have "notify_all cid i w = Inr w1"
    using f1 by (subst notify_all.simps) (simp add: 1 on_gb_def)
  moreover have "upd_first (\<lambda>c. mClientID c = cid) (\<lambda>c. c\<lparr>mReadNotifyList := []\<rparr>) (clients i (gb w)) = clients i (gb w)"
    using Nil(1,3) by (intro upd_first_id [of _ _ c]) (simp_all add: FindClientMem_find split: if_splits)
  ultimately show ?case using f1 Nil(1) by (auto simp: emptied_def)
next
  case (Cons e es)
  obtain ok w1 where 1: "pop_kmem w = (ok, w1)" by fastforce
  note f1 = pop_kmem_facts [OF 1]
  have v: "mbQMIValid (gb w)" "\<not> locked i (gb w)" using Cons(3) by (simp_all add: idle_def)
  let ?g = "set_client cid i (\<lambda>c. c\<lparr>mReadNotifyList := es\<rparr>) (gb w)"
  have pop: "pop_first (notifies 0) (mReadNotifyList c) = Some (e, es)"
    by (simp add: pop_first_True flip: Cons(2))
  have fg: "FindClientMem ?g cid i = Some (c\<lparr>mReadNotifyList := es\<rparr>)"
    using Cons(4) by (simp add: Find_set_client)
  have e: "nf_fun e = Some Fn_UpSem \<or> nf_fun e = Some Fn_QMIWDSCallback \<and> mList c = []"
    using Cons(5) by (simp add: harmless_def flip: Cons(2))
  define g2 where "g2 = (if nf_fun e = Some Fn_UpSem then woken e ?g else ?g)"
  have nt: "NotifyAndPopNotifyList ok (gb w) cid 0 i = Inr (True, g2)"
    using e
  proof
    assume "nf_fun e = Some Fn_UpSem"
    then show ?thesis using Notify_up [OF v Cons(4) pop] by (simp add: g2_def woken_def)
  next
    assume q: "nf_fun e = Some Fn_QMIWDSCallback \<and> mList c = []"
    then have "QMIWDSCallback ok ?g cid (nf_data e) i = Inr ?g"
      using v fg by (intro QMIWDSCallback_idle) auto
    then show ?thesis using q Notify_run [OF v Cons(4) pop, of Fn_QMIWDSCallback ok]
      by (simp add: g2_def run_notify_def)
  qed
  let ?w2 = "w1\<lparr>gb := g2\<rparr>"
  have step: "notify_all cid i w = notify_all cid i ?w2"
    using nt f1 by (subst notify_all.simps) (simp add: 1 on_gb_def)
  have em: "emptied cid i (\<lambda>c. c\<lparr>mReadNotifyList := es\<rparr>) w ?w2"
    using f1 by (simp add: emptied_def g2_def)
  have f2: "FindClientMem (gb ?w2) cid i = Some (c\<lparr>mReadNotifyList := es\<rparr>)"
    using emptied_find [OF em _ Cons(4)] by simp
  have h2: "harmless (c\<lparr>mReadNotifyList := es\<rparr>)" using Cons(5) by (simp add: harmless_def flip: Cons(2))
  obtain w' where w': "notify_all cid i ?w2 = Inr w'" "emptied cid i (\<lambda>c. c\<lparr>mReadNotifyList := []\<rparr>) ?w2 w'"
    "live w' = live ?w2" "\<forall>e \<in> set es. nf_fun e = Some Fn_UpSem \<longrightarrow> semaphores (gb w') (nf_data e) > 0"
    using Cons(1) [OF _ emptied_idle [OF em Cons(3)] f2 h2] by auto
  have "nf_fun e = Some Fn_UpSem \<longrightarrow> semaphores (gb w') (nf_data e) > 0"
  proof
    assume "nf_fun e = Some Fn_UpSem"
    then have "semaphores (gb ?w2) (nf_data e) > 0" by (simp add: g2_def)
    then show "semaphores (gb w') (nf_data e) > 0"
      using w'(2) less_le_trans by (fastforce simp: emptied_def)
  qed
  moreover have "emptied cid i (\<lambda>c. c\<lparr>mReadNotifyList := []\<rparr>) w w'"
    using emptied_trans [OF em w'(2)] by simp
  ultimately show ?case using step w' f1 by (auto simp flip: Cons(2))
qed

lemma free_urbs_empties:
  assumes "idle w" and "FindClientMem (gb w) cid i = Some c"
  shows "\<exists>w'. free_urbs cid i w = Inr w' \<and> emptied cid i (\<lambda>c. c\<lparr>mURBList := []\<rparr>) w w'
     \<and> live w' = live w - int (length (mURBList c)) \<and> semaphores (gb w') = semaphores (gb w)"
  using assms
proof (induction "mURBList c" arbitrary: w c)
  case Nil
  have v: "mbQMIValid (gb w)" "\<not> locked i (gb w)" using Nil(2) by (simp_all add: idle_def)
  have "free_urbs cid i w = Inr w"
    using Nil(1) by (subst free_urbs.simps) (simp add: on_gb_def PopURB_ok [OF v Nil(3)] split: list.splits)
  moreover have "upd_first (\<lambda>c. mClientID c = cid) (\<lambda>c. c\<lparr>mURBList := []\<rparr>) (clients i (gb w)) = clients i (gb w)"
    using Nil(1,3) by (intro upd_first_id [of _ _ c]) (simp_all add: FindClientMem_find split: if_splits)
  ultimately show ?case using Nil(1) by (simp add: emptied_def flip: Nil(1))
next
  case (Cons u us)
  have v: "mbQMIValid (gb w)" "\<not> locked i (gb w)" using Cons(3) by (simp_all add: idle_def)
  let ?w2 = "free (upd_gb (set_client cid i (\<lambda>c. c\<lparr>mURBList := us\<rparr>)) w)"
  have step: "free_urbs cid i w = free_urbs cid i ?w2"
    by (subst free_urbs.simps) (simp add: on_gb_def PopURB_ok [OF v Cons(4)] flip: Cons(2))
  have em: "emptied cid i (\<lambda>c. c\<lparr>mURBList := us\<rparr>) w ?w2" by (simp add: emptied_def)
  have f2: "FindClientMem (gb ?w2) cid i = Some (c\<lparr>mURBList := us\<rparr>)"
    using emptied_find [OF em _ Cons(4)] by simp
  obtain w' where w': "free_urbs cid i ?w2 = Inr w'" "emptied cid i (\<lambda>c. c\<lparr>mURBList := []\<rparr>) ?w2 w'"
    "live w' = live ?w2 - int (length us)" "semaphores (gb w') = semaphores (gb ?w2)"
    using Cons(1) [OF _ emptied_idle [OF em Cons(3)] f2] by auto
  have "emptied cid i (\<lambda>c. c\<lparr>mURBList := []\<rparr>) w w'"
    using emptied_trans [OF em w'(2)] by simp
  then show ?case using step w' by (simp flip: Cons(2))
qed

lemma free_unread_empties:
  assumes "idle w" and "FindClientMem (gb w) cid i = Some c"
  shows "\<exists>w'. free_unread cid i w = Inr w' \<and> emptied cid i (\<lambda>c. c\<lparr>mList := []\<rparr>) w w'
     \<and> live w' = live w \<and> semaphores (gb w') = semaphores (gb w)"
  using assms
proof (induction "mList c" arbitrary: w c)
  case Nil
  have v: "mbQMIValid (gb w)" "\<not> locked i (gb w)" using Nil(2) by (simp_all add: idle_def)
  have "free_unread cid i w = Inr w"
    using Nil(1) by (subst free_unread.simps) (simp add: on_gb_def Pop_ok [OF v Nil(3)] flip: Nil(1))
  moreover have "upd_first (\<lambda>c. mClientID c = cid) (\<lambda>c. c\<lparr>mList := []\<rparr>) (clients i (gb w)) = clients i (gb w)"
    using Nil(1,3) by (intro upd_first_id [of _ _ c]) (simp_all add: FindClientMem_find split: if_splits)
  ultimately show ?case by (simp add: emptied_def)
next
  case (Cons u us)
  have v: "mbQMIValid (gb w)" "\<not> locked i (gb w)" using Cons(3) by (simp_all add: idle_def)
  let ?w2 = "upd_gb (set_client cid i (\<lambda>c. c\<lparr>mList := us\<rparr>)) w"
  have step: "free_unread cid i w = free_unread cid i ?w2"
    by (subst free_unread.simps) (simp add: on_gb_def Pop_ok [OF v Cons(4)] flip: Cons(2))
  have em: "emptied cid i (\<lambda>c. c\<lparr>mList := us\<rparr>) w ?w2" by (simp add: emptied_def)
  have f2: "FindClientMem (gb ?w2) cid i = Some (c\<lparr>mList := us\<rparr>)"
    using emptied_find [OF em _ Cons(4)] by simp
  obtain w' where w': "free_unread cid i ?w2 = Inr w'" "emptied cid i (\<lambda>c. c\<lparr>mList := []\<rparr>) ?w2 w'"
    "live w' = live ?w2" "semaphores (gb w') = semaphores (gb ?w2)"
    using Cons(1) [OF _ emptied_idle [OF em Cons(3)] f2] by auto
  have "emptied cid i (\<lambda>c. c\<lparr>mList := []\<rparr>) w w'"
    using emptied_trans [OF em w'(2)] by simp
  then show ?case using step w' by simp
qed

section \<open>Releasing a client id\<close>

lemma release_loop_none: "cid \<notin> set cs \<Longrightarrow> release_loop cid i cs w = Inr w"
  by (induction cs) auto

lemma pop_first_ids:
  assumes "find (\<lambda>c. mClientID c = cid) cs = Some c" and "\<And>c. mClientID (f c) = mClientID c"
  shows "\<exists>rest. pop_first (\<lambda>c. mClientID c = cid) (upd_first (\<lambda>c. mClientID c = cid) f cs) = Some (f c, rest)
     \<and> map mClientID rest = remove1 cid (map mClientID cs) \<and> set rest \<subseteq> set cs"
  using assms by (induction cs) (auto split: if_splits)

lemma release_loop_removes:
  assumes "idle w" and "FindClientMem (gb w) cid i = Some c" and "harmless c"
    and "distinct (client_ids i (gb w))"
  shows "\<exists>w'. release_loop cid i (client_ids i (gb w))
       (upd_gb (set_dev i (\<lambda>d. d\<lparr>mClientMemLock := True\<rparr>)) w) = Inr w'
     \<and> idle w' \<and> events w' = events w \<and> live w' = live w - int (length (mURBList c))
     \<and> client_ids i (gb w') = remove1 cid (client_ids i (gb w))
     \<and> (\<forall>j. j \<noteq> i \<longrightarrow> qmi_devs (gb w') j = qmi_devs (gb w) j)
     \<and> set (clients i (gb w')) \<subseteq> set (clients i (gb w)) \<and> usb_written (gb w') = usb_written (gb w)
     \<and> worker_ready (gb w') = worker_ready (gb w)
     \<and> (\<forall>e \<in> set (mReadNotifyList c). nf_fun e = Some Fn_UpSem \<longrightarrow> semaphores (gb w') (nf_data e) > 0)"
proof -
  let ?P = "\<lambda>c. mClientID c = cid"
  have v: "mbQMIValid (gb w)" "\<not> locked i (gb w)" using assms(1) by (simp_all add: idle_def)
  have "cid \<in> set (client_ids i (gb w))"
    using assms(2) by (auto simp: FindClientMem_find find_Some_iff split: if_splits)
  then obtain as bs where ids: "client_ids i (gb w) = as @ cid # bs" "cid \<notin> set as" "cid \<notin> set bs"
    using assms(4) by (metis distinct.simps(2) distinct_append split_list_first)
  have skip: "release_loop cid i (as @ xs) u = release_loop cid i xs u" for u xs
    using ids(2) by (induction as) auto
  obtain w1 where w1: "notify_all cid i w = Inr w1" "emptied cid i (\<lambda>c. c\<lparr>mReadNotifyList := []\<rparr>) w w1"
    "live w1 = live w"
    "\<forall>e \<in> set (mReadNotifyList c). nf_fun e = Some Fn_UpSem \<longrightarrow> semaphores (gb w1) (nf_data e) > 0"
    using notify_all_empties [OF assms(1-3)] by blast
  have i1: "idle w1" "FindClientMem (gb w1) cid i = Some (c\<lparr>mReadNotifyList := []\<rparr>)"
    using emptied_idle [OF w1(2) assms(1)] emptied_find [OF w1(2) _ assms(2)] by simp_all
  obtain w2 where w2: "free_urbs cid i w1 = Inr w2" "emptied cid i (\<lambda>c. c\<lparr>mURBList := []\<rparr>) w1 w2"
    "live w2 = live w1 - int (length (mURBList c))" "semaphores (gb w2) = semaphores (gb w1)"
    using free_urbs_empties [OF i1] by auto
  have i2: "idle w2" "FindClientMem (gb w2) cid i = Some (c\<lparr>mReadNotifyList := [], mURBList := []\<rparr>)"
    using emptied_idle [OF w2(2) i1(1)] emptied_find [OF w2(2) _ i1(2)] by simp_all
  obtain w3 where w3: "free_unread cid i w2 = Inr w3" "emptied cid i (\<lambda>c. c\<lparr>mList := []\<rparr>) w2 w3"
    "live w3 = live w2" "semaphores (gb w3) = semaphores (gb w2)"
    using free_unread_empties [OF i2] by auto
  define f where "f = (\<lambda>c :: client_mem. c\<lparr>mReadNotifyList := [], mURBList := [], mList := [] :: read_mem list\<rparr>)"
  have em: "emptied cid i f w w3"
    using emptied_trans [OF emptied_trans [OF w1(2) w2(2)] w3(2)] by (simp add: f_def)
  have i3: "idle w3" by (rule emptied_idle [OF em assms(1)])
  obtain rest where rest: "pop_first ?P (upd_first ?P f (clients i (gb w))) = Some (f c, rest)"
    "map mClientID rest = remove1 cid (client_ids i (gb w))" "set rest \<subseteq> set (clients i (gb w))"
    using pop_first_ids [of cid "clients i (gb w)" c f] assms(2)
    by (auto simp: f_def FindClientMem_find split: if_splits)
  have l3: "\<not> locked i (gb w3)" "clients i (gb w3) = upd_first ?P f (clients i (gb w))"
    using i3 v(2) em by (simp_all add: idle_def emptied_def)
  define w' where "w' = w3\<lparr>gb := set_clients i rest (gb w3)\<rparr>"
  have lockd: "spin_unlock i (gb (upd_gb (set_dev i (\<lambda>d. d\<lparr>mClientMemLock := True\<rparr>)) w)) = Inr (gb w)"
    using v by (simp add: spin_unlock_def lock_update_idle)
  have run: "release_loop cid i (client_ids i (gb w))
       (upd_gb (set_dev i (\<lambda>d. d\<lparr>mClientMemLock := True\<rparr>)) w) = Inr w'"
    unfolding ids(1) skip using lockd w1(1) w2(1) w3(1) l3 rest(1) release_loop_none [OF ids(3)]
    by (simp add: spin_lock_def spin_unlock_def lock_update_idle w'_def Let_def)
  have "idle w'" using i3 by (simp add: w'_def idle_def)
  moreover have "events w' = events w" "\<forall>j. j \<noteq> i \<longrightarrow> qmi_devs (gb w') j = qmi_devs (gb w) j"
    using em by (simp_all add: w'_def emptied_def)
  moreover have "set (clients i (gb w')) \<subseteq> set (clients i (gb w))" "usb_written (gb w') = usb_written (gb w)"
    "worker_ready (gb w') = worker_ready (gb w)"
    using em rest(3) by (simp_all add: w'_def emptied_def)
  moreover have "live w' = live w - int (length (mURBList c))"
    using w1(3) w2(3) w3(3) by (simp add: w'_def)
  moreover have "client_ids i (gb w') = remove1 cid (client_ids i (gb w))"
    using rest(2) by (simp add: w'_def)
  moreover have "\<forall>e \<in> set (mReadNotifyList c). nf_fun e = Some Fn_UpSem \<longrightarrow> semaphores (gb w') (nf_data e) > 0"
    using w1(4) w2(4) w3(4) by (simp add: w'_def)
  ultimately show ?thesis using run by (intro exI [of _ w']) blast
qed

lemma ReleaseClientIDResp_returns:
  assumes "well_formed_response 2 hdr sdu tlvs"
  shows "\<exists>r. QMICTLReleaseClientIDResp (Some (response hdr sdu m tlvs)) (response_size 2 tlvs) = Inr r"
proof -
  define len where "len = response_size 2 tlvs - word_of_nat (sizeof_sQMUX + 2)"
  note b = response_body [OF assms(1), folded len_def]
  have l: "unat len = length (qmi_msg m tlvs)" using b(2) [of m] .
  have b1: "skip (sizeof_sQMUX + 2) (Some (response hdr sdu m tlvs)) = Some (qmi_msg m tlvs @ [])"
    using b(1) [of m "[]"] by (simp only: append_Nil2)
  show ?thesis
    unfolding QMICTLReleaseClientIDResp_def Let_def len_def [symmetric] b1
    using b(4) by (simp add: ValidQMIMessage_result [OF b(3) l] GetQMIMessageID_msg [OF l] del: append_Nil2)
qed

text \<open>The exchange with the control service, whatever it answers.\<close>

lemma release_exchange_done:
  assumes "ctl_ready w c0" and "next_ctl_tid (gb w) = (tid, g1)"
    and "\<forall>f \<in> set tlvs. tlv_valid f" and "length (enc_tlvs tlvs) < 65000"
    and "events w = Transfer 0 (message_for QMICTL (ctl_answer tid m tlvs))
           (length (ctl_answer tid m tlvs) + 6) # es"
  shows "\<exists>w'. release_exchange dt s cid w = Inr w' \<and> running w' \<and> events w' = es \<and> live w' = live w
     \<and> (\<forall>j. client_ids j (gb w') = client_ids j (gb w))
     \<and> (\<forall>cid j. (cid, j) \<noteq> (QMICTL, 0) \<longrightarrow> FindClientMem (gb w') cid j = FindClientMem (gb w) cid j)
     \<and> usb_written (gb w') = usb_written (gb w)
         @ [qmux_bytes 16 0 QMICTL @ req_bytes (Ctl tid 0x23 [(0x01, le16 cid)])]"
proof -
  let ?body = "ctl_answer tid m tlvs"
  note a = ctl_answer_ok [OF assms(3,4), of tid m]
  have v: "kmem w = []" using assms(1) by (simp add: ctl_ready_def running_def)
  obtain t where g1: "g1 = (gb w)\<lparr>mQMICTLTransactionID := t\<rparr>"
    using next_ctl_tid_keeps [OF assms(2)] by blast
  define w1 where "w1 = w\<lparr>live := live w + 1, gb := g1\<rparr>"
  have w1: "ctl_ready w1 c0" "events w1 = Transfer 0 (message_for QMICTL ?body) (length ?body + 6) # es"
    using assms(1,5) by (simp_all add: w1_def g1 ctl_ready_def running_def idle_def registered_def)
  have sz: "unat QMICTLReleaseClientIDReqSize = 17" by (simp add: req_sizes)
  obtain b where b: "QMICTLReleaseClientIDReq (Some (replicate 17 0)) QMICTLReleaseClientIDReqSize tid cid
      = Inr (17, Some b)" "holds_request (Ctl tid 0x23 [(0x01, le16 cid)]) (replicate 17 0) b"
    using QMICTLReleaseClientIDReq_msg [of QMICTLReleaseClientIDReqSize "replicate 17 0" tid cid] sz by auto
  have bl: "length b = 17" "drop 6 b = req_bytes (Ctl tid 0x23 [(0x01, le16 cid)])"
    using b(2) by (simp_all add: holds_request_def req_bytes_eval)
  obtain w2 w3 where x: "WriteSync (Some b) 17 QMICTL 0 w1 = Inr (17, w2)"
    "ReadSyncTimeout dt s QMICTL (ucast tid) 0 (free w2)
      = Inr (int (length ?body + 6), Some (message_for QMICTL ?body), w3)"
    "events w3 = es" "running w3" "live w3 = live w" "\<forall>j. client_ids j (gb w3) = client_ids j (gb w)"
    "\<forall>cid j. (cid, j) \<noteq> (QMICTL, 0) \<longrightarrow> FindClientMem (gb w3) cid j = FindClientMem (gb w) cid j"
    "usb_written (gb w3) = usb_written (gb w) @ [qmux_bytes 16 0 QMICTL @ drop 6 b]"
    using ctl_exchange [OF w1(1), of 17 b ?body es "ucast tid" dt s] bl(1) a(1,2) w1(2)
    by (auto simp: w1_def g1)
  obtain r where rs: "QMICTLReleaseClientIDResp (Some (message_for QMICTL ?body))
      (word_of_int (int (length ?body + 6))) = Inr r"
    unfolding a(3,5) using ReleaseClientIDResp_returns [OF a(4)] by blast
  have "release_exchange dt s cid w = Inr w3"
    unfolding release_exchange_def Let_def alloc_def pop_kmem_def v
    using b(1) x(1,2) rs assms(2) by (simp add: sz w1_def)
  then show ?thesis using x bl(2) by auto
qed


lemma release_example:
  "next_ctl_tid gobi_example = (1, gobi_example\<lparr>mQMICTLTransactionID := 1\<rparr>)"
  "length (ctl_answer 1 0x23 [(2, [0, 0, 0, 0])]) = 13"
  "harmless (client_example 0x101)"
  by (simp_all add: next_ctl_tid_def ctl_answer_def length_qmi_msg harmless_def)
    (simp_all add: gobi_example_def dev_example_def client_example_def)


text \<open>
  Releasing an id that is not on the list breaks the device: ReleaseClientID gives the lock back
  only where it finds the client, so that it returns with mClientMemLock held and the next
  operation on any client of the device deadlocks.
\<close>

theorem ReleaseClientID_unknown_keeps_lock:
  assumes "ctl_ready w c0" and "next_ctl_tid (gb w) = (tid, g1)"
    and "\<forall>f \<in> set tlvs. tlv_valid f" and "length (enc_tlvs tlvs) < 65000"
    and "events w = Transfer 0 (message_for QMICTL (ctl_answer tid m tlvs))
           (length (ctl_answer tid m tlvs) + 6) # es"
    and "cid \<notin> set (client_ids i (gb w))"
  shows "\<exists>w'. ReleaseClientID dt s cid i w = Inr w' \<and> locked i (gb w')
     \<and> PopFromReadMemList (gb w') cid' tid' i = Inl Deadlock"
proof -
  have v: "valid w" using assms(1) by (simp add: ctl_ready_def running_def idle_def)
  have "\<exists>w1. (if cid \<noteq> QMICTL then release_exchange dt s cid w else Inr w) = Inr w1 \<and> idle w1
      \<and> cid \<notin> set (client_ids i (gb w1))"
  proof (cases "cid = QMICTL")
    case True
    then show ?thesis using assms(1,6) by (simp add: ctl_ready_def running_def)
  next
    case False
    obtain w1 where 1: "release_exchange dt s cid w = Inr w1" "running w1"
      and ids: "client_ids i (gb w1) = client_ids i (gb w)"
      using release_exchange_done [OF assms(1-5), of dt s cid] by blast
    from 1 False assms(6) show ?thesis unfolding ids [symmetric] running_def by auto
  qed
  then obtain w1 where w1: "(if cid \<noteq> QMICTL then release_exchange dt s cid w else Inr w) = Inr w1"
    "idle w1" "cid \<notin> set (client_ids i (gb w1))" by blast
  let ?w = "upd_gb (set_dev i (\<lambda>d. d\<lparr>mClientMemLock := True\<rparr>)) w1"
  have "ReleaseClientID dt s cid i w = Inr ?w"
    using v w1 release_loop_none [OF w1(3)]
    by (simp add: ReleaseClientID_def spin_lock_def idle_def)
  moreover have "PopFromReadMemList (gb ?w) cid' tid' i = Inl Deadlock"
    using w1(2) by (intro pop_read.held) (simp_all add: idle_def)
  ultimately show ?thesis by (intro exI [of _ ?w]) simp
qed

theorem ReleaseClientID_unknown_keeps_lock_witness:
  "\<exists>w'. ReleaseClientID True 5 0x777 0 (world_example [Transfer 0 (message_for QMICTL
       (ctl_answer 1 0x23 [(2, [0, 0, 0, 0])])) 19]) = Inr w' \<and> locked 0 (gb w')"
proof -
  have "0x777 \<notin> set (client_ids 0 gobi_example)" by (simp del: list.set_map)
  then show ?thesis
    using ReleaseClientID_unknown_keeps_lock [of "world_example [Transfer 0 (message_for QMICTL
       (ctl_answer 1 0x23 [(2, [0, 0, 0, 0])])) 19]" "client_example 0" 1
      "gobi_example\<lparr>mQMICTLTransactionID := 1\<rparr>" "[(2, [0, 0, 0, 0])]" "0x23" "[]" "0x777" 0 True 5]
      release_example(1,2)
    by (auto simp del: list.set_map)
qed

end
