(* ===== verification/Session.thy ===== *)
theory Session
  imports ClientIds
begin

text \<open>
  The conversations of the driver with the modem, from \<^verbatim>\<open>qmidevice.c\<close> and \<^verbatim>\<open>qmi.c\<close>: waiting for
  the modem (\<open>QMIReady\<close>), negotiating QMAP (\<open>ConfigureQMAP\<close>), registering for events
  (\<open>SetupQMIWDSCallback\<close>), reading the serial number (\<open>QMIDMSGetMEID\<close>), the data call
  (\<open>WDSConnect\<close>, \<open>WDSDisConnect\<close>), and the worker thread \<open>GobiWaitForResponses\<close> that starts
  the session and then handles the queued indications.

  \<open>s\<close> is the address of the semaphore a read waits on. Buffers a caller fills completely are
  taken fresh. \<open>os_env\<close> holds the answers of the user-mode helper and what the
  uninitialised locals of the handlers contain.
\<close>

unbundle bit_operations_syntax

section \<open>One request\<close>

abbreviation (input) "QMIDMS \<equiv> (2 :: u8)"
abbreviation (input) "QMIWDA \<equiv> (0x1A :: u8)"

text \<open>\<open>GetTransactionID\<close> of a device of the world.\<close>

definition take_tid :: "nat \<Rightarrow> world \<Rightarrow> u16 \<times> world" where
  "take_tid i w = (let (tid, d) = GetTransactionID (qmi_devs (gb w) i)
                   in (tid, upd_gb (set_dev i (\<lambda>_. d)) w))"

text \<open>
  The block every request consists of: allocate, build with a fresh transaction id of the device
  \<open>it\<close>, write for the client on device \<open>i\<close>, free.
\<close>

definition send_request ::
  "int \<Rightarrow> (u16 \<Rightarrow> world \<Rightarrow> ptr \<Rightarrow> fault + (int \<times> ptr)) \<Rightarrow> nat \<Rightarrow> u16 \<Rightarrow> nat \<Rightarrow> world
   \<Rightarrow> fault + (int \<times> world)" where
  "send_request writeBufferSize build it clientID i w =
     (let (ok, w) = alloc w in
      if \<not> ok then Inr (- ENOMEM, w) else
      let (tid, w) = take_tid it w in
      bnd (build tid w (Some (replicate (nat writeBufferSize) 0))) (\<lambda>(result, pWriteBuffer).
      if result < 0 then Inr (result, free w) else
      bnd (WriteSync pWriteBuffer writeBufferSize clientID i w) (\<lambda>(result, w).
      Inr (result, free w))))"

text \<open>A request and the wait for its response on the current transaction id of device \<open>it\<close>.\<close>

definition exchange_timeout ::
  "bool \<Rightarrow> nat \<Rightarrow> int \<Rightarrow> (u16 \<Rightarrow> world \<Rightarrow> ptr \<Rightarrow> fault + (int \<times> ptr)) \<Rightarrow> nat \<Rightarrow> u16 \<Rightarrow> nat \<Rightarrow> world
   \<Rightarrow> fault + (int \<times> ptr \<times> world)" where
  "exchange_timeout dt s writeBufferSize build it clientID i w =
     bnd (send_request writeBufferSize build it clientID i w) (\<lambda>(result, w).
     if result < 0 then Inr (result, None, w)
     else ReadSyncTimeout dt s clientID (mQMITransactionID (qmi_devs (gb w) it)) i w)"

definition exchange_sync ::
  "nat \<Rightarrow> int \<Rightarrow> (u16 \<Rightarrow> world \<Rightarrow> ptr \<Rightarrow> fault + (int \<times> ptr)) \<Rightarrow> u16 \<Rightarrow> nat \<Rightarrow> world
   \<Rightarrow> fault + (int \<times> ptr \<times> world)" where
  "exchange_sync s writeBufferSize build clientID i w =
     bnd (send_request writeBufferSize build i clientID i w) (\<lambda>(result, w).
     if result < 0 then Inr (result, None, w)
     else ReadSync s clientID (mQMITransactionID (qmi_devs (gb w) i)) i w)"

section \<open>QMAP negotiation\<close>

definition data_format_of :: "gobi \<Rightarrow> data_format" where
  "data_format_of g = \<lparr>df_DLAggregationMaxDatagram = al_DLDatagram (agg g),
     df_DLAggregationMaxSize = al_DLDatagramSize (agg g), df_mIntfNum = ucast (mIntfNum g),
     df_ULAggregationMaxDatagram = al_ULDatagram (agg g), df_ULAggregationMaxSize = al_ULDatagramSize (agg g)\<rparr>"

definition QMIWDASetQMAP :: "bool \<Rightarrow> nat \<Rightarrow> u16 \<Rightarrow> nat \<Rightarrow> world \<Rightarrow> fault + (int \<times> world)" where
  "QMIWDASetQMAP dt s WDAClientID i w =
     (if \<not> valid w then Inr (- EFAULT, w) else
      bnd (exchange_timeout dt s (int (unat QMIWDASetDataFormatReqSize))
             (\<lambda>tid w b. QMIWDASetDataFormatReq b QMIWDASetDataFormatReqSize tid (data_format_of (gb w)))
             i WDAClientID i w) (\<lambda>(result, pReadBuffer, w).
      if result < 0 then Inr (result, w) else
      bnd (QMIWDASetDataFormatResp pReadBuffer (word_of_int result) (agg (gb w))) (\<lambda>(result, al).
      let w = upd_gb (\<lambda>g. g\<lparr>agg := al\<rparr>) w in
      if result < 0 then Inr (result, w) else Inr (0, w))))"

definition QMIWDASetQMAPSettings :: "bool \<Rightarrow> nat \<Rightarrow> u16 \<Rightarrow> nat \<Rightarrow> world \<Rightarrow> fault + (int \<times> world)" where
  "QMIWDASetQMAPSettings dt s WDAClientID i w =
     (if \<not> valid w then Inr (- EFAULT, w) else
      bnd (exchange_timeout dt s (int (unat QMIWDASetDataFormatReqSettingsSize))
             (\<lambda>tid w b. QMIWDASetDataFormatReqSettings b QMIWDASetDataFormatReqSettingsSize tid)
             i WDAClientID i w) (\<lambda>(result, pReadBuffer, w).
      if result < 0 then Inr (result, w) else Inr (0, w)))"

text \<open>\<open>result\<close> is a \<open>u16\<close> here: no error code is negative any more.\<close>

definition ConfigureQMAP :: "bool \<Rightarrow> nat \<Rightarrow> world \<Rightarrow> fault + (int \<times> world)" where
  "ConfigureQMAP dt s w =
     (if \<not> valid w then Inr (- EFAULT, w) else
      bnd (GetClientID dt s QMIWDA 0 w) (\<lambda>(r, w).
      let result = word_of_int r :: u16 in
      if int (unat result) < 0 then Inr (int (unat result), w) else
      let WDAClientID = result in
      bnd (QMIWDASetQMAP dt s WDAClientID 0 w) (\<lambda>(r, w).
      let result = word_of_int r :: u16 in
      if result \<noteq> 0 then Inr (int (unat result), w) else
      bnd (QMIWDASetQMAPSettings dt s WDAClientID 0 w) (\<lambda>(r, w).
      let result = word_of_int r :: u16 in
      if result \<noteq> 0 then Inr (int (unat result), w) else Inr (0, w)))))"

section \<open>Events and serial number\<close>

definition SetupQMIWDSCallback :: "bool \<Rightarrow> nat \<Rightarrow> nat \<Rightarrow> world \<Rightarrow> fault + (int \<times> world)" where
  "SetupQMIWDSCallback dt s i w =
     (if \<not> valid w then Inr (- EFAULT, w) else
      bnd (GetClientID dt s QMIWDS i w) (\<lambda>(result, w).
      if result < 0 then Inr (result, w) else
      let WDSClientID = word_of_int result :: u16 in
      bnd (send_request (int (unat QMIWDSSetEventReportReqSize))
             (\<lambda>tid w b. QMIWDSSetEventReportReq b QMIWDSSetEventReportReqSize tid) i WDSClientID i w)
        (\<lambda>(result, w).
      if result < 0 then Inr (result, w) else
      bnd (send_request (int (unat QMIWDSGetPKGSRVCStatusReqSize))
             (\<lambda>tid w b. QMIWDSGetPKGSRVCStatusReq b QMIWDSGetPKGSRVCStatusReqSize tid) i WDSClientID i w)
        (\<lambda>(result, w).
      if result < 0 then Inr (result, w) else
      let (ok, w) = pop_kmem w in
      bnd (on_gb (\<lambda>g. ReadAsync ok g WDSClientID 0 (Some Fn_QMIWDSCallback)
             (\<lambda>g. QMIWDSCallback ok g WDSClientID 0 i) 0 i) w) (\<lambda>(result, w).
      if result \<noteq> 0 then Inr (result, w) else
      let (result, w) = pop_usb w in
      if result < 0 then Inr (result, w) else Inr (0, w))))))"

definition QMIDMSGetMEID :: "bool \<Rightarrow> nat \<Rightarrow> nat \<Rightarrow> world \<Rightarrow> fault + (int \<times> world)" where
  "QMIDMSGetMEID dt s i w =
     (if \<not> valid w then Inr (- ENXIO, w) else
      bnd (GetClientID dt s QMIDMS 0 w) (\<lambda>(result, w).
      if result < 0 then Inr (result, w) else
      let DMSClientID = word_of_int result :: u16 in
      bnd (exchange_timeout dt s (int (unat QMIDMSGetMEIDReqSize))
             (\<lambda>tid w b. QMIDMSGetMEIDReq b QMIDMSGetMEIDReqSize tid) i DMSClientID 0 w)
        (\<lambda>(result, pReadBuffer, w).
      if result < 0 then Inr (result, w) else
      bnd (QMIDMSGetMEIDResp pReadBuffer (word_of_int result) (mMEID (gb w)) 14) (\<lambda>(result, meid).
      let meid = (if result < 0 then replicate 14 0x30 @ drop 14 meid else meid);
          w = upd_gb (\<lambda>g. g\<lparr>mMEID := meid\<rparr>) w in
      bnd (ReleaseClientID dt s DMSClientID 0 w) (\<lambda>w. Inr (0, w))))))"

section \<open>Waiting for the modem\<close>

text \<open>
  The inner loop after a response: \<open>Some True\<close> leaves for the end of the function, \<open>Some False\<close>
  returns false, \<open>None\<close> runs on. \<open>None\<close> of the option monad: the loop does not end.
\<close>

partial_function (option) ready_poll ::
  "u32 \<Rightarrow> u16 \<Rightarrow> u32 \<Rightarrow> world \<Rightarrow> (fault + (bool option \<times> u32 \<times> world)) option" where
  "ready_poll i tid curTime w =
     (if \<not> curTime \<le> i + 3000 then Some (Inr (None, curTime, w))
      else if \<not> valid w then Some (Inr (Some False, curTime, free w))
      else (case msleep w of
              Inl f \<Rightarrow> Some (Inl f)
            | Inr w \<Rightarrow>
                if \<not> valid w then Some (Inr (Some False, curTime, free w))
                else (case on_gb (\<lambda>g. PopFromReadMemList g QMICTL tid 0) w of
                        Inl f \<Rightarrow> Some (Inl f)
                      | Inr (popped, w) \<Rightarrow>
                          if popped \<noteq> None then Some (Inr (Some True, curTime, w))
                          else ready_poll i tid (curTime + 500) w)))"

text \<open>
  One round up to the sleep: \<open>None\<close> when the function returns false. The buffer is leaked when
  the device or the client is gone.
\<close>

definition ready_send :: "nat \<Rightarrow> world \<Rightarrow> fault + (u16 option \<times> world)" where
  "ready_send readSem w =
     (if \<not> valid w then Inr (None, w) else
      let w = sema_init readSem w;
          (transactionID, g) = next_ctl_tid (gb w); w = w\<lparr>gb := g\<rparr>;
          (ok, w) = pop_kmem w in
      bnd (on_gb (\<lambda>g. ReadAsync ok g QMICTL (ucast transactionID) (Some Fn_UpSem)
             (\<lambda>g. UpSem g QMICTL readSem 0) readSem 0) w) (\<lambda>(result, w).
      if result \<noteq> 0 then Inr (None, w) else
      bnd (QMICTLReadyReq (Some (replicate (unat QMICTLReadyReqSize) 0)) QMICTLReadyReqSize transactionID)
        (\<lambda>(result, pWriteBuffer).
      if result < 0 then Inr (None, free w) else
      bnd (WriteSync pWriteBuffer (int (unat QMICTLReadyReqSize)) QMICTL 0 w) (\<lambda>(_, w).
      bnd (msleep w) (\<lambda>w.
      Inr (Some (ucast transactionID), w))))))"

partial_function (option) ready_loop ::
  "nat \<Rightarrow> u32 \<Rightarrow> u32 \<Rightarrow> world \<Rightarrow> (fault + (bool \<times> world)) option" where
  "ready_loop readSem timeout curTime w =
     (if \<not> curTime < timeout then Some (Inr (False, free w))
      else (case ready_send readSem w of
              Inl f \<Rightarrow> Some (Inl f)
            | Inr (None, w) \<Rightarrow> Some (Inr (False, w))
            | Inr (Some tid, w) \<Rightarrow>
                if semaphores (gb w) readSem > 0 then
                  Option.bind (ready_poll curTime tid curTime (take_sem readSem w)) (\<lambda>r.
                  case r of
                    Inl f \<Rightarrow> Some (Inl f)
                  | Inr (Some True, _, w) \<Rightarrow>
                      Some (Inr (True, upd_gb (\<lambda>g. g\<lparr>mbQMIReadyStatus := True\<rparr>) (free w)))
                  | Inr (Some False, _, w) \<Rightarrow> Some (Inr (False, w))
                  | Inr (None, t, w) \<Rightarrow> ready_loop readSem timeout (t + 500) w)
                else
                  (case pop_kmem w of (ok, w) \<Rightarrow>
                   case on_gb (\<lambda>g. NotifyAndPopNotifyList ok g QMICTL tid 0) w of
                     Inl f \<Rightarrow> Some (Inl f)
                   | Inr (_, w) \<Rightarrow> ready_loop readSem timeout (curTime + 500) w)))"

definition QMIReady :: "nat \<Rightarrow> u32 \<Rightarrow> world \<Rightarrow> fault + (bool \<times> world)" where
  "QMIReady readSem timeout w =
     (if \<not> valid w then Inr (False, w) else
      let (ok, w) = alloc w in
      if \<not> ok then Inr (False, w)
      else case ready_loop readSem timeout 0 w of None \<Rightarrow> Inl Diverges | Some r \<Rightarrow> r)"

section \<open>Indication handlers\<close>

record os_env =
  umh :: "string \<Rightarrow> int"
  addr0 :: u32
  ipv60 :: bytes
  mtu0 :: u32
  status0 :: bytes

definition WDSGetRuntimeSettings :: "nat \<Rightarrow> u16 \<Rightarrow> world \<Rightarrow> fault + (int \<times> world)" where
  "WDSGetRuntimeSettings i clientID w =
     bnd (send_request (int (unat QMIWDSGetRuntimeSettingsReqSize))
            (\<lambda>tid w b. QMIWDSGetRuntimeSettingsReq b QMIWDSGetRuntimeSettingsReqSize tid) i clientID i w)
       (\<lambda>(result, w). Inr (if result < 0 then result else 0, w))"

abbreviation (input) "WDS_CONNECTION_STATUS_DISCONNECTED \<equiv> (1 :: u8)"
abbreviation (input) "WDS_CONNECTION_STATUS_CONNECTED \<equiv> (2 :: u8)"

abbreviation "set_up d net up ns \<equiv> ns\<lparr>ns_dev := (ns_dev ns)(d := Some (net\<lparr>nd_up := up\<rparr>))\<rparr>"

definition QMIWDSGetPktSrvcStatusInd ::
  "os_env \<Rightarrow> bytes \<Rightarrow> u16 \<Rightarrow> nat \<Rightarrow> u16 \<Rightarrow> world \<Rightarrow> net_state \<Rightarrow> fault + (int \<times> world \<times> net_state)" where
  "QMIWDSGetPktSrvcStatusInd os pBuffer buffSize i clientID w ns =
     (if \<not> valid w then Inr (- ENXIO, w, ns) else
      let offset = sizeof_sQMUX + 3;
          msg = skip offset (Some pBuffer); len = buffSize - word_of_nat offset in
      bnd (GetQMIMessageID msg len) (\<lambda>result.
      if result \<noteq> 0x22 then Inr (- EFAULT, w, ns) else
      bnd (get_tlv_bytes msg len 0x01 (status0 os) 2) (\<lambda>(result, Status).
      if result > 0 then
        (case mux_netdev (MuxId (qd_cfg (qmi_devs (gb w) i))) of
           None \<Rightarrow> Inr (- EFAULT, w, ns)
         | Some d \<Rightarrow>
             bnd (deref (ns_dev ns d)) (\<lambda>net.
             if Status ! 0 = WDS_CONNECTION_STATUS_CONNECTED then
               if \<not> nd_up net then
                 bnd (WDSGetRuntimeSettings i clientID w) (\<lambda>(_, w).
                 Inr (0, w, set_up d net True ns))
               else Inr (0, w, ns)
             else if Status ! 0 = WDS_CONNECTION_STATUS_DISCONNECTED then
               bnd (QMI_IP_Down (umh os) (nd_name net) ns) (\<lambda>(_, ns).
               Inr (0, w, if nd_up net then set_up d net False ns else ns))
             else Inr (0, w, ns)))
      else Inr (0, w, ns))))"

definition QMIWDSExtendedIPConfigInd ::
  "os_env \<Rightarrow> bytes \<Rightarrow> u16 \<Rightarrow> nat \<Rightarrow> u16 \<Rightarrow> world \<Rightarrow> fault + (int \<times> world)" where
  "QMIWDSExtendedIPConfigInd os pBuffer buffSize i clientID w =
     (let offset = sizeof_sQMUX + 3;
          msg = skip offset (Some pBuffer); len = buffSize - word_of_nat offset in
      bnd (GetQMIMessageID msg len) (\<lambda>result.
      if result \<noteq> 0x8C then Inr (- EFAULT, w) else
      bnd (get_tlv_u32 msg len 0x10 (addr0 os)) (\<lambda>(result, status).
      if result > 0 \<and> status AND 0x00002000 \<noteq> 0 then
        bnd (WDSGetRuntimeSettings i clientID w) (\<lambda>(_, w). Inr (0, w))
      else Inr (0, w))))"

section \<open>The worker thread\<close>

definition handle_indication ::
  "os_env \<Rightarrow> ind_data \<Rightarrow> world \<Rightarrow> net_state \<Rightarrow> fault + (world \<times> net_state)" where
  "handle_indication os ind w ns =
     (let i = ind_QMIDev ind; d = ind_Data ind; n = ind_DataLen ind in
      if ind_MsgId ind = QMI_WDS_PKT_SRVC_STATUS_IND then
        bnd (QMIWDSGetPktSrvcStatusInd os d n i (ind_ClientId ind) w ns) (\<lambda>(_, w, ns). Inr (w, ns))
      else if ind_MsgId ind = QMI_WDS_EXTENDED_IP_CONFIG_IND then
        bnd (QMIWDSExtendedIPConfigInd os d n i (ind_ClientId ind) w) (\<lambda>(_, w). Inr (w, ns))
      else if ind_MsgId ind = QMI_WDS_REVERSE_IP_TRANSPORT_CONNECTION_IND then
        bnd (QMIWDSReverseIPTransportConnInd (mtu0 os) (Some d) n (MuxId (qd_cfg (qmi_devs (gb w) i))) ns)
          (\<lambda>(_, ns). Inr (w, ns))
      else if ind_MsgId ind = QMI_WDS_GET_RUNTIME_SETTINGS_RESP then
        bnd (QMIWDSGetRuntimeSettingsResp (umh os) (addr0 os) (ipv60 os) (mtu0 os) (Some d) n
               (qd_cfg (qmi_devs (gb w) i)) ns) (\<lambda>(_, cfg, ns).
        Inr (upd_gb (set_dev i (\<lambda>d. d\<lparr>qd_cfg := cfg\<rparr>)) w, ns))
      else Inr (w, ns))"

text \<open>One turn of the loop after the semaphore was taken: the value to return, or go on.\<close>

definition worker_turn ::
  "os_env \<Rightarrow> world \<Rightarrow> net_state \<Rightarrow> fault + (int option \<times> world \<times> net_state)" where
  "worker_turn os w ns =
     (if \<not> valid w then Inr (Some (- ENXIO), w, ns)
      else (case mpIndDataInfoList (gb w) of
              [] \<Rightarrow> Inr (None, w, ns)
            | ind # rest \<Rightarrow>
                bnd (handle_indication os ind (upd_gb (\<lambda>g. g\<lparr>mpIndDataInfoList := rest\<rparr>) w) ns)
                  (\<lambda>(w, ns). Inr (None, w, ns))))"

text \<open>The loop as long as the semaphore is up; then the thread waits.\<close>

function worker_loop ::
  "nat \<Rightarrow> os_env \<Rightarrow> world \<Rightarrow> net_state \<Rightarrow> fault + (int option \<times> world \<times> net_state)" where
  "worker_loop fuel os w ns =
     (if fuel = 0 \<or> responseReadSem (gb w) = 0 then Inr (None, w, ns)
      else
        let w = upd_gb (\<lambda>g. g\<lparr>responseReadSem := responseReadSem g - 1\<rparr>) w in
        bnd (worker_turn os w ns) (\<lambda>(ret, w, ns).
        if ret \<noteq> None then Inr (ret, w, ns) else worker_loop (fuel - 1) os w ns))"
  by pat_completeness auto
termination
  by (relation "measure (\<lambda>(fuel, os, w, ns). fuel)") auto

declare worker_loop.simps [simp del]

text \<open>The start of the thread: 0 when the session is up, else the value the thread ends with.\<close>

definition worker_start :: "bool \<Rightarrow> nat \<Rightarrow> world \<Rightarrow> fault + (int \<times> world)" where
  "worker_start dt s w =
     (let w = upd_gb (\<lambda>g. g\<lparr>worker_ready := True, responseReadSem := 0\<rparr>) w in
      if mbQMIReadyStatus (gb w) then Inr (0, w) else
      bnd (QMIReady s 120000 w) (\<lambda>(ready, w).
      if \<not> ready then Inr (- 110, w) else
      let w = upd_gb (\<lambda>g. g\<lparr>mbQMIReadyStatus := True\<rparr>) w in
      bnd (ConfigureQMAP dt s w) (\<lambda>(retval, w).
      if retval \<noteq> 0 then Inr (retval, w) else
      bnd (SetupQMIWDSCallback dt s 0 w) (\<lambda>(retval, w).
      if retval \<noteq> 0 then Inr (retval, w) else
      QMIDMSGetMEID dt s 0 w))))"

section \<open>The data call\<close>

text \<open>
  The four requests of one address family (binding the MUX port, the family, starting the network,
  the settings): the result of the last step that can fail, the buffer of the response and the
  connection id \<open>conn\<close> that is read from it.
\<close>

definition connect_family ::
  "os_env \<Rightarrow> nat \<Rightarrow> u8 \<Rightarrow> u8 \<Rightarrow> u16 \<Rightarrow> bytes \<Rightarrow> u32 \<Rightarrow> nat \<Rightarrow> world \<Rightarrow> net_state
   \<Rightarrow> fault + (int \<times> bytes \<times> u32 \<times> world \<times> net_state)" where
  "connect_family os s ipType profileid cid res_wds conn i w ns =
     (let bindSize = int (sizeof_sQMUX + 29); prefSize = int (sizeof_sQMUX + 11) in
      bnd (exchange_sync s bindSize (\<lambda>tid w b. QMIWDSBindMuxPortReq b (word_of_int bindSize) tid
             (ucast (mIntfNum (gb w))) (MuxId (qd_cfg (qmi_devs (gb w) i)))) cid i w) (\<lambda>(result, _, w).
      if result < 0 then Inr (result, res_wds, conn, w, ns) else
      bnd (exchange_sync s prefSize (\<lambda>tid w b. QMIWDSSetIPFamilyPrefReq b (word_of_int prefSize) tid ipType)
             cid i w) (\<lambda>(result, _, w).
      if result < 0 then Inr (result, res_wds, conn, w, ns) else
      bnd (exchange_sync s (int (unat QMIWDSStartNetworkReqSize))
             (\<lambda>tid w b. QMIWDSStartNetworkReq b QMIWDSStartNetworkReqSize tid profileid) cid i w)
        (\<lambda>(result, pReadBuffer, w).
      if result < 0 then Inr (result, res_wds, conn, w, ns) else
      bnd (QMIWDSStartNetworkResp pReadBuffer (word_of_int result) res_wds 4) (\<lambda>(_, res_wds).
      let conn = of_le32 res_wds in
      bnd (exchange_sync s (int (unat QMIWDSGetRuntimeSettingsReqSize))
             (\<lambda>tid w b. QMIWDSGetRuntimeSettingsReq b QMIWDSGetRuntimeSettingsReqSize tid) cid i w)
        (\<lambda>(result, pReadBuffer, w).
      if result < 0 then Inr (result, res_wds, conn, w, ns) else
      bnd (QMIWDSGetRuntimeSettingsResp (umh os) (addr0 os) (ipv60 os) (mtu0 os) pReadBuffer
             (word_of_int result) (qd_cfg (qmi_devs (gb w) i)) ns) (\<lambda>(_, cfg, ns).
      Inr (0, res_wds, conn, upd_gb (set_dev i (\<lambda>d. d\<lparr>qd_cfg := cfg\<rparr>)) w, ns))))))))"

text \<open>A failed \<open>GetClientID\<close> is only logged: its negative value is used as a client id.\<close>

definition WDSConnect ::
  "os_env \<Rightarrow> bool \<Rightarrow> nat \<Rightarrow> u8 \<Rightarrow> bytes \<Rightarrow> nat \<Rightarrow> int \<times> u32 \<times> u32 \<Rightarrow> world \<Rightarrow> net_state
   \<Rightarrow> fault + (int \<times> (int \<times> u32 \<times> u32) \<times> world \<times> net_state)" where
  "WDSConnect os dt s profileid res_wds i out w ns =
     (if \<not> valid w then Inr (- ENXIO, out, w, ns) else
      let (ipv6id, connectid, connectipv6id) = out in
      bnd (GetClientID dt s QMIWDS i w) (\<lambda>(id, w).
      bnd (connect_family os s 0x04 profileid (word_of_int id) res_wds connectid i w ns)
        (\<lambda>(result, res_wds, connectid, w, ns).
      if result < 0 then Inr (result, (ipv6id, connectid, connectipv6id), w, ns) else
      bnd (GetClientID dt s QMIWDS i w) (\<lambda>(ipv6ID, w).
      bnd (connect_family os s 0x06 profileid (word_of_int ipv6ID) res_wds connectipv6id i w ns)
        (\<lambda>(result, _, connectipv6id, w, ns).
      if result < 0 then Inr (result, (ipv6id, connectid, connectipv6id), w, ns) else
      Inr (id, (ipv6ID, connectid, connectipv6id), w, ns))))))"

definition WDSDisConnect ::
  "bool \<Rightarrow> nat \<Rightarrow> int \<Rightarrow> nat \<Rightarrow> int \<Rightarrow> u32 \<Rightarrow> u32 \<Rightarrow> world \<Rightarrow> fault + world" where
  "WDSDisConnect dt s ipv4id i ipv6id connectid connectipv6id w =
     (if \<not> valid w then Inr w else
      let stopSize = int (sizeof_sQMUX + 14);
          stop = (\<lambda>conn tid w b. QMIWDSStopNetworkReq b (word_of_int stopSize) tid conn) in
      bnd (exchange_sync s stopSize (stop connectid) (word_of_int ipv4id) i w) (\<lambda>(result, _, w).
      if result < 0 then Inr w else
      bnd (exchange_sync s stopSize (stop connectipv6id) (word_of_int ipv6id) i w) (\<lambda>(result, _, w).
      if result < 0 then Inr w else
      bnd (ReleaseClientID dt s (word_of_int ipv4id) i w) (\<lambda>w.
      ReleaseClientID dt s (word_of_int ipv6id) i w))))"

section \<open>Waiting for the modem ends\<close>

text \<open>
  The time is counted in steps of 500 in a \<open>u32\<close>. A poll ends at most 3500 after its start, so a bound on
  the time to wait keeps the counter from wrapping before it has passed that time.
\<close>

lemma ready_poll_ends:
  assumes "unat i + 3500 < 2 ^ 32"
  shows "\<exists>r. ready_poll i tid t w = Some r
           \<and> (\<forall>o' t' w'. r = Inr (o', t', w') \<longrightarrow> t \<le> t' \<and> (t' = t \<or> unat t' \<le> unat i + 3500))"
proof (induction "2 ^ 32 - unat t" arbitrary: t w rule: less_induct)
  case less
  show ?case
  proof (cases "t \<le> i + 3000")
    case True
    have "unat (i + 3000) = unat i + 3000" using assms by (simp add: unat_u32_add)
    with True have t: "unat t \<le> unat i + 3000" by (simp add: word_le_nat_alt)
    then have next_t: "unat (t + 500) = unat t + 500" using assms by (simp add: unat_u32_add)
    have "2 ^ 32 - unat (t + 500) < 2 ^ 32 - unat t" using t assms next_t by simp
    note IH = less [OF this]
    have up: "t \<le> t + 500" "unat (t + 500) \<le> unat i + 3500"
      using next_t t by (simp_all add: word_le_nat_alt)
    have again: "\<exists>r. ready_poll i tid (t + 500) v = Some r
           \<and> (\<forall>o' t' w'. r = Inr (o', t', w') \<longrightarrow> t \<le> t' \<and> (t' = t \<or> unat t' \<le> unat i + 3500))" for v
    proof -
      obtain r where r: "ready_poll i tid (t + 500) v = Some r"
        and later: "\<And>o' t' w'. r = Inr (o', t', w') \<Longrightarrow>
              t + 500 \<le> t' \<and> (t' = t + 500 \<or> unat t' \<le> unat i + 3500)"
        using IH by blast
      have "t \<le> t' \<and> (t' = t \<or> unat t' \<le> unat i + 3500)" if "r = Inr (o', t', w')" for o' t' w'
        using later [OF that] up by (auto intro: order_trans)
      with r show ?thesis by blast
    qed
    show ?thesis
    proof (cases "\<exists>v. ready_poll i tid t w = ready_poll i tid (t + 500) v")
      case True
      then show ?thesis using again by metis
    next
      case elsewhere: False
      show ?thesis
      proof (cases "msleep w")
        case (Inl f)
        then show ?thesis using True by (subst ready_poll.simps) simp
      next
        case (Inr v)
        show ?thesis
        proof (cases "on_gb (\<lambda>g. PopFromReadMemList g QMICTL tid 0) v")
          case (Inl f)
          then show ?thesis using True Inr by (subst ready_poll.simps) simp
        next
          case pop: (Inr x)
          then show ?thesis using True Inr elsewhere
            by (cases x) (subst ready_poll.simps, subst (asm) ready_poll.simps, auto split: if_splits)
        qed
      qed
    qed
  next
    case False
    then show ?thesis by (subst ready_poll.simps) auto
  qed
qed

lemma ready_loop_ends:
  assumes "unat timeout + 4000 < 2 ^ 32"
  shows "\<exists>r. ready_loop readSem timeout t w = Some r"
proof (induction "2 ^ 32 - unat t" arbitrary: t w rule: less_induct)
  case less
  show ?case
  proof (cases "t < timeout")
    case False
    then show ?thesis by (subst ready_loop.simps) simp
  next
    case True
    then have t: "unat t < unat timeout" by (simp add: word_less_nat_alt)
    have later: "\<exists>r. ready_loop readSem timeout (t' + 500) v = Some r"
      if "t \<le> t'" "t' = t \<or> unat t' \<le> unat t + 3500" for t' v
    proof (rule less)
      have "unat t \<le> unat t'" "unat t' \<le> unat t + 3500" using that by (auto simp: word_le_nat_alt)
      moreover have "unat (t' + 500) = unat t' + 500" using calculation t assms by (simp add: unat_u32_add)
      ultimately show "2 ^ 32 - unat (t' + 500) < 2 ^ 32 - unat t" using t assms by simp
    qed
    have "unat t + 3500 < 2 ^ 32" using t assms by simp
    note poll = ready_poll_ends [OF this]
    have after: "\<exists>r'. Option.bind (ready_poll t tid t v) (\<lambda>r.
                  case r of
                    Inl f \<Rightarrow> Some (Inl f)
                  | Inr (Some True, _, w) \<Rightarrow>
                      Some (Inr (True, upd_gb (\<lambda>g. g\<lparr>mbQMIReadyStatus := True\<rparr>) (free w)))
                  | Inr (Some False, _, w) \<Rightarrow> Some (Inr (False, w))
                  | Inr (None, t, w) \<Rightarrow> ready_loop readSem timeout (t + 500) w) = Some r'" for tid v
      using poll [of tid t v] later
      by (force split: sum.splits option.splits bool.splits)
    show ?thesis
      by (subst ready_loop.simps)
        (auto simp: True after later split: sum.splits prod.splits option.splits)
  qed
qed



end
