(* ===== verification/Driver.thy ===== *)
theory Driver
  imports Session
begin

text \<open>
  The driver as a whole: every operation on the client memory, whatever the device sends and
  however the kernel answers, finds the locks free, leaves them free and never takes or gives back a
  lock wrongly, keeps the client ids of every device distinct and never registers a waiter
  without a function. The operations keep the registered ids, but for the two that
  allocate and release them.

  \<open>ensures\<close> is the postcondition of a run in the fault monad: a run may end in a fault of its data
  (a read outside a message, a device that answers without the worker, a parser that loops) but
  not in a fault of a lock.
\<close>

unbundle bit_operations_syntax

section \<open>Postconditions\<close>

definition lock_fault :: "fault \<Rightarrow> bool" where
  "lock_fault f \<longleftrightarrow> f = Deadlock \<or> f = Bad_Unlock"

definition ensures :: "fault + 'a \<Rightarrow> ('a \<Rightarrow> bool) \<Rightarrow> bool" where
  "ensures m Q = (case m of Inl f \<Rightarrow> \<not> lock_fault f | Inr x \<Rightarrow> Q x)"

lemma lock_fault_simps [simp]:
  "\<not> lock_fault (OOB_Read n)" "\<not> lock_fault (OOB_Write n)" "\<not> lock_fault Null_Deref"
  "\<not> lock_fault Diverges" "\<not> lock_fault Skb_Panic"
  "\<not> lock_fault Wild_Pointer"
  "lock_fault Deadlock" "lock_fault Bad_Unlock"
  by (simp_all add: lock_fault_def)

lemma ensures_simps [simp]:
  "ensures (Inr x) Q = Q x"
  "ensures (Inl f) Q = (\<not> lock_fault f)"
  "ensures (bnd m k) Q = ensures m (\<lambda>x. ensures (k x) Q)"
  by (simp_all add: ensures_def bnd_def split: sum.splits)

lemma ensures_mono: "ensures m P \<Longrightarrow> (\<And>x. P x \<Longrightarrow> Q x) \<Longrightarrow> ensures m Q"
  by (cases m) simp_all

lemma ensures_returns: "ensures m Q \<Longrightarrow> m = Inr x \<Longrightarrow> Q x"
  by simp

text \<open>A step that has nothing to do with locks, and what follows it.\<close>

abbreviation "lock_free m \<equiv> ensures m (\<lambda>_. True)"

lemma lock_free_then: "lock_free m \<Longrightarrow> (\<And>x. m = Inr x \<Longrightarrow> Q x) \<Longrightarrow> ensures m Q"
  by (cases m) simp_all

lemma lock_free_bnd: "lock_free m \<Longrightarrow> (\<And>x. lock_free (f x)) \<Longrightarrow> lock_free (bnd m f)"
  by (cases m) simp_all

section \<open>Parsers and builders\<close>

named_theorems lock_free \<open>parsers and builders that do not touch a lock\<close>

lemma lock_free_rd [lock_free]:
  "lock_free (rd8 b i)" "lock_free (rd16 b i)" "lock_free (rd_block b i n)" "lock_free (deref p)"
  by (simp_all add: rd8_def rd16_def rd_block_def deref_def split: option.split)

lemma lock_free_put [lock_free]: "lock_free (put b i v)"
  by (simp add: put_def)

lemma lock_free_do_stores [lock_free]: "lock_free (do_stores b ss)"
  by (induction ss arbitrary: b) (auto intro: lock_free_then lock_free)

lemma lock_free_copy_loop [lock_free]: "lock_free (copy_loop src s dst i n)"
proof (induction src s dst i n rule: copy_loop.induct)
  case (1 src s dst i n)
  show ?case
    by (subst copy_loop.simps) (auto intro!: lock_free [THEN lock_free_then] dest: "1.IH")
qed

lemma GetTLV_loop_lock_free: "GetTLV_loop msg n type out m pos = Some r \<Longrightarrow> lock_free r"
  by (erule GetTLV_loop.raw_induct [where P = "\<lambda>_ _ _ _ _ _ r. lock_free r", rotated])
    (auto simp: rd16_def rd8_def intro!: lock_free [THEN lock_free_then] split: if_splits)

lemma lock_free_GetTLV [lock_free]: "lock_free (GetTLV msg n type out m)"
  by (auto simp: GetTLV_def dest: GetTLV_loop_lock_free split: option.splits)

lemma lock_free_parts [lock_free]:
  "lock_free (get_tlv_bytes msg n type v m)" "lock_free (get_tlv_u16 msg n type v1)"
  "lock_free (get_tlv_u32 msg n type v2)" "lock_free (get_tlv_u64 msg n type v3)"
  "lock_free (ValidQMIMessage msg n)" "lock_free (GetQMIMessageID msg n)"
  "lock_free (ParseQMUX cid buf n)" "lock_free (FillQMUX cid buf n)"
  by (auto simp: get_tlv_bytes_def get_tlv_u16_def get_tlv_u32_def get_tlv_u64_def ValidQMIMessage_def
      GetQMIMessageID_def ParseQMUX_def FillQMUX_def Let_def intro!: lock_free [THEN lock_free_then]
      split: option.splits list.splits)

lemma lock_free_fill_buffer [lock_free]: "lock_free (fill_buffer b ss n)"
  by (auto simp: fill_buffer_def intro!: lock_free [THEN lock_free_then] split: option.split)

lemma lock_free_builders [lock_free]:
  "lock_free (QMICTLGetClientIDReq b n tid1 sv)" "lock_free (QMICTLReleaseClientIDReq b n tid1 cid)"
  "lock_free (QMICTLReadyReq b n tid1)" "lock_free (QMIWDSSetEventReportReq b n tid)"
  "lock_free (QMIWDASetDataFormatReqSettings b n tid)" "lock_free (QMIWDASetDataFormatReq b n tid df)"
  "lock_free (QMIWDSGetPKGSRVCStatusReq b n tid)" "lock_free (QMIDMSGetMEIDReq b n tid)"
  "lock_free (QMIWDSStartNetworkReq b n tid p)" "lock_free (QMIWDSStopNetworkReq b n tid conn)"
  "lock_free (QMIWDSGetRuntimeSettingsReq b n tid)" "lock_free (QMIWDSSetIPFamilyPrefReq b n tid fam)"
  "lock_free (QMIWDSBindMuxPortReq b n tid intf mux)"
  by (simp_all add: QMICTLGetClientIDReq_def QMICTLReleaseClientIDReq_def QMICTLReadyReq_def
      QMIWDSSetEventReportReq_def QMIWDASetDataFormatReqSettings_def QMIWDASetDataFormatReq_def
      QMIWDSGetPKGSRVCStatusReq_def QMIDMSGetMEIDReq_def QMIWDSStartNetworkReq_def
      QMIWDSStopNetworkReq_def QMIWDSGetRuntimeSettingsReq_def QMIWDSSetIPFamilyPrefReq_def
      QMIWDSBindMuxPortReq_def lock_free_fill_buffer)

lemma lock_free_parsers [lock_free]:
  "lock_free (QMICTLGetClientIDResp b n cid)" "lock_free (QMICTLReleaseClientIDResp b n)"
  "lock_free (QMIWDSEventResp b n ev)" "lock_free (QMIDMSGetMEIDResp b n meid k)"
  "lock_free (QMIWDASetDataFormatResp b n al)" "lock_free (QMIWDSStartNetworkResp b n res k)"
  "lock_free (QMIWDSStopNetworkResp b n)"
  by (auto simp: QMICTLGetClientIDResp_def QMICTLReleaseClientIDResp_def QMIWDSEventResp_def
      QMIDMSGetMEIDResp_def QMIWDASetDataFormatResp_def QMIWDSStartNetworkResp_def
      QMIWDSStopNetworkResp_def Let_def intro!: lock_free [THEN lock_free_then] split: option.split list.split)

lemma lock_free_net [lock_free]:
  "lock_free (sprintf_to k s)" "lock_free (QMI_IP_Down run nm ns)" "lock_free (QMIIPAssignment run a m mx ns)"
  "lock_free (IPRoute run na a m ns)" "lock_free (change_mtu mx mtu ns)"
  by (auto simp: sprintf_to_def QMI_IP_Down_def QMIIPAssignment_def IPRoute_def change_mtu_def Let_def
      intro!: lock_free [THEN lock_free_then] split: option.split)
lemma lock_free_runtime [lock_free]:
  "lock_free (ipv4_text a old)" "lock_free (runtime_address run msg n a cfg ns)"
  "lock_free (runtime_gateway run msg n m a cfg ns)" "lock_free (runtime_rest msg n a ip6 mtu cfg ns)"
  by (auto simp: ipv4_text_def runtime_address_def runtime_gateway_def runtime_rest_def Let_def
      intro!: lock_free [THEN lock_free_then])

lemma lock_free_handlers [lock_free]:
  "lock_free (QMIWDSGetRuntimeSettingsResp run a ip6 mtu b n cfg ns)"
  "lock_free (QMIWDSReverseIPTransportConnInd mtu b n mx ns)"
  by (auto simp: QMIWDSGetRuntimeSettingsResp_def QMIWDSReverseIPTransportConnInd_def Let_def
      intro!: lock_free [THEN lock_free_then])

section \<open>The invariant of the driver state\<close>

definition message_ok :: "bytes \<Rightarrow> u16 \<Rightarrow> bool" where
  "message_ok b n \<longleftrightarrow> length b = unat n \<and> 9 \<le> unat n"

definition client_ok :: "client_mem \<Rightarrow> bool" where
  "client_ok c \<longleftrightarrow> (\<forall>e \<in> set (mReadNotifyList c). nf_fun e \<noteq> None)
     \<and> (\<forall>e \<in> set (mList c). message_ok (rm_data e) (rm_size e))"

definition dev_ok :: "qmi_dev \<Rightarrow> bool" where
  "dev_ok d \<longleftrightarrow> \<not> mClientMemLock d \<and> distinct (map mClientID (mClientMemList d))
     \<and> (\<forall>c \<in> set (mClientMemList d). client_ok c)"

definition driver_inv :: "gobi \<Rightarrow> bool" where
  "driver_inv g \<longleftrightarrow> (\<forall>i. dev_ok (qmi_devs g i))"

text \<open>The invariant, and the same registered ids as in \<open>old\<close>.\<close>

definition keeps :: "gobi \<Rightarrow> gobi \<Rightarrow> bool" where
  "keeps old g \<longleftrightarrow> driver_inv g \<and> (\<forall>i. client_ids i g = client_ids i old)"

lemma keeps_refl: "driver_inv g \<Longrightarrow> keeps g g"
  by (simp add: keeps_def)

lemma keeps_inv: "keeps old g \<Longrightarrow> driver_inv g"
  by (simp add: keeps_def)

lemma kept_ids: "keeps old g \<Longrightarrow> client_ids i g = client_ids i old"
  by (simp add: keeps_def)

lemma keeps_unlocked: "keeps old g \<Longrightarrow> \<not> locked i g"
  by (simp add: keeps_def driver_inv_def dev_ok_def)

lemma keeps_cong: "qmi_devs g = qmi_devs h \<Longrightarrow> keeps old g = keeps old h"
  by (simp add: keeps_def driver_inv_def)

lemma keeps_set_dev:
  assumes "keeps old g" and "dev_ok d" and "map mClientID (mClientMemList d) = client_ids i g"
  shows "keeps old (g\<lparr>qmi_devs := (qmi_devs g)(i := d)\<rparr>)"
  using assms by (simp add: keeps_def driver_inv_def)

text \<open>
  A change of one client: it keeps the id, adds only waiters with a function and only messages of
  their announced size.
\<close>

definition client_change :: "(client_mem \<Rightarrow> client_mem) \<Rightarrow> client_mem \<Rightarrow> bool" where
  "client_change f c \<longleftrightarrow> mClientID (f c) = mClientID c \<and> (client_ok c \<longrightarrow> client_ok (f c))"

lemma upd_first_change:
  "(\<And>c. find P cs = Some c \<Longrightarrow> client_change f c) \<Longrightarrow>
   map mClientID (upd_first P f cs) = map mClientID cs
   \<and> ((\<forall>c \<in> set cs. client_ok c) \<longrightarrow> (\<forall>c \<in> set (upd_first P f cs). client_ok c))"
proof (induction cs)
  case (Cons c cs)
  show ?case
  proof (cases "P c")
    case True
    then show ?thesis using Cons.prems [of c] by (simp add: client_change_def)
  next
    case False
    then show ?thesis using Cons.IH Cons.prems by simp
  qed
qed simp

lemma keeps_set_client:
  assumes "keeps old g" and "\<And>c. find (\<lambda>c. mClientID c = cid) (clients i g) = Some c \<Longrightarrow> client_change f c"
  shows "keeps old (set_client cid i f g)"
proof -
  let ?cs = "upd_first (\<lambda>c. mClientID c = cid) f (clients i g)"
  have ids: "map mClientID ?cs = client_ids i g"
    and ok: "(\<forall>c \<in> set (clients i g). client_ok c) \<longrightarrow> (\<forall>c \<in> set ?cs. client_ok c)"
    using upd_first_change [of "\<lambda>c. mClientID c = cid", OF assms(2)] by blast+
  have "dev_ok (qmi_devs g i)" using assms(1) by (simp add: keeps_def driver_inv_def)
  then have "dev_ok ((qmi_devs g i)\<lparr>mClientMemList := ?cs\<rparr>)"
    using ok by (simp add: dev_ok_def ids)
  then show ?thesis by (rule keeps_set_dev [OF assms(1)]) (simp add: ids)
qed

lemma keeps_client: "keeps old g \<Longrightarrow> c \<in> set (clients i g) \<Longrightarrow> client_ok c"
  by (auto simp: keeps_def driver_inv_def dev_ok_def)

lemma keeps_waiters:
  assumes "keeps old g" and "c \<in> set (clients i g)" and "e \<in> set (mReadNotifyList c)"
  shows "nf_fun e \<noteq> None"
  using keeps_client [OF assms(1,2)] assms(3) by (simp add: client_ok_def del: not_None_eq)

lemma found_client: "FindClientMem g cid i = Some c \<Longrightarrow> c \<in> set (clients i g)"
  by (auto simp: FindClientMem_find find_Some_iff split: if_splits)

text \<open>Taking an entry off one of the lists of a client.\<close>

lemma change_drops [simp]:
  assumes "pop_first P (mReadNotifyList c) = Some (e, rest)"
  shows "client_change (\<lambda>c. c\<lparr>mReadNotifyList := rest\<rparr>) c"
  using pop_first_Some [OF assms] by (auto simp: client_change_def client_ok_def)

lemma change_takes [simp]:
  assumes "pop_first P (mList c) = Some (e, rest)"
  shows "client_change (\<lambda>c. c\<lparr>mList := rest\<rparr>) c" "client_ok c \<Longrightarrow> message_ok (rm_data e) (rm_size e)"
  using pop_first_Some [OF assms] by (auto simp: client_change_def client_ok_def)

section \<open>Operations on the client memory\<close>

named_theorems keeps_step \<open>steps that keep the invariant, as rules on \<open>ensures\<close>\<close>

text \<open>
  The contract of a list operation: on a free lock it changes nothing, or the client it is for.
\<close>

locale client_op =
  fixes run :: "gobi \<Rightarrow> fault + ('r \<times> gobi)" and cid :: u16 and i :: nat
  assumes effect: "\<not> locked i g \<Longrightarrow> (\<exists>r. run g = Inr (r, g))
    \<or> (\<exists>r f c. FindClientMem g cid i = Some c \<and> client_change f c \<and> run g = Inr (r, set_client cid i f g))"
begin

lemma keeps_rule:
  assumes "keeps old g" and "\<And>r g'. keeps old g' \<Longrightarrow> Q (r, g')"
  shows "ensures (run g) Q"
  using effect [OF keeps_unlocked [OF assms(1)]]
proof (elim disjE exE conjE)
  fix r f c
  assume c: "FindClientMem g cid i = Some c" "client_change f c" "run g = Inr (r, set_client cid i f g)"
  have "keeps old (set_client cid i f g)"
    using assms(1) by (rule keeps_set_client) (use c in \<open>auto simp: FindClientMem_find split: if_splits\<close>)
  then show ?thesis using c assms(2) by simp
qed (use assms in auto)

end

text \<open>What is enough for it: nothing happens without the client, or it changes as said.\<close>

lemma client_opI:
  assumes "\<And>g :: gobi. \<not> locked i g \<Longrightarrow> \<not> (mbQMIValid g \<and> FindClientMem g cid i \<noteq> None \<and> ok)
      \<Longrightarrow> \<exists>r. run g = Inr (r, g)"
    and "\<And>g c. mbQMIValid g \<Longrightarrow> \<not> locked i g \<Longrightarrow> FindClientMem g cid i = Some c \<Longrightarrow> ok
      \<Longrightarrow> (\<exists>r. run g = Inr (r, g)) \<or> (\<exists>r f. client_change f c \<and> run g = Inr (r, set_client cid i f g))"
  shows "client_op run cid i"
proof
  fix g :: gobi assume g: "\<not> locked i g"
  show "(\<exists>r. run g = Inr (r, g)) \<or> (\<exists>r f c. FindClientMem g cid i = Some c \<and> client_change f c
      \<and> run g = Inr (r, set_client cid i f g))"
    using assms(1) [OF g] assms(2) [OF _ g]
    by (cases "mbQMIValid g \<and> FindClientMem g cid i \<noteq> None \<and> ok") blast+
qed

lemmas op_unfold = op_defs lock_update_idle

lemma add_message_op: "message_ok d n \<Longrightarrow> client_op (\<lambda>g. AddToReadMemList a g cid tid d n i) cid i"
proof (rule client_opI [where ok = a], goal_cases)
  case (2 g c)
  let ?f = "\<lambda>c. c\<lparr>mList := mList c @ [\<lparr>rm_data = d, rm_tid = tid, rm_size = n\<rparr>]\<rparr>"
  have "client_change ?f c" using 2(1) by (auto simp: client_change_def client_ok_def)
  moreover have "AddToReadMemList a g cid tid d n i = Inr (True, set_client cid i ?f g)"
    using 2 Add_ok [OF 2(2-4), of tid d n] by simp
  ultimately show ?case by blast
qed (auto simp: AddToReadMemList_def op_unfold split: option.splits)

interpretation op_pop: client_op "\<lambda>g. PopFromReadMemList g cid tid i" cid i for cid tid i
proof (rule client_opI [where ok = True], goal_cases)
  case (2 g c)
  show ?case
  proof (cases "pop_first (for_tid tid) (mList c)")
    case (Some x)
    then obtain e rest where "pop_first (for_tid tid) (mList c) = Some (e, rest)" by (cases x) auto
    then show ?thesis using Pop_ok [OF 2(1-3), of tid] change_takes(1) by fastforce
  qed (use Pop_ok [OF 2(1-3), of tid] in auto)
qed (auto simp: PopFromReadMemList_def op_unfold split: option.splits)

interpretation op_wait: client_op "\<lambda>g. AddToNotifyList a g cid tid (Some fn) p i" cid i for a cid tid fn p i
proof (rule client_opI [where ok = a], goal_cases)
  case (2 g c)
  let ?f = "\<lambda>c. c\<lparr>mReadNotifyList := mReadNotifyList c @ [\<lparr>nf_fun = Some fn, nf_tid = tid, nf_data = p\<rparr>]\<rparr>"
  have "client_change ?f c" by (auto simp: client_change_def client_ok_def)
  moreover have "AddToNotifyList a g cid tid (Some fn) p i = Inr (True, set_client cid i ?f g)"
    using 2(4) AddNotify_ok [OF 2(1-3), of tid "Some fn" p] by simp
  ultimately show ?case by blast
qed (auto simp: AddToNotifyList_def op_unfold split: option.splits)

lemma change_urbs [simp]: "client_change (\<lambda>c. c\<lparr>mURBList := us c\<rparr>) c"
  by (simp add: client_change_def client_ok_def)

interpretation op_urb: client_op "\<lambda>g. AddToURBList a g cid u i" cid i for a cid u i
proof (rule client_opI [where ok = a], goal_cases)
  case (2 g c)
  have "client_change (\<lambda>c. c\<lparr>mURBList := mURBList c @ [u]\<rparr>) c" by (rule change_urbs)
  then show ?case using 2(4) AddURB_ok [OF 2(1-3), of u] by (simp only:) blast
qed (auto simp: AddToURBList_def op_unfold split: option.splits)

interpretation op_unurb: client_op "\<lambda>g. PopFromURBList g cid i" cid i for cid i
proof (rule client_opI [where ok = True], goal_cases)
  case (2 g c)
  show ?case
  proof (cases "mURBList c")
    case (Cons u rest)
    have "client_change (\<lambda>c. c\<lparr>mURBList := rest\<rparr>) c" by (rule change_urbs)
    then show ?thesis using PopURB_ok [OF 2(1-3)] unfolding Cons list.case by blast
  qed (use PopURB_ok [OF 2(1-3)] in simp)
qed (auto simp: PopFromURBList_def op_unfold split: option.splits)

lemma AddToReadMemList_keeps [keeps_step]:
  assumes "keeps old g" and "message_ok d n" and "\<And>r g'. keeps old g' \<Longrightarrow> Q (r, g')"
  shows "ensures (AddToReadMemList a g cid tid d n i) Q"
  by (rule client_op.keeps_rule [OF add_message_op [OF assms(2)] assms(1)]) (rule assms(3))

lemmas client_op_rules [keeps_step] = op_pop.keeps_rule op_wait.keeps_rule
  op_urb.keeps_rule op_unurb.keeps_rule

section \<open>Notifications\<close>

text \<open>Everything but the clients is free to change.\<close>

lemma keeps_fields [simp]:
  "keeps old (g\<lparr>semaphores := v1\<rparr>) = keeps old g" "keeps old (g\<lparr>mbQMIValid := v2\<rparr>) = keeps old g"
  "keeps old (g\<lparr>mbQMIReadyStatus := v2\<rparr>) = keeps old g" "keeps old (g\<lparr>mQMICTLTransactionID := v3\<rparr>) = keeps old g"
  "keeps old (g\<lparr>mpIndDataInfoList := v4\<rparr>) = keeps old g" "keeps old (g\<lparr>responseReadSem := v5\<rparr>) = keeps old g"
  "keeps old (g\<lparr>worker_ready := v2\<rparr>) = keeps old g" "keeps old (g\<lparr>rd := v6\<rparr>) = keeps old g"
  "keeps old (g\<lparr>int_submits := v5\<rparr>) = keeps old g" "keeps old (g\<lparr>read_submits := v5\<rparr>) = keeps old g"
  "keeps old (g\<lparr>usb_written := v7\<rparr>) = keeps old g" "keeps old (g\<lparr>mMEID := v8\<rparr>) = keeps old g"
  "keeps old (g\<lparr>agg := v9\<rparr>) = keeps old g" "keeps old (g\<lparr>net_link := v2\<rparr>) = keeps old g"
  "keeps old (g\<lparr>io_ctxs := v10\<rparr>) = keeps old g" "keeps old (g\<lparr>mpWorkQ := v11\<rparr>) = keeps old g"
  by (rule keeps_cong, simp)+

lemma UpSem_keeps [keeps_step]:
  assumes "keeps old g" and "\<And>g'. keeps old g' \<Longrightarrow> Q g'"
  shows "ensures (UpSem g cid p i) Q"
  using assms by (simp add: UpSem_def)

lemma wds_apply_kept [simp]: "keeps old (wds_apply ev g) = keeps old g"
  by (rule keeps_cong) simp

lemma ReadAsync_keeps:
  assumes "keeps old g" and "\<And>r g'. keeps old g' \<Longrightarrow> Q (r, g')"
    and "\<And>P. (\<And>g'. keeps old g' \<Longrightarrow> P g') \<Longrightarrow> ensures (cb g) P"
  shows "ensures (ReadAsync a g cid tid (Some fn) cb p i) Q"
proof (cases "\<exists>c. mbQMIValid g \<and> FindClientMem g cid i = Some c")
  case True
  then obtain c where c: "mbQMIValid g" "FindClientMem g cid i = Some c" by blast
  show ?thesis
  proof (cases "\<exists>e \<in> set (mList c). for_tid tid e")
    case found: True
    then show ?thesis using assms(2) by (simp add: ReadAsync_found [OF c found] assms(3))
  next
    case False
    then have "ReadAsync a g cid tid (Some fn) cb p i
        = bnd (AddToNotifyList a g cid tid (Some fn) p i) (\<lambda>(_, g). Inr (0, g))"
      using c by (auto simp: ReadAsync_def)
    then show ?thesis using assms(2) by (simp add: op_wait.keeps_rule [OF assms(1)])
  qed
next
  case False
  then show ?thesis using assms(1,2) by (auto simp: ReadAsync_def split: option.split)
qed

lemma QMIWDSCallback_keeps [keeps_step]:
  assumes "keeps old g" and "\<And>g'. keeps old g' \<Longrightarrow> Q g'"
  shows "ensures (QMIWDSCallback a g cid p i) Q"
  using assms
proof (induction a g cid p i arbitrary: Q rule: QMIWDSCallback.induct)
  case (1 a g cid p i)
  show ?case
  proof (cases "PopFromReadMemList g cid 0 i")
    case (Inl f)
    moreover have "ensures (PopFromReadMemList g cid 0 i) (\<lambda>_. True)"
      by (rule keeps_step [OF "1.prems"(1)]) simp
    ultimately show ?thesis using "1.prems" by (subst QMIWDSCallback.simps) simp
  next
    case (Inr x)
    obtain popped g1 where x: "x = (popped, g1)" by fastforce
    have "ensures (PopFromReadMemList g cid 0 i) (\<lambda>(_, g'). keeps old g')"
      by (rule keeps_step [OF "1.prems"(1)]) simp
    then have k1: "keeps old g1" using Inr x by simp
    show ?thesis
    proof (cases "mbQMIValid g \<and> popped \<noteq> None")
      case True
      then obtain b n where b: "popped = Some (b, n)" by auto
      let ?ev0 = "wds_event_init (\<not> GobiTestDownReason g1 NO_NDIS_CONNECTION)"
      let ?next = "\<lambda>r ev. if r < 0 then g1 else wds_apply ev g1"
      have rec: "ensures (QMIWDSCallback a (?next r ev) cid p i) P"
        if "QMIWDSEventResp (Some b) n ?ev0 = Inr (r, ev)" "\<And>g'. keeps old g' \<Longrightarrow> P g'" for r ev P
        using True Inr x b k1 that
        by (intro "1.IH" [of x popped g1 "(b, n)" b n "(r, ev)" r ev "?next r ev"]) auto
      have "QMIWDSCallback a g cid p i = bnd (QMIWDSEventResp (Some b) n ?ev0) (\<lambda>(r, ev).
          bnd (ReadAsync a (?next r ev) cid 0 (Some Fn_QMIWDSCallback) (\<lambda>g. QMIWDSCallback a g cid p i) p i)
            (\<lambda>(_, g). Inr g))"
        using True Inr x b by (subst QMIWDSCallback.simps) (simp add: Let_def)
      moreover have "ensures (ReadAsync a (?next r ev) cid 0 (Some Fn_QMIWDSCallback)
          (\<lambda>g. QMIWDSCallback a g cid p i) p i) (\<lambda>(_, g). Q g)"
        if "QMIWDSEventResp (Some b) n ?ev0 = Inr (r, ev)" for r ev
        using k1 by (intro ReadAsync_keeps rec [OF that]) (auto intro: "1.prems"(2))
      ultimately show ?thesis
        by (auto simp: case_prod_unfold intro!: lock_free [THEN lock_free_then])
    next
      case False
      then show ?thesis using "1.prems" Inr x k1 by (cases popped; subst QMIWDSCallback.simps) auto
    qed
  qed
qed

lemma QMIAIOReadcallback_keeps [keeps_step]:
  assumes "keeps old g" and "\<And>g'. keeps old g' \<Longrightarrow> Q g'"
  shows "ensures (QMIAIOReadcallback g cid p i) Q"
  using assms unfolding QMIAIOReadcallback_def
  by (auto simp: Let_def intro!: keeps_step [where old = old] split: option.split)

lemma run_notify_keeps [keeps_step]:
  assumes "keeps old g" and "\<And>g'. keeps old g' \<Longrightarrow> Q g'"
  shows "ensures (run_notify a f g cid p i) Q"
  using assms by (cases f) (auto simp: run_notify_def intro!: keeps_step [where old = old])

lemma NotifyAndPopNotifyList_keeps [keeps_step]:
  assumes "keeps old g" and "\<And>r g'. keeps old g' \<Longrightarrow> Q (r, g')"
  shows "ensures (NotifyAndPopNotifyList a g cid tid i) Q"
proof (cases "\<exists>c e rest. mbQMIValid g \<and> FindClientMem g cid i = Some c
    \<and> pop_first (notifies tid) (mReadNotifyList c) = Some (e, rest)")
  case True
  then obtain c e rest where c: "mbQMIValid g" "FindClientMem g cid i = Some c"
    "pop_first (notifies tid) (mReadNotifyList c) = Some (e, rest)" by blast
  obtain f where f: "nf_fun e = Some f"
    using keeps_waiters [OF assms(1) found_client [OF c(2)]] pop_first_Some [OF c(3)] by fastforce
  have "keeps old (set_client cid i (\<lambda>c. c\<lparr>mReadNotifyList := rest\<rparr>) g)"
    using assms(1) by (rule keeps_set_client) (use c in \<open>auto simp: FindClientMem_find split: if_splits\<close>)
  then show ?thesis
    using Notify_run [OF c(1) keeps_unlocked [OF assms(1)] c(2,3) f, of a] assms(2)
    by (auto intro!: keeps_step [where old = old])
next
  case False
  then have "NotifyAndPopNotifyList a g cid tid i = Inr (False, g)"
    using keeps_unlocked [OF assms(1)]
    by (auto simp: NotifyAndPopNotifyList_def op_unfold split: option.splits)
  then show ?thesis using assms by simp
qed

lemma remove_waiter_keeps [keeps_step]:
  assumes "keeps old g" and "\<And>g'. keeps old g' \<Longrightarrow> Q g'"
  shows "ensures (remove_waiter s i cid g) Q"
proof -
  let ?f = "\<lambda>c. c\<lparr>mReadNotifyList := case pop_first (\<lambda>e. nf_data e = s) (mReadNotifyList c) of
      None \<Rightarrow> mReadNotifyList c | Some (_, rest) \<Rightarrow> rest\<rparr>"
  have "remove_waiter s i cid g = Inr (set_client cid i ?f g)"
    using keeps_unlocked [OF assms(1)] by (simp add: remove_waiter_def op_unfold)
  moreover have "keeps old (set_client cid i ?f g)"
    using assms(1) by (rule keeps_set_client)
      (auto simp: client_change_def client_ok_def dest!: pop_first_Some split: option.splits)
  ultimately show ?thesis using assms(2) by simp
qed

section \<open>The world\<close>

lemma ensures_on_gb [simp]:
  "ensures (on_gb f w) Q = ensures (f (gb w)) (\<lambda>(x, g). Q (x, w\<lparr>gb := g\<rparr>))"
  by (simp add: on_gb_def case_prod_unfold)

lemma kernel_step [keeps_step]:
  "keeps old (gb w) \<Longrightarrow> (\<And>r w'. keeps old (gb w') \<Longrightarrow> ensures (k r w') Q)
   \<Longrightarrow> ensures (case pop_kmem w of (r, w') \<Rightarrow> k r w') Q"
  "keeps old (gb w) \<Longrightarrow> (\<And>r w'. keeps old (gb w') \<Longrightarrow> ensures (k r w') Q)
   \<Longrightarrow> ensures (case alloc w of (r, w') \<Rightarrow> k r w') Q"
  "keeps old (gb w) \<Longrightarrow> (\<And>r1 w'. keeps old (gb w') \<Longrightarrow> ensures (k1 r1 w') Q)
   \<Longrightarrow> ensures (case pop_usb w of (r, w') \<Rightarrow> k1 r w') Q"
  by (auto split: prod.splits dest!: pop_kmem_facts alloc_facts pop_usb_facts)

section \<open>Messages from the device\<close>

definition waken :: "u16 \<Rightarrow> nat \<Rightarrow> world \<Rightarrow> world" where
  "waken cid i w = upd_gb (\<lambda>g. set_client cid i (\<lambda>m. m\<lparr>mWaitQueue := mWaitQueue m + 1\<rparr>) g) w"

lemma waken_keeps [simp]:
  assumes "keeps old (gb w)"
  shows "keeps old (gb (waken cid i w))"
proof -
  have "keeps old (set_client cid i (\<lambda>m. m\<lparr>mWaitQueue := mWaitQueue m + 1\<rparr>) (gb w))"
    using assms by (rule keeps_set_client) (simp add: client_change_def client_ok_def)
  then show ?thesis by (simp add: waken_def)
qed

lemmas deliver_steps = deliver_clients.simps(2) [folded waken_def]

lemma queue_keeps [keeps_step]:
  "keeps old (gb w) \<Longrightarrow> (\<And>w'. keeps old (gb w') \<Longrightarrow> Q w') \<Longrightarrow>
   ensures (AddToProcessIndList i m b n cid w) Q"
  "keeps old (gb w) \<Longrightarrow> (\<And>w'. keeps old (gb w') \<Longrightarrow> Q w') \<Longrightarrow> ensures (up_worker w) Q"
  by (auto simp: AddToProcessIndList_def up_worker_def Let_def
      intro!: keeps_step [where old = old] lock_free [THEN lock_free_then])

lemma processIndResponses_keeps [keeps_step]:
  assumes "keeps old (gb w)" and "\<And>w'. keeps old (gb w') \<Longrightarrow> Q w'"
  shows "ensures (processIndResponses b i n cid w) Q"
  using assms
  by (auto simp: processIndResponses_def Let_def intro!: keeps_step [where old = old] lock_free [THEN lock_free_then])

lemma rd_block_length: "rd_block b i n = Inr d \<Longrightarrow> length d = n"
  by (auto simp: rd_block_def split: if_splits)

lemma deliver_clients_keeps [keeps_step]:
  assumes "keeps old (gb w)" and n: "9 \<le> unat n" and ret: "\<And>r w'. keeps old (gb w') \<Longrightarrow> Q (r, w')"
  shows "ensures (deliver_clients i cid tid b n cs w) Q"
  using assms(1)
proof (induction cs arbitrary: w)
  case (Cons c cs)
  have "message_ok d n" if "rd_block b 0 (unat n) = Inr d" for d
    using that n by (simp add: message_ok_def rd_block_length)
  then show ?case
    using Cons
    by (auto simp: Let_def deliver_steps simp del: deliver_clients.simps(2)
        intro!: keeps_step [where old = old] lock_free [THEN lock_free_then] ret)
qed (simp add: ret)

lemma deliver_mux_keeps [keeps_step]:
  assumes "keeps old (gb w)" and "9 \<le> unat n" and "\<And>r w'. keeps old (gb w') \<Longrightarrow> Q (r, w')"
  shows "ensures (deliver_mux is cid tid b n w) Q"
  using assms by (induction "is" arbitrary: w) (auto intro!: keeps_step [where old = old])

lemma keeps_resubmit [simp]: "keeps old (gb (resubmit_int w)) = keeps old (gb w)"
  by (rule keeps_cong) simp

lemma ParseQMUX_offset: "ParseQMUX c b n = Inr (r, c') \<Longrightarrow> 0 \<le> r \<Longrightarrow> r = 6"
  by (auto simp: ParseQMUX_def QMUXHeaderSize_def sizeof_sQMUX_def returns_iff Let_def split: option.splits if_splits)

lemma ReadCallback_keeps [keeps_step]:
  assumes "keeps old (gb w)" and "\<And>w'. keeps old (gb w') \<Longrightarrow> Q w'"
  shows "ensures (ReadCallback st b n w) Q"
proof -
  have "9 \<le> unat k" if "\<not> int (unat k) < r + 3" "ParseQMUX c p k = Inr (r, c')" "\<not> r < 0" for k :: u16 and r c p c'
    using that(1,3) ParseQMUX_offset [OF that(2)] by linarith
  then show ?thesis
    using assms(1)
    by (auto simp: ReadCallback_def Let_def intro!: keeps_step [where old = old] lock_free [THEN lock_free_then] assms(2))
qed

section \<open>Waiting, reading, writing\<close>

lemma down_loop_keeps [keeps_step]:
  assumes "keeps old (gb w)" and "\<And>r w'. keeps old (gb w') \<Longrightarrow> Q (r, w')"
  shows "ensures (down_loop s es w) Q"
  using assms by (induction es arbitrary: w) (auto intro!: keeps_step [where old = old] split: event.split)

lemma sleep_loop_keeps [keeps_step]:
  assumes "keeps old (gb w)" and "\<And>w'. keeps old (gb w') \<Longrightarrow> Q w'"
  shows "ensures (sleep_loop es w) Q"
  using assms by (induction es arbitrary: w) (auto intro!: keeps_step [where old = old] split: event.split)

lemma waits_keep [keeps_step]:
  "keeps old (gb w) \<Longrightarrow> (\<And>r w'. keeps old (gb w') \<Longrightarrow> Q (r, w')) \<Longrightarrow> ensures (down_sem s w) Q"
  "keeps old (gb w) \<Longrightarrow> (\<And>w'. keeps old (gb w') \<Longrightarrow> P w') \<Longrightarrow> ensures (msleep w) P"
  by (auto simp: down_sem_def msleep_def intro!: keeps_step [where old = old])

text \<open>A run also satisfies what is known of its results.\<close>

lemma ensures_knowing:
  assumes "ensures m P" and "\<And>x. m = Inr x \<Longrightarrow> P x \<Longrightarrow> Q x"
  shows "ensures m Q"
  using assms by (cases m) simp_all

lemma AddToNotifyList_waits:
  assumes "keeps old g" and "semaphores g s = 0"
    and "\<And>r g'. keeps old g' \<Longrightarrow> semaphores g' s = 0 \<Longrightarrow> Q (r, g')"
  shows "ensures (AddToNotifyList a g cid tid (Some fn) p i) Q"
  by (rule ensures_knowing [where P = "\<lambda>(_, g). keeps old g"])
    (use assms in \<open>auto intro!: keeps_step [where old = old] dest: AddToNotifyList_semaphores\<close>)

lemma down_sem_uses:
  assumes "keeps old (gb w)" and "semaphores (gb w) s = 0"
    and "\<And>r w'. keeps old (gb w') \<Longrightarrow> (r \<Longrightarrow> length (events w') < length (events w)) \<Longrightarrow> Q (r, w')"
  shows "ensures (down_sem s w) Q"
proof (rule ensures_knowing)
  show "ensures (down_sem s w) (\<lambda>(_, w). keeps old (gb w))"
    using assms(1) by (auto intro!: keeps_step [where old = old])
next
  fix x assume x: "down_sem s w = Inr x" "case x of (_, w) \<Rightarrow> keeps old (gb w)"
  then show "Q x"
    using assms(2) down_loop_shorter [of s "events w" w "fst x" "snd x"]
    by (cases x) (auto simp: down_sem_def intro!: assms(3))
qed

text \<open>What a read returns is an error or a message of its announced size.\<close>

definition received :: "int \<Rightarrow> ptr \<Rightarrow> bool" where
  "received r b \<longleftrightarrow> r < 0 \<or> (\<exists>d n. b = Some d \<and> message_ok d n \<and> r = int (unat n))"

lemma received_error [simp]: "r < 0 \<Longrightarrow> received r b"
  by (simp add: received_def)

lemma pop_message:
  assumes "keeps old g" and "\<And>g'. keeps old g' \<Longrightarrow> Q (None, g')"
    and "\<And>g' d n. keeps old g' \<Longrightarrow> message_ok d n \<Longrightarrow> Q (Some (d, n), g')"
  shows "ensures (PopFromReadMemList g cid tid i) Q"
proof (rule ensures_knowing)
  show "ensures (PopFromReadMemList g cid tid i) (\<lambda>(_, g). keeps old g)"
    by (rule op_pop.keeps_rule [OF assms(1)]) simp
next
  fix x assume x: "PopFromReadMemList g cid tid i = Inr x" "case x of (_, g) \<Rightarrow> keeps old g"
  obtain popped g' where p: "x = (popped, g')" by fastforce
  show "Q x"
  proof (cases popped)
    case None
    then show ?thesis using p x(2) assms(2) by simp
  next
    case (Some y)
    then obtain d n where y: "popped = Some (d, n)" by (cases y) auto
    then have v: "mbQMIValid g" using x(1) p by (cases "mbQMIValid g") (auto simp: PopFromReadMemList_def)
    obtain c where c: "FindClientMem g cid i = Some c"
      using x(1) p y keeps_unlocked [OF assms(1)]
      by (auto simp: PopFromReadMemList_def op_unfold split: option.splits if_splits)
    have "\<exists>e rest. pop_first (for_tid tid) (mList c) = Some (e, rest) \<and> d = rm_data e \<and> n = rm_size e"
      using x(1) p y Pop_ok [OF v keeps_unlocked [OF assms(1)] c, of tid] by (auto split: option.splits)
    then have "message_ok d n" using change_takes(2) keeps_client [OF assms(1) found_client [OF c]] by blast
    then show ?thesis using p y x(2) assms(3) by simp
  qed
qed

lemma read_loop_keeps:
  assumes "keeps old (gb w)" and "err < 0"
    and ret: "\<And>r b w'. keeps old (gb w') \<Longrightarrow> received r b \<Longrightarrow> Q (r, b, w')"
  shows "ensures (read_loop err s cid tid i w) Q"
  using assms(1)
proof (induction "length (events w)" arbitrary: w rule: less_induct)
  case less
  let ?wait = "\<lambda>w. bnd (down_sem s w) (\<lambda>(taken, w).
      if \<not> taken then bnd (remove_waiter s i cid (gb w)) (\<lambda>g. Inr (err, None, w\<lparr>gb := g\<rparr>))
      else if \<not> valid w then Inr (- ENXIO, None, w)
      else read_loop err s cid tid i w)"
  have wait: "ensures (?wait v) Q"
    if "keeps old (gb v)" "semaphores (gb v) s = 0" "events v = events w" for v
    using that less.hyps assms(2)
    by (auto intro!: down_sem_uses [where old = old] ret
        remove_waiter_keeps [where old = old])
  define register where "register v = (let w = sema_init s v; (alloc_ok, w) = pop_kmem w in
       bnd (on_gb (\<lambda>g. AddToNotifyList alloc_ok g cid tid (Some Fn_UpSem) s i) w) (\<lambda>(added, w).
         if \<not> added then Inr (- EFAULT, None, w) else ?wait w))" for v
  have "ensures (register v) Q" if v: "keeps old (gb v)" "events v = events w" for v
  proof -
    obtain ok w2 where 2: "pop_kmem (sema_init s v) = (ok, w2)" by fastforce
    note f2 = pop_kmem_facts [OF 2]
    show ?thesis
      using f2 v wait
      by (auto simp: register_def 2 Let_def ret intro!: AddToNotifyList_waits [where old = old and s = s])
  qed
  moreover have "read_loop err s cid tid i w = bnd (on_gb (\<lambda>g. PopFromReadMemList g cid tid i) w)
      (\<lambda>(popped, w). case popped of Some (b, n) \<Rightarrow> Inr (int (unat n), Some b, w) | None \<Rightarrow> register w)"
    unfolding register_def by (rule read_loop.simps)
  ultimately show ?case
    by (auto simp: received_def intro!: pop_message [OF less.prems] ret split: option.split)
qed

lemma reads_receive:
  "keeps old (gb w) \<Longrightarrow> (\<And>r b w'. keeps old (gb w') \<Longrightarrow> received r b \<Longrightarrow> Q (r, b, w')) \<Longrightarrow>
   ensures (ReadSync s cid tid i w) Q"
  "keeps old (gb w) \<Longrightarrow> (\<And>r b w'. keeps old (gb w') \<Longrightarrow> received r b \<Longrightarrow> Q (r, b, w')) \<Longrightarrow>
   ensures (ReadSyncTimeout dt s cid tid i w) Q"
  by (auto simp: ReadSync_def ReadSyncTimeout_def intro!: read_loop_keeps [where old = old] split: option.split)

lemma reads_keep [keeps_step]:
  "keeps old (gb w) \<Longrightarrow> (\<And>r b w'. keeps old (gb w') \<Longrightarrow> Q (r, b, w')) \<Longrightarrow> ensures (ReadSync s cid tid i w) Q"
  "keeps old (gb w) \<Longrightarrow> (\<And>r b w'. keeps old (gb w') \<Longrightarrow> Q (r, b, w')) \<Longrightarrow>
   ensures (ReadSyncTimeout dt s cid tid i w) Q"
  by (auto intro!: reads_receive [where old = old])

lemma keeps_GobiSuspend [simp]: "keeps old (snd (GobiSuspend st e g)) = keeps old g"
  by (rule keeps_cong) simp

lemma keeps_suspended [simp]:
  "keeps old (gb w) \<Longrightarrow>
   keeps old (gb (case pop_usb w of (s, w) \<Rightarrow> w\<lparr>gb := snd (GobiSuspend s e (gb w))\<rparr>))"
  by (auto split: prod.split dest: pop_usb_facts)

lemma write_wait_step [keeps_step]:
  assumes "keeps old (gb w)" and "\<And>r w'. keeps old (gb w') \<Longrightarrow> ensures (k r w') Q"
  shows "ensures (case write_wait w of (r, w') \<Rightarrow> k r w') Q"
  using assms
  by (auto simp: write_wait_def Let_def split: prod.splits list.splits event.splits dest!: pop_usb_facts)

lemma keeps_free [simp]: "keeps old (gb (free w)) = keeps old (gb w)"
  by simp

lemma write_submit_keeps [keeps_step]:
  assumes "keeps old (gb w)" and ret: "\<And>r w'. keeps old (gb w') \<Longrightarrow> Q (r, w')"
  shows "ensures (write_submit u b n cid i w) Q"
  using assms(1)
  by (auto simp: write_submit_def Let_def intro!: keeps_step [where old = old] ret)

lemma WriteSync_keeps [keeps_step]:
  assumes "keeps old (gb w)" and ret: "\<And>r w'. keeps old (gb w') \<Longrightarrow> Q (r, w')"
  shows "ensures (WriteSync b n cid i w) Q"
  using assms(1)
  by (auto simp: WriteSync_def Let_def intro!: keeps_step [where old = old] lock_free [THEN lock_free_then] ret)

section \<open>Emptying a client\<close>

lemma notify_all_keeps [keeps_step]:
  assumes "keeps old (gb w)" and ret: "\<And>w'. keeps old (gb w') \<Longrightarrow> Q w'"
  shows "ensures (notify_all cid i w) Q"
  using assms(1)
proof (induction "to_notify (gb w) cid i" arbitrary: w rule: less_induct)
  case less
  obtain ok w1 where 1: "pop_kmem w = (ok, w1)" by fastforce
  note f1 = pop_kmem_facts [OF 1]
  have "ensures (NotifyAndPopNotifyList ok (gb w1) cid 0 i) (\<lambda>(more, g).
      if more then ensures (notify_all cid i (w1\<lparr>gb := g\<rparr>)) Q else Q (w1\<lparr>gb := g\<rparr>))"
  proof (rule ensures_knowing)
    show "ensures (NotifyAndPopNotifyList ok (gb w1) cid 0 i) (\<lambda>(_, g). keeps old g)"
      using f1 less.prems by (auto intro!: keeps_step [where old = old])
  next
    fix x assume x: "NotifyAndPopNotifyList ok (gb w1) cid 0 i = Inr x" "case x of (_, g) \<Rightarrow> keeps old g"
    obtain more g where g: "x = (more, g)" by fastforce
    have "to_notify g cid i < to_notify (gb w) cid i" if more
      using Notify_decreases [of ok "gb w1" cid 0 i g] x(1) g that f1 by simp
    then show "case x of (more, g) \<Rightarrow>
        if more then ensures (notify_all cid i (w1\<lparr>gb := g\<rparr>)) Q else Q (w1\<lparr>gb := g\<rparr>)"
      using x(2) g less.hyps [of "w1\<lparr>gb := g\<rparr>"] ret by simp
  qed
  then show ?case
    by (subst notify_all.simps) (auto simp: 1 case_prod_unfold elim!: ensures_mono)
qed

lemma free_urbs_keeps [keeps_step]:
  assumes "keeps old (gb w)" and ret: "\<And>w'. keeps old (gb w') \<Longrightarrow> Q w'"
  shows "ensures (free_urbs cid i w) Q"
  using assms(1)
proof (induction "urbs (gb w) cid i" arbitrary: w rule: less_induct)
  case less
  have "ensures (PopFromURBList (gb w) cid i) (\<lambda>(popped, g).
      case popped of None \<Rightarrow> Q (w\<lparr>gb := g\<rparr>) | Some _ \<Rightarrow> ensures (free_urbs cid i (free (w\<lparr>gb := g\<rparr>))) Q)"
  proof (rule ensures_knowing)
    show "ensures (PopFromURBList (gb w) cid i) (\<lambda>(_, g). keeps old g)"
      using less.prems by (auto intro!: keeps_step [where old = old])
  next
    fix x assume x: "PopFromURBList (gb w) cid i = Inr x" "case x of (_, g) \<Rightarrow> keeps old g"
    obtain popped g where g: "x = (popped, g)" by fastforce
    show "case x of (popped, g) \<Rightarrow>
        case popped of None \<Rightarrow> Q (w\<lparr>gb := g\<rparr>) | Some _ \<Rightarrow> ensures (free_urbs cid i (free (w\<lparr>gb := g\<rparr>))) Q"
      using x g ret less.hyps [of "free (w\<lparr>gb := g\<rparr>)"] PopURB_decreases [of "gb w" cid i _ g]
      by (auto split: option.split)
  qed
  then show ?case
    by (subst free_urbs.simps) (auto simp: case_prod_unfold elim!: ensures_mono split: option.splits)
qed

lemma free_unread_keeps [keeps_step]:
  assumes "keeps old (gb w)" and ret: "\<And>w'. keeps old (gb w') \<Longrightarrow> Q w'"
  shows "ensures (free_unread cid i w) Q"
  using assms(1)
proof (induction "unread (gb w) cid i" arbitrary: w rule: less_induct)
  case less
  have "ensures (PopFromReadMemList (gb w) cid 0 i) (\<lambda>(popped, g).
      case popped of None \<Rightarrow> Q (w\<lparr>gb := g\<rparr>) | Some _ \<Rightarrow> ensures (free_unread cid i (w\<lparr>gb := g\<rparr>)) Q)"
  proof (rule ensures_knowing)
    show "ensures (PopFromReadMemList (gb w) cid 0 i) (\<lambda>(_, g). keeps old g)"
      using less.prems by (auto intro!: keeps_step [where old = old])
  next
    fix x assume x: "PopFromReadMemList (gb w) cid 0 i = Inr x" "case x of (_, g) \<Rightarrow> keeps old g"
    obtain popped g where g: "x = (popped, g)" by fastforce
    show "case x of (popped, g) \<Rightarrow>
        case popped of None \<Rightarrow> Q (w\<lparr>gb := g\<rparr>) | Some _ \<Rightarrow> ensures (free_unread cid i (w\<lparr>gb := g\<rparr>)) Q"
      using x g ret less.hyps [of "w\<lparr>gb := g\<rparr>"] Pop_unread(1) [of "gb w" cid 0 i _ g]
      by (auto split: option.split)
  qed
  then show ?case
    by (subst free_unread.simps) (auto simp: case_prod_unfold elim!: ensures_mono split: option.splits)
qed

section \<open>Transaction ids\<close>

lemma next_ctl_tid_step [keeps_step]:
  assumes "keeps old g" and "\<And>r g'. keeps old g' \<Longrightarrow> ensures (k r g') Q"
  shows "ensures (case next_ctl_tid g of (r, g') \<Rightarrow> k r g') Q"
  using assms by (simp add: next_ctl_tid_def Let_def)

lemma take_tid_step [keeps_step]:
  assumes "keeps old (gb w)" and "\<And>r w'. keeps old (gb w') \<Longrightarrow> ensures (k r w') Q"
  shows "ensures (case take_tid j w of (r, w') \<Rightarrow> k r w') Q"
proof -
  obtain tid d where d: "GetTransactionID (qmi_devs (gb w) j) = (tid, d)" by fastforce
  have "mClientMemList d = clients j (gb w)" "mClientMemLock d = locked j (gb w)"
    "\<And>x. qmi_devs (gb w) j = x \<Longrightarrow> dev_ok d = dev_ok x"
    using d by (auto simp: GetTransactionID_def atomic_add_1_def dev_ok_def Let_def split: if_splits)
  then have "keeps old (set_dev j (\<lambda>_. d) (gb w))"
    using assms(1) by (intro keeps_set_dev) (simp_all add: keeps_def driver_inv_def)
  then show ?thesis using assms(2) by (simp add: take_tid_def d)
qed

section \<open>Allocating and releasing a client id\<close>

lemma read_loop_valid:
  "read_loop err s cid tid i w = Inr (r, b, w') \<Longrightarrow> err < 0 \<Longrightarrow> 0 \<le> r \<Longrightarrow> valid w'"
proof (induction err s cid tid i w arbitrary: r b w' rule: read_loop.induct)
  case (1 err s cid tid i w)
  have popv: "valid v'" if "on_gb (\<lambda>g. PopFromReadMemList g cid tid i) v = Inr (Some x, v')" for x v v'
    using that by (auto simp: on_gb_def returns_iff PopFromReadMemList_def op_unfold split: if_splits option.splits)
  obtain popped v1 where 1: "on_gb (\<lambda>g. PopFromReadMemList g cid tid i) w = Inr (popped, v1)"
    using "1.prems"(1) by (subst (asm) read_loop.simps) (auto simp: returns_iff)
  show ?case
  proof (cases popped)
    case (Some x)
    then have "w' = v1" using "1.prems"(1) 1 by (subst (asm) read_loop.simps) (auto split: prod.splits)
    then show ?thesis using popv 1 Some by blast
  next
    case None
    obtain ok v2 where 2: "pop_kmem (sema_init s v1) = (ok, v2)" by fastforce
    obtain v3 where 3: "on_gb (\<lambda>g. AddToNotifyList ok g cid tid (Some Fn_UpSem) s i) v2 = Inr (True, v3)"
      and rest: "bnd (down_sem s v3) (\<lambda>(taken, w).
         if \<not> taken then bnd (remove_waiter s i cid (gb w)) (\<lambda>g. Inr (err, None, w\<lparr>gb := g\<rparr>))
         else if \<not> valid w then Inr (- ENXIO, None, w)
         else read_loop err s cid tid i w) = Inr (r, b, w')"
      using "1.prems" 1 2 None
      by (subst (asm) read_loop.simps) (auto simp: bnd_Inr_iff Let_def split: if_splits)
    obtain v4 where 4: "down_sem s v3 = Inr (True, v4)" "valid v4"
      and again: "read_loop err s cid tid i v4 = Inr (r, b, w')"
      using rest "1.prems"(2,3) by (auto simp: bnd_Inr_iff split: if_splits)
    show ?thesis
      by (rule "1.IH" [OF 1 refl None refl 2 [symmetric] refl 3 refl _ 4(1) refl _ _ again "1.prems"(2,3)])
        (use 4(2) in auto)
  qed
qed

lemma ReadSyncTimeout_valid:
  "ReadSyncTimeout dt s cid tid i w = Inr (r, b, w') \<Longrightarrow> 0 \<le> r \<Longrightarrow> valid w'"
  by (auto simp: ReadSyncTimeout_def dest: read_loop_valid split: if_splits option.splits)

lemma get_id_exchange_keeps:
  assumes "keeps old (gb w)" and ret: "\<And>r cid w'. keeps old (gb w') \<Longrightarrow> (0 \<le> r \<Longrightarrow> valid w') \<Longrightarrow> Q (r, cid, w')"
  shows "ensures (get_id_exchange dt s sv w) Q"
proof (rule ensures_knowing)
  show "ensures (get_id_exchange dt s sv w) (\<lambda>(_, _, w). keeps old (gb w))"
    using assms(1) unfolding get_id_exchange_def
    by (auto simp: Let_def intro!: keeps_step [where old = old] lock_free [THEN lock_free_then])
next
  fix x assume x: "get_id_exchange dt s sv w = Inr x" "case x of (_, _, w) \<Rightarrow> keeps old (gb w)"
  obtain r cid w' where r: "x = (r, cid, w')" by (metis prod_cases3)
  have "valid w'" if "0 \<le> r"
    using x(1) that unfolding r get_id_exchange_def
    by (auto simp: returns_iff Let_def dest!: ReadSyncTimeout_valid split: prod.splits if_splits)
  then show "Q x" using x(2) ret r by simp
qed

text \<open>The registered ids with one more, or with one less, on a device.\<close>

definition grown :: "nat \<Rightarrow> u16 \<Rightarrow> gobi \<Rightarrow> gobi \<Rightarrow> bool" where
  "grown i cid g g' \<longleftrightarrow> driver_inv g' \<and> cid \<notin> set (client_ids i g)
     \<and> client_ids i g' = client_ids i g @ [cid] \<and> (\<forall>j. j \<noteq> i \<longrightarrow> client_ids j g' = client_ids j g)"

definition shrunk :: "nat \<Rightarrow> u16 \<Rightarrow> gobi \<Rightarrow> gobi \<Rightarrow> bool" where
  "shrunk i cid g g' \<longleftrightarrow> driver_inv g'
     \<and> client_ids i g' = remove1 cid (client_ids i g) \<and> (\<forall>j. j \<noteq> i \<longrightarrow> client_ids j g' = client_ids j g)"

lemma append_client_grown:
  assumes "keeps old g" and "mbQMIValid g" and "FindClientMem g cid i = None"
  shows "grown i cid old (set_dev i (\<lambda>d. d\<lparr>mClientMemList := mClientMemList d @ [new_client cid]\<rparr>) g)"
proof -
  have fresh: "cid \<notin> set (client_ids i g)"
    using assms(2,3) by (auto simp: FindClientMem_find find_None_iff)
  have "dev_ok (qmi_devs g j)" for j using assms(1) by (simp add: keeps_def driver_inv_def)
  then have "dev_ok ((qmi_devs g i)\<lparr>mClientMemList := clients i g @ [new_client cid]\<rparr>)"
    using fresh by (auto simp: dev_ok_def new_client_def client_ok_def simp del: not_None_eq)
  then show ?thesis
    using assms(1) fresh kept_ids [OF assms(1), of i]
    by (simp add: grown_def keeps_def driver_inv_def new_client_def del: list.set_map)
qed

lemma GetClientID_grows:
  assumes "keeps old (gb w)"
    and "\<And>r w'. r < 0 \<Longrightarrow> keeps old (gb w') \<Longrightarrow> Q (r, w')"
    and "\<And>cid w'. grown i cid old (gb w') \<Longrightarrow> Q (int (unat cid), w')"
  shows "ensures (GetClientID dt s sv i w) Q"
proof -
  have last: "ensures (case FindClientMem (gb w1) cid i of Some _ \<Rightarrow> Inr (- ETOOMANYREFS, w1)
      | None \<Rightarrow> let (ok, w) = pop_kmem w1 in
          if \<not> ok then Inr (- ENOMEM, w) else
          bnd (spin_lock i (gb w)) (\<lambda>g.
          let g = set_dev i (\<lambda>d. d\<lparr>mClientMemList := mClientMemList d @ [new_client cid]\<rparr>) g in
          bnd (spin_unlock i g) (\<lambda>g. Inr (int (unat cid), w\<lparr>gb := g\<rparr>)))) Q"
    if k: "keeps old (gb w1)" "valid w1" for cid w1
  proof (cases "FindClientMem (gb w1) cid i")
    case None
    obtain ok w2 where 2: "pop_kmem w1 = (ok, w2)" by fastforce
    have g2: "gb w2 = gb w1" using pop_kmem_facts [OF 2] by simp
    have "grown i cid old (set_dev i (\<lambda>d. d\<lparr>mClientMemList := mClientMemList d @ [new_client cid]\<rparr>) (gb w1))"
      using append_client_grown k None by simp
    then show ?thesis
      using None 2 g2 k(1) assms(2,3) keeps_unlocked [OF k(1), of i]
      by (simp add: spin_lock_def spin_unlock_def lock_update_idle)
  qed (use k assms(2) in simp)
  show ?thesis
  proof (cases "sv = 0")
    case True
    then show ?thesis using assms(1,2) last [OF assms(1)] by (simp add: GetClientID_def)
  next
    case False
    then show ?thesis using assms(1,2) last
      by (auto simp: GetClientID_def intro!: get_id_exchange_keeps [where old = old])
  qed
qed

lemma release_exchange_keeps [keeps_step]:
  assumes "keeps old (gb w)" and ret: "\<And>w'. keeps old (gb w') \<Longrightarrow> Q w'"
  shows "ensures (release_exchange dt s cid w) Q"
  using assms(1) unfolding release_exchange_def
  by (auto simp: Let_def intro!: keeps_step [where old = old] lock_free [THEN lock_free_then] ret)

text \<open>The list of the clients without the released one.\<close>

abbreviation "without k cs \<equiv> (case pop_first (\<lambda>c. mClientID c = k) cs of
  None \<Rightarrow> cs | Some (_, rest) \<Rightarrow> rest)"

lemma without_ids: "map mClientID (without cid cs) = remove1 cid (map mClientID cs)"
  by (induction cs) (auto split: option.splits)

lemma without_subset: "set (without cid cs) \<subseteq> set cs"
  by (auto dest: pop_first_Some split: option.splits)

lemma remove_client_shrunk:
  assumes "keeps old g"
  shows "shrunk i cid old (set_dev i (\<lambda>d. d\<lparr>mClientMemList := without cid (mClientMemList d)\<rparr>) g)"
proof -
  have "dev_ok (qmi_devs g j)" for j using assms by (simp add: keeps_def driver_inv_def)
  then have "dev_ok ((qmi_devs g i)\<lparr>mClientMemList := without cid (clients i g)\<rparr>)"
    using without_subset [where cid = cid and cs = "clients i g"]
    by (auto simp: dev_ok_def without_ids distinct_remove1 simp del: not_None_eq)
  then show ?thesis
    using assms by (simp add: shrunk_def keeps_def driver_inv_def without_ids)
qed

lemma release_loop_shrinks:
  assumes "keeps old g" and "gb w = set_dev i (\<lambda>d. d\<lparr>mClientMemLock := True\<rparr>) g"
    and "distinct cs" and "cid \<in> set cs" and ret: "\<And>w'. shrunk i cid old (gb w') \<Longrightarrow> Q w'"
  shows "ensures (release_loop cid i cs w) Q"
  using assms(3,4)
proof (induction cs)
  case (Cons c cs)
  show ?case
  proof (cases "c = cid")
    case True
    have no_more: "release_loop cid i cs w' = Inr w'" for w'
      using Cons.prems(1) True by (simp add: release_loop_none)
    have unlock: "spin_unlock i (gb w) = Inr g"
      using assms(2) keeps_unlocked [OF assms(1), of i] by (simp add: spin_unlock_def lock_update_idle)
    have last: "bnd (spin_lock i (gb w1)) (\<lambda>g.
          let g = set_dev i (\<lambda>d. d\<lparr>mClientMemList := without cid (mClientMemList d)\<rparr>) g in
          bnd (spin_unlock i g) (\<lambda>g. Inr (w1\<lparr>gb := g\<rparr>)))
        = Inr (w1\<lparr>gb := set_dev i (\<lambda>d. d\<lparr>mClientMemList := without cid (mClientMemList d)\<rparr>) (gb w1)\<rparr>)"
      if "keeps old (gb w1)" for w1
      using keeps_unlocked [OF that, of i]
      by (simp add: spin_lock_def spin_unlock_def lock_update_idle split: option.split)
    have "release_loop cid i (c # cs) w = bnd (notify_all cid i (w\<lparr>gb := g\<rparr>)) (\<lambda>w.
        bnd (free_urbs cid i w) (\<lambda>w. bnd (free_unread cid i w) (\<lambda>w. bnd (spin_lock i (gb w)) (\<lambda>g.
          let g = set_dev i (\<lambda>d. d\<lparr>mClientMemList := without cid (mClientMemList d)\<rparr>) g in
          bnd (spin_unlock i g) (\<lambda>g. Inr (w\<lparr>gb := g\<rparr>))))))"
      using True unlock by (simp add: no_more)
    moreover have "ensures (bnd (spin_lock i (gb w1)) (\<lambda>g.
          let g = set_dev i (\<lambda>d. d\<lparr>mClientMemList := without cid (mClientMemList d)\<rparr>) g in
          bnd (spin_unlock i g) (\<lambda>g. Inr (w1\<lparr>gb := g\<rparr>)))) Q" if "keeps old (gb w1)" for w1
      unfolding last [OF that] using remove_client_shrunk [OF that] ret by simp
    ultimately show ?thesis
      using assms(1)
      by (simp only: ensures_simps)
        (intro notify_all_keeps [where old = old] free_urbs_keeps [where old = old]
          free_unread_keeps [where old = old], simp_all)
  next
    case False
    then show ?thesis using Cons by simp
  qed
qed simp

lemma ReleaseClientID_shrinks:
  assumes "keeps old (gb w)" and "cid \<in> set (client_ids i (gb w))"
    and "\<And>w'. keeps old (gb w') \<Longrightarrow> \<not> valid w' \<Longrightarrow> Q w'"
    and "\<And>w'. shrunk i cid old (gb w') \<Longrightarrow> Q w'"
  shows "ensures (ReleaseClientID dt s cid i w) Q"
proof (cases "valid w")
  case True
  have "ensures (bnd (spin_lock i (gb w1)) (\<lambda>g. release_loop cid i (client_ids i g) (w1\<lparr>gb := g\<rparr>))) Q"
    if k: "keeps old (gb w1)" for w1
  proof -
    have "client_ids i (gb w1) = client_ids i (gb w)" using kept_ids k assms(1) by simp
    moreover have "distinct (client_ids i (gb w1))"
      using keeps_inv [OF k] by (simp add: driver_inv_def dev_ok_def)
    ultimately show ?thesis
      using keeps_unlocked [OF k, of i] assms(2)
      by (auto simp: spin_lock_def intro!: release_loop_shrinks [OF k] assms(4))
  qed
  then show ?thesis
    using True assms(1) by (auto simp: ReleaseClientID_def intro!: keeps_step [where old = old])
qed (use assms in \<open>simp add: ReleaseClientID_def\<close>)

section \<open>Requests\<close>

lemma send_request_keeps:
  assumes "\<And>tid w b. lock_free (build tid w b)"
    and "keeps old (gb w)" and ret: "\<And>r w'. keeps old (gb w') \<Longrightarrow> Q (r, w')"
  shows "ensures (send_request n build j cid i w) Q"
  using assms(1,2) unfolding send_request_def
  by (auto simp: Let_def intro!: keeps_step [where old = old] assms(1) [THEN lock_free_then] ret)

lemma exchanges_keep:
  assumes "\<And>tid w b. lock_free (build tid w b)"
    and "keeps old (gb w)" and ret: "\<And>r b w'. keeps old (gb w') \<Longrightarrow> Q (r, b, w')"
  shows "ensures (exchange_timeout dt s n build j cid i w) Q" and "ensures (exchange_sync s n build cid i w) Q"
  using assms(2) unfolding exchange_timeout_def exchange_sync_def
  by (auto intro!: keeps_step [where old = old] send_request_keeps [where old = old, OF assms(1)] ret)

lemmas request_step = exchanges_keep [rotated] send_request_keeps [rotated]

lemma QMIWDASetQMAP_keeps [keeps_step]:
  assumes "keeps old (gb w)" and ret: "\<And>r w'. keeps old (gb w') \<Longrightarrow> Q (r, w')"
  shows "ensures (QMIWDASetQMAP dt s cid i w) Q" and "ensures (QMIWDASetQMAPSettings dt s cid i w) Q"
  using assms(1) unfolding QMIWDASetQMAP_def QMIWDASetQMAPSettings_def
  by (auto simp: Let_def lock_free intro!: exchanges_keep(1) [where old = old] lock_free [THEN lock_free_then] ret)

text \<open>The same rules where only the invariant is followed, as after an id was allocated.\<close>

named_theorems inv_step \<open>steps that keep the invariant, with any registered ids\<close>

lemma requests_inv:
  assumes "\<And>tid w b. lock_free (build tid w b)" and "driver_inv (gb w)"
  shows "(\<And>r w'. driver_inv (gb w') \<Longrightarrow> Q (r, w')) \<Longrightarrow> ensures (send_request n build j cid i w) Q"
    and "(\<And>r b w'. driver_inv (gb w') \<Longrightarrow> P (r, b, w')) \<Longrightarrow> ensures (exchange_timeout dt s n build j cid i w) P"
    and "(\<And>r b w'. driver_inv (gb w') \<Longrightarrow> P (r, b, w')) \<Longrightarrow> ensures (exchange_sync s n build cid i w) P"
  using keeps_refl [OF assms(2)]
  by (auto intro!: exchanges_keep [OF assms(1), where old = "gb w"]
      send_request_keeps [OF assms(1), where old = "gb w"] dest: keeps_inv)

lemma settings_inv [inv_step]:
  assumes "driver_inv (gb w)" and "\<And>r w'. driver_inv (gb w') \<Longrightarrow> Q (r, w')"
  shows "ensures (QMIWDASetQMAP dt s cid i w) Q" and "ensures (QMIWDASetQMAPSettings dt s cid i w) Q"
  using keeps_refl [OF assms(1)] assms(2)
  by (auto intro!: keeps_step [where old = "gb w"] dest: keeps_inv)

lemma GetClientID_inv [inv_step]:
  assumes "driver_inv (gb w)"
    and "\<And>r w'. driver_inv (gb w') \<Longrightarrow> (0 \<le> r \<Longrightarrow> word_of_int r \<in> mClientID ` set (clients i (gb w'))) \<Longrightarrow> Q (r, w')"
  shows "ensures (GetClientID dt s sv i w) Q"
proof (rule GetClientID_grows [OF keeps_refl [OF assms(1)]])
  fix cid and w' :: world assume g: "grown i cid (gb w) (gb w')"
  then have "cid \<in> mClientID ` set (clients i (gb w'))"
    unfolding grown_def list.set_map [symmetric] by simp
  then show "Q (int (unat cid), w')" using g by (intro assms(2)) (simp_all add: grown_def)
qed (auto intro!: assms(2) dest: keeps_inv)

lemma ConfigureQMAP_inv [inv_step]:
  assumes "driver_inv (gb w)" and ret: "\<And>r w'. driver_inv (gb w') \<Longrightarrow> Q (r, w')"
  shows "ensures (ConfigureQMAP dt s w) Q"
  using assms(1) by (auto simp: ConfigureQMAP_def Let_def intro!: inv_step ret)

lemma ReadAsync_event_inv:
  assumes "driver_inv g" and ret: "\<And>r g'. driver_inv g' \<Longrightarrow> Q (r, g')"
  shows "ensures (ReadAsync a g cid tid (Some Fn_QMIWDSCallback) (\<lambda>g. QMIWDSCallback a g cid p i) q i) Q"
    and "ensures (ReadAsync a g cid tid (Some Fn_UpSem) (\<lambda>g. UpSem g cid p k) q i) Q"
  using keeps_refl [OF assms(1)]
  by (auto intro!: ReadAsync_keeps [where old = g] keeps_step [where old = g] ret dest: keeps_inv)

lemma pop_inv [inv_step]:
  "driver_inv (gb w) \<Longrightarrow> (\<And>r w'. driver_inv (gb w') \<Longrightarrow> ensures (k r w') Q)
   \<Longrightarrow> ensures (case pop_kmem w of (r, w') \<Rightarrow> k r w') Q"
  "driver_inv (gb w) \<Longrightarrow> (\<And>r w'. driver_inv (gb w') \<Longrightarrow> ensures (k r w') Q)
   \<Longrightarrow> ensures (case alloc w of (r, w') \<Rightarrow> k r w') Q"
  "driver_inv (gb w) \<Longrightarrow> (\<And>r1 w'. driver_inv (gb w') \<Longrightarrow> ensures (k1 r1 w') Q)
   \<Longrightarrow> ensures (case pop_usb w of (r, w') \<Rightarrow> k1 r w') Q"
  by (auto split: prod.splits dest!: pop_kmem_facts alloc_facts pop_usb_facts)

lemma SetupQMIWDSCallback_inv [inv_step]:
  assumes "driver_inv (gb w)" and ret: "\<And>r w'. driver_inv (gb w') \<Longrightarrow> Q (r, w')"
  shows "ensures (SetupQMIWDSCallback dt s i w) Q"
  using assms(1) unfolding SetupQMIWDSCallback_def
  by (auto simp: Let_def lock_free intro!: inv_step requests_inv ReadAsync_event_inv(1) ret)

lemma keeps_registered: "keeps g g' \<Longrightarrow> mClientID ` set (clients i g') = mClientID ` set (clients i g)"
  using kept_ids [of g g' i] by (metis list.set_map)

lemma ReleaseClientID_inv:
  assumes "driver_inv (gb w)" and "cid \<in> mClientID ` set (clients i (gb w))"
    and ret: "\<And>w'. driver_inv (gb w') \<Longrightarrow> Q w'"
  shows "ensures (ReleaseClientID dt s cid i w) Q"
  by (rule ReleaseClientID_shrinks [OF keeps_refl [OF assms(1)]])
    (use assms in \<open>auto simp: shrunk_def dest: keeps_inv\<close>)

lemma QMIDMSGetMEID_inv [inv_step]:
  assumes "driver_inv (gb w)" and ret: "\<And>r w'. driver_inv (gb w') \<Longrightarrow> Q (r, w')"
  shows "ensures (QMIDMSGetMEID dt s i w) Q"
proof -
  define fin where "fin = (\<lambda>cid. \<lambda>(result, pReadBuffer, w).
      if result < 0 then Inr (result, w) else
      bnd (QMIDMSGetMEIDResp pReadBuffer (word_of_int result) (mMEID (gb w)) 14) (\<lambda>(result, meid).
      let meid = (if result < 0 then replicate 14 0x30 @ drop 14 meid else meid);
          w = upd_gb (\<lambda>g. g\<lparr>mMEID := meid\<rparr>) w in
      bnd (ReleaseClientID dt s cid 0 w) (\<lambda>w. Inr (0, w))))"
  have rest: "ensures (exchange_timeout dt s n build j cid 0 w1) (\<lambda>x. ensures (fin cid x) Q)"
    if "driver_inv (gb w1)" "cid \<in> mClientID ` set (clients 0 (gb w1))"
      "\<And>tid w b. lock_free (build tid w b)" for cid w1 n build j
  proof (rule exchanges_keep(1) [OF that(3) keeps_refl [OF that(1)]])
    fix r b and w2 :: world assume k: "keeps (gb w1) (gb w2)"
    have "ensures (ReleaseClientID dt s cid 0 (upd_gb (\<lambda>g. g\<lparr>mMEID := m\<rparr>) w2)) (\<lambda>w. Q (0, w))" for m
      using keeps_inv [OF k] keeps_registered [OF k, of 0] that(2)
      by (intro ReleaseClientID_inv ret) (simp_all add: driver_inv_def)
    moreover have "Q (r, w2)" using keeps_inv [OF k] by (rule ret)
    ultimately show "ensures (fin cid (r, b, w2)) Q"
      by (simp add: fin_def Let_def case_prod_unfold lock_free_then [OF lock_free_parsers(4)])
  qed
  have "QMIDMSGetMEID dt s i w = (if \<not> valid w then Inr (- ENXIO, w) else
      bnd (GetClientID dt s QMIDMS 0 w) (\<lambda>(result, w). if result < 0 then Inr (result, w) else
      bnd (exchange_timeout dt s (int (unat QMIDMSGetMEIDReqSize))
             (\<lambda>tid w b. QMIDMSGetMEIDReq b QMIDMSGetMEIDReqSize tid) i (word_of_int result) 0 w)
        (fin (word_of_int result))))"
    unfolding QMIDMSGetMEID_def fin_def Let_def by (rule refl)
  then show ?thesis
    using assms(1) by (auto simp: lock_free ret intro!: GetClientID_inv rest)
qed

section \<open>The session\<close>

lemma wait_inv [inv_step]:
  assumes "driver_inv (gb w)"
  shows "(\<And>w'. driver_inv (gb w') \<Longrightarrow> P w') \<Longrightarrow> ensures (msleep w) P"
    and "(\<And>r w'. driver_inv (gb w') \<Longrightarrow> Q (r, w')) \<Longrightarrow> ensures (WriteSync b n cid i w) Q"
    and "(\<And>r g'. driver_inv g' \<Longrightarrow> R1 (r, g')) \<Longrightarrow> ensures (PopFromReadMemList (gb w) cid tid i) R1"
    and "(\<And>r g'. driver_inv g' \<Longrightarrow> R2 (r, g')) \<Longrightarrow> ensures (NotifyAndPopNotifyList a (gb w) cid tid i) R2"
    and "(\<And>r g'. driver_inv g' \<Longrightarrow> ensures (k r g') S) \<Longrightarrow>
      ensures (case next_ctl_tid (gb w) of (r, g') \<Rightarrow> k r g') S"
  using keeps_refl [OF assms]
  by (auto intro!: keeps_step [where old = "gb w"] dest: keeps_inv)

lemma driver_inv_fields [simp]:
  "driver_inv (g\<lparr>semaphores := v1\<rparr>) = driver_inv g" "driver_inv (g\<lparr>mbQMIReadyStatus := v2\<rparr>) = driver_inv g"
  "driver_inv (g\<lparr>worker_ready := v2\<rparr>) = driver_inv g" "driver_inv (g\<lparr>responseReadSem := v3\<rparr>) = driver_inv g"
  "driver_inv (g\<lparr>mpIndDataInfoList := v4\<rparr>) = driver_inv g" "driver_inv (g\<lparr>mQMICTLTransactionID := v5\<rparr>) = driver_inv g"
  "driver_inv (g\<lparr>mbQMIValid := v2\<rparr>) = driver_inv g"
  by (simp_all add: driver_inv_def)

lemma ready_poll_inv:
  assumes "ready_poll i tid t w = Some r" and "driver_inv (gb w)"
  shows "ensures r (\<lambda>(_, _, w). driver_inv (gb w))"
proof -
  have "driver_inv (gb w) \<longrightarrow> ensures r (\<lambda>(_, _, w). driver_inv (gb w))"
    using assms(1)
  proof (rule ready_poll.raw_induct [where P = "\<lambda>_ _ _ w r. driver_inv (gb w) \<longrightarrow> ensures r (\<lambda>(_, _, w). driver_inv (gb w))", rotated])
    fix poll i tid t w r
    assume IH: "\<And>i tid t w r. poll i tid t w = Some r \<Longrightarrow>
        driver_inv (gb w) \<longrightarrow> ensures r (\<lambda>(_, _, w). driver_inv (gb w))"
      and body: "(if \<not> t \<le> i + 3000 then Some (Inr (None, t, w))
      else if \<not> valid w then Some (Inr (Some False, t, free w))
      else (case msleep w of Inl f \<Rightarrow> Some (Inl f)
            | Inr w \<Rightarrow>
                if \<not> valid w then Some (Inr (Some False, t, free w))
                else (case on_gb (\<lambda>g. PopFromReadMemList g QMICTL tid 0) w of
                        Inl f \<Rightarrow> Some (Inl f)
                      | Inr (popped, w) \<Rightarrow>
                          if popped \<noteq> None then Some (Inr (Some True, t, w))
                          else poll i tid (t + 500) w))) = Some r"
    show "driver_inv (gb w) \<longrightarrow> ensures r (\<lambda>(_, _, w). driver_inv (gb w))"
    proof
      assume inv: "driver_inv (gb w)"
      have 1: "ensures (msleep w) (\<lambda>w. driver_inv (gb w))" by (rule inv_step [OF inv])
      show "ensures r (\<lambda>(_, _, w). driver_inv (gb w))"
      proof (cases "msleep w")
        case (Inl f)
        then show ?thesis using body 1 inv by (simp split: if_splits) auto
      next
        case (Inr v)
        then have v: "driver_inv (gb v)" using 1 by simp
        then have 2: "ensures (on_gb (\<lambda>g. PopFromReadMemList g QMICTL tid 0) v) (\<lambda>(_, w). driver_inv (gb w))"
          by (auto intro!: inv_step)
        show ?thesis
        proof (cases "on_gb (\<lambda>g. PopFromReadMemList g QMICTL tid 0) v")
          case (Inl f)
          then show ?thesis using body 2 \<open>msleep w = Inr v\<close> inv v
            by (simp del: ensures_on_gb split: if_splits) auto
        next
          case (Inr x)
          then show ?thesis using body 2 \<open>msleep w = Inr v\<close> inv v IH [of i tid "t + 500" "snd x" r]
            by (cases x) (simp del: ensures_on_gb split: if_splits; auto)
        qed
      qed
    qed
  qed
  then show ?thesis using assms(2) by blast
qed

lemma ready_send_inv [inv_step]:
  assumes "driver_inv (gb w)" and ret: "\<And>r w'. driver_inv (gb w') \<Longrightarrow> Q (r, w')"
  shows "ensures (ready_send s w) Q"
  using assms(1) unfolding ready_send_def
  by (auto simp: Let_def next_ctl_tid_def intro!: inv_step ReadAsync_event_inv(2) lock_free [THEN lock_free_then] ret)

lemma ready_loop_inv:
  assumes "ready_loop s timeout t w = Some r" and "driver_inv (gb w)"
  shows "ensures r (\<lambda>(_, w). driver_inv (gb w))"
proof -
  let ?P = "\<lambda>w r. driver_inv (gb w) \<longrightarrow> ensures r (\<lambda>(_, w). driver_inv (gb w))"
  have "?P w r"
    using assms(1)
  proof (rule ready_loop.raw_induct [where P = "\<lambda>_ _ _ w r. ?P w r", rotated])
    fix loop s timeout t w r
    assume IH: "\<And>s timeout t w r. loop s timeout t w = Some r \<Longrightarrow> ?P w r"
      and body: "(if \<not> t < timeout then Some (Inr (False, free w))
      else (case ready_send s w of
              Inl f \<Rightarrow> Some (Inl f)
            | Inr (None, w) \<Rightarrow> Some (Inr (False, w))
            | Inr (Some tid, w) \<Rightarrow>
                if semaphores (gb w) s > 0 then
                  Option.bind (ready_poll t tid t (take_sem s w)) (\<lambda>r.
                  case r of
                    Inl f \<Rightarrow> Some (Inl f)
                  | Inr (Some True, _, w) \<Rightarrow>
                      Some (Inr (True, upd_gb (\<lambda>g. g\<lparr>mbQMIReadyStatus := True\<rparr>) (free w)))
                  | Inr (Some False, _, w) \<Rightarrow> Some (Inr (False, w))
                  | Inr (None, t, w) \<Rightarrow> loop s timeout (t + 500) w)
                else
                  (case pop_kmem w of (ok, w) \<Rightarrow>
                   case on_gb (\<lambda>g. NotifyAndPopNotifyList ok g QMICTL tid 0) w of
                     Inl f \<Rightarrow> Some (Inl f)
                   | Inr (_, w) \<Rightarrow> loop s timeout (t + 500) w))) = Some r"
    show "?P w r"
    proof
      assume inv: "driver_inv (gb w)"
      have sent: "ensures (ready_send s w) (\<lambda>(_, w). driver_inv (gb w))" using inv by (auto intro!: inv_step)
      show "ensures r (\<lambda>(_, w). driver_inv (gb w))"
      proof (cases "t < timeout \<and> (\<exists>tid v. ready_send s w = Inr (Some tid, v))")
        case False
        then show ?thesis using body sent inv by (auto split: if_splits sum.splits option.splits prod.splits)
      next
        case True
        then obtain tid v where v: "ready_send s w = Inr (Some tid, v)" by blast
        then have inv_v: "driver_inv (gb v)" using sent by simp
        show ?thesis
        proof (cases "semaphores (gb v) s > 0")
          case up: True
          then obtain x where x: "ready_poll t tid t (take_sem s v) = Some x"
            using body True v by (cases "ready_poll t tid t (take_sem s v)") auto
          then have "ensures x (\<lambda>(_, _, w). driver_inv (gb w))"
            using inv_v by (intro ready_poll_inv [OF x]) simp
          then show ?thesis using body True v up x IH
            by (auto split: sum.splits option.splits bool.splits)
        next
          case down: False
          obtain ok v2 where 2: "pop_kmem v = (ok, v2)" by fastforce
          have "driver_inv (gb v2)" using pop_kmem_facts [OF 2] inv_v by simp
          then have n: "ensures (on_gb (\<lambda>g. NotifyAndPopNotifyList ok g QMICTL tid 0) v2) (\<lambda>(_, w). driver_inv (gb w))"
            by (auto intro!: inv_step)
          show ?thesis
          proof (cases "on_gb (\<lambda>g. NotifyAndPopNotifyList ok g QMICTL tid 0) v2")
            case (Inl f)
            then show ?thesis using body True v down n 2 by (auto simp del: ensures_on_gb)
          next
            case (Inr x)
            then show ?thesis using body True v down n 2 IH [of s timeout "t + 500" "snd x" r]
              by (cases x) (auto simp del: ensures_on_gb)
          qed
        qed
      qed
    qed
  qed
  then show ?thesis using assms(2) by blast
qed

lemma QMIReady_inv [inv_step]:
  assumes "driver_inv (gb w)" and ret: "\<And>r w'. driver_inv (gb w') \<Longrightarrow> Q (r, w')"
  shows "ensures (QMIReady s timeout w) Q"
proof -
  have "ensures (case ready_loop s timeout 0 v of None \<Rightarrow> Inl Diverges | Some r \<Rightarrow> r) Q"
    if "driver_inv (gb v)" for v
    using ready_loop_inv [OF _ that, of s timeout 0]
    by (auto elim!: ensures_mono intro: ret split: option.split)
  then show ?thesis using assms unfolding QMIReady_def by (auto simp: Let_def intro!: inv_step)
qed

lemma WDSGetRuntimeSettings_inv [inv_step]:
  assumes "driver_inv (gb w)" and ret: "\<And>r w'. driver_inv (gb w') \<Longrightarrow> Q (r, w')"
  shows "ensures (WDSGetRuntimeSettings i cid w) Q"
  using assms(1) unfolding WDSGetRuntimeSettings_def by (auto simp: lock_free intro!: requests_inv ret)

lemma indications_inv [inv_step]:
  assumes "driver_inv (gb w)"
  shows "(\<And>r w' ns'. driver_inv (gb w') \<Longrightarrow> Q (r, w', ns')) \<Longrightarrow>
      ensures (QMIWDSGetPktSrvcStatusInd os b n i cid w ns) Q"
    and "(\<And>r w'. driver_inv (gb w') \<Longrightarrow> P (r, w')) \<Longrightarrow> ensures (QMIWDSExtendedIPConfigInd os b n i cid w) P"
  using assms unfolding QMIWDSGetPktSrvcStatusInd_def QMIWDSExtendedIPConfigInd_def
  by (auto simp: Let_def intro!: inv_step lock_free [THEN lock_free_then] split: option.split)

lemma driver_inv_cfg [simp]:
  "driver_inv (g\<lparr>qmi_devs := (qmi_devs g)(i := (qmi_devs g i)\<lparr>qd_cfg := cfg\<rparr>)\<rparr>) = driver_inv g"
  by (auto simp: driver_inv_def dev_ok_def)

lemma worker_inv [inv_step]:
  assumes "driver_inv (gb w)"
  shows "(\<And>w' ns'. driver_inv (gb w') \<Longrightarrow> P (w', ns')) \<Longrightarrow> ensures (handle_indication os ind w ns) P"
    and "(\<And>r w' ns'. driver_inv (gb w') \<Longrightarrow> Q (r, w', ns')) \<Longrightarrow> ensures (worker_turn os w ns) Q"
proof -
  have handle: "ensures (handle_indication os ind v ns) P"
    if "driver_inv (gb v)" "\<And>w' ns'. driver_inv (gb w') \<Longrightarrow> P (w', ns')" for ind v P
    using that unfolding handle_indication_def
    by (auto simp: Let_def intro!: inv_step lock_free [THEN lock_free_then])
  then show "(\<And>w' ns'. driver_inv (gb w') \<Longrightarrow> P (w', ns')) \<Longrightarrow> ensures (handle_indication os ind w ns) P"
    using assms by blast
  show "(\<And>r w' ns'. driver_inv (gb w') \<Longrightarrow> Q (r, w', ns')) \<Longrightarrow> ensures (worker_turn os w ns) Q"
    using assms unfolding worker_turn_def by (auto intro!: handle split: list.split)
qed

lemma worker_start_inv [inv_step]:
  assumes "driver_inv (gb w)" and ret: "\<And>r w'. driver_inv (gb w') \<Longrightarrow> Q (r, w')"
  shows "ensures (worker_start dt s w) Q"
  using assms(1) unfolding worker_start_def by (auto simp: Let_def intro!: inv_step ret)

lemma connect_family_inv [inv_step]:
  assumes "driver_inv (gb w)" and ret: "\<And>r b c w' ns'. driver_inv (gb w') \<Longrightarrow> Q (r, b, c, w', ns')"
  shows "ensures (connect_family os s fam pr cid res conn i w ns) Q"
  using assms(1) unfolding connect_family_def
  by (auto simp: Let_def lock_free intro!: requests_inv lock_free [THEN lock_free_then] ret)

lemma WDSConnect_inv [inv_step]:
  assumes "driver_inv (gb w)" and ret: "\<And>r c w' ns'. driver_inv (gb w') \<Longrightarrow> Q (r, c, w', ns')"
  shows "ensures (WDSConnect os dt s pr res i c w ns) Q"
  using assms(1) unfolding WDSConnect_def
  by (cases c) (auto simp: Let_def intro!: inv_step ret)

lemma WDSDisConnect_inv:
  assumes "driver_inv (gb w)" and ret: "\<And>w'. driver_inv (gb w') \<Longrightarrow> Q w'"
    and "word_of_int id4 \<in> mClientID ` set (clients i (gb w))"
      "word_of_int id6 \<in> mClientID ` set (clients i (gb w))" "(word_of_int id4 :: u16) \<noteq> word_of_int id6"
  shows "ensures (WDSDisConnect dt s id4 i id6 c4 c6 w) Q"
proof -
  have release: "ensures (bnd (ReleaseClientID dt s (word_of_int id4) i v) (\<lambda>w.
      ReleaseClientID dt s (word_of_int id6) i w)) Q" if k: "keeps (gb w) (gb v)" for v
  proof -
    have ids: "word_of_int id4 \<in> set (client_ids i (gb v))" "word_of_int id6 \<in> set (client_ids i (gb v))"
      using assms(3,4) keeps_registered [OF k, of i] by simp_all
    have inv: "driver_inv (gb v)" using k by (rule keeps_inv)
    have "ensures (ReleaseClientID dt s (word_of_int id6) i v') Q"
      if "keeps (gb v) (gb v')" for v'
      using keeps_inv [OF that] keeps_registered [OF that, of i] ids(2) by (intro ReleaseClientID_inv ret) simp_all
    moreover have "ensures (ReleaseClientID dt s (word_of_int id6) i v') Q"
      if "shrunk i (word_of_int id4) (gb v) (gb v')" for v'
    proof (rule ReleaseClientID_inv)
      have "word_of_int id6 \<in> set (client_ids i (gb v'))"
        using that ids(2) assms(5) by (simp add: shrunk_def del: list.set_map)
      then show "word_of_int id6 \<in> mClientID ` set (clients i (gb v'))" by simp
    qed (use that ret in \<open>auto simp: shrunk_def\<close>)
    ultimately show ?thesis
      using ids(1) by (auto intro!: ReleaseClientID_shrinks [OF keeps_refl [OF inv]])
  qed
  have ret': "Q v" if "keeps (gb w) (gb v)" for v using keeps_inv [OF that] by (rule ret)
  show ?thesis
    unfolding WDSDisConnect_def using keeps_refl [OF assms(1)] release
    by (auto simp: Let_def ret' lock_free intro!: exchanges_keep(2) [where old = "gb w"])
qed

section \<open>The driver as a transition system\<close>

text \<open>
  The calls of the driver: by the USB core (a finished read or interrupt transfer, suspend), by the
  user-mode interface and by its own threads. A run of the driver is any sequence of calls with any
  arguments, each with kernel answers and waiting-time events of its own.
\<close>

datatype call =
    Read_Done int bytes nat
  | Interrupt_Done int int int bytes nat
  | Suspend int int
  | Read nat u16 u16 nat
  | Read_Timeout bool nat u16 u16 nat
  | Write ptr int u16 nat
  | Read_Events u16 nat
  | Allocate bool nat u8 nat
  | Release bool nat u16 nat
  | Start_Worker bool nat
  | Worker_Turn os_env net_state
  | Connect os_env bool nat u8 bytes nat net_state
  | Disconnect bool nat int int nat u32 u32
  | Remove_Device

fun run_call :: "call \<Rightarrow> world \<Rightarrow> fault + world" where
  "run_call (Read_Done st b n) w = ReadCallback st b n w"
| "run_call (Interrupt_Done rs st us b n) w = bnd (IntCallback rs st us b n (gb w)) (\<lambda>g. Inr (w\<lparr>gb := g\<rparr>))"
| "run_call (Suspend r e) w = Inr (upd_gb (\<lambda>g. snd (GobiSuspend r e g)) w)"
| "run_call (Read s cid tid i) w = bnd (ReadSync s cid tid i w) (\<lambda>(_, _, w). Inr w)"
| "run_call (Read_Timeout dt s cid tid i) w = bnd (ReadSyncTimeout dt s cid tid i w) (\<lambda>(_, _, w). Inr w)"
| "run_call (Write b n cid i) w = bnd (WriteSync b n cid i w) (\<lambda>(_, w). Inr w)"
| "run_call (Read_Events cid i) w = bnd (on_gb (\<lambda>g. ReadAsync True g cid 0 (Some Fn_QMIWDSCallback)
     (\<lambda>g. QMIWDSCallback True g cid 0 i) 0 i) w) (\<lambda>(_, w). Inr w)"
| "run_call (Allocate dt s sv i) w = bnd (GetClientID dt s sv i w) (\<lambda>(_, w). Inr w)"
| "run_call (Release dt s cid i) w = ReleaseClientID dt s cid i w"
| "run_call (Start_Worker dt s) w = bnd (worker_start dt s w) (\<lambda>(_, w). Inr w)"
| "run_call (Worker_Turn os ns) w = bnd (worker_turn os w ns) (\<lambda>(_, w, _). Inr w)"
| "run_call (Connect os dt s pr res i ns) w = bnd (WDSConnect os dt s pr res i (0, 0, 0) w ns) (\<lambda>(_, _, w, _). Inr w)"
| "run_call (Disconnect dt s id4 id6 i c4 c6) w = WDSDisConnect dt s id4 i id6 c4 c6 w"
| "run_call Remove_Device w = Inr (unplug w)"

text \<open>What the callers see to: only registered ids are released, the two of a data call are different.\<close>

fun allowed :: "call \<Rightarrow> world \<Rightarrow> bool" where
  "allowed (Release dt s cid i) w = (cid \<in> set (client_ids i (gb w)))"
| "allowed (Disconnect dt s id4 id6 i c4 c6) w = (word_of_int id4 \<in> set (client_ids i (gb w))
     \<and> word_of_int id6 \<in> set (client_ids i (gb w)) \<and> (word_of_int id4 :: u16) \<noteq> word_of_int id6)"
| "allowed _ w = True"

inductive driver_step :: "world \<Rightarrow> world \<Rightarrow> bool" where
  call: "allowed c w \<Longrightarrow> run_call c w = Inr w' \<Longrightarrow> driver_step w w'"
| kernel: "driver_step w (w\<lparr>kmem := ks, usb := us, events := es\<rparr>)"

inductive reachable :: "world \<Rightarrow> world \<Rightarrow> bool" for w0 where
  start: "reachable w0 w0"
| step: "reachable w0 w \<Longrightarrow> driver_step w w' \<Longrightarrow> reachable w0 w'"

inductive_cases driver_stepE: "driver_step w w'"

lemma keeps_link [simp]:
  "driver_inv (GobiSetDownReason g r) = driver_inv g" "driver_inv (GobiClearDownReason g r) = driver_inv g"
  "driver_inv (snd (ResubmitIntURB st p g)) = driver_inv g" "driver_inv (g\<lparr>int_submits := n\<rparr>) = driver_inv g"
  "driver_inv (g\<lparr>read_submits := n\<rparr>) = driver_inv g"
  by (simp_all add: driver_inv_def GobiSetDownReason_def GobiClearDownReason_def ResubmitIntURB_def)

lemma lock_free_rd64 [lock_free]: "lock_free (rd64 b k)" "lock_free (rd32 b k)"
  by (simp_all add: rd64_def rd32_def)

lemma IntCallback_inv:
  assumes "driver_inv g"
  shows "ensures (IntCallback rs st us b n g) driver_inv"
  using assms unfolding IntCallback_def by (auto simp: Let_def intro!: lock_free [THEN lock_free_then])

lemma run_call_inv:
  assumes "driver_inv (gb w)" and "allowed c w"
  shows "ensures (run_call c w) (\<lambda>w'. driver_inv (gb w'))"
proof -
  have keep: "driver_inv (gb w')" if "keeps (gb w) (gb w')" for w' using that by (rule keeps_inv)
  note k = keeps_refl [OF assms(1)]
  show ?thesis
  proof (cases c)
    case (Read_Done st b n)
    then show ?thesis by (auto intro!: ReadCallback_keeps [OF k] keep)
  next
    case (Interrupt_Done rs st us b n)
    then show ?thesis using assms(1) by (auto intro: IntCallback_inv)
  next
    case (Suspend r e)
    then show ?thesis using assms(1) by (simp add: driver_inv_def)
  next
    case (Read s cid tid i)
    then show ?thesis by (auto intro!: reads_keep [OF k] keep)
  next
    case (Read_Timeout dt s cid tid i)
    then show ?thesis by (auto intro!: reads_keep [OF k] keep)
  next
    case (Read_Events cid i)
    then show ?thesis using ReadAsync_event_inv(1) [OF assms(1), where Q = "\<lambda>(_, g). driver_inv g"]
      by (simp add: case_prod_unfold)
  next
    case (Release dt s cid i)
    then show ?thesis using assms by (auto intro!: ReleaseClientID_inv)
  next
    case (Disconnect dt s id4 id6 i c4 c6)
    then show ?thesis using assms by simp (rule WDSDisConnect_inv, simp_all)
  next
    case (Write b n cid i)
    then show ?thesis using wait_inv(2) [OF assms(1), where Q = "\<lambda>(_, w'). driver_inv (gb w')"]
      by (simp add: case_prod_unfold)
  next
    case (Allocate dt s sv i)
    then show ?thesis using GetClientID_inv [OF assms(1), where Q = "\<lambda>(_, w'). driver_inv (gb w')"]
      by (simp add: case_prod_unfold)
  next
    case (Start_Worker dt s)
    then show ?thesis using worker_start_inv [OF assms(1), where Q = "\<lambda>(_, w'). driver_inv (gb w')"]
      by (simp add: case_prod_unfold)
  next
    case (Worker_Turn os ns)
    then show ?thesis using worker_inv(2) [OF assms(1), where Q = "\<lambda>(_, w', _). driver_inv (gb w')"]
      by (simp add: case_prod_unfold)
  next
    case (Connect os dt s pr res i ns)
    then show ?thesis using WDSConnect_inv [OF assms(1), where Q = "\<lambda>(_, _, w', _). driver_inv (gb w')"]
      by (simp add: case_prod_unfold)
  qed (use assms(1) in simp)
qed

lemma reachable_inv: "reachable w0 w \<Longrightarrow> driver_inv (gb w0) \<Longrightarrow> driver_inv (gb w)"
proof (induction rule: reachable.induct)
  case (step w w')
  then have "driver_inv (gb w)" by blast
  with step.hyps(2) show ?case
    by (cases rule: driver_stepE) (auto dest: run_call_inv)
qed

section \<open>Properties\<close>

lemma driver_inv_example [simp]: "driver_inv gobi_example"
  by (simp add: driver_inv_def dev_ok_def client_ok_def gobi_example_def dev_example_def client_example_def)



text \<open>
  C3: no message is stored or handed out with a wrong size: in every state the driver can reach,
  each unread message of each client has exactly the bytes its size says and at least the nine of the
  headers, and a read returns an error or such a message together with its length.
\<close>

theorem messages_have_their_size:
  assumes "driver_inv (gb w0)" and "reachable w0 w"
  shows "(\<forall>i. \<forall>c \<in> set (clients i (gb w)). \<forall>e \<in> set (mList c).
       length (rm_data e) = unat (rm_size e) \<and> 9 \<le> unat (rm_size e))
     \<and> (\<forall>s cid tid i r b w'. ReadSync s cid tid i w = Inr (r, b, w') \<longrightarrow>
       r < 0 \<or> (\<exists>d. b = Some d \<and> 9 \<le> length d \<and> r = int (length d)))"
proof -
  have inv: "driver_inv (gb w)" using reachable_inv [OF assms(2,1)] .
  have "r < 0 \<or> (\<exists>d. b = Some d \<and> 9 \<le> length d \<and> r = int (length d))"
    if "ReadSync s cid tid i w = Inr (r, b, w')" for s cid tid i r b w'
  proof -
    have "received r b"
      using reads_receive(1) [OF keeps_refl [OF inv], where Q = "\<lambda>(r, b, _). received r b"] that
      by (metis (no_types, lifting) ensures_returns case_prod_conv)
    then show ?thesis unfolding received_def message_ok_def by metis
  qed
  moreover have "\<forall>i. \<forall>c \<in> set (clients i (gb w)). client_ok c"
    using inv by (simp add: driver_inv_def dev_ok_def)
  ultimately show ?thesis unfolding client_ok_def message_ok_def by blast
qed

theorem messages_have_their_size_witness:
  "\<exists>w. ReadCallback 0 (message_for 0x101 [2, 7, 0, 0x20, 0, 0, 0]) 13 (world_example []) = Inr w
     \<and> (\<forall>c \<in> set (clients 0 (gb w)). \<forall>e \<in> set (mList c). length (rm_data e) = unat (rm_size e))"
proof -
  let ?b = "[2, 7, 0, 0x20, 0, 0, 0] :: bytes"
  have "\<exists>w. ReadCallback 0 (message_for 0x101 ?b) (length ?b + 6) (world_example []) = Inr w"
    using ReadCallback_stores [of "0x101" "world_example []" ?b 0 "client_example 0x101"]
    by (auto simp: message_body_ok_def)
  then obtain w where w: "ReadCallback 0 (message_for 0x101 ?b) 13 (world_example []) = Inr w" by auto
  have "reachable (world_example []) w"
    by (rule reachable.step [OF reachable.start driver_step.call [of "Read_Done 0 (message_for 0x101 ?b) 13"]])
      (simp_all add: w)
  then show ?thesis
    using w messages_have_their_size [of "world_example []" w] by auto
qed

end
