(* ===== verification/Userspace.thy ===== *)
theory Userspace
  imports Driver
begin

text \<open>
  The character device of \<^verbatim>\<open>qmidevice.c\<close>: \<open>UserspaceOpen\<close>, \<open>UserspaceIOCTL\<close>,
  \<open>UserspaceRead\<close>, \<open>UserspaceWrite\<close>, \<open>UserspacePoll\<close> and \<open>UserspaceClose\<close>. A file is its
  \<open>private_data\<close> (\<open>None\<close>: NULL) and whether its operations were put back to those of the inode.
  User memory is a parameter: the bytes handed in, and how many bytes a copy leaves out.
\<close>

unbundle bit_operations_syntax

section \<open>Files\<close>

record filp_data =
  fd_ClientID :: u16
  fd_QMIDev :: nat

record filp =
  private_data :: "filp_data option"
  f_op_reset :: bool

abbreviation (input) "no_client \<equiv> (- 1 :: u16)"

text \<open>What an \<open>int\<close> is when it is compared with a \<open>size_t\<close>.\<close>

definition as_size :: "int \<Rightarrow> int" where
  "as_size n = n mod 2 ^ 64"

text \<open>
  \<open>UserspaceOpen\<close>: \<open>i\<close> is the QMI device the inode belongs to, \<open>devnum_ok\<close> whether the device
  number of the inode is the one of the QMI device. The driver structure is computed from the inode's
  device with the offset its MUX id stands for.
\<close>

definition UserspaceOpen ::
  "bool \<Rightarrow> nat option \<Rightarrow> filp \<Rightarrow> world \<Rightarrow> fault + (int \<times> filp \<times> world)" where
  "UserspaceOpen devnum_ok pInode pFilp w =
     (case pInode of None \<Rightarrow> Inr (- ENXIO, pFilp, w) | Some i \<Rightarrow>
      let mux = MuxId (qd_cfg (qmi_devs (gb w) i)) - 0x81 in
      if mux \<noteq> 0 \<and> ucast mux > MAX_MUX_DEVICES then Inr (- ENXIO, pFilp, w)
      else if \<not> devnum_ok then Inr (- ENXIO, pFilp, w)
      else if unat mux \<noteq> i then Inl Wild_Pointer
      else if \<not> valid w then Inr (- ENXIO, pFilp, w)
      else
        let (ok, w) = pop_kmem w in
        if \<not> ok then Inr (- ENOMEM, pFilp\<lparr>private_data := None\<rparr>, w)
        else Inr (0, pFilp\<lparr>private_data := Some \<lparr>fd_ClientID = no_client, fd_QMIDev = i\<rparr>\<rparr>, w))"

section \<open>Control\<close>

record user_env =
  not_copied :: nat
  has_netdev :: bool
  idVendor :: u16
  idProduct :: u16

text \<open>\<open>copy_to_user\<close>: the bytes left out, and what arrived.\<close>

definition copy_to_user :: "user_env \<Rightarrow> bytes \<Rightarrow> int \<times> bytes" where
  "copy_to_user ue b = (let n = min (not_copied ue) (length b) in (int n, take (length b - n) b))"

abbreviation (input) "IOCTL_QMI_GET_SERVICE_FILE \<equiv> (0x8BE0 + 1 :: u32)"
abbreviation (input) "IOCTL_QMI_GET_DEVICE_VIDPID \<equiv> (0x8BE0 + 2 :: u32)"
abbreviation (input) "IOCTL_QMI_GET_DEVICE_MEID \<equiv> (0x8BE0 + 3 :: u32)"
abbreviation (input) "IOCTL_QMIREADY \<equiv> (0x8BE0 + 4 :: u32)"
abbreviation (input) "IOCTL_QMI_BIND_MUX_ID \<equiv> (0x8BE0 + 5 :: u32)"

definition ioctl_bind_mux :: "nat \<Rightarrow> filp_data \<Rightarrow> world \<Rightarrow> fault + (int \<times> world)" where
  "ioctl_bind_mux s fd w =
     (let writeBufferSize = int (unat QMUXHeaderSize) + 29; i = fd_QMIDev fd in
      bnd (send_request writeBufferSize (\<lambda>tid w b. QMIWDSBindMuxPortReq b (word_of_int writeBufferSize) tid
             (ucast (mIntfNum (gb w))) (MuxId (qd_cfg (qmi_devs (gb w) i)))) 0 (fd_ClientID fd) i w)
        (\<lambda>(result, w).
      if result < 0 then Inr (result, w) else
      bnd (ReadSync s (fd_ClientID fd) 0 i w) (\<lambda>(result, _, w).
      Inr (if result < 0 then result else 1, w))))"

text \<open>The result, what was copied to user memory, the file and the world.\<close>

definition UserspaceIOCTL ::
  "bool \<Rightarrow> nat \<Rightarrow> user_env \<Rightarrow> filp option \<Rightarrow> u32 \<Rightarrow> u64 \<Rightarrow> world
   \<Rightarrow> fault + (int \<times> bytes \<times> filp option \<times> world)" where
  "UserspaceIOCTL dt s ue pFilp cmd arg w =
     (case pFilp of None \<Rightarrow> Inr (- EBADF, [], pFilp, w) | Some f \<Rightarrow>
      case private_data f of None \<Rightarrow> Inr (- EBADF, [], pFilp, w) | Some fd \<Rightarrow>
      if \<not> valid w then Inr (- ENXIO, [], Some (f\<lparr>f_op_reset := True\<rparr>), w)
      else if cmd = IOCTL_QMI_GET_SERVICE_FILE then
        if (ucast arg :: u8) = 0 then Inr (- EINVAL, [], pFilp, w)
        else if \<not> mbQMIReadyStatus (gb w) then Inr (- ENXIO, [], pFilp, w)
        else if fd_ClientID fd \<noteq> no_client then Inr (- EBADR, [], pFilp, w)
        else bnd (GetClientID dt s (ucast arg) (fd_QMIDev fd) w) (\<lambda>(result, w).
             if result < 0 then Inr (result, [], pFilp, w)
             else Inr (0, [], Some (f\<lparr>private_data := Some (fd\<lparr>fd_ClientID := word_of_int result\<rparr>)\<rparr>), w))
      else if cmd = IOCTL_QMI_GET_DEVICE_VIDPID then
        if arg = 0 then Inr (- EINVAL, [], pFilp, w)
        else if \<not> has_netdev ue then Inr (- ENOMEM, [], pFilp, w)
        else let devVIDPID = push_bit 16 (ucast (idVendor ue)) + ucast (idProduct ue) :: u32;
                 (result, out) = copy_to_user ue (le32 devVIDPID)
             in Inr (result, out, pFilp, w)
      else if cmd = IOCTL_QMI_GET_DEVICE_MEID then
        if arg = 0 then Inr (- EINVAL, [], pFilp, w)
        else bnd (rd_block (mMEID (gb w)) 0 14) (\<lambda>meid.
             let (result, out) = copy_to_user ue meid in Inr (result, out, pFilp, w))
      else if cmd = IOCTL_QMIREADY then
        if \<not> mbQMIReadyStatus (gb w) then Inr (- ENXIO, [], pFilp, w) else Inr (1, [], pFilp, w)
      else if cmd = IOCTL_QMI_BIND_MUX_ID then
        bnd (ioctl_bind_mux s fd w) (\<lambda>(result, w). Inr (result, [], pFilp, w))
      else Inr (- EBADRQC, [], pFilp, w))"

section \<open>Reading and writing\<close>

definition UserspaceRead ::
  "nat \<Rightarrow> user_env \<Rightarrow> filp option \<Rightarrow> nat \<Rightarrow> world \<Rightarrow> fault + (int \<times> bytes \<times> filp option \<times> world)" where
  "UserspaceRead s ue pFilp n w =
     (case pFilp of None \<Rightarrow> Inr (- EBADF, [], pFilp, w) | Some f \<Rightarrow>
      case private_data f of None \<Rightarrow> Inr (- EBADF, [], pFilp, w) | Some fd \<Rightarrow>
      if \<not> valid w then Inr (- ENXIO, [], Some (f\<lparr>f_op_reset := True\<rparr>), w)
      else if \<not> mbQMIReadyStatus (gb w) then Inr (- ENXIO, [], pFilp, w)
      else if fd_ClientID fd = no_client then Inr (- EBADR, [], pFilp, w)
      else
        bnd (ReadSync s (fd_ClientID fd) 0 (fd_QMIDev fd) w) (\<lambda>(result, pReadData, w).
        if result \<le> 0 then Inr (result, [], pFilp, w) else
        let result = result - int (unat QMUXHeaderSize) in
        if as_size result > int n then Inr (- EOVERFLOW, [], pFilp, w)
        else
          bnd (deref pReadData) (\<lambda>pData.
          bnd (rd_block pData (unat QMUXHeaderSize) (nat result)) (\<lambda>pSmallReadData.
          let (left, out) = copy_to_user ue pSmallReadData
          in Inr (if left \<noteq> 0 then - EFAULT else result, out, pFilp, w)))))"

text \<open>\<open>pBuf\<close> is what the user hands in; a part that cannot be read makes the call return its length.\<close>

definition UserspaceWrite ::
  "user_env \<Rightarrow> filp option \<Rightarrow> bytes \<Rightarrow> world \<Rightarrow> fault + (int \<times> filp option \<times> world)" where
  "UserspaceWrite ue pFilp pBuf w =
     (case pFilp of None \<Rightarrow> Inr (- EBADF, pFilp, w) | Some f \<Rightarrow>
      case private_data f of None \<Rightarrow> Inr (- EBADF, pFilp, w) | Some fd \<Rightarrow>
      if \<not> valid w then Inr (- ENXIO, Some (f\<lparr>f_op_reset := True\<rparr>), w)
      else if \<not> mbQMIReadyStatus (gb w) then Inr (- ENXIO, pFilp, w)
      else if fd_ClientID fd = no_client then Inr (- EBADR, pFilp, w)
      else
        let (ok, w) = alloc w in
        if \<not> ok then Inr (- ENOMEM, pFilp, w)
        else if min (not_copied ue) (length pBuf) \<noteq> 0
        then Inr (as_int (int (min (not_copied ue) (length pBuf))), pFilp, free w)
        else
          let total = int (length pBuf) + int (unat QMUXHeaderSize) in
          bnd (WriteSync (Some (replicate (unat QMUXHeaderSize) 0 @ pBuf)) (as_int total)
                 (fd_ClientID fd) (fd_QMIDev fd) w) (\<lambda>(status, w).
          Inr (if as_size status = total then int (length pBuf) else status, pFilp, free w)))"

section \<open>Poll\<close>

definition UserspacePoll :: "filp option \<Rightarrow> world \<Rightarrow> fault + (u32 \<times> filp option \<times> world)" where
  "UserspacePoll pFilp w =
     (let POLLIN = 0x1; POLLOUT = 0x4; POLLERR = 0x8; POLLRDNORM = 0x40; POLLWRNORM = 0x100;
          status = POLLOUT OR POLLWRNORM in
      case pFilp of None \<Rightarrow> Inr (word_of_int (- EBADF), pFilp, w) | Some f \<Rightarrow>
      case private_data f of None \<Rightarrow> Inr (POLLERR, pFilp, w) | Some fd \<Rightarrow>
      if \<not> valid w then Inr (POLLERR, Some (f\<lparr>f_op_reset := True\<rparr>), w)
      else if \<not> mbQMIReadyStatus (gb w) then Inr (word_of_int (- ENXIO), pFilp, w)
      else if fd_ClientID fd = no_client then Inr (POLLERR, pFilp, w)
      else
        bnd (spin_lock (fd_QMIDev fd) (gb w)) (\<lambda>g.
        case FindClientMem g (fd_ClientID fd) (fd_QMIDev fd) of
          None \<Rightarrow> bnd (spin_unlock (fd_QMIDev fd) g) (\<lambda>g. Inr (POLLERR, pFilp, w\<lparr>gb := g\<rparr>))
        | Some c \<Rightarrow>
            let status = (if mList c \<noteq> [] then status OR (POLLIN OR POLLRDNORM) else status) in
            bnd (spin_unlock (fd_QMIDev fd) g) (\<lambda>g.
            Inr (status OR (POLLOUT OR POLLWRNORM), pFilp, w\<lparr>gb := g\<rparr>))))"

section \<open>Close\<close>

text \<open>
  \<open>UserspaceClose\<close> is the flush operation: \<open>file_count\<close> counts the references to the file, \<open>tables\<close> are
  the file tables of all processes, \<open>me\<close> is the file. \<open>io_mutex\<close> is the mutex \<open>IoMutex\<close>: it is tried
  and given back, whether or not the try succeeded.
\<close>

definition UserspaceClose ::
  "bool \<Rightarrow> nat \<Rightarrow> nat \<Rightarrow> nat list list \<Rightarrow> nat \<Rightarrow> filp option \<Rightarrow> bool \<Rightarrow> world
   \<Rightarrow> fault + (int \<times> filp option \<times> bool \<times> world)" where
  "UserspaceClose dt s file_count tables me pFilp io_mutex w =
     (case pFilp of None \<Rightarrow> Inr (- EBADF, pFilp, io_mutex, w) | Some f \<Rightarrow>
      case private_data f of None \<Rightarrow> Inr (- EBADF, pFilp, False, w) | Some fd \<Rightarrow>
      let used = (if file_count \<noteq> 1 then length (filter (\<lambda>t. me \<in> set t) tables) else 0) in
      if used > 0 then Inr (0, pFilp, False, w)
      else if \<not> valid w then Inr (- ENXIO, Some (f\<lparr>f_op_reset := True\<rparr>), False, w)
      else
        let f = f\<lparr>private_data := None\<rparr> in
        bnd (if fd_ClientID fd \<noteq> no_client
             then ReleaseClientID dt s (fd_ClientID fd) (fd_QMIDev fd) w
             else Inr w) (\<lambda>w.
        Inr (0, Some f, False, w)))"

section \<open>Any number of user processes\<close>

text \<open>The client a file stands for, and the open files with the world they work on.\<close>

definition client_of :: "filp option \<Rightarrow> (nat \<times> u16) option" where
  "client_of F = (case F of None \<Rightarrow> None | Some f \<Rightarrow>
     (case private_data f of None \<Rightarrow> None
      | Some fd \<Rightarrow> if fd_ClientID fd = no_client then None else Some (fd_QMIDev fd, fd_ClientID fd)))"

record users =
  files :: "nat \<Rightarrow> filp option"
  io_mutex :: bool
  uw :: world

datatype user_call =
    Open bool nat nat
  | Ioctl bool nat user_env nat u32 u64
  | File_Read nat user_env nat nat
  | File_Write user_env nat bytes
  | Poll nat
  | Close bool nat nat "nat list list" nat
  | Other_Thread call

abbreviation "set_file p F w u \<equiv> u\<lparr>files := (files u)(p := F), uw := w\<rparr>"

text \<open>A failed open leaves no file.\<close>

fun run_user :: "user_call \<Rightarrow> users \<Rightarrow> fault + users" where
  "run_user (Open devnum_ok i p) u =
     bnd (UserspaceOpen devnum_ok (Some i) \<lparr>private_data = None, f_op_reset = False\<rparr> (uw u)) (\<lambda>(r, f, w).
     Inr (if r = 0 then set_file p (Some f) w u else u\<lparr>uw := w\<rparr>))"
| "run_user (Ioctl dt s ue p cmd arg) u =
     bnd (UserspaceIOCTL dt s ue (files u p) cmd arg (uw u)) (\<lambda>(_, _, F, w). Inr (set_file p F w u))"
| "run_user (File_Read s ue p n) u =
     bnd (UserspaceRead s ue (files u p) n (uw u)) (\<lambda>(_, _, F, w). Inr (set_file p F w u))"
| "run_user (File_Write ue p b) u =
     bnd (UserspaceWrite ue (files u p) b (uw u)) (\<lambda>(_, F, w). Inr (set_file p F w u))"
| "run_user (Poll p) u =
     bnd (UserspacePoll (files u p) (uw u)) (\<lambda>(_, F, w). Inr (set_file p F w u))"
| "run_user (Close dt s refs tables p) u =
     bnd (UserspaceClose dt s refs tables p (files u p) (io_mutex u) (uw u)) (\<lambda>(_, F, m, w).
     Inr ((set_file p F w u)\<lparr>io_mutex := m\<rparr>))"
| "run_user (Other_Thread c) u = bnd (run_call c (uw u)) (\<lambda>w. Inr (u\<lparr>uw := w\<rparr>))"

text \<open>
  The other threads of these runs complete transfers, answer interrupts, suspend, read and write for the
  kernel's own clients and remove the device; a new file gets a number of its own.
\<close>

fun user_allowed :: "user_call \<Rightarrow> users \<Rightarrow> bool" where
  "user_allowed (Open _ _ p) u = (files u p = None)"
| "user_allowed (Other_Thread c) u = (case c of
     Allocate _ _ _ _ \<Rightarrow> False | Release _ _ _ _ \<Rightarrow> False | Start_Worker _ _ \<Rightarrow> False
   | Worker_Turn _ _ \<Rightarrow> False | Connect _ _ _ _ _ _ _ \<Rightarrow> False | Disconnect _ _ _ _ _ _ _ \<Rightarrow> False
   | _ \<Rightarrow> True)"
| "user_allowed _ u = True"

inductive user_step :: "users \<Rightarrow> users \<Rightarrow> bool" where
  user: "user_allowed c u \<Longrightarrow> run_user c u = Inr u' \<Longrightarrow> user_step u u'"
| kernel: "user_step u (u\<lparr>uw := (uw u)\<lparr>kmem := ks, usb := us, events := es\<rparr>\<rparr>)"

inductive user_reachable :: "users \<Rightarrow> users \<Rightarrow> bool" for u0 where
  start: "user_reachable u0 u0"
| step: "user_reachable u0 u \<Longrightarrow> user_step u u' \<Longrightarrow> user_reachable u0 u'"

text \<open>Every file with a client has a registered one, and no two files have the same.\<close>

definition files_ok :: "(nat \<Rightarrow> filp option) \<Rightarrow> gobi \<Rightarrow> bool" where
  "files_ok F g \<longleftrightarrow> (\<forall>p i cid. client_of (F p) = Some (i, cid) \<longrightarrow> cid \<in> set (client_ids i g))
     \<and> (\<forall>p q x. client_of (F p) = Some x \<and> client_of (F q) = Some x \<longrightarrow> p = q)"

definition users_ok :: "users \<Rightarrow> bool" where
  "users_ok u \<longleftrightarrow> driver_inv (gb (uw u)) \<and> files_ok (files u) (gb (uw u))"

lemma files_okD: "files_ok F g \<Longrightarrow> client_of (F p) = Some (i, cid) \<Longrightarrow> cid \<in> set (client_ids i g)"
  by (simp add: files_ok_def)

lemma files_ok_keeps: "files_ok F g \<Longrightarrow> keeps g g' \<Longrightarrow> files_ok F g'"
  by (simp add: files_ok_def keeps_def)

lemma files_ok_one: "files_ok F g \<Longrightarrow> client_of (F p) = Some x \<Longrightarrow> client_of (F q) = Some x \<Longrightarrow> p = q"
  unfolding files_ok_def by blast

lemma files_ok_update:
  assumes "files_ok F g"
    and "\<And>q x. q \<noteq> p \<Longrightarrow> client_of f = Some x \<Longrightarrow> client_of (F q) \<noteq> Some x"
    and "\<And>q i cid. q \<noteq> p \<Longrightarrow> client_of (F q) = Some (i, cid) \<Longrightarrow> cid \<in> set (client_ids i g')"
    and "\<And>i cid. client_of f = Some (i, cid) \<Longrightarrow> cid \<in> set (client_ids i g')"
  shows "files_ok (F(p := f)) g'"
proof -
  have "q = q'" if "client_of ((F(p := f)) q) = Some x" "client_of ((F(p := f)) q') = Some x" for q q' x
    using that assms(2) [of q x] assms(2) [of q' x] files_ok_one [OF assms(1), of q x q']
    by (cases "q = p"; cases "q' = p") simp_all
  moreover have "cid \<in> set (client_ids i g')" if "client_of ((F(p := f)) q) = Some (i, cid)" for q i cid
    using that assms(3) [of q i cid] assms(4) [of i cid] by (cases "q = p") (simp_all del: list.set_map)
  ultimately show ?thesis unfolding files_ok_def by blast
qed

lemma files_ok_same:
  assumes "files_ok F g" and "keeps g g'" and "client_of f = client_of (F p) \<or> client_of f = None"
  shows "files_ok (F(p := f)) g'"
proof (rule files_ok_update [OF assms(1)])
  fix q x assume "q \<noteq> p" "client_of f = Some x"
  then show "client_of (F q) \<noteq> Some x" using assms(3) files_ok_one [OF assms(1), of p x q] by auto
next
  have ids: "client_ids i g' = client_ids i g" for i using assms(2) by (simp add: keeps_def)
  show "cid \<in> set (client_ids i g')" if "client_of (F q) = Some (i, cid)" for q i cid
    using files_okD [OF assms(1) that] by (simp only: ids)
  then show "cid \<in> set (client_ids i g')" if "client_of f = Some (i, cid)" for i cid
    using that assms(3) by auto
qed

lemma files_ok_grown:
  assumes "files_ok F g" and "grown i cid g g'" and "client_of f = None \<or> client_of f = Some (i, cid)"
  shows "files_ok (F(p := f)) g'"
proof (rule files_ok_update [OF assms(1)])
  fix q x assume "client_of f = Some x"
  then show "client_of (F q) \<noteq> Some x"
    using assms(2,3) files_okD [OF assms(1), of q i cid] by (auto simp: grown_def simp del: list.set_map)
next
  fix q j cid' assume "client_of (F q) = Some (j, cid')"
  then show "cid' \<in> set (client_ids j g')"
    using assms(2) files_okD [OF assms(1), of q j cid']
    by (cases "j = i") (simp_all add: grown_def del: list.set_map)
next
  fix j cid' assume "client_of f = Some (j, cid')"
  then show "cid' \<in> set (client_ids j g')" using assms(2,3) by (auto simp: grown_def simp del: list.set_map)
qed

lemma files_ok_shrunk:
  assumes "files_ok F g" and "shrunk i cid g g'" and "client_of (F p) = Some (i, cid)" and "client_of f = None"
  shows "files_ok (F(p := f)) g'"
proof (rule files_ok_update [OF assms(1)])
  fix q j cid' assume q: "q \<noteq> p" "client_of (F q) = Some (j, cid')"
  then have "(j, cid') \<noteq> (i, cid)" using assms(3) files_ok_one [OF assms(1), of p "(i, cid)" q] by auto
  then show "cid' \<in> set (client_ids j g')"
    using assms(2) files_okD [OF assms(1) q(2)]
    by (cases "j = i") (auto simp: shrunk_def simp del: list.set_map)
qed (simp_all add: assms(4))

section \<open>What each call does to the files\<close>

lemma client_of_reset [simp]: "client_of (Some (f\<lparr>f_op_reset := v\<rparr>)) = client_of (Some f)"
  by (simp add: client_of_def)

lemma bind_mux_keeps:
  assumes "keeps old (gb w)" and "\<And>r w'. keeps old (gb w') \<Longrightarrow> Q (r, w')"
  shows "ensures (ioctl_bind_mux s fd w) Q"
  using assms unfolding ioctl_bind_mux_def
  by (auto simp: Let_def lock_free intro!: send_request_keeps [where old = old] keeps_step [where old = old])

lemma Ioctl_post:
  assumes "driver_inv (gb w)"
  shows "ensures (UserspaceIOCTL dt s ue F cmd arg w) (\<lambda>(_, _, F', w').
     (client_of F' = client_of F \<and> keeps (gb w) (gb w'))
     \<or> (\<exists>i cid. (client_of F' = None \<or> client_of F' = Some (i, cid)) \<and> grown i cid (gb w) (gb w')))"
    (is "ensures _ ?Q")
proof (cases "\<exists>f fd. F = Some f \<and> private_data f = Some fd \<and> valid w")
  case False
  then show ?thesis using keeps_refl [OF assms]
    by (auto simp: UserspaceIOCTL_def split: option.split)
next
  case True
  then obtain f fd where f: "F = Some f" "private_data f = Some fd" "valid w" by blast
  have keep: "keeps (gb w) (gb w)" using assms by (rule keeps_refl)
  have get: "ensures (GetClientID dt s sv (fd_QMIDev fd) w) (\<lambda>(result, w).
      ensures (if result < 0 then Inr (result, [], F, w)
       else Inr (0, [], Some (f\<lparr>private_data := Some (fd\<lparr>fd_ClientID := word_of_int result\<rparr>)\<rparr>), w)) ?Q)" for sv
    by (rule GetClientID_grows [OF keep]) (auto simp: client_of_def word_of_int_uint)
  have bind: "ensures (ioctl_bind_mux s fd w) (\<lambda>(result, w). ensures (Inr (result, [], F, w)) ?Q)"
    by (rule bind_mux_keeps [OF keep]) simp
  show ?thesis
    using f(3) keep get bind unfolding UserspaceIOCTL_def f(1)
    by (simp add: f(2) case_prod_unfold copy_to_user_def Let_def lock_free_then [OF lock_free_rd(3)])
qed

lemma Open_post:
  assumes "keeps old (gb w)"
  shows "ensures (UserspaceOpen ok i f w) (\<lambda>(r, f', w'). keeps old (gb w') \<and> (r = 0 \<longrightarrow> client_of (Some f') = None))"
  using assms unfolding UserspaceOpen_def
  by (auto simp: Let_def client_of_def intro!: keeps_step [where old = old] split: option.split)

lemma Read_post:
  assumes "keeps old (gb w)"
  shows "ensures (UserspaceRead s ue F n w) (\<lambda>(_, _, F', w'). keeps old (gb w') \<and> client_of F' = client_of F)"
  using assms unfolding UserspaceRead_def
  by (auto simp: Let_def case_prod_unfold intro!: keeps_step [where old = old] lock_free [THEN lock_free_then]
      split: option.split)

lemma Write_post:
  assumes "keeps old (gb w)"
  shows "ensures (UserspaceWrite ue F b w) (\<lambda>(_, F', w'). keeps old (gb w') \<and> client_of F' = client_of F)"
  using assms unfolding UserspaceWrite_def
  by (auto simp: Let_def intro!: keeps_step [where old = old] split: option.split)

lemma Poll_post:
  assumes "keeps old (gb w)"
  shows "ensures (UserspacePoll F w) (\<lambda>(_, F', w'). keeps old (gb w') \<and> client_of F' = client_of F)"
proof -
  have u: "\<not> locked i (gb w)" for i using keeps_unlocked [OF assms] .
  then have "spin_lock i (gb w) = Inr g \<Longrightarrow> spin_unlock i g = Inr (gb w)" for i g
    by (auto simp: spin_lock_def spin_unlock_def lock_update_idle)
  moreover have "spin_lock i (gb w) \<noteq> Inl f" for i f using u by (simp add: spin_lock_def)
  moreover have "w\<lparr>gb := gb w\<rparr> = w" by simp
  ultimately show ?thesis
    using assms unfolding UserspacePoll_def
    by (auto simp: Let_def ensures_def bnd_def split: option.split sum.split)
qed

lemma Close_post:
  assumes "driver_inv (gb w)" and reg: "\<And>i cid. client_of F = Some (i, cid) \<Longrightarrow> cid \<in> set (client_ids i (gb w))"
  shows "ensures (UserspaceClose dt s refs tables p F m w) (\<lambda>(_, F', _, w').
     (keeps (gb w) (gb w') \<and> (client_of F' = client_of F \<or> client_of F' = None))
     \<or> (\<exists>i cid. client_of F = Some (i, cid) \<and> client_of F' = None \<and> shrunk i cid (gb w) (gb w')))"
    (is "ensures _ ?Q")
proof (cases "\<exists>f fd. F = Some f \<and> private_data f = Some fd")
  case False
  then show ?thesis using keeps_refl [OF assms(1)]
    by (auto simp: UserspaceClose_def split: option.split)
next
  case True
  then obtain f fd where f: "F = Some f" "private_data f = Some fd" by blast
  have keep: "keeps (gb w) (gb w)" using assms(1) by (rule keeps_refl)
  have none: "client_of (Some (f\<lparr>private_data := None\<rparr>)) = None" by (simp add: client_of_def)
  have "ensures (ReleaseClientID dt s (fd_ClientID fd) (fd_QMIDev fd) w)
      (\<lambda>w'. ?Q (0, Some (f\<lparr>private_data := None\<rparr>), False, w'))" if "fd_ClientID fd \<noteq> no_client"
  proof -
    have c: "client_of F = Some (fd_QMIDev fd, fd_ClientID fd)" using f that by (simp add: client_of_def)
    then show ?thesis
      using none by (intro ReleaseClientID_shrinks [OF keep reg [OF c]]) simp_all
  qed
  then show ?thesis
    using keep none unfolding UserspaceClose_def f(1)
    by (simp add: f(2) Let_def)
qed

lemma Other_Thread_post:
  assumes "driver_inv (gb w)" and "user_allowed (Other_Thread c) u"
  shows "ensures (run_call c w) (\<lambda>w'. keeps (gb w) (gb w'))"
proof -
  note k = keeps_refl [OF assms(1)]
  show ?thesis
  proof (cases c)
    case (Interrupt_Done rs st us b n)
    have "ensures (IntCallback rs st us b n (gb w)) (\<lambda>g. qmi_devs g = qmi_devs (gb w))"
      unfolding IntCallback_def
      by (auto simp: Let_def ResubmitIntURB_def GobiSetDownReason_def GobiClearDownReason_def
          intro!: lock_free [THEN lock_free_then])
    then show ?thesis using Interrupt_Done k
      by (auto elim!: ensures_mono intro: keeps_cong [THEN iffD2])
  next
    case (Read_Events cid i)
    then show ?thesis
      by (auto intro!: ReadAsync_keeps [OF k] QMIWDSCallback_keeps [OF k])
  qed (use k assms(2) in \<open>auto intro!: keeps_step [where old = "gb w"]\<close>)
qed

lemma run_user_ok:
  assumes "users_ok u" and "user_allowed c u"
  shows "ensures (run_user c u) users_ok"
proof -
  have inv: "driver_inv (gb (uw u))" and fs: "files_ok (files u) (gb (uw u))"
    using assms(1) by (simp_all add: users_ok_def)
  note k = keeps_refl [OF inv]
  have same: "users_ok (set_file p F' w' u)"
    if "keeps (gb (uw u)) (gb w')" "client_of F' = client_of (files u p) \<or> client_of F' = None" for p F' w'
    using that keeps_inv [OF that(1)] files_ok_same [OF fs] by (simp add: users_ok_def)
  have quiet: "users_ok (u\<lparr>uw := w'\<rparr>)" if "keeps (gb (uw u)) (gb w')" for w'
    using that keeps_inv [OF that] files_ok_keeps [OF fs] by (simp add: users_ok_def)
  show ?thesis
  proof (cases c)
    case (Open ok i p)
    then show ?thesis
      using Open_post [OF k, of ok "Some i" "\<lparr>private_data = None, f_op_reset = False\<rparr>"] same quiet
      by (auto elim!: ensures_mono simp: case_prod_unfold)
  next
    case (Ioctl dt s ue p cmd arg)
    have "users_ok (set_file p F' w' u)"
      if "grown i cid (gb (uw u)) (gb w')" "client_of F' = None \<or> client_of F' = Some (i, cid)" for i cid F' w'
      using that files_ok_grown [OF fs that] by (simp add: users_ok_def grown_def)
    then show ?thesis
      using Ioctl Ioctl_post [OF inv, of dt s ue "files u p" cmd arg] same
      by (auto elim!: ensures_mono simp: case_prod_unfold)
  next
    case (File_Read s ue p n)
    then show ?thesis using Read_post [OF k, of s ue "files u p" n] same
      by (auto elim!: ensures_mono simp: case_prod_unfold)
  next
    case (File_Write ue p b)
    then show ?thesis using Write_post [OF k, of ue "files u p" b] same
      by (auto elim!: ensures_mono simp: case_prod_unfold)
  next
    case (Poll p)
    then show ?thesis using Poll_post [OF k, of "files u p"] same
      by (auto elim!: ensures_mono simp: case_prod_unfold)
  next
    case (Close dt s refs tables p)
    have "users_ok (set_file p F' w' u)"
      if "shrunk i cid (gb (uw u)) (gb w')" "client_of (files u p) = Some (i, cid)" "client_of F' = None" for i cid F' w'
      using that files_ok_shrunk [OF fs that] by (simp add: users_ok_def shrunk_def)
    moreover have "users_ok (v\<lparr>io_mutex := m\<rparr>) = users_ok v" for v m by (simp add: users_ok_def)
    moreover have "cid \<in> set (client_ids i (gb (uw u)))" if "client_of (files u p) = Some (i, cid)" for i cid
      using files_okD [OF fs that] .
    ultimately show ?thesis
      using Close Close_post [OF inv, of "files u p" dt s refs tables p "io_mutex u"] same
      by (auto elim!: ensures_mono simp: case_prod_unfold)
  next
    case (Other_Thread d)
    then show ?thesis using Other_Thread_post [OF inv, of d u] assms(2) quiet
      by (auto elim!: ensures_mono)
  qed
qed

lemma user_reachable_ok: "user_reachable u0 u \<Longrightarrow> users_ok u0 \<Longrightarrow> users_ok u"
proof (induction rule: user_reachable.induct)
  case (step u u')
  then have ok: "users_ok u" by blast
  from step.hyps(2) show ?case
  proof (cases rule: user_step.cases)
    case (user c)
    then show ?thesis using run_user_ok [OF ok user(1)] by simp
  next
    case (kernel ks us es)
    then show ?thesis using ok by (simp add: users_ok_def)
  qed
qed

section \<open>Properties\<close>

text \<open>
  User processes cannot lock up the client memory: starting with no open files on a sound
  driver, in every state that any interleaving of opens, ioctls, reads, writes, polls and closes
  by any number of processes with transfers, interrupts, suspends and the removal of the device can
  reach, every file with a client id holds one that is registered on its device, no two files hold the
  same one, and no call takes a held lock or gives back a free one; so a close only ever releases a
  registered id.
\<close>

theorem user_files_hold_their_clients:
  assumes "driver_inv (gb (uw u0))" and "\<forall>p. files u0 p = None" and "user_reachable u0 u"
  shows "(\<forall>p i cid. client_of (files u p) = Some (i, cid) \<longrightarrow> cid \<in> set (client_ids i (gb (uw u))))
     \<and> (\<forall>p q x. client_of (files u p) = Some x \<and> client_of (files u q) = Some x \<longrightarrow> p = q)
     \<and> (\<forall>c. user_allowed c u \<longrightarrow> run_user c u \<noteq> Inl Deadlock \<and> run_user c u \<noteq> Inl Bad_Unlock)"
proof -
  have "users_ok u0" using assms(1,2) by (simp add: users_ok_def files_ok_def client_of_def)
  then have ok: "users_ok u" using user_reachable_ok [OF assms(3)] by blast
  then have "files_ok (files u) (gb (uw u))" by (simp add: users_ok_def)
  moreover have "run_user c u \<noteq> Inl Deadlock \<and> run_user c u \<noteq> Inl Bad_Unlock" if "user_allowed c u" for c
    using run_user_ok [OF ok that] by auto
  ultimately show ?thesis unfolding files_ok_def by blast
qed

section \<open>A file with a client\<close>

definition file_on :: "u16 \<Rightarrow> nat \<Rightarrow> filp" where
  "file_on cid i = \<lparr>private_data = Some \<lparr>fd_ClientID = cid, fd_QMIDev = i\<rparr>, f_op_reset = False\<rparr>"

lemma file_on_sel [simp]:
  "private_data (file_on cid i) = Some \<lparr>fd_ClientID = cid, fd_QMIDev = i\<rparr>"
  by (simp add: file_on_def)

abbreviation "ready w \<equiv> w\<lparr>gb := (gb w)\<lparr>mbQMIReadyStatus := True\<rparr>\<rparr>"

lemma as_size_small: "m < 65536 \<Longrightarrow> as_size (int m) = int m"
  by (simp add: as_size_def)

lemma as_int_small: "m < 65536 \<Longrightarrow> as_int (int m) = int m"
  by (simp add: as_int_def)

lemma message_without_header:
  assumes "6 \<le> unat (n :: u16)"
  shows "int (unat n) - 6 = int (unat n - 6)" "as_size (int (unat n - 6)) = int (unat n - 6)"
proof -
  show "int (unat n) - 6 = int (unat n - 6)" using assms by (simp only: of_nat_diff of_nat_numeral)
  have "unat n - 6 < 65536" using unat_u16_lt [of n] by linarith
  then show "as_size (int (unat n - 6)) = int (unat n - 6)" by (rule as_size_small)
qed

text \<open>
  C36: a read hands the oldest unread message to the user: on a sound driver, for a client with unread data it returns, without
  waiting, the message without its QMUX header and its length, and takes it off the list; when the
  user's buffer is too small the message is taken off all the same and lost.
\<close>

theorem user_read_takes_message:
  assumes "idle w" and "mbQMIReadyStatus (gb w)" and "cid \<noteq> no_client"
    and "FindClientMem (gb w) cid i = Some c" and "mList c = e # es"
    and "driver_inv (gb w)" and "not_copied ue = 0"
  shows "UserspaceRead s ue (Some (file_on cid i)) n w =
     Inr (if unat (rm_size e) - 6 \<le> n then int (unat (rm_size e) - 6) else - EOVERFLOW,
          if unat (rm_size e) - 6 \<le> n then drop 6 (rm_data e) else [],
          Some (file_on cid i), upd_gb (set_client cid i (\<lambda>c. c\<lparr>mList := es\<rparr>)) w)"
proof -
  have v: "valid w" using assms(1) by (simp add: idle_def)
  have "message_ok (rm_data e) (rm_size e)"
    using keeps_client [OF keeps_refl [OF assms(6)] found_client [OF assms(4)]] assms(5) by (simp add: client_ok_def)
  then have size: "length (rm_data e) = unat (rm_size e)" "6 < unat (rm_size e)" by (simp_all add: message_ok_def)
  have r: "ReadSync s cid 0 i w = Inr (int (unat (rm_size e)), Some (rm_data e), upd_gb (set_client cid i (\<lambda>c. c\<lparr>mList := es\<rparr>)) w)"
    using v assms(4,5) read_loop_ready [OF assms(1,4), of 0 e es "- EINTR" s] by (simp add: ReadSync_def)
  have pos: "\<not> int (unat (rm_size e)) \<le> 0" using size(2) by linarith
  have hdr: "unat QMUXHeaderSize = 6" by (simp add: QMUXHeaderSize_def sizeof_sQMUX_def)
  have "6 \<le> unat (rm_size e)" using size(2) by simp
  note m = message_without_header [OF this]
  have rd: "rd_block (rm_data e) 6 (unat (rm_size e) - 6) = Inr (drop 6 (rm_data e))"
    using size by (simp add: rd_block_def)
  have f: "private_data (file_on cid i) = Some \<lparr>fd_ClientID = cid, fd_QMIDev = i\<rparr>" by simp
  show ?thesis
    using assms(3,7) unfolding UserspaceRead_def option.case f
    by (simp only: Let_def v assms(2) pos r bnd_simps split_conv hdr m nat_int if_True if_False filp_data.simps
        not_True_eq_False of_nat_numeral) (simp add: rd deref_def copy_to_user_def size(1))
qed

text \<open>A client with one unread message of four bytes behind the header.\<close>

abbreviation "unread_example \<equiv> \<lparr>rm_data = message_for 0x101 [1, 2, 3, 4], rm_tid = 5, rm_size = 10\<rparr>"

definition inbox_example :: world where
  "inbox_example = upd_gb (set_client 0x101 0 (\<lambda>c. c\<lparr>mList := [unread_example]\<rparr>)) (ready (world_example []))"

lemma inbox_example_ok [simp]:
  "driver_inv (gb inbox_example)" "idle inbox_example" "mbQMIReadyStatus (gb inbox_example)" "running inbox_example" "usb inbox_example = []"
  "FindClientMem (gb inbox_example) 0x101 0 = Some ((client_example 0x101)\<lparr>mList := [unread_example]\<rparr>)"
proof -
  have r: "running (world_example [])" by simp
  then show "idle inbox_example" "mbQMIReadyStatus (gb inbox_example)" "running inbox_example" "usb inbox_example = []"
    by (simp_all add: inbox_example_def idle_def running_def del: world_example_ok(6))
  show "FindClientMem (gb inbox_example) 0x101 0 = Some ((client_example 0x101)\<lparr>mList := [unread_example]\<rparr>)"
    by (simp add: inbox_example_def gobi_example_def dev_example_def client_example_def FindClientMem_find)
  have "keeps gobi_example (set_client 0x101 0 (\<lambda>c. c\<lparr>mList := [unread_example]\<rparr>) (gb (ready (world_example []))))"
    by (rule keeps_set_client)
      (simp_all add: keeps_def client_change_def client_ok_def message_ok_def del: list.set_map)
  then show "driver_inv (gb inbox_example)" by (simp add: inbox_example_def keeps_inv)
qed

theorem user_read_takes_message_witness:
  "(\<exists>w. UserspaceRead 5 \<lparr>not_copied = 0, has_netdev = True, idVendor = 0, idProduct = 0\<rparr>
       (Some (file_on 0x101 0)) 4 inbox_example = Inr (4, [1, 2, 3, 4], Some (file_on 0x101 0), w))
   \<and> (\<exists>w. UserspaceRead 5 \<lparr>not_copied = 0, has_netdev = True, idVendor = 0, idProduct = 0\<rparr>
       (Some (file_on 0x101 0)) 3 inbox_example = Inr (- EOVERFLOW, [], Some (file_on 0x101 0), w))"
  using user_read_takes_message [of inbox_example "0x101" 0 "(client_example 0x101)\<lparr>mList := [unread_example]\<rparr>"
      unread_example "[]" "\<lparr>not_copied = 0, has_netdev = True, idVendor = 0, idProduct = 0\<rparr>" 5]
  by (simp_all add: message_for_def)

text \<open>
  C32: a write sends exactly the user's bytes: on a running driver, for a registered client and at most
  65529 bytes, \<open>UserspaceWrite\<close> returns the number of bytes handed in, the device gets them behind a
  QMUX header with the client's id and the length, and all memory is given back.
\<close>

theorem user_write_sends:
  assumes "running w" and "usb w = []" and "no_unplug w" and "mbQMIReadyStatus (gb w)" and "cid \<noteq> no_client"
    and "FindClientMem (gb w) cid i = Some c" and "mURBList c = []"
    and "length b < 65530" and "not_copied ue = 0"
  shows "UserspaceWrite ue (Some (file_on cid i)) b w = Inr (int (length b), Some (file_on cid i),
     w\<lparr>gb := (gb w)\<lparr>usb_written := usb_written (gb w)
          @ [qmux_bytes (word_of_nat (length b + 6) - 1) 0 cid @ b]\<rparr>,
       next_urb := next_urb w + 1\<rparr>)"
proof -
  let ?n = "length b + 6" and ?w = "w\<lparr>live := live w + 1\<rparr>"
  have v: "valid w" "kmem w = []" using assms(1) by (simp_all add: running_def idle_def)
  have hdr: "unat QMUXHeaderSize = 6" by (simp add: QMUXHeaderSize_def sizeof_sQMUX_def)
  have total: "int (length b) + int 6 = int ?n" by simp
  have n: "?n < 65536" using assms(8) by simp
  have al: "alloc w = (True, ?w)" using v(2) by (simp add: alloc_def pop_kmem_def)
  have "running ?w" "no_unplug ?w" using assms(1,3) by (simp_all add: running_def idle_def)
  then have s: "WriteSync (Some (replicate 6 0 @ b)) (int ?n) cid i ?w = Inr (int ?n,
     ?w\<lparr>gb := (gb w)\<lparr>usb_written := usb_written (gb w) @ [take ?n (qmux_bytes (word_of_nat ?n - 1) 0 cid @ b)]\<rparr>,
       next_urb := next_urb w + 1\<rparr>)"
    using WriteSync_sends [of ?w cid i c ?n "replicate 6 0 @ b"] assms(2,6,7) n by simp
  have f: "private_data (file_on cid i) = Some \<lparr>fd_ClientID = cid, fd_QMIDev = i\<rparr>" by simp
  show ?thesis
    using v(1) assms(4,5,9) unfolding UserspaceWrite_def option.case f
    by (simp only: al Let_def split_conv hdr total as_int_small [OF n] as_size_small [OF n] s bnd_simps filp_data.simps
        if_True if_False) (simp add: free_def)
qed

abbreviation "user_example k \<equiv> \<lparr>not_copied = k, has_netdev = True, idVendor = 0, idProduct = 0\<rparr>"

theorem user_write_sends_witness:
  "\<exists>w. UserspaceWrite (user_example 0) (Some (file_on 0x101 0)) [1, 2, 3] inbox_example
     = Inr (3, Some (file_on 0x101 0), w) \<and> usb_written (gb w) = usb_written (gb inbox_example) @ [[1, 8, 0, 0, 1, 1, 1, 2, 3]]"
proof -
  have "no_unplug inbox_example" by (simp add: inbox_example_def)
  then show ?thesis
    using user_write_sends [of inbox_example "0x101" 0 "(client_example 0x101)\<lparr>mList := [unread_example]\<rparr>" "[1, 2, 3]"
        "user_example 0"] by (simp add: qmux_bytes_def le16_def)
qed

text \<open>
  C31: a write whose buffer cannot be read is reported as a success: when \<open>copy_from_user\<close> leaves out
  some bytes the call returns how many, a positive number, although nothing was sent; the driver
  state is unchanged and the buffer is freed.
\<close>

theorem user_write_fault_reports_success:
  assumes "running w" and "mbQMIReadyStatus (gb w)" and "cid \<noteq> no_client"
    and "0 < not_copied ue" and "0 < length b" and "length b < 65536"
  shows "UserspaceWrite ue (Some (file_on cid i)) b w
     = Inr (int (min (not_copied ue) (length b)), Some (file_on cid i), w)"
proof -
  have v: "valid w" "kmem w = []" using assms(1) by (simp_all add: running_def idle_def)
  have "min (not_copied ue) (length b) < 65536" using assms(6) by simp
  note small = as_int_small [OF this]
  have "min (not_copied ue) (length b) \<noteq> 0" using assms(4,5) by auto
  then show ?thesis
    using v assms(2,3) by (simp add: UserspaceWrite_def alloc_def pop_kmem_def free_def small del: of_nat_min)
qed

theorem user_write_fault_reports_success_witness:
  "UserspaceWrite (user_example 2) (Some (file_on 0x101 0)) [1, 2, 3] inbox_example
     = Inr (2, Some (file_on 0x101 0), inbox_example)"
  using user_write_fault_reports_success [of inbox_example "0x101" "user_example 2" "[1, 2, 3]" 0] by simp

text \<open>
  A poll tells whether a read would wait: for a registered client it always reports that a write is
  possible, reports input exactly when the client has unread data, and leaves everything as it was.
\<close>

theorem poll_reports_unread:
  assumes "idle w" and "mbQMIReadyStatus (gb w)" and "cid \<noteq> no_client"
    and "FindClientMem (gb w) cid i = Some c"
  shows "UserspacePoll (Some (file_on cid i)) w
     = Inr (if mList c = [] then 0x104 else 0x145, Some (file_on cid i), w)"
proof -
  have v: "valid w" "\<not> locked i (gb w)" using assms(1) by (simp_all add: idle_def)
  have f: "FindClientMem (set_dev i (\<lambda>d. d\<lparr>mClientMemLock := True\<rparr>) (gb w)) cid i = Some c"
    using assms(4) by (simp add: FindClientMem_find split: if_splits)
  show ?thesis
    using v assms(2,3) f by (simp add: UserspacePoll_def spin_lock_def spin_unlock_def lock_update_idle Let_def)
qed

theorem poll_reports_unread_witness:
  "UserspacePoll (Some (file_on 0x101 0)) inbox_example = Inr (0x145, Some (file_on 0x101 0), inbox_example)"
  using poll_reports_unread [of inbox_example "0x101" 0 "(client_example 0x101)\<lparr>mList := [unread_example]\<rparr>"] by simp

text \<open>
  The character device of a QMI device can be opened until its transaction counter wraps: the
  65536th request of the driver carries into the MUX id, and from then on the open computes the
  driver structure from the wrong member and follows a wild pointer.
\<close>

theorem open_fails_after_counter_overflow:
  assumes "running w" and "MuxId (qd_cfg (qmi_devs (gb w) 0)) = 0x81"
    and "mQMITransactionID (qmi_devs (gb w) 0) = 0xFFFF"
  shows "UserspaceOpen True (Some 0) f w
         = Inr (0, f\<lparr>private_data := Some \<lparr>fd_ClientID = no_client, fd_QMIDev = 0\<rparr>\<rparr>, w)
     \<and> UserspaceOpen True (Some 0) f (snd (take_tid 0 w)) = Inl Wild_Pointer"
proof -
  have v: "valid w" "kmem w = []" using assms(1) by (simp_all add: running_def idle_def)
  then have "UserspaceOpen True (Some 0) f w
         = Inr (0, f\<lparr>private_data := Some \<lparr>fd_ClientID = no_client, fd_QMIDev = 0\<rparr>\<rparr>, w)"
    using assms(2) by (simp add: UserspaceOpen_def pop_kmem_def)
  moreover have "UserspaceOpen True (Some 0) f (snd (take_tid 0 w)) = Inl Wild_Pointer"
    using assms(2,3)
    by (simp add: UserspaceOpen_def take_tid_def GetTransactionID_def atomic_add_1_spec tid_word_low Let_def)
  ultimately show ?thesis ..
qed

definition overflow_example :: world where
  "overflow_example = upd_gb (set_dev 0 (\<lambda>d. d\<lparr>mQMITransactionID := 0xFFFF\<rparr>)) (world_example [])"

theorem open_fails_after_counter_overflow_witness:
  "UserspaceOpen True (Some 0) (file_on 0 0) (snd (take_tid 0 overflow_example)) = Inl Wild_Pointer"
proof -
  have "running (world_example [])" by simp
  then have "running overflow_example"
    by (simp add: overflow_example_def running_def idle_def del: world_example_ok(6))
  moreover have "MuxId (qd_cfg (qmi_devs (gb overflow_example) 0)) = 0x81"
    by (simp add: overflow_example_def gobi_example_def dev_example_def cfg_example_def)
  moreover have "mQMITransactionID (qmi_devs (gb overflow_example) 0) = 0xFFFF"
    by (simp add: overflow_example_def)
  ultimately show ?thesis using open_fails_after_counter_overflow [of overflow_example "file_on 0 0"] by blast
qed

theorem user_files_hold_their_clients_witness:
  "\<exists>u. user_reachable \<lparr>files = \<lambda>_. None, io_mutex = False, uw = world_example []\<rparr> u
     \<and> files u 7 = Some (file_on no_client 0)
     \<and> (\<forall>c. user_allowed c u \<longrightarrow> run_user c u \<noteq> Inl Deadlock \<and> run_user c u \<noteq> Inl Bad_Unlock)"
proof -
  let ?u0 = "\<lparr>files = \<lambda>_. None, io_mutex = False, uw = world_example []\<rparr>"
  define u where "u = set_file 7 (Some (file_on no_client 0)) (world_example []) ?u0"
  have valid: "mbQMIValid gobi_example" "MuxId (qd_cfg (qmi_devs gobi_example 0)) = 0x81"
    by (simp_all add: gobi_example_def dev_example_def cfg_example_def)
  have "run_user (Open True 0 7) ?u0 = Inr u"
    using valid by (simp add: u_def UserspaceOpen_def pop_kmem_def file_on_def)
  then have "user_step ?u0 u" by (intro user_step.user [of "Open True 0 7"]) simp_all
  then have r: "user_reachable ?u0 u" by (rule user_reachable.step [OF user_reachable.start])
  have "driver_inv (gb (uw ?u0))" "\<forall>p. files ?u0 p = None" by simp_all
  then have "\<forall>c. user_allowed c u \<longrightarrow> run_user c u \<noteq> Inl Deadlock \<and> run_user c u \<noteq> Inl Bad_Unlock"
    using user_files_hold_their_clients [OF _ _ r] by blast
  moreover have "files u 7 = Some (file_on no_client 0)" by (simp add: u_def)
  ultimately show ?thesis using r by blast
qed

end
