(* ===== verification/Aio.thy ===== *)
theory Aio
  imports Userspace
begin

text \<open>
  Asynchronous I/O on the character device, from \<^verbatim>\<open>qmidevice.c\<close>: \<open>UserspaceReadIter\<close> and
  \<open>UserspaceWriteIter\<close>, the completion of their transfers, the workers that copy and cancel.

  A request of a user process (\<open>kiocb\<close>) has a number; \<open>ki_log\<close> lists the completions, each with its
  result and the bytes that arrived in the user's buffer (kernels from 5.16 on: one result). The contexts
  of the requests are in the driver state (\<open>io_ctxs\<close>, \<open>None\<close>: not allocated), so that a use of a
  freed one is \<open>Wild_Pointer\<close>.
\<close>

unbundle bit_operations_syntax

section \<open>Requests\<close>

abbreviation (input) "EIOCBQUEUED \<equiv> (529 :: int)"
abbreviation (input) "EINPROGRESS \<equiv> (115 :: int)"

datatype cancel = Aio_Read_Cancel | Aio_Write_Cancel

record kiocb =
  ki_filp :: "nat option"
  ki_private :: "nat option"
  is_sync_kiocb :: bool
  cancel_fn :: "cancel option"

text \<open>A write transfer on its way: is its setup packet still allocated?\<close>

record flight =
  fl_urb :: nat
  fl_ctx :: nat
  fl_buf :: bytes
  fl_setup :: bool

record aio =
  us :: users
  kiocbs :: "nat \<Rightarrow> kiocb"
  flights :: "flight list"
  ki_log :: "(nat \<times> int \<times> bytes) list"
  next_io :: nat

abbreviation "aw a \<equiv> uw (us a)"
abbreviation "ctxs a \<equiv> io_ctxs (gb (aw a))"
abbreviation "set_w w a \<equiv> a\<lparr>us := (us a)\<lparr>uw := w\<rparr>\<rparr>"
abbreviation "upd_w f a \<equiv> a\<lparr>us := (us a)\<lparr>uw := f (aw a)\<rparr>\<rparr>"
abbreviation "upd_g f a \<equiv> set_w (upd_gb f (aw a)) a"
abbreviation "set_ctx p x a \<equiv> upd_g (\<lambda>g. g\<lparr>io_ctxs := (io_ctxs g)(p := x)\<rparr>) a"
abbreviation "queue_work wk a \<equiv> upd_g (\<lambda>g. g\<lparr>mpWorkQ := mpWorkQ g @ [wk]\<rparr>) a"
abbreviation "upd_kiocb k f a \<equiv> a\<lparr>kiocbs := (kiocbs a)(k := f (kiocbs a k))\<rparr>"
abbreviation "ki_complete k r out a \<equiv> a\<lparr>ki_log := ki_log a @ [(k, r, out)]\<rparr>"

text \<open>The file of a request, its number and its structure.\<close>

definition filp_of :: "aio \<Rightarrow> nat \<Rightarrow> filp option" where
  "filp_of a k = (case ki_filp (kiocbs a k) of None \<Rightarrow> None | Some n \<Rightarrow> files (us a) n)"

section \<open>Reading\<close>

definition processIo :: "nat \<Rightarrow> aio \<Rightarrow> fault + (int \<times> aio)" where
  "processIo aioDataCtx a =
     (case ctxs a aioDataCtx of None \<Rightarrow> Inl Wild_Pointer | Some x \<Rightarrow>
      case filp_of a (io_kiocb x) of None \<Rightarrow> Inr (- EBADF, a) | Some f \<Rightarrow>
      case private_data f of None \<Rightarrow> Inl Null_Deref | Some fd \<Rightarrow>
      let (alloc_ok, w) = pop_kmem (aw a) in
      bnd (on_gb (\<lambda>g. ReadAsync alloc_ok g (fd_ClientID fd) 0 (Some Fn_QMIAIOReadcallback)
             (\<lambda>g. QMIAIOReadcallback g (fd_ClientID fd) aioDataCtx (fd_QMIDev fd)) aioDataCtx (fd_QMIDev fd)) w)
        (\<lambda>(res, w).
      Inr (if res \<noteq> 0 then res else - EIOCBQUEUED, set_w w a)))"

text \<open>
  \<open>room\<close> is the count of the iterator. The result of duplicating it is not checked: an iterator
  that was not duplicated has no segments.
\<close>

definition UserspaceReadIter :: "nat option \<Rightarrow> nat \<Rightarrow> aio \<Rightarrow> fault + (int \<times> aio)" where
  "UserspaceReadIter pk room a =
     (let (ok, w) = alloc (aw a); a = set_w w a in
      if \<not> ok then Inr (- ENOMEM, a) else
      let aioDataCtx = next_io a; a = a\<lparr>next_io := next_io a + 1\<rparr> in
      case pk of None \<Rightarrow> Inl Null_Deref | Some k \<Rightarrow>
      if is_sync_kiocb (kiocbs a k) then Inr (- EINVAL, a) else
      let (dup, w) = alloc (aw a); a = set_w w a in
      case filp_of a k of None \<Rightarrow> Inr (- ENXIO, a) | Some f \<Rightarrow>
      case private_data f of None \<Rightarrow> Inr (- ENXIO, a) | Some fd \<Rightarrow>
      let release = (\<lambda>a. set_w (free (if dup then free (aw a) else aw a)) a) in
      if \<not> mbQMIReadyStatus (gb (aw a)) then Inr (- ENXIO, release a)
      else
        let a = set_ctx aioDataCtx (Some \<lparr>io_kiocb = k, io_room = room, io_to_free = dup,
                  io_mpData = None, io_mDataLen = 0\<rparr>) a;
            a = upd_kiocb k (\<lambda>q. q\<lparr>ki_private := Some aioDataCtx, cancel_fn := Some Aio_Read_Cancel\<rparr>) a in
        bnd (processIo aioDataCtx a) (\<lambda>(res, a).
        if res = - EIOCBQUEUED then Inr (res, a)
        else Inr (res, set_ctx aioDataCtx None (release a))))"

text \<open>The worker that copies: it frees the context, neither the message nor the iterator.\<close>

definition aio_read_copy_worker :: "user_env \<Rightarrow> nat \<Rightarrow> aio \<Rightarrow> fault + aio" where
  "aio_read_copy_worker ue aioDataCtx a =
     (case ctxs a aioDataCtx of None \<Rightarrow> Inl Wild_Pointer | Some x \<Rightarrow>
      bnd (case io_mpData x of None \<Rightarrow> Inr (0, [])
           | Some d \<Rightarrow>
               let n = min (unat (io_mDataLen x)) (io_room x) in
               if \<not> io_to_free x then Inl Null_Deref else
               bnd (rd_block d 0 n) (\<lambda>b.
               let (left, out) = copy_to_user ue b in Inr (int n - left, out))) (\<lambda>(ret, out).
      let a = ki_complete (io_kiocb x) ret out a in
      Inr (set_ctx aioDataCtx None (set_w (free (aw a)) a))))"

definition aio_read_cancel :: "nat \<Rightarrow> aio \<Rightarrow> fault + (int \<times> aio)" where
  "aio_read_cancel k a =
     (case ki_private (kiocbs a k) of None \<Rightarrow> Inl Null_Deref | Some io_data \<Rightarrow>
      case ctxs a io_data of None \<Rightarrow> Inl Wild_Pointer | Some _ \<Rightarrow>
      Inr (- EINPROGRESS, queue_work (Cancel_Read_Work io_data) a))"

text \<open>The mutex is tried, whatever comes of it, and given back.\<close>

definition aio_read_cancel_worker :: "nat \<Rightarrow> aio \<Rightarrow> fault + aio" where
  "aio_read_cancel_worker io_data a =
     (case ctxs a io_data of None \<Rightarrow> Inl Wild_Pointer | Some x \<Rightarrow>
      let a = a\<lparr>us := (us a)\<lparr>io_mutex := False\<rparr>\<rparr> in
      case filp_of a (io_kiocb x) of None \<Rightarrow> Inr a | Some f \<Rightarrow>
      case private_data f of None \<Rightarrow> Inr a | Some fd \<Rightarrow>
      case FindClientMem (gb (aw a)) (fd_ClientID fd) (fd_QMIDev fd) of None \<Rightarrow> Inr a | Some _ \<Rightarrow>
      bnd (remove_waiter io_data (fd_QMIDev fd) (fd_ClientID fd) (gb (aw a))) (\<lambda>g.
      Inr (ki_complete (io_kiocb x) 0 [] (upd_g (\<lambda>_. g) a))))"

section \<open>Writing\<close>

text \<open>The setup packet is freed as soon as the transfer is submitted.\<close>

definition WriteAsync :: "bytes \<Rightarrow> int \<Rightarrow> u16 \<Rightarrow> nat \<Rightarrow> nat \<Rightarrow> aio \<Rightarrow> fault + (int \<times> aio)" where
  "WriteAsync pWriteBuffer writeBufferSize clientID i pAioDataCtx a =
     (if \<not> valid (aw a) then Inr (- ENXIO, a) else
      let (ok, w) = alloc (aw a) in
      if \<not> ok then Inr (- ENOMEM, set_w w a) else
      let pWriteURB = next_urb w; w = w\<lparr>next_urb := next_urb w + 1\<rparr> in
      bnd (FillQMUX clientID (Some pWriteBuffer) (word_of_int writeBufferSize)) (\<lambda>(result, buf).
      if result < 0 then Inr (result, set_w (free w) a) else
      let (ok, w) = alloc w in
      if \<not> ok then Inr (- ENOMEM, set_w w a) else
      let (result, w) = pop_usb w in
      if result < 0 then
        let w = (if result = - EPERM
                 then let (s, w) = pop_usb w in upd_gb (\<lambda>g. snd (GobiSuspend s PM_EVENT_SUSPEND g)) w
                 else w)
        in Inr (result, set_w (free (free w)) a)
      else
      let w = w\<lparr>autopm := autopm w + 1\<rparr>;
          (ok, w) = pop_kmem w in
      bnd (on_gb (\<lambda>g. AddToURBList ok g clientID pWriteURB i) w) (\<lambda>(added, w).
      if \<not> added then Inr (- EINVAL, set_w (free (free (w\<lparr>autopm := autopm w - 1\<rparr>))) a) else
      bnd (case ctxs a pAioDataCtx of None \<Rightarrow> Inl Wild_Pointer
           | Some x \<Rightarrow> Inr (upd_kiocb (io_kiocb x) (\<lambda>q. q\<lparr>cancel_fn := Some Aio_Write_Cancel\<rparr>) a)) (\<lambda>a.
      let (result, w) = pop_usb w in
      if result < 0 then
        bnd (on_gb (\<lambda>g. PopFromURBList g clientID i) w) (\<lambda>(popped, w).
        let w = (if popped \<noteq> Some pWriteURB then w else free w)
        in Inr (result, set_w (free (w\<lparr>autopm := autopm w - 1\<rparr>)) a))
      else
        bnd (deref buf) (\<lambda>b.
        let transfer = \<lparr>fl_urb = pWriteURB, fl_ctx = pAioDataCtx, fl_buf = take (nat writeBufferSize) b,
              fl_setup = True\<rparr>;
            transfer = transfer\<lparr>fl_setup := False\<rparr>
        in Inr (- EIOCBQUEUED, set_w (free w) (a\<lparr>flights := flights a @ [transfer]\<rparr>)))))))"

text \<open>The completion of a transfer, with the number of bytes the device took.\<close>

definition WriteAsyncCallback :: "flight \<Rightarrow> u32 \<Rightarrow> aio \<Rightarrow> fault + aio" where
  "WriteAsyncCallback fl actual_length a =
     (case ctxs a (fl_ctx fl) of None \<Rightarrow> Inl Wild_Pointer | Some x \<Rightarrow>
      case filp_of a (io_kiocb x) of None \<Rightarrow> Inl Null_Deref | Some f \<Rightarrow>
      let k = io_kiocb x; w = (aw a)\<lparr>autopm := autopm (aw a) - 1\<rparr>; a = set_w w a in
      if \<not> valid w then Inr (ki_complete k (- EINVAL) [] (set_w (free (free w)) a)) else
      case private_data f of None \<Rightarrow> Inl Null_Deref | Some fd \<Rightarrow>
      bnd (on_gb (\<lambda>g. PopFromURBList g (fd_ClientID fd) (fd_QMIDev fd)) w) (\<lambda>(popped, w).
      if popped \<noteq> Some (fl_urb fl) then
        let (ok, w) = pop_kmem w in
        bnd (on_gb (\<lambda>g. AddToURBList ok g (fd_ClientID fd) (fl_urb fl) (fd_QMIDev fd)) w) (\<lambda>(_, w).
        Inr (ki_complete k 0 [] (set_w w a)))
      else Inr (ki_complete k (int (unat (actual_length - ucast QMUXHeaderSize))) []
                  (set_w (free (free w)) a))))"

text \<open>The user's bytes are \<open>b\<close>, of which \<open>not_copied\<close> cannot be read.\<close>

definition UserspaceWriteIter :: "user_env \<Rightarrow> nat option \<Rightarrow> bytes \<Rightarrow> aio \<Rightarrow> fault + (int \<times> aio)" where
  "UserspaceWriteIter ue pk b a =
     (case pk of None \<Rightarrow> Inr (- EBADF, a) | Some k \<Rightarrow>
      case ki_filp (kiocbs a k) of None \<Rightarrow> Inr (- EBADF, a) | Some n \<Rightarrow>
      case files (us a) n of None \<Rightarrow> Inr (- EBADF, a) | Some f \<Rightarrow>
      case private_data f of None \<Rightarrow> Inr (- EBADF, a) | Some fd \<Rightarrow>
      if \<not> valid (aw a)
      then Inr (- ENXIO, a\<lparr>us := (us a)\<lparr>files := (files (us a))(n \<mapsto> f\<lparr>f_op_reset := True\<rparr>)\<rparr>\<rparr>)
      else if \<not> mbQMIReadyStatus (gb (aw a)) then Inr (- ENXIO, a)
      else if fd_ClientID fd = no_client then Inr (- EBADR, a)
      else if is_sync_kiocb (kiocbs a k) then Inr (- EINVAL, a)
      else
        let (ok, w) = alloc (aw a); a = set_w w a in
        if \<not> ok then Inr (- ENOMEM, a) else
        let p = next_io a;
            a = set_ctx p (Some \<lparr>io_kiocb = k, io_room = 0, io_to_free = False, io_mpData = None,
                  io_mDataLen = 0\<rparr>) (a\<lparr>next_io := next_io a + 1\<rparr>);
            (ok, w) = alloc (aw a); a = set_w w a in
        if \<not> ok then Inr (- ENOMEM, a) else
        let left = min (not_copied ue) (length b); copied = length b - left in
        if copied = 0 then Inr (- EINVAL, set_w (free (aw a)) a)
        else
          let size = as_int (int (length b)); total = size + int (unat QMUXHeaderSize) in
          bnd (WriteAsync (replicate (unat QMUXHeaderSize) 0 @ take copied b @ replicate left 0)
                 total (fd_ClientID fd) (fd_QMIDev fd) p a) (\<lambda>(status, a).
          Inr (if status = total then size else status, a)))"

definition aio_write_cancel :: "nat \<Rightarrow> aio \<Rightarrow> fault + (int \<times> aio)" where
  "aio_write_cancel k a =
     (case ki_private (kiocbs a k) of None \<Rightarrow> Inl Null_Deref | Some io_data \<Rightarrow>
      case ctxs a io_data of None \<Rightarrow> Inl Wild_Pointer | Some _ \<Rightarrow>
      Inr (- EINPROGRESS, queue_work (Cancel_Write_Work io_data) a))"

text \<open>No code sets the URB of a context, so nothing is killed.\<close>

definition aio_cancel_worker :: "nat \<Rightarrow> aio \<Rightarrow> fault + aio" where
  "aio_cancel_worker io_data a =
     (case ctxs a io_data of None \<Rightarrow> Inl Wild_Pointer | Some x \<Rightarrow>
      case filp_of a (io_kiocb x) of None \<Rightarrow> Inl Null_Deref | Some _ \<Rightarrow>
      Inr (ki_complete (io_kiocb x) (- 1) [] a))"

section \<open>Synchronous and asynchronous calls together\<close>

definition aio_read_run :: "user_env \<Rightarrow> aio \<Rightarrow> fault + aio" where
  "aio_read_run ue a = (case mpWorkQ (gb (aw a)) of [] \<Rightarrow> Inr a
     | wk # rest \<Rightarrow>
         let a = upd_g (\<lambda>g. g\<lparr>mpWorkQ := rest\<rparr>) a in
         case wk of Copy_Work p \<Rightarrow> aio_read_copy_worker ue p a
         | Cancel_Read_Work p \<Rightarrow> aio_read_cancel_worker p a
         | Cancel_Write_Work p \<Rightarrow> aio_cancel_worker p a)"

datatype aio_call =
    Sync_Call user_call
  | Read_Iter "nat option" nat
  | Write_Iter user_env "nat option" bytes
  | Write_Complete nat u32
  | Cancel nat
  | Run_Work user_env
  | New_Request nat kiocb

fun run_aio :: "aio_call \<Rightarrow> aio \<Rightarrow> fault + aio" where
  "run_aio (Sync_Call c) a = bnd (run_user c (us a)) (\<lambda>u. Inr (a\<lparr>us := u\<rparr>))"
| "run_aio (Read_Iter pk room) a = bnd (UserspaceReadIter pk room a) (\<lambda>(_, a). Inr a)"
| "run_aio (Write_Iter ue pk b) a = bnd (UserspaceWriteIter ue pk b a) (\<lambda>(_, a). Inr a)"
| "run_aio (Write_Complete n len) a =
     (if n < length (flights a)
      then WriteAsyncCallback (flights a ! n) len (a\<lparr>flights := take n (flights a) @ drop (n + 1) (flights a)\<rparr>)
      else Inr a)"
| "run_aio (Cancel k) a = (case cancel_fn (kiocbs a k) of None \<Rightarrow> Inr a
     | Some Aio_Read_Cancel \<Rightarrow> bnd (aio_read_cancel k a) (\<lambda>(_, a). Inr a)
     | Some Aio_Write_Cancel \<Rightarrow> bnd (aio_write_cancel k a) (\<lambda>(_, a). Inr a))"
| "run_aio (Run_Work ue) a = aio_read_run ue a"
| "run_aio (New_Request k q) a = Inr (upd_kiocb k (\<lambda>_. q) a)"

fun aio_allowed :: "aio_call \<Rightarrow> aio \<Rightarrow> bool" where
  "aio_allowed (Sync_Call c) a = user_allowed c (us a)"
| "aio_allowed _ a = True"

inductive aio_reachable :: "aio \<Rightarrow> aio \<Rightarrow> bool" for a0 where
  start: "aio_reachable a0 a0"
| call: "aio_reachable a0 a \<Longrightarrow> aio_allowed c a \<Longrightarrow> run_aio c a = Inr a' \<Longrightarrow> aio_reachable a0 a'"
| kernel: "aio_reachable a0 a \<Longrightarrow> aio_reachable a0 (upd_w (\<lambda>w. w\<lparr>kmem := ks, usb := rs, events := es\<rparr>) a)"

text \<open>What an asynchronous call keeps: the clients of the files and the registered ids.\<close>

definition aio_keeps :: "aio \<Rightarrow> aio \<Rightarrow> bool" where
  "aio_keeps old a \<longleftrightarrow> keeps (gb (aw old)) (gb (aw a))
     \<and> (\<forall>n. client_of (files (us a) n) = client_of (files (us old) n))"

lemma aio_keeps_ok: "aio_keeps old a \<Longrightarrow> users_ok (us old) \<Longrightarrow> users_ok (us a)"
  unfolding aio_keeps_def users_ok_def using keeps_inv files_ok_keeps [of "files (us old)"]
  by (auto simp: files_ok_def)

lemma aio_keeps_refl: "users_ok (us a) \<Longrightarrow> aio_keeps a a"
  by (simp add: aio_keeps_def keeps_refl users_ok_def)

lemma aio_keeps_fields [simp]:
  "aio_keeps old (a\<lparr>kiocbs := ks\<rparr>) = aio_keeps old a" "aio_keeps old (a\<lparr>flights := fs\<rparr>) = aio_keeps old a"
  "aio_keeps old (a\<lparr>ki_log := l\<rparr>) = aio_keeps old a" "aio_keeps old (a\<lparr>next_io := n\<rparr>) = aio_keeps old a"
  "aio_keeps old (a\<lparr>us := (us a)\<lparr>io_mutex := m\<rparr>\<rparr>) = aio_keeps old a"
  by (simp_all add: aio_keeps_def)

lemma aio_keeps_w:
  "aio_keeps old a \<Longrightarrow> keeps (gb (aw old)) (gb w) \<Longrightarrow> aio_keeps old (set_w w a)"
  by (simp add: aio_keeps_def)

lemma aio_keeps_gb: "aio_keeps old a \<Longrightarrow> keeps (gb (aw old)) (gb (aw a))"
  by (simp add: aio_keeps_def)

lemma processIo_keeps:
  assumes "aio_keeps old a" and "\<And>r a'. aio_keeps old a' \<Longrightarrow> Q (r, a')"
  shows "ensures (processIo p a) Q"
  using assms unfolding processIo_def
  by (auto simp: Let_def aio_keeps_w intro!: kernel_step [where old = "gb (aw old)"]
      ReadAsync_keeps [where old = "gb (aw old)"] QMIAIOReadcallback_keeps [where old = "gb (aw old)"]
      split: option.split dest: aio_keeps_gb)

lemma alloc_keeps: "alloc w = (ok, w') \<Longrightarrow> keeps old (gb w) \<Longrightarrow> keeps old (gb w')"
  by (auto dest: alloc_facts)

lemma ReadIter_keeps:
  assumes "aio_keeps old a" and ret: "\<And>r a'. aio_keeps old a' \<Longrightarrow> Q (r, a')"
  shows "ensures (UserspaceReadIter pk room a) Q"
  using assms(1) unfolding UserspaceReadIter_def
  by (auto simp: Let_def aio_keeps_def intro!: kernel_step [where old = "gb (aw old)"] ret
      processIo_keeps [where old = old] split: option.split)

lemma ensures_if [simp]: "ensures (if b then m else n) Q = (if b then ensures m Q else ensures n Q)"
  by simp

lemma copy_worker_keeps:
  assumes "aio_keeps old a" and ret: "\<And>a'. aio_keeps old a' \<Longrightarrow> Q a'"
  shows "ensures (aio_read_copy_worker ue p a) Q"
  using assms(1) unfolding aio_read_copy_worker_def
  by (auto simp: Let_def case_prod_unfold aio_keeps_def intro!: ret lock_free [THEN lock_free_then] split: option.split)

lemma cancel_workers_keep:
  assumes "aio_keeps old a" and ret: "\<And>a'. aio_keeps old a' \<Longrightarrow> Q a'"
  shows "ensures (aio_read_cancel_worker p a) Q" "ensures (aio_cancel_worker p a) Q"
  using assms(1) unfolding aio_read_cancel_worker_def aio_cancel_worker_def
  by (auto simp: Let_def aio_keeps_def intro!: ret remove_waiter_keeps [where old = "gb (aw old)"] split: option.split)

lemma cancels_keep:
  assumes "aio_keeps old a" and "\<And>r a'. aio_keeps old a' \<Longrightarrow> Q (r, a')"
  shows "ensures (aio_read_cancel k a) Q" "ensures (aio_write_cancel k a) Q"
  using assms unfolding aio_read_cancel_def aio_write_cancel_def
  by (auto simp: aio_keeps_def split: option.split)

lemma WriteAsync_keeps:
  assumes "aio_keeps old a" and ret: "\<And>r a'. aio_keeps old a' \<Longrightarrow> Q (r, a')"
  shows "ensures (WriteAsync b n cid i p a) Q"
  using assms(1) unfolding WriteAsync_def
  by (auto simp: Let_def aio_keeps_def intro!: ret keeps_step [where old = "gb (aw old)"]
      lock_free [THEN lock_free_then] split: option.split)

lemma WriteAsyncCallback_keeps:
  assumes "aio_keeps old a" and ret: "\<And>a'. aio_keeps old a' \<Longrightarrow> Q a'"
  shows "ensures (WriteAsyncCallback fl len a) Q"
  using assms(1) unfolding WriteAsyncCallback_def
  by (auto simp: Let_def aio_keeps_def intro!: ret keeps_step [where old = "gb (aw old)"] split: option.split)

lemma WriteIter_keeps:
  assumes "aio_keeps old a" and ret: "\<And>r a'. aio_keeps old a' \<Longrightarrow> Q (r, a')"
  shows "ensures (UserspaceWriteIter ue pk b a) Q"
proof -
  have "aio_keeps old (a\<lparr>us := (us a)\<lparr>files := (files (us a))(n \<mapsto> f\<lparr>f_op_reset := True\<rparr>)\<rparr>\<rparr>)"
    if "files (us a) n = Some f" for n f
  proof -
    have "client_of (Some f) = client_of (files (us old) n)" using assms(1) that unfolding aio_keeps_def by metis
    then show ?thesis using assms(1) by (simp add: aio_keeps_def)
  qed
  then show ?thesis
    using assms(1) unfolding UserspaceWriteIter_def
    by (auto simp: Let_def aio_keeps_def intro!: ret kernel_step [where old = "gb (aw old)"]
        WriteAsync_keeps [where old = old] split: option.split)
qed

lemma run_aio_ok:
  assumes ok: "users_ok (us a)" and "aio_allowed c a"
  shows "ensures (run_aio c a) (\<lambda>a'. users_ok (us a'))"
proof -
  note k = aio_keeps_refl [OF ok]
  have keep: "users_ok (us a')" if "aio_keeps a a'" for a' using aio_keeps_ok [OF that ok] .
  show ?thesis
  proof (cases c)
    case (Sync_Call d)
    then show ?thesis using run_user_ok [OF ok, of d] assms(2) by (auto elim!: ensures_mono)
  next
    case (Read_Iter pk room)
    then show ?thesis by (auto intro!: ReadIter_keeps [OF k] keep)
  next
    case (Write_Iter ue pk b)
    then show ?thesis by (auto intro!: WriteIter_keeps [OF k] keep)
  next
    case (Write_Complete n len)
    then show ?thesis using ok k by (auto intro!: WriteAsyncCallback_keeps [where old = a] keep)
  next
    case (Cancel q)
    then show ?thesis using ok by (auto intro!: cancels_keep [OF k] keep split: option.split cancel.split)
  next
    case (Run_Work ue)
    have "aio_keeps a (upd_g (\<lambda>g. g\<lparr>mpWorkQ := rest\<rparr>) a)" for rest
      using k aio_keeps_gb [OF k] by (simp add: aio_keeps_w)
    then show ?thesis using Run_Work ok
      by (auto simp: aio_read_run_def Let_def intro!: copy_worker_keeps [where old = a]
          cancel_workers_keep [where old = a] keep split: list.split work.split)
  qed (use ok in simp)
qed

lemma aio_reachable_ok: "aio_reachable a0 a \<Longrightarrow> users_ok (us a0) \<Longrightarrow> users_ok (us a)"
proof (induction rule: aio_reachable.induct)
  case (call a c a')
  then show ?case using run_aio_ok [of a c] by simp
qed (simp_all add: users_ok_def)

section \<open>Properties\<close>


text \<open>A request number 3 on file number 7, which stands for client 0x101 of \<open>w\<close>.\<close>

definition aio_example :: "world \<Rightarrow> aio" where
  "aio_example w = \<lparr>us = \<lparr>files = (\<lambda>_. None)(7 := Some (file_on 0x101 0)), io_mutex = False, uw = w\<rparr>,
     kiocbs = (\<lambda>_. \<lparr>ki_filp = Some 7, ki_private = None, is_sync_kiocb = False, cancel_fn = None\<rparr>),
     flights = [], ki_log = [], next_io = 20\<rparr>"

lemma aio_example_sel [simp]:
  "aw (aio_example w) = w" "\<not> is_sync_kiocb (kiocbs (aio_example w) k)" "next_io (aio_example w) = 20"
  "filp_of (aio_example w) k = Some (file_on 0x101 0)" "ki_log (aio_example w) = []"
  by (simp_all add: aio_example_def filp_of_def)


text \<open>What starting an asynchronous read does, in terms of the read of the client.\<close>

definition read_started :: "nat \<Rightarrow> nat \<Rightarrow> aio \<Rightarrow> aio" where
  "read_started k room a = (let p = next_io a in
     upd_kiocb k (\<lambda>q. q\<lparr>ki_private := Some p, cancel_fn := Some Aio_Read_Cancel\<rparr>)
       (set_ctx p (Some \<lparr>io_kiocb = k, io_room = room, io_to_free = True, io_mpData = None, io_mDataLen = 0\<rparr>)
         (upd_w (\<lambda>w. w\<lparr>live := live w + 2, kmem := drop 2 (kmem w)\<rparr>) (a\<lparr>next_io := p + 1\<rparr>))))"

lemma ReadIter_starts:
  assumes "\<forall>ok \<in> set (take 2 (kmem (aw a))). ok" and "\<not> is_sync_kiocb (kiocbs a k)"
    and "filp_of a k = Some (file_on cid i)" and "mbQMIReadyStatus (gb (aw a))"
    and "processIo (next_io a) (read_started k room a) = Inr (- EIOCBQUEUED, a')"
  shows "UserspaceReadIter (Some k) room a = Inr (- EIOCBQUEUED, a')"
proof -
  have al: "alloc (aw a) = (True, (aw a)\<lparr>live := live (aw a) + 1, kmem := drop (Suc 0) (kmem (aw a))\<rparr>)"
    "alloc ((aw a)\<lparr>live := live (aw a) + 1, kmem := drop (Suc 0) (kmem (aw a))\<rparr>)
       = (True, (aw a)\<lparr>live := live (aw a) + 2, kmem := drop 2 (kmem (aw a))\<rparr>)"
    using assms(1) by (cases "kmem (aw a)"; cases "tl (kmem (aw a))"; simp add: alloc_def pop_kmem_def)+
  have f: "filp_of (a\<lparr>next_io := n, us := (us a)\<lparr>uw := w\<rparr>\<rparr>) k = Some (file_on cid i)" for n w
    using assms(3) by (simp add: filp_of_def cong: option.case_cong)
  show ?thesis
    using assms(2,4,5) by (simp add: UserspaceReadIter_def al f read_started_def Let_def)
qed

lemma read_started_sel [simp]:
  "filp_of (read_started k room a) j = filp_of a j"
  "ctxs (read_started k room a) = (ctxs a)(next_io a \<mapsto>
     \<lparr>io_kiocb = k, io_room = room, io_to_free = True, io_mpData = None, io_mDataLen = 0\<rparr>)"
  "FindClientMem (gb (aw (read_started k room a))) = FindClientMem (gb (aw a))"
  "mbQMIValid (gb (aw (read_started k room a))) = mbQMIValid (gb (aw a))"
  "locked i (gb (aw (read_started k room a))) = locked i (gb (aw a))"
  "mpWorkQ (gb (aw (read_started k room a))) = mpWorkQ (gb (aw a))"
  "qmi_devs (gb (aw (read_started k room a))) = qmi_devs (gb (aw a))"
  "ki_log (read_started k room a) = ki_log a" "live (aw (read_started k room a)) = live (aw a) + 2"
  "kmem (aw (read_started k room a)) = drop 2 (kmem (aw a))"
  by (auto simp: read_started_def Let_def filp_of_def fun_eq_iff FindClientMem_find cong: option.case_cong)

lemma word_size_minus:
  assumes "6 \<le> unat (n :: u16)"
  shows "unat (ucast n - 6 :: u64) = unat n - 6"
proof -
  have "unat n < 18446744073709551616" using unat_u16_lt [of n] by linarith
  then have u: "unat (ucast n :: u64) = unat n" by (simp add: unsigned_ucast_eq take_bit_eq_mod)
  have "(6 :: u64) \<le> ucast n" using assms u by (simp add: word_le_nat_alt)
  then show ?thesis using u by (simp add: unat_sub)
qed

text \<open>
  An asynchronous read of a client with unread data takes the oldest message: it is accepted, one worker is
  queued, and the worker completes the request once, with the message without its QMUX header as
  far as it fits into the user's buffer (the rest is lost without an error), frees the context, and
  leaves the duplicated iterator allocated.
\<close>

theorem aio_read_takes_message:
  assumes "idle (aw a)" and "driver_inv (gb (aw a))" and "mbQMIReadyStatus (gb (aw a))"
    and "\<forall>ok \<in> set (take 2 (kmem (aw a))). ok" and "\<not> is_sync_kiocb (kiocbs a k)"
    and "filp_of a k = Some (file_on cid i)" and "FindClientMem (gb (aw a)) cid i = Some c"
    and "mList c = e # es" and "not_copied ue = 0"
  shows "\<exists>a1 a2. UserspaceReadIter (Some k) room a = Inr (- EIOCBQUEUED, a1)
     \<and> mpWorkQ (gb (aw a1)) = mpWorkQ (gb (aw a)) @ [Copy_Work (next_io a)]
     \<and> aio_read_copy_worker ue (next_io a) a1 = Inr a2
     \<and> ki_log a2 = ki_log a @ [(k, int (min (unat (rm_size e) - 6) room), take room (drop 6 (rm_data e)))]
     \<and> FindClientMem (gb (aw a2)) cid i = Some (c\<lparr>mList := es\<rparr>)
     \<and> ctxs a2 (next_io a) = None \<and> live (aw a2) = live (aw a) + 1"
proof -
  let ?p = "next_io a" and ?s = "read_started k room a"
  let ?x = "\<lparr>io_kiocb = k, io_room = room, io_to_free = True, io_mpData = None, io_mDataLen = 0\<rparr>"
  let ?x1 = "?x\<lparr>io_mDataLen := word_of_int (int (unat (rm_size e)) - 6), io_mpData := Some (drop 6 (rm_data e))\<rparr>"
  have v: "mbQMIValid (gb (aw a))" "\<not> locked i (gb (aw a))" using assms(1) by (simp_all add: idle_def)
  have "message_ok (rm_data e) (rm_size e)"
    using keeps_client [OF keeps_refl [OF assms(2)] found_client [OF assms(7)]] assms(8) by (simp add: client_ok_def)
  then have size: "length (rm_data e) = unat (rm_size e)" "9 \<le> unat (rm_size e)" by (simp_all add: message_ok_def)
  obtain ok w where w: "pop_kmem (aw ?s) = (ok, w)" by fastforce
  note f = pop_kmem_facts [OF w]
  define g where "g = (set_client cid i (\<lambda>c. c\<lparr>mList := es\<rparr>) (gb w))\<lparr>io_ctxs := (io_ctxs (gb w))(?p \<mapsto> ?x1),
    mpWorkQ := mpWorkQ (gb w) @ [Copy_Work ?p]\<rparr>"
  have cb: "QMIAIOReadcallback (gb w) cid ?p i = Inr g"
    using QMIAIOReadcallback_runs [of "gb w" i cid c ?p ?x] f v assms(7,8) by (simp add: g_def)
  have s: "gb (aw ?s) = gb w" using f by simp
  have "ReadAsync ok (gb w) cid 0 (Some Fn_QMIAIOReadcallback) (\<lambda>g. QMIAIOReadcallback g cid ?p i) ?p i = Inr (0, g)"
    using cb v f assms(7,8) by (subst ReadAsync_found [of _ cid i c]) (simp_all, blast)
  then have "processIo ?p ?s = Inr (- EIOCBQUEUED, set_w (w\<lparr>gb := g\<rparr>) ?s)"
    using assms(6) by (simp add: processIo_def w on_gb_def)
  then have start: "UserspaceReadIter (Some k) room a = Inr (- EIOCBQUEUED, set_w (w\<lparr>gb := g\<rparr>) ?s)"
    by (rule ReadIter_starts [OF assms(4,5,6,3)])
  let ?a1 = "set_w (w\<lparr>gb := g\<rparr>) ?s" and ?n = "min (unat (rm_size e) - 6) room"
  have len: "unat (io_mDataLen ?x1) = unat (rm_size e) - 6" using size(2) by (simp add: word_size_minus)
  have rd: "rd_block (drop 6 (rm_data e)) 0 ?n = Inr (take room (drop 6 (rm_data e)))"
    using size by (simp add: rd_block_def min_def)
  let ?a2 = "set_ctx ?p None (set_w (free (aw ?a1)) (ki_complete k (int ?n) (take room (drop 6 (rm_data e))) ?a1))"
  have copy: "aio_read_copy_worker ue ?p ?a1 = Inr ?a2"
    using len rd assms(9) by (simp add: aio_read_copy_worker_def g_def copy_to_user_def)
  have "FindClientMem g cid i = Some (c\<lparr>mList := es\<rparr>)" "mpWorkQ g = mpWorkQ (gb (aw a)) @ [Copy_Work ?p]"
    using f v assms(7) by (auto simp: g_def FindClientMem_find find_upd_first_stable split: if_splits)
  then have "FindClientMem (gb (aw ?a2)) cid i = Some (c\<lparr>mList := es\<rparr>)"
    "mpWorkQ (gb (aw ?a1)) = mpWorkQ (gb (aw a)) @ [Copy_Work ?p]"
    by (simp_all add: FindClientMem_find split: if_splits)
  moreover have "ki_log ?a2 = ki_log a @ [(k, int ?n, take room (drop 6 (rm_data e)))]"
    "ctxs ?a2 ?p = None" "live (aw ?a2) = live (aw a) + 1" using f by simp_all
  ultimately show ?thesis using start copy by blast
qed

text \<open>The message of \<open>inbox_example\<close>, read into a buffer of three bytes.\<close>

theorem aio_read_takes_message_witness:
  "\<exists>a1 a2. UserspaceReadIter (Some 3) 3 (aio_example inbox_example) = Inr (- EIOCBQUEUED, a1)
     \<and> aio_read_copy_worker (user_example 0) 20 a1 = Inr a2 \<and> ki_log a2 = [(3, 3, [1, 2, 3])]"
proof -
  have "kmem inbox_example = []" by (simp add: inbox_example_def)
  then show ?thesis
    using aio_read_takes_message [of "aio_example inbox_example" 3 "0x101" 0
        "(client_example 0x101)\<lparr>mList := [unread_example]\<rparr>" unread_example "[]" "user_example 0" 3]
    by (auto simp: message_for_def)
qed

text \<open>
  An asynchronous read is lost when the driver runs out of memory: with no unread data and no memory for the
  entry of the waiters, the read is accepted all the same, but nothing waits for a message and no
  worker is queued, so that the request is never completed.
\<close>

theorem aio_read_lost_without_memory:
  assumes "idle (aw a)" and "mbQMIReadyStatus (gb (aw a))" and "kmem (aw a) = [True, True, False]"
    and "\<not> is_sync_kiocb (kiocbs a k)" and "filp_of a k = Some (file_on cid i)"
    and "FindClientMem (gb (aw a)) cid i = Some c" and "mList c = []"
  shows "\<exists>a'. UserspaceReadIter (Some k) room a = Inr (- EIOCBQUEUED, a')
     \<and> qmi_devs (gb (aw a')) = qmi_devs (gb (aw a)) \<and> mpWorkQ (gb (aw a')) = mpWorkQ (gb (aw a))
     \<and> ki_log a' = ki_log a"
proof -
  let ?p = "next_io a" and ?s = "read_started k room a"
  have v: "mbQMIValid (gb (aw a))" "\<not> locked i (gb (aw a))" using assms(1) by (simp_all add: idle_def)
  have "ReadAsync False (gb (aw ?s)) cid 0 f cb ?p i = Inr (0, gb (aw ?s))" for f cb
    using v assms(6,7) by (subst ReadAsync_empty [of _ i cid c]) simp_all
  moreover have "pop_kmem (aw ?s) = (False, (aw ?s)\<lparr>kmem := []\<rparr>)"
    using assms(3) by (simp add: pop_kmem_def)
  ultimately have "processIo ?p ?s = Inr (- EIOCBQUEUED, upd_w (\<lambda>w. w\<lparr>kmem := []\<rparr>) ?s)"
    using assms(5) by (simp add: processIo_def on_gb_def)
  then have "UserspaceReadIter (Some k) room a = Inr (- EIOCBQUEUED, upd_w (\<lambda>w. w\<lparr>kmem := []\<rparr>) ?s)"
    using assms(3) by (intro ReadIter_starts [OF _ assms(4,5,2)]) simp_all
  then show ?thesis by simp
qed

theorem aio_read_lost_without_memory_witness:
  "\<exists>a'. UserspaceReadIter (Some 3) 64 (aio_example ((ready (world_example []))\<lparr>kmem := [True, True, False]\<rparr>))
     = Inr (- EIOCBQUEUED, a') \<and> ki_log a' = []"
proof -
  have "idle ((ready (world_example []))\<lparr>kmem := [True, True, False]\<rparr>)" by (simp add: idle_def)
  moreover have "FindClientMem (gb (ready (world_example []))) 0x101 0 = Some (client_example 0x101)"
    by (simp add: FindClientMem_find gobi_example_def dev_example_def client_example_def)
  ultimately show ?thesis
    using aio_read_lost_without_memory [of "aio_example ((ready (world_example []))\<lparr>kmem := [True, True, False]\<rparr>)"
        3 "0x101" 0 "client_example 0x101" 64] by auto
qed

text \<open>
  C37: cancelling a read that was answered is a use of freed memory: when the message has arrived and the worker
  that copies it is queued, a cancellation queues its own worker behind it; the first completes the
  request and frees the context, the second follows the freed pointer.
\<close>

theorem aio_cancel_uses_freed_context:
  assumes "ctxs a p = Some x" and "io_kiocb x = k" and "io_mpData x = Some d" and "io_to_free x"
    and "min (unat (io_mDataLen x)) (io_room x) \<le> length d" and "mpWorkQ (gb (aw a)) = [Copy_Work p]"
    and "ki_private (kiocbs a k) = Some p" and "cancel_fn (kiocbs a k) = Some Aio_Read_Cancel"
  shows "\<exists>a1 a2. run_aio (Cancel k) a = Inr a1 \<and> run_aio (Run_Work ue) a1 = Inr a2
     \<and> (\<exists>r out. ki_log a2 = ki_log a @ [(k, r, out)]) \<and> run_aio (Run_Work ue) a2 = Inl Wild_Pointer"
proof -
  let ?a1 = "queue_work (Cancel_Read_Work p) a"
  have 1: "run_aio (Cancel k) a = Inr ?a1" using assms(1,7,8) by (simp add: aio_read_cancel_def)
  let ?b = "upd_g (\<lambda>g. g\<lparr>mpWorkQ := [Cancel_Read_Work p]\<rparr>) ?a1"
  obtain out left where out: "copy_to_user ue (take (min (unat (io_mDataLen x)) (io_room x)) d) = (left, out)"
    by fastforce
  let ?r = "int (min (unat (io_mDataLen x)) (io_room x)) - left"
  let ?a2 = "set_ctx p None (set_w (free (aw ?b)) (ki_complete k ?r out ?b))"
  have "aio_read_copy_worker ue p ?b = Inr ?a2"
    using assms(1-5) out by (simp add: aio_read_copy_worker_def rd_block_def)
  then have 2: "run_aio (Run_Work ue) ?a1 = Inr ?a2" using assms(6) by (simp add: aio_read_run_def)
  have 3: "run_aio (Run_Work ue) ?a2 = Inl Wild_Pointer"
    by (simp add: aio_read_run_def aio_read_cancel_worker_def)
  have "ki_log ?a2 = ki_log a @ [(k, ?r, out)]" by simp
  with 1 2 3 show ?thesis by blast
qed

definition answered_example :: aio where
  "answered_example = upd_kiocb 3 (\<lambda>q. q\<lparr>ki_private := Some 20, cancel_fn := Some Aio_Read_Cancel\<rparr>)
     (queue_work (Copy_Work 20) (set_ctx 20 (Some \<lparr>io_kiocb = 3, io_room = 2, io_to_free = True,
        io_mpData = Some [1, 2, 3], io_mDataLen = 3\<rparr>) (aio_example (world_example []))))"

theorem aio_cancel_uses_freed_context_witness:
  "\<exists>a1 a2. run_aio (Cancel 3) answered_example = Inr a1 \<and> run_aio (Run_Work (user_example 0)) a1 = Inr a2
     \<and> run_aio (Run_Work (user_example 0)) a2 = Inl Wild_Pointer"
proof -
  have "mpWorkQ gobi_example = []" by (simp add: gobi_example_def)
  then show ?thesis
    using aio_cancel_uses_freed_context [of answered_example 20 "\<lparr>io_kiocb = 3, io_room = 2, io_to_free = True,
        io_mpData = Some [1, 2, 3], io_mDataLen = 3\<rparr>" 3 "[1, 2, 3]" "user_example 0"]
    by (auto simp: answered_example_def)
qed

text \<open>A transfer that is accepted.\<close>

lemma WriteAsync_sends:
  assumes "running (aw a)" and "usb (aw a) = []" and "FindClientMem (gb (aw a)) cid i = Some c"
    and "ctxs a p = Some x" and "FillQMUX cid (Some b) (word_of_nat n) = Inr (0, Some b')"
  shows "WriteAsync b (int n) cid i p a = Inr (- EIOCBQUEUED,
     set_w ((aw a)\<lparr>gb := with_urb cid i (next_urb (aw a)) (gb (aw a)), next_urb := next_urb (aw a) + 1,
         live := live (aw a) + 1, autopm := autopm (aw a) + 1\<rparr>)
       ((upd_kiocb (io_kiocb x) (\<lambda>q. q\<lparr>cancel_fn := Some Aio_Write_Cancel\<rparr>) a)
         \<lparr>flights := flights a @ [\<lparr>fl_urb = next_urb (aw a), fl_ctx = p, fl_buf = take n b', fl_setup = False\<rparr>]\<rparr>))"
proof -
  have v: "mbQMIValid (gb (aw a))" "\<not> locked i (gb (aw a))" "kmem (aw a) = []"
    using assms(1) by (simp_all add: running_def idle_def)
  show ?thesis
    using v assms(2,4,5) AddURB_ok [OF v(1,2) assms(3), of "next_urb (aw a)"]
    by (simp add: WriteAsync_def alloc_def pop_kmem_def pop_usb_def on_gb_def free_def deref_def Let_def)
qed

text \<open>
  An asynchronous write puts exactly the user's bytes on the way, behind a QMUX header, but with a setup
  packet that is already freed: on a running driver it is accepted, one transfer is in flight, the
  URB is on the list of the client, and the setup packet, which the transfer still refers to, is not
  allocated any more.
\<close>

theorem aio_write_frees_setup_in_flight:
  assumes "running (aw a)" and "usb (aw a) = []" and "mbQMIReadyStatus (gb (aw a))"
    and "ki_filp (kiocbs a k) = Some n" and "files (us a) n = Some (file_on cid i)" and "cid \<noteq> no_client"
    and "\<not> is_sync_kiocb (kiocbs a k)" and "FindClientMem (gb (aw a)) cid i = Some c"
    and "0 < length b" and "length b < 65530" and "not_copied ue = 0"
  shows "\<exists>a'. UserspaceWriteIter ue (Some k) b a = Inr (- EIOCBQUEUED, a')
     \<and> flights a' = flights a @ [\<lparr>fl_urb = next_urb (aw a), fl_ctx = next_io a,
          fl_buf = qmux_bytes (word_of_nat (length b + 6) - 1) 0 cid @ b, fl_setup = False\<rparr>]
     \<and> FindClientMem (gb (aw a')) cid i = Some (c\<lparr>mURBList := mURBList c @ [next_urb (aw a)]\<rparr>)"
proof -
  have v: "mbQMIValid (gb (aw a))" "\<not> locked i (gb (aw a))" "kmem (aw a) = []"
    using assms(1) by (simp_all add: running_def idle_def)
  let ?n = "length b + 6" and ?p = "next_io a"
  have n: "?n < 65536" using assms(10) by simp
  have hdr: "unat QMUXHeaderSize = 6" by (simp add: QMUXHeaderSize_def sizeof_sQMUX_def)
  have size: "as_int (int (length b)) + 6 = int ?n" using assms(10) by (simp add: as_int_small)
  let ?buf = "qmux_bytes (word_of_nat ?n - 1) 0 cid @ b"
  have "6 \<le> unat (word_of_nat ?n :: u16)" using n by (simp add: unat_of_nat_widths del: of_nat_add)
  from FillQMUX_writes [OF this, of "replicate 6 0 @ b" cid]
  have fill: "FillQMUX cid (Some (replicate 6 0 @ b)) (word_of_nat ?n) = Inr (0, Some ?buf)" by simp
  let ?x = "\<lparr>io_kiocb = k, io_room = 0, io_to_free = False, io_mpData = None, io_mDataLen = 0\<rparr>"
  define b1 where "b1 = upd_w (\<lambda>w. (upd_gb (\<lambda>g. g\<lparr>io_ctxs := (io_ctxs g)(?p \<mapsto> ?x)\<rparr>) w)\<lparr>live := 2 + live w\<rparr>)
      (a\<lparr>next_io := ?p + 1\<rparr>)"
  have b1: "running (aw b1)" "usb (aw b1) = []" "FindClientMem (gb (aw b1)) cid i = Some c"
    "ctxs b1 ?p = Some ?x"
    "flights b1 = flights a" "next_urb (aw b1) = next_urb (aw a)" "qmi_devs (gb (aw b1)) = qmi_devs (gb (aw a))"
    "mbQMIValid (gb (aw b1))"
    using assms(1,2,8) by (auto simp: b1_def running_def idle_def FindClientMem_find)
  note sent = WriteAsync_sends [OF b1(1-4) fill]
  let ?a' = "snd (projr (WriteAsync (replicate 6 0 @ b) (int ?n) cid i ?p b1))"
  have f: "private_data (file_on cid i) = Some \<lparr>fd_ClientID = cid, fd_QMIDev = i\<rparr>" by simp
  have "UserspaceWriteIter ue (Some k) b a
      = bnd (WriteAsync (replicate 6 0 @ b) (int ?n) cid i ?p b1) (\<lambda>(status, a).
          Inr (if status = int ?n then int (length b) else status, a))"
    using v assms(3-7,9,11) size
    by (simp add: UserspaceWriteIter_def hdr alloc_def pop_kmem_def b1_def Let_def)
  then have "UserspaceWriteIter ue (Some k) b a = Inr (- EIOCBQUEUED, ?a')"
    unfolding sent by simp
  moreover have "flights ?a' = flights a @ [\<lparr>fl_urb = next_urb (aw a), fl_ctx = ?p, fl_buf = ?buf, fl_setup = False\<rparr>]"
    unfolding sent using b1(5,6) by simp
  moreover have "FindClientMem (gb (aw ?a')) cid i = Some (c\<lparr>mURBList := mURBList c @ [next_urb (aw a)]\<rparr>)"
    unfolding sent using assms(8) b1(6-8) v(1) by (auto simp: FindClientMem_find find_upd_first_stable)
  ultimately show ?thesis by blast
qed

theorem aio_write_frees_setup_in_flight_witness:
  "\<exists>a'. UserspaceWriteIter (user_example 0) (Some 3) [1, 2] (aio_example inbox_example) = Inr (- EIOCBQUEUED, a')
     \<and> flights a' = [\<lparr>fl_urb = 1, fl_ctx = 20, fl_buf = [1, 7, 0, 0, 1, 1, 1, 2], fl_setup = False\<rparr>]"
proof -
  have "next_urb inbox_example = 1" by (simp add: inbox_example_def world_example_def)
  then show ?thesis
    using aio_write_frees_setup_in_flight [of "aio_example inbox_example" 3 7 "0x101" 0
        "(client_example 0x101)\<lparr>mList := [unread_example]\<rparr>" "[1, 2]" "user_example 0"]
    by (auto simp: aio_example_def qmux_bytes_def le16_def)
qed

text \<open>
  The completion of an asynchronous write reports the bytes the device took less the QMUX header, computed
  without a sign: it takes the URB off the list of the client and frees it with its buffer, but a
  transfer that failed before any byte was taken completes as a write of 4294967290 bytes.
\<close>

theorem aio_write_completes:
  assumes "running (aw a)" and "ctxs a (fl_ctx fl) = Some x" and "filp_of a (io_kiocb x) = Some (file_on cid i)"
    and "FindClientMem (gb (aw a)) cid i = Some c" and "mURBList c = fl_urb fl # rest"
  shows "\<exists>a'. WriteAsyncCallback fl len a = Inr a'
     \<and> ki_log a' = ki_log a @ [(io_kiocb x, (int (unat len) - 6) mod 2 ^ 32, [])]
     \<and> FindClientMem (gb (aw a')) cid i = Some (c\<lparr>mURBList := rest\<rparr>)
     \<and> autopm (aw a') = autopm (aw a) - 1 \<and> live (aw a') = live (aw a) - 2"
proof -
  have v: "mbQMIValid (gb (aw a))" "\<not> locked i (gb (aw a))" using assms(1) by (simp_all add: running_def idle_def)
  have "int (unat (len - 6)) = (int (unat len) - 6) mod 2 ^ 32"
    by (simp add: uint_word_ariths)
  then show ?thesis
    using v assms(2-5) PopURB_ok [OF v assms(4)]
    by (simp add: WriteAsyncCallback_def Let_def on_gb_def QMUXHeaderSize_def sizeof_sQMUX_def free_def Find_set_client)
qed

theorem aio_write_completes_witness:
  "\<exists>a'. WriteAsyncCallback \<lparr>fl_urb = 1, fl_ctx = 20, fl_buf = [], fl_setup = False\<rparr> 0
       (set_ctx 20 (Some \<lparr>io_kiocb = 3, io_room = 0, io_to_free = False, io_mpData = None, io_mDataLen = 0\<rparr>)
         (aio_example (upd_gb (with_urb 0x101 0 1) (world_example [])))) = Inr a'
     \<and> ki_log a' = [(3, 4294967290, [])]"
proof -
  let ?a = "set_ctx 20 (Some \<lparr>io_kiocb = 3, io_room = 0, io_to_free = False, io_mpData = None, io_mDataLen = 0\<rparr>)
         (aio_example (upd_gb (with_urb 0x101 0 1) (world_example [])))"
  have "running (world_example [])" by simp
  then have "running (aw ?a)" by (simp add: running_def idle_def del: world_example_ok(6))
  moreover have "FindClientMem (gb (aw ?a)) 0x101 0 = Some ((client_example 0x101)\<lparr>mURBList := [1]\<rparr>)"
    by (simp add: FindClientMem_find gobi_example_def dev_example_def client_example_def)
  moreover have "filp_of ?a 3 = Some (file_on 0x101 0)" by (simp add: filp_of_def aio_example_def)
  ultimately show ?thesis
    using aio_write_completes [of ?a "\<lparr>fl_urb = 1, fl_ctx = 20, fl_buf = [], fl_setup = False\<rparr>"
        "\<lparr>io_kiocb = 3, io_room = 0, io_to_free = False, io_mpData = None, io_mDataLen = 0\<rparr>" "0x101" 0
        "(client_example 0x101)\<lparr>mURBList := [1]\<rparr>" "[]" 0] by auto
qed

end
