(* ===== verification/TxAggr.thy ===== *)
theory TxAggr
  imports Qmap
begin

text \<open>
  Transmit aggregation: \<open>aggr_tx_frame\<close>, the coalescing timer (\<open>cdc_ncm_tx_timeout_start\<close>,
  \<open>cdc_ncm_tx_timeout_cancel\<close>, \<open>cdc_ncm_tx_timer_cb\<close>, \<open>cdc_ncm_txpath_bh\<close>) and
  \<open>GobiNetDriver_tx_fixup\<close> of \<^verbatim>\<open>qcom_usbnet_main.c\<close>, built with \<open>TX_AGGR\<close> and
  \<open>VIRTUAL_USB_CODE\<close> as \<open>common.h\<close> defines them. The context \<open>rm_cdc_ncm_ctx\<close> is a record;
  the network device's drop counter and the timer's state are fields of it. Whether
  \<open>alloc_skb\<close> succeeds is an argument.
\<close>

unbundle bit_operations_syntax

section \<open>State\<close>

record cdc_ncm_ctx =
  tx_curr_skb :: "sk_buff option"
  tx_rem_skb :: "sk_buff option"
  timer_interval :: int
  tx_timer_pending :: int
  tx_max_datagrams :: u16
  tx_curr_frame_num :: u32
  tx_max :: u32
  tx_curr_size :: u32
  tx_curr_frame_payload :: u32
  tx_reason_max_datagram :: u32
  tx_overhead :: u64
  ctx_stop :: bool
  timer_active :: bool
  bh_scheduled :: bool
  tx_dropped :: nat

abbreviation (input) "CDC_NCM_RESTART_TIMER_DATAGRAM_CNT \<equiv> (3 :: u16)"
abbreviation (input) "CDC_NCM_TIMER_PENDING_CNT \<equiv> (2 :: int)"

text \<open>A transfer ready to go, with the statistics of \<open>usbnet_set_skb_tx_stats\<close>.\<close>

record tx_frame =
  tf_skb :: sk_buff
  tf_packets :: u16
  tf_bytes_delta :: int

section \<open>The coalescing timer\<close>

definition cdc_ncm_tx_timeout_start :: "cdc_ncm_ctx \<Rightarrow> cdc_ncm_ctx" where
  "cdc_ncm_tx_timeout_start ctx =
     (if \<not> (timer_active ctx \<or> ctx_stop ctx) then ctx\<lparr>timer_active := True\<rparr> else ctx)"

text \<open>\<open>canceled\<close>: \<open>hrtimer_try_to_cancel\<close> fails while the callback runs.\<close>

definition cdc_ncm_tx_timeout_cancel :: "bool \<Rightarrow> cdc_ncm_ctx \<Rightarrow> cdc_ncm_ctx" where
  "cdc_ncm_tx_timeout_cancel canceled ctx =
     (if timer_active ctx \<and> canceled then ctx\<lparr>timer_active := False\<rparr> else ctx)"

text \<open>The timer has fired and is not restarted (\<open>HRTIMER_NORESTART\<close>).\<close>

definition cdc_ncm_tx_timer_cb :: "cdc_ncm_ctx \<Rightarrow> cdc_ncm_ctx" where
  "cdc_ncm_tx_timer_cb ctx =
     (let ctx = (if \<not> ctx_stop ctx then ctx\<lparr>bh_scheduled := True\<rparr> else ctx)
      in ctx\<lparr>timer_active := False\<rparr>)"

section \<open>Collecting frames\<close>

text \<open>Copying one frame behind the transfer: skb_put, memcpy, the payload and room counters.\<close>

definition append_frame ::
  "cdc_ncm_ctx \<Rightarrow> sk_buff \<Rightarrow> sk_buff \<Rightarrow> fault + (cdc_ncm_ctx \<times> sk_buff)" where
  "append_frame ctx skb skb_out =
     (let len = length (sk_data skb); tmp = length (sk_data skb_out) in
      bnd (skb_put len skb_out) (\<lambda>skb_out.
      bnd (put (sk_data skb_out) tmp (sk_data skb)) (\<lambda>d.
      let skb_out = skb_out\<lparr>sk_data := d\<rparr> in
      bnd (rd8 (d @ sk_tail skb_out) tmp) (\<lambda>cd_rsvd_pad.
      Inr (ctx\<lparr>tx_curr_frame_payload := tx_curr_frame_payload ctx
                 + (word_of_nat len - word_of_nat sizeof_qmap_t - ucast cd_rsvd_pad),
               tx_curr_size := tx_curr_size ctx - word_of_nat len\<rparr>, skb_out)))))"

lemma append_frame_max [simp]:
  "append_frame ctx s out = Inr (ctx', out') \<Longrightarrow> tx_max_datagrams ctx' = tx_max_datagrams ctx"
  by (auto simp: append_frame_def Let_def returns_iff)

function aggr_loop ::
  "cdc_ncm_ctx \<Rightarrow> sk_buff option \<Rightarrow> sk_buff \<Rightarrow> u16 \<Rightarrow> bool
   \<Rightarrow> fault + (cdc_ncm_ctx \<times> sk_buff option \<times> sk_buff \<times> u16 \<times> bool)" where
  "aggr_loop ctx skb skb_out n ready2send =
     (if n < tx_max_datagrams ctx then
        let (skb, ctx') = (if skb = None then (tx_rem_skb ctx, ctx\<lparr>tx_rem_skb := None\<rparr>)
                           else (skb, ctx)) in
        (case skb of
           None \<Rightarrow> Inr (ctx', None, skb_out, n, ready2send)
         | Some s \<Rightarrow>
             if unat (tx_curr_size ctx') < length (sk_data s) then
               let ctx'' = (if tx_rem_skb ctx' \<noteq> None then ctx'\<lparr>tx_dropped := tx_dropped ctx' + 1\<rparr>
                            else ctx')
               in Inr (ctx''\<lparr>tx_rem_skb := Some s\<rparr>, None, skb_out, n, True)
             else
               (case append_frame ctx' s skb_out of
                  Inl e \<Rightarrow> Inl e
                | Inr (ctx'', skb_out') \<Rightarrow> aggr_loop ctx'' None skb_out' (n + 1) ready2send))
      else Inr (ctx, skb, skb_out, n, ready2send))"
  by pat_completeness auto

termination
proof (relation "measure (\<lambda>(ctx, skb, out, n, r). unat (tx_max_datagrams ctx) - unat n)", goal_cases)
  case (2 ctx skb out n r x skb' ctx' s y ctx'' out')
  from 2(1) have "unat (n + 1) = unat n + 1"
    by (rule unat_u16_inc)
  moreover have "tx_max_datagrams ctx'' = tx_max_datagrams ctx"
    using 2 by (auto split: if_splits)
  ultimately show ?case using 2(1) by (simp add: word_less_nat_alt)
qed simp

declare aggr_loop.simps [simp del]

text \<open>
  The first part of \<open>aggr_tx_frame\<close>: swap the frame with the one put aside, resume or allocate
  the transfer. The result: the frame to start with, the flag \<open>ready2send\<close>, the transfer.
\<close>

definition aggr_start ::
  "bool \<Rightarrow> cdc_ncm_ctx \<Rightarrow> sk_buff option \<Rightarrow> cdc_ncm_ctx \<times> sk_buff option \<times> bool \<times> sk_buff option" where
  "aggr_start alloc_ok ctx skb =
     (let (skb, ctx, ready2send) =
        (case skb of Some _ \<Rightarrow> (tx_rem_skb ctx, ctx\<lparr>tx_rem_skb := skb\<rparr>, False)
                   | None \<Rightarrow> (None, ctx, True))
      in case tx_curr_skb ctx of
           Some skb_out \<Rightarrow> (ctx, skb, ready2send, Some skb_out)
         | None \<Rightarrow>
             let ctx = ctx\<lparr>tx_curr_size := tx_max ctx\<rparr> in
             if alloc_ok then
               (ctx\<lparr>tx_curr_frame_num := 0, tx_curr_frame_payload := 0\<rparr>, skb, ready2send,
                Some (alloc_skb (unat (tx_curr_size ctx))))
             else
               (if skb \<noteq> None then ctx\<lparr>tx_dropped := tx_dropped ctx + 1\<rparr> else ctx,
                None, ready2send, None))"

definition exit_no_skb :: "cdc_ncm_ctx \<Rightarrow> u16 \<Rightarrow> tx_frame option \<times> cdc_ncm_ctx" where
  "exit_no_skb ctx n =
     (None, if tx_curr_skb ctx \<noteq> None \<and> n > 0 then cdc_ncm_tx_timeout_start ctx else ctx)"

text \<open>The last part: wait for more frames, or hand the transfer out and reset the context.\<close>

definition aggr_finish ::
  "cdc_ncm_ctx \<Rightarrow> sk_buff option \<Rightarrow> sk_buff \<Rightarrow> u16 \<Rightarrow> bool \<Rightarrow> tx_frame option \<times> cdc_ncm_ctx" where
  "aggr_finish ctx skb skb_out n ready2send =
     (let ctx = (if skb \<noteq> None then ctx\<lparr>tx_dropped := tx_dropped ctx + 1\<rparr> else ctx);
          ctx = ctx\<lparr>tx_curr_frame_num := ucast n\<rparr>
      in if n = 0 then exit_no_skb (ctx\<lparr>tx_curr_skb := Some skb_out\<rparr>) n
         else if n < tx_max_datagrams ctx \<and> \<not> ready2send \<and> timer_interval ctx > 0 then
           let ctx = ctx\<lparr>tx_curr_skb := Some skb_out\<rparr>;
               ctx = (if n < CDC_NCM_RESTART_TIMER_DATAGRAM_CNT
                      then ctx\<lparr>tx_timer_pending := CDC_NCM_TIMER_PENDING_CNT\<rparr> else ctx)
           in exit_no_skb ctx n
         else
           let ctx = (if n = tx_max_datagrams ctx
                      then ctx\<lparr>tx_reason_max_datagram := tx_reason_max_datagram ctx + 1\<rparr> else ctx);
               ctx = ctx\<lparr>tx_curr_skb := None, tx_curr_frame_num := 0, tx_curr_size := 0\<rparr>;
               len = length (sk_data skb_out);
               ctx = ctx\<lparr>tx_overhead := tx_overhead ctx
                          + ucast (word_of_nat len - tx_curr_frame_payload ctx)\<rparr>;
               delta = int (unat (tx_curr_frame_payload ctx)) - int len;
               ctx = ctx\<lparr>tx_curr_frame_payload := 0\<rparr>
           in (Some \<lparr>tf_skb = skb_out, tf_packets = n, tf_bytes_delta = delta\<rparr>, ctx))"

definition aggr_tx_frame ::
  "bool \<Rightarrow> cdc_ncm_ctx \<Rightarrow> sk_buff option \<Rightarrow> fault + (tx_frame option \<times> cdc_ncm_ctx)" where
  "aggr_tx_frame alloc_ok ctx skb =
     (case aggr_start alloc_ok ctx skb of
        (ctx, skb, ready2send, None) \<Rightarrow> Inr (exit_no_skb ctx 0)
      | (ctx, skb, ready2send, Some skb_out) \<Rightarrow>
          bnd (aggr_loop ctx skb skb_out (ucast (tx_curr_frame_num ctx)) ready2send)
            (\<lambda>(ctx, skb, skb_out, n, ready2send). Inr (aggr_finish ctx skb skb_out n ready2send)))"

text \<open>
  The bottom half: count the pending restarts down, then ask the stack for a transmission
  without a packet (\<open>usbnet_start_xmit(NULL, ...)\<close>).
\<close>

datatype bh_result = Bh_Restarted | Bh_Xmit_NULL | Bh_Nothing

definition cdc_ncm_txpath_bh :: "bool \<Rightarrow> cdc_ncm_ctx \<Rightarrow> bh_result \<times> cdc_ncm_ctx" where
  "cdc_ncm_txpath_bh has_net ctx =
     (let ctx = ctx\<lparr>bh_scheduled := False\<rparr> in
      if tx_timer_pending ctx \<noteq> 0 then
        (Bh_Restarted,
         cdc_ncm_tx_timeout_start (ctx\<lparr>tx_timer_pending := tx_timer_pending ctx - 1\<rparr>))
      else if has_net then (Bh_Xmit_NULL, ctx)
      else (Bh_Nothing, ctx))"

abbreviation (input) "ETH_HLEN \<equiv> (14 :: nat)"

definition GobiNetDriver_tx_fixup ::
  "bool \<Rightarrow> int \<Rightarrow> u8 \<Rightarrow> bool \<Rightarrow> cdc_ncm_ctx \<Rightarrow> sk_buff option
   \<Rightarrow> fault + (tx_frame option \<times> cdc_ncm_ctx)" where
  "GobiNetDriver_tx_fixup mbQMIReadyStatus enableDhcp dev_mux alloc_ok ctx skb =
     (if \<not> mbQMIReadyStatus then Inr (None, ctx)
      else bnd (case skb of
                  None \<Rightarrow> Inr None
                | Some s \<Rightarrow>
                    bnd (qmap_mux (if enableDhcp = 1 then skb_pull ETH_HLEN s else s) dev_mux)
                      (\<lambda>s. Inr (Some s)))
             (aggr_tx_frame alloc_ok ctx))"

section \<open>The transfer under construction\<close>

definition skb_bytes :: "sk_buff option \<Rightarrow> bytes" where
  "skb_bytes skb = (case skb of None \<Rightarrow> [] | Some s \<Rightarrow> sk_data s)"

lemma skb_bytes_simps [simp]:
  "skb_bytes None = []"
  "skb_bytes (Some s) = sk_data s"
  by (simp_all add: skb_bytes_def)

text \<open>A frame the aggregation can take: not empty and no longer than a whole transfer.\<close>

definition fits :: "u32 \<Rightarrow> sk_buff option \<Rightarrow> bool" where
  "fits mx skb = (case skb of None \<Rightarrow> True
                  | Some s \<Rightarrow> sk_data s \<noteq> [] \<and> length (sk_data s) \<le> unat mx)"

lemma fits_simps [simp]:
  "fits mx None"
  "fits mx (Some s) \<longleftrightarrow> sk_data s \<noteq> [] \<and> length (sk_data s) \<le> unat mx"
  by (simp_all add: fits_def)

text \<open>The room that is left is the tailroom of the buffer, and room and data make up \<open>tx_max\<close>.\<close>

definition room :: "cdc_ncm_ctx \<Rightarrow> sk_buff \<Rightarrow> u16 \<Rightarrow> bool" where
  "room ctx out n \<longleftrightarrow> length (sk_tail out) = unat (tx_curr_size ctx)
     \<and> length (sk_data out) + unat (tx_curr_size ctx) = unat (tx_max ctx)
     \<and> n \<le> tx_max_datagrams ctx \<and> (n = 0 \<longrightarrow> sk_data out = [])"

text \<open>What the aggregation holds: the transfer under construction and the frame put aside.\<close>

definition pending :: "cdc_ncm_ctx \<Rightarrow> bytes" where
  "pending ctx = skb_bytes (tx_curr_skb ctx) @ skb_bytes (tx_rem_skb ctx)"

text \<open>The invariant between two calls.\<close>

definition agg_inv :: "cdc_ncm_ctx \<Rightarrow> bool" where
  "agg_inv ctx \<longleftrightarrow> 0 < tx_max_datagrams ctx \<and> fits (tx_max ctx) (tx_rem_skb ctx)
     \<and> (case tx_curr_skb ctx of None \<Rightarrow> True
        | Some out \<Rightarrow> tx_rem_skb ctx = None \<and> tx_curr_frame_num ctx < ucast (tx_max_datagrams ctx)
                       \<and> room ctx out (ucast (tx_curr_frame_num ctx)))"

lemma append_frame_ok:
  assumes "length (sk_tail out) = unat (tx_curr_size ctx)"
    and "sk_data s \<noteq> []" and "length (sk_data s) \<le> unat (tx_curr_size ctx)"
  shows "\<exists>pay. append_frame ctx s out = Inr (ctx\<lparr>tx_curr_frame_payload := pay,
      tx_curr_size := tx_curr_size ctx - word_of_nat (length (sk_data s))\<rparr>,
      out\<lparr>sk_data := sk_data out @ sk_data s, sk_tail := drop (length (sk_data s)) (sk_tail out)\<rparr>)"
proof -
  let ?n = "length (sk_data s)" and ?d = "sk_data out"
  have 1: "skb_put ?n out = Inr (out\<lparr>sk_data := ?d @ take ?n (sk_tail out),
      sk_tail := drop ?n (sk_tail out)\<rparr>)"
    using assms by (simp add: skb_put_def)
  have 2: "put (?d @ take ?n (sk_tail out)) (length ?d) (sk_data s) = Inr (?d @ sk_data s)"
    using assms by (simp add: put_def)
  have 3: "\<exists>b. rd8 ((?d @ sk_data s) @ rest) (length ?d) = Inr b" for rest
    using assms(2) by (simp add: rd8_def)
  obtain b where "rd8 ((?d @ sk_data s) @ drop ?n (sk_tail out)) (length ?d) = Inr b"
    using 3 by blast
  then show ?thesis
    by (intro exI) (simp add: append_frame_def Let_def 1 2 del: append_assoc)
qed

lemma unat_sub_nat:
  assumes "n \<le> unat (w :: u32)"
  shows "unat (w - word_of_nat n) = unat w - n"
proof -
  have "n < 4294967296" using assms unat_u32_lt [of w] by linarith
  then have "unat (word_of_nat n :: u32) = n" by (simp add: unat_of_nat_widths)
  then show ?thesis using assms by (simp add: unat_sub word_le_nat_alt)
qed

lemma room_append:
  assumes "room ctx out n" and "n < tx_max_datagrams ctx" and "length (sk_data s) \<le> unat (tx_curr_size ctx)"
  shows "room (ctx\<lparr>tx_curr_frame_payload := pay,
      tx_curr_size := tx_curr_size ctx - word_of_nat (length (sk_data s))\<rparr>)
      (out\<lparr>sk_data := sk_data out @ sk_data s, sk_tail := drop (length (sk_data s)) (sk_tail out)\<rparr>)
      (n + 1)"
proof -
  have "unat (n + 1) = unat n + 1" by (rule unat_u16_inc [OF assms(2)])
  then have "n + 1 \<noteq> 0" and "n + 1 \<le> tx_max_datagrams ctx"
    using assms(2) by (auto simp: word_le_nat_alt word_less_nat_alt)
  then show ?thesis
    using assms by (auto simp: room_def unat_sub_nat)
qed

text \<open>Fields the loop leaves alone.\<close>

definition same_setup :: "cdc_ncm_ctx \<Rightarrow> cdc_ncm_ctx \<Rightarrow> bool" where
  "same_setup ctx ctx' \<longleftrightarrow> tx_max ctx' = tx_max ctx \<and> tx_max_datagrams ctx' = tx_max_datagrams ctx
     \<and> tx_dropped ctx' = tx_dropped ctx \<and> timer_interval ctx' = timer_interval ctx"

lemma same_setup_refl [simp]: "same_setup ctx ctx"
  by (simp add: same_setup_def)

lemma same_setup_trans: "same_setup a b \<Longrightarrow> same_setup b c \<Longrightarrow> same_setup a c"
  by (simp add: same_setup_def)

text \<open>The loop leaves the timer alone too.\<close>

definition same_loop :: "cdc_ncm_ctx \<Rightarrow> cdc_ncm_ctx \<Rightarrow> bool" where
  "same_loop ctx ctx' \<longleftrightarrow> same_setup ctx ctx' \<and> timer_active ctx' = timer_active ctx
     \<and> bh_scheduled ctx' = bh_scheduled ctx \<and> ctx_stop ctx' = ctx_stop ctx
     \<and> tx_timer_pending ctx' = tx_timer_pending ctx"

lemma same_loop_refl [simp]: "same_loop ctx ctx"
  by (simp add: same_loop_def)

lemmas same_defs = same_loop_def same_setup_def

text \<open>The unfoldings of the loop, one per way through its body.\<close>

lemma aggr_loop_full: "\<not> n < tx_max_datagrams ctx \<Longrightarrow>
    aggr_loop ctx skb out n r = Inr (ctx, skb, out, n, r)"
  by (subst aggr_loop.simps) simp

lemma aggr_loop_end: "tx_rem_skb ctx = None \<Longrightarrow>
    aggr_loop ctx None out n r = Inr (ctx, None, out, n, r)"
  by (subst aggr_loop.simps) (cases ctx, simp)

lemma aggr_loop_rem: "n < tx_max_datagrams ctx \<Longrightarrow> tx_rem_skb ctx = Some s \<Longrightarrow>
    aggr_loop ctx None out n r = aggr_loop (ctx\<lparr>tx_rem_skb := None\<rparr>) (Some s) out n r"
  by (subst aggr_loop.simps, subst (2) aggr_loop.simps) simp

lemma aggr_loop_no_room: "n < tx_max_datagrams ctx \<Longrightarrow> unat (tx_curr_size ctx) < length (sk_data s) \<Longrightarrow>
    aggr_loop ctx (Some s) out n r =
      Inr ((if tx_rem_skb ctx \<noteq> None then ctx\<lparr>tx_dropped := tx_dropped ctx + 1\<rparr> else ctx)
        \<lparr>tx_rem_skb := Some s\<rparr>, None, out, n, True)"
  by (subst aggr_loop.simps) simp

lemma aggr_loop_take: "n < tx_max_datagrams ctx \<Longrightarrow> length (sk_data s) \<le> unat (tx_curr_size ctx) \<Longrightarrow>
    append_frame ctx s out = Inr (ctx', out') \<Longrightarrow>
    aggr_loop ctx (Some s) out n r = aggr_loop ctx' None out' (n + 1) r"
  by (subst aggr_loop.simps) simp

lemmas aggr_loop_cases = aggr_loop_full aggr_loop_end aggr_loop_rem aggr_loop_no_room aggr_loop_take

text \<open>
  The loop started on a single frame (or none): it never faults, drops nothing, keeps the bytes
  in order, and puts a frame aside only when the transfer has to go.
\<close>

definition loop_post ::
  "bool \<Rightarrow> cdc_ncm_ctx \<Rightarrow> bytes \<Rightarrow> u16 \<Rightarrow> bool
   \<Rightarrow> (cdc_ncm_ctx \<times> sk_buff option \<times> sk_buff \<times> u16 \<times> bool) \<Rightarrow> bool" where
  "loop_post two ctx bs n r res = (case res of (ctx', skb', out', n', r') \<Rightarrow>
     skb' = None \<and> same_loop ctx ctx' \<and> room ctx' out' n' \<and> fits (tx_max ctx) (tx_rem_skb ctx')
     \<and> sk_data out' @ skb_bytes (tx_rem_skb ctx') = bs \<and> n \<le> n' \<and> (r \<longrightarrow> r')
     \<and> (tx_rem_skb ctx' \<noteq> None \<longrightarrow> n' \<noteq> 0 \<and> (r' \<or> n' = tx_max_datagrams ctx')
          \<and> (two \<or> unat (tx_max ctx) < length bs))
     \<and> (n' = 0 \<longrightarrow> bs = []))"

lemma loop_one:
  assumes "room ctx out n" and "n < tx_max_datagrams ctx" and "tx_rem_skb ctx = None"
    and "fits (tx_max ctx) (Some s)"
  shows "\<exists>res. aggr_loop ctx (Some s) out n r = Inr res
     \<and> loop_post False ctx (sk_data out @ sk_data s) n r res"
proof (cases "length (sk_data s) \<le> unat (tx_curr_size ctx)")
  case True
  obtain pay where a: "append_frame ctx s out = Inr (ctx\<lparr>tx_curr_frame_payload := pay,
      tx_curr_size := tx_curr_size ctx - word_of_nat (length (sk_data s))\<rparr>,
      out\<lparr>sk_data := sk_data out @ sk_data s, sk_tail := drop (length (sk_data s)) (sk_tail out)\<rparr>)"
    (is "_ = Inr (?ctx, ?out)")
    using append_frame_ok [of out ctx s] assms True by (auto simp: room_def)
  have "aggr_loop ctx (Some s) out n r = Inr (?ctx, None, ?out, n + 1, r)"
    using assms aggr_loop_take [OF assms(2) True a] by (simp add: aggr_loop_end)
  moreover have "room ?ctx ?out (n + 1)" by (rule room_append [OF assms(1,2) True])
  moreover have "unat (n + 1) = unat n + 1" by (rule unat_u16_inc [OF assms(2)])
  then have "n \<le> n + 1" and "n + 1 \<noteq> 0" by (auto simp: word_le_nat_alt)
  ultimately show ?thesis
    using assms(3) by (simp add: loop_post_def same_defs)
next
  case False
  with assms have "sk_data out \<noteq> []" by (auto simp: room_def)
  with assms(1) have "n \<noteq> 0" by (auto simp: room_def)
  with False assms show ?thesis
    by (simp add: aggr_loop_no_room loop_post_def same_defs room_def)
qed

text \<open>The same with a frame put aside earlier: then the transfer is a new one.\<close>

lemma loop_two:
  assumes "room ctx out 0" and "0 < tx_max_datagrams ctx"
    and "fits (tx_max ctx) (Some s)" and "fits (tx_max ctx) (Some s')" and "tx_rem_skb ctx = Some s'"
  shows "\<exists>res. aggr_loop ctx (Some s) out 0 r = Inr res
     \<and> loop_post True ctx (sk_data s @ sk_data s') 0 r res"
proof -
  have e: "sk_data out = []" and le: "length (sk_data s) \<le> unat (tx_curr_size ctx)"
    using assms(1,3) by (auto simp: room_def)
  obtain pay where a: "append_frame ctx s out = Inr (ctx\<lparr>tx_curr_frame_payload := pay,
      tx_curr_size := tx_curr_size ctx - word_of_nat (length (sk_data s))\<rparr>,
      out\<lparr>sk_data := sk_data out @ sk_data s, sk_tail := drop (length (sk_data s)) (sk_tail out)\<rparr>)"
    (is "_ = Inr (?ctx, ?out)")
    using append_frame_ok [of out ctx s] assms le by (auto simp: room_def)
  have step: "aggr_loop ctx (Some s) out 0 r = aggr_loop ?ctx None ?out 1 r"
    using aggr_loop_take [OF assms(2) le a, of r] by simp
  have rm: "room ?ctx ?out 1" using room_append [OF assms(1,2) le, of pay] by simp
  show ?thesis
  proof (cases "1 < tx_max_datagrams ctx")
    case True
    let ?c = "?ctx\<lparr>tx_rem_skb := None\<rparr>"
    have "room ?c ?out 1" using rm by (simp add: room_def)
    then obtain res where res: "aggr_loop ?c (Some s') ?out 1 r = Inr res"
      "loop_post False ?c (sk_data ?out @ sk_data s') 1 r res"
      using loop_one [of ?c ?out 1 s' r] True assms by auto
    have "aggr_loop ctx (Some s) out 0 r = Inr res"
      unfolding step using aggr_loop_rem [of 1 ?ctx s' ?out r] True assms(5) res(1) by simp
    moreover have "loop_post True ctx (sk_data s @ sk_data s') 0 r res"
      using res(2) e by (auto simp: loop_post_def same_defs split: prod.splits)
    ultimately show ?thesis by blast
  next
    case False
    with assms(2) have "tx_max_datagrams ctx = 1"
      by (auto simp: word_less_nat_alt word_unat_eq_iff)
    with False rm assms e show ?thesis
      unfolding step by (simp add: aggr_loop_full loop_post_def same_defs)
  qed
qed

lemma loop_end_post: "room ctx out n \<Longrightarrow> tx_rem_skb ctx = None \<Longrightarrow>
    loop_post two ctx (sk_data out) n r (ctx, None, out, n, r)"
  by (simp add: loop_post_def room_def)

text \<open>After the first part of a call the loop runs on what the call found and was given.\<close>

lemma aggr_start_loop:
  assumes "agg_inv ctx" and "fits (tx_max ctx) skb"
  shows "\<exists>ctx1 skb1 r out res. aggr_start True ctx skb = (ctx1, skb1, r, Some out)
     \<and> same_loop ctx ctx1 \<and> (r \<longleftrightarrow> skb = None)
     \<and> aggr_loop ctx1 skb1 out (ucast (tx_curr_frame_num ctx1)) r = Inr res
     \<and> loop_post (tx_rem_skb ctx \<noteq> None \<and> skb \<noteq> None) ctx1 (pending ctx @ skb_bytes skb) (ucast (tx_curr_frame_num ctx1)) r res"
proof (cases "tx_curr_skb ctx")
  case None
  let ?c = "ctx\<lparr>tx_curr_size := tx_max ctx, tx_curr_frame_num := 0, tx_curr_frame_payload := 0\<rparr>"
  let ?out = "alloc_skb (unat (tx_max ctx))"
  have pos: "0 < tx_max_datagrams ctx" and rf: "fits (tx_max ctx) (tx_rem_skb ctx)"
    using assms(1) by (auto simp: agg_inv_def)
  have rm: "room (?c\<lparr>tx_rem_skb := x\<rparr>) ?out 0" for x
    by (simp add: room_def alloc_skb_def)
  have e: "sk_data ?out = []" by (simp add: alloc_skb_def)
  show ?thesis
  proof (cases skb)
    case [simp]: (Some s)
    let ?c1 = "?c\<lparr>tx_rem_skb := Some s\<rparr>"
    have st: "aggr_start True ctx skb = (?c1, tx_rem_skb ctx, False, Some ?out)"
      by (simp add: aggr_start_def None)
    have "\<exists>res. aggr_loop ?c1 (tx_rem_skb ctx) ?out 0 False = Inr res
        \<and> loop_post (tx_rem_skb ctx \<noteq> None) ?c1 (pending ctx @ sk_data s) 0 False res"
    proof (cases "tx_rem_skb ctx")
      case None2: None
      obtain res where "aggr_loop (?c\<lparr>tx_rem_skb := None\<rparr>) (Some s) ?out 0 False = Inr res"
        "loop_post False (?c\<lparr>tx_rem_skb := None\<rparr>) (sk_data ?out @ sk_data s) 0 False res"
        using loop_one [OF rm [of None], of s False] pos assms(2) by auto
      then show ?thesis
        using aggr_loop_rem [of 0 ?c1 s ?out False] pos None None2 e
        by (auto simp: pending_def loop_post_def same_defs split: prod.splits)
    next
      case Some2: (Some r)
      then show ?thesis
        using loop_two [OF rm [of "Some s"], of r s False] pos rf assms(2) None
        by (simp add: pending_def)
    qed
    then show ?thesis using st by (force simp: same_defs)
  next
    case [simp]: None
    have st: "aggr_start True ctx skb = (?c, None, True, Some ?out)"
      by (simp add: aggr_start_def \<open>tx_curr_skb ctx = None\<close>)
    have rm0: "room ?c ?out 0" by (simp add: room_def alloc_skb_def)
    have "\<exists>res. aggr_loop ?c None ?out 0 True = Inr res \<and> loop_post False ?c (pending ctx) 0 True res"
    proof (cases "tx_rem_skb ctx")
      case None2: None
      then show ?thesis
        using loop_end_post [OF rm0, of False True] e \<open>tx_curr_skb ctx = None\<close>
        by (simp add: aggr_loop_end pending_def)
    next
      case Some2: (Some s)
      obtain res where "aggr_loop (?c\<lparr>tx_rem_skb := None\<rparr>) (Some s) ?out 0 True = Inr res"
        "loop_post False (?c\<lparr>tx_rem_skb := None\<rparr>) (sk_data ?out @ sk_data s) 0 True res"
        using loop_one [OF rm [of None], of s True] pos rf Some2 by auto
      then show ?thesis
        using aggr_loop_rem [of 0 ?c s ?out True] pos Some2 e \<open>tx_curr_skb ctx = None\<close>
        by (auto simp: pending_def loop_post_def same_defs split: prod.splits)
    qed
    then show ?thesis using st by (force simp: same_defs)
  qed
next
  case (Some out)
  let ?n = "ucast (tx_curr_frame_num ctx) :: u16"
  have rem: "tx_rem_skb ctx = None" and rm: "room ctx out ?n"
    and lt: "tx_curr_frame_num ctx < ucast (tx_max_datagrams ctx)"
    using assms(1) Some by (auto simp: agg_inv_def)
  have "?n < tx_max_datagrams ctx" using lt by (rule ucast_less_of)
  show ?thesis
  proof (cases skb)
    case [simp]: (Some s)
    obtain res where "aggr_loop ctx (Some s) out ?n False = Inr res"
      "loop_post False ctx (sk_data out @ sk_data s) ?n False res"
      using loop_one [OF rm \<open>?n < _\<close> rem, of s False] assms(2) by auto
    moreover have "ctx\<lparr>tx_rem_skb := None\<rparr> = ctx" using rem by (cases ctx) simp
    ultimately have "aggr_loop (ctx\<lparr>tx_rem_skb := Some s\<rparr>) None out ?n False = Inr res"
      "loop_post False (ctx\<lparr>tx_rem_skb := Some s\<rparr>) (sk_data out @ sk_data s) ?n False res"
      using aggr_loop_rem [of ?n "ctx\<lparr>tx_rem_skb := Some s\<rparr>" s out False] \<open>?n < _\<close>
      by (auto simp: loop_post_def same_defs split: prod.splits)
    moreover have "aggr_start True ctx skb = (ctx\<lparr>tx_rem_skb := Some s\<rparr>, None, False, Some out)"
      using \<open>tx_curr_skb ctx = Some out\<close> rem by (simp add: aggr_start_def)
    moreover have "pending ctx @ skb_bytes skb = sk_data out @ sk_data s"
      using \<open>tx_curr_skb ctx = Some out\<close> rem by (simp add: pending_def)
    ultimately show ?thesis
      by (intro exI [of _ "ctx\<lparr>tx_rem_skb := Some s\<rparr>"] exI [of _ None] exI [of _ False]
          exI [of _ out] exI [of _ res]) (simp add: same_defs rem)
  next
    case [simp]: None
    show ?thesis
      using \<open>tx_curr_skb ctx = Some out\<close> rem loop_end_post [OF rm rem, of False True]
      by (simp add: aggr_start_def aggr_loop_end pending_def) (rule exI [of _ True], simp)
  qed
qed

definition sent_bytes :: "tx_frame option \<Rightarrow> bytes" where
  "sent_bytes out = (case out of None \<Rightarrow> [] | Some f \<Rightarrow> sk_data (tf_skb f))"

definition transfer_ok :: "cdc_ncm_ctx \<Rightarrow> tx_frame option \<Rightarrow> bool" where
  "transfer_ok ctx out = (case out of None \<Rightarrow> True
     | Some f \<Rightarrow> length (sk_data (tf_skb f)) \<le> unat (tx_max ctx)
                \<and> 0 < tf_packets f \<and> tf_packets f \<le> tx_max_datagrams ctx)"

lemma aggr_finish_post:
  assumes "loop_post two ctx1 bs n1 r1 (ctx, skb, out, n, r)" and "0 < tx_max_datagrams ctx1"
    and "aggr_finish ctx skb out n r = (res, ctx')"
  shows "agg_inv ctx'" and "sent_bytes res @ pending ctx' = bs" and "same_setup ctx1 ctx'"
    and "transfer_ok ctx1 res"
proof -
  have p: "skb = None" "same_setup ctx1 ctx" "room ctx out n" "fits (tx_max ctx1) (tx_rem_skb ctx)"
    "sk_data out @ skb_bytes (tx_rem_skb ctx) = bs"
    "tx_rem_skb ctx \<noteq> None \<longrightarrow> n \<noteq> 0 \<and> (r \<or> n = tx_max_datagrams ctx)" "n = 0 \<longrightarrow> bs = []"
    using assms(1) by (auto simp: loop_post_def same_loop_def)
  have up: "n < m \<Longrightarrow> (ucast n :: u32) < ucast m" for m :: u16
    by (simp add: word_less_nat_alt)
  consider (zero) "n = 0"
    | (wait) "n \<noteq> 0" "n < tx_max_datagrams ctx \<and> \<not> r \<and> timer_interval ctx > 0"
    | (send) "n \<noteq> 0" "\<not> (n < tx_max_datagrams ctx \<and> \<not> r \<and> timer_interval ctx > 0)" by blast
  then have "agg_inv ctx' \<and> sent_bytes res @ pending ctx' = bs \<and> same_setup ctx1 ctx'
      \<and> transfer_ok ctx1 res"
  proof cases
    case zero
    then have "tx_rem_skb ctx = None" using p(6) by blast
    with zero p assms(2,3) show ?thesis
      by (auto simp: aggr_finish_def exit_no_skb_def same_setup_def agg_inv_def room_def
          sent_bytes_def pending_def transfer_ok_def word_less_nat_alt)
  next
    case wait
    then have "tx_rem_skb ctx = None" using p(6) by auto
    with wait p assms(2,3) up show ?thesis
      by (auto simp: aggr_finish_def exit_no_skb_def same_setup_def agg_inv_def room_def
          sent_bytes_def pending_def transfer_ok_def cdc_ncm_tx_timeout_start_def Let_def)
  next
    case send
    with p assms(2,3) show ?thesis
      by (auto simp: aggr_finish_def Let_def same_setup_def agg_inv_def room_def
          sent_bytes_def pending_def transfer_ok_def word_neq_0_conv)
  qed
  then show "agg_inv ctx'" "sent_bytes res @ pending ctx' = bs" "same_setup ctx1 ctx'"
    "transfer_ok ctx1 res" by auto
qed

text \<open>One call, for a frame (or none) that the aggregation can take.\<close>

lemma aggr_tx_frame_step:
  assumes "agg_inv ctx" and "fits (tx_max ctx) skb"
  shows "\<exists>res ctx'. aggr_tx_frame True ctx skb = Inr (res, ctx') \<and> agg_inv ctx'
     \<and> sent_bytes res @ pending ctx' = pending ctx @ skb_bytes skb
     \<and> same_setup ctx ctx' \<and> transfer_ok ctx res"
proof -
  obtain ctx1 skb1 r out c2 s2 o2 n2 r2 where st: "aggr_start True ctx skb = (ctx1, skb1, r, Some out)"
    "same_loop ctx ctx1"
    "aggr_loop ctx1 skb1 out (ucast (tx_curr_frame_num ctx1)) r = Inr (c2, s2, o2, n2, r2)"
    "loop_post (tx_rem_skb ctx \<noteq> None \<and> skb \<noteq> None) ctx1 (pending ctx @ skb_bytes skb) (ucast (tx_curr_frame_num ctx1)) r
       (c2, s2, o2, n2, r2)"
    using aggr_start_loop [OF assms] by (metis prod.exhaust)
  obtain res ctx' where fin: "aggr_finish c2 s2 o2 n2 r2 = (res, ctx')" by fastforce
  have pos: "0 < tx_max_datagrams ctx1"
    using assms(1) st(2) by (simp add: agg_inv_def same_defs)
  note post = aggr_finish_post [OF st(4) pos fin]
  have "same_setup ctx ctx'" using st(2) post(3) same_setup_trans by (auto simp: same_loop_def)
  moreover have "transfer_ok ctx res"
    using post(4) st(2) by (simp add: transfer_ok_def same_defs split: option.splits)
  moreover have "aggr_tx_frame True ctx skb = Inr (res, ctx')"
    using st(1,3) fin by (simp add: aggr_tx_frame_def)
  ultimately show ?thesis using post(1,2) by blast
qed

section \<open>The aggregation and its timer as a state machine\<close>

text \<open>
  The events: the stack hands over a framed packet, the timer fires, the scheduled bottom half
  runs. When the bottom half asks for a transmission without a packet, the call comes back to
  \<open>aggr_tx_frame\<close> with NULL.
\<close>

datatype tx_event = Packet sk_buff | Timer_Fires | Run_Bh

fun tx_event_step :: "cdc_ncm_ctx \<Rightarrow> tx_event \<Rightarrow> fault + (tx_frame option \<times> cdc_ncm_ctx)" where
  "tx_event_step ctx (Packet s) = aggr_tx_frame True ctx (Some s)"
| "tx_event_step ctx Timer_Fires =
     Inr (None, if timer_active ctx then cdc_ncm_tx_timer_cb ctx else ctx)"
| "tx_event_step ctx Run_Bh =
     (if bh_scheduled ctx then
        (case cdc_ncm_txpath_bh True ctx of
           (Bh_Xmit_NULL, ctx) \<Rightarrow> aggr_tx_frame True ctx None
         | (_, ctx) \<Rightarrow> Inr (None, ctx))
      else Inr (None, ctx))"

fun tx_run :: "cdc_ncm_ctx \<Rightarrow> tx_event list \<Rightarrow> fault + (tx_frame list \<times> cdc_ncm_ctx)" where
  "tx_run ctx [] = Inr ([], ctx)"
| "tx_run ctx (e # es) =
     bnd (tx_event_step ctx e) (\<lambda>(out, ctx).
     bnd (tx_run ctx es) (\<lambda>(outs, ctx).
     Inr ((case out of None \<Rightarrow> outs | Some f \<Rightarrow> f # outs), ctx)))"

definition frames_bytes :: "tx_frame list \<Rightarrow> bytes" where
  "frames_bytes fs = concat (map (\<lambda>f. sk_data (tf_skb f)) fs)"

lemma frames_bytes_simps [simp]:
  "frames_bytes [] = []"
  "frames_bytes (f # fs) = sk_data (tf_skb f) @ frames_bytes fs"
  by (simp_all add: frames_bytes_def)

fun event_bytes :: "tx_event \<Rightarrow> bytes" where
  "event_bytes (Packet s) = sk_data s"
| "event_bytes _ = []"

fun event_fits :: "u32 \<Rightarrow> tx_event \<Rightarrow> bool" where
  "event_fits mx (Packet s) = fits mx (Some s)"
| "event_fits _ _ = True"

lemma timer_fields_kept:
  "agg_inv (cdc_ncm_tx_timer_cb ctx) = agg_inv ctx"
  "pending (cdc_ncm_tx_timer_cb ctx) = pending ctx"
  "same_setup ctx (cdc_ncm_tx_timer_cb ctx)"
  "agg_inv (cdc_ncm_tx_timeout_start ctx) = agg_inv ctx"
  "pending (cdc_ncm_tx_timeout_start ctx) = pending ctx"
  "same_setup ctx (cdc_ncm_tx_timeout_start ctx)"
  "agg_inv (snd (cdc_ncm_txpath_bh net ctx)) = agg_inv ctx"
  "pending (snd (cdc_ncm_txpath_bh net ctx)) = pending ctx"
  "same_setup ctx (snd (cdc_ncm_txpath_bh net ctx))"
  by (simp_all add: cdc_ncm_tx_timer_cb_def cdc_ncm_tx_timeout_start_def cdc_ncm_txpath_bh_def
      agg_inv_def pending_def same_setup_def Let_def room_def split: option.split)

lemma tx_event_step_ok:
  assumes "agg_inv ctx" and "event_fits (tx_max ctx) e"
  shows "\<exists>res ctx'. tx_event_step ctx e = Inr (res, ctx') \<and> agg_inv ctx'
     \<and> sent_bytes res @ pending ctx' = pending ctx @ event_bytes e
     \<and> same_setup ctx ctx' \<and> transfer_ok ctx res"
proof (cases e)
  case (Packet s)
  then show ?thesis using aggr_tx_frame_step [OF assms(1), of "Some s"] assms(2) by simp
next
  case Timer_Fires
  then show ?thesis using assms(1) timer_fields_kept(1-3)
    by (simp add: sent_bytes_def transfer_ok_def)
next
  case Run_Bh
  obtain b c where bh: "cdc_ncm_txpath_bh True ctx = (b, c)" by fastforce
  have c: "agg_inv c" "pending c = pending ctx" "same_setup ctx c"
    using timer_fields_kept(7-9) [where net = True and ctx = ctx] assms(1) bh by simp_all
  show ?thesis
  proof (cases "bh_scheduled ctx \<and> b = Bh_Xmit_NULL")
    case True
    obtain res c' where "aggr_tx_frame True c None = Inr (res, c')" "agg_inv c'"
      "sent_bytes res @ pending c' = pending c" "same_setup c c'" "transfer_ok c res"
      using aggr_tx_frame_step [OF c(1), of None] by auto
    then show ?thesis
      using True Run_Bh bh c same_setup_trans [OF c(3)]
      by (auto simp: transfer_ok_def same_setup_def split: option.splits)
  next
    case False
    then show ?thesis
      using Run_Bh bh c assms(1)
      by (cases b) (auto simp: sent_bytes_def transfer_ok_def)
  qed
qed

lemma tx_run_ok:
  assumes "agg_inv ctx" and "\<forall>e \<in> set es. event_fits (tx_max ctx) e"
  shows "\<exists>outs ctx'. tx_run ctx es = Inr (outs, ctx') \<and> agg_inv ctx'
     \<and> frames_bytes outs @ pending ctx' = pending ctx @ concat (map event_bytes es)
     \<and> same_setup ctx ctx' \<and> (\<forall>f \<in> set outs. transfer_ok ctx (Some f))"
  using assms
proof (induction es arbitrary: ctx)
  case Nil
  then show ?case by simp
next
  case (Cons e es)
  obtain res c where s: "tx_event_step ctx e = Inr (res, c)" "agg_inv c"
    "sent_bytes res @ pending c = pending ctx @ event_bytes e" "same_setup ctx c" "transfer_ok ctx res"
    using tx_event_step_ok [of ctx e] Cons.prems by auto
  have "\<forall>e \<in> set es. event_fits (tx_max c) e"
    using Cons.prems(2) s(4) by (simp add: same_setup_def)
  then obtain outs c' where r: "tx_run c es = Inr (outs, c')" "agg_inv c'"
    "frames_bytes outs @ pending c' = pending c @ concat (map event_bytes es)"
    "same_setup c c'" "\<forall>f \<in> set outs. transfer_ok c (Some f)"
    using Cons.IH [OF s(2)] by blast
  have tr: "transfer_ok ctx (Some f) = transfer_ok c (Some f)" for f
    using s(4) by (simp add: transfer_ok_def same_setup_def)
  have "same_setup ctx c'" using s(4) r(4) by (rule same_setup_trans)
  moreover have "sent_bytes res @ frames_bytes outs @ pending c'
      = pending ctx @ event_bytes e @ concat (map event_bytes es)"
    using s(3) r(3) by (metis append.assoc)
  ultimately show ?case using s r tr by (cases res) (auto simp: sent_bytes_def)
qed

section \<open>No frame waits unattended\<close>

text \<open>A frame that waits is looked after: the timer runs, or the bottom half is about to.\<close>

definition woken :: "cdc_ncm_ctx \<Rightarrow> bool" where
  "woken ctx \<longleftrightarrow> 0 \<le> tx_timer_pending ctx \<and> (pending ctx \<noteq> [] \<longrightarrow>
     timer_active ctx \<or> bh_scheduled ctx \<or> ctx_stop ctx)"

lemma aggr_finish_wake:
  assumes "loop_post two ctx1 bs n1 r1 (ctx, skb, out, n, r)"
    and "aggr_finish ctx skb out n r = (res, ctx')" and "0 \<le> tx_timer_pending ctx1"
  shows "0 \<le> tx_timer_pending ctx'" and "ctx_stop ctx' = ctx_stop ctx1"
    and "bh_scheduled ctx' = bh_scheduled ctx1" and "timer_active ctx1 \<longrightarrow> timer_active ctx'"
    and "pending ctx' \<noteq> [] \<longrightarrow> timer_active ctx' \<or> ctx_stop ctx' \<or> two \<or> unat (tx_max ctx1) < length bs"
proof -
  have p: "skb = None" "same_loop ctx1 ctx" "n = 0 \<longrightarrow> bs = []"
    "sk_data out @ skb_bytes (tx_rem_skb ctx) = bs"
    "tx_rem_skb ctx \<noteq> None \<longrightarrow> n \<noteq> 0 \<and> (r \<or> n = tx_max_datagrams ctx)
       \<and> (two \<or> unat (tx_max ctx1) < length bs)"
    using assms(1) by (auto simp: loop_post_def)
  have t: "0 \<le> tx_timer_pending ctx" using p(2) assms(3) by (simp add: same_loop_def)
  have "0 \<le> tx_timer_pending ctx' \<and> ctx_stop ctx' = ctx_stop ctx
      \<and> bh_scheduled ctx' = bh_scheduled ctx \<and> (timer_active ctx \<longrightarrow> timer_active ctx')"
    using assms(2) p(1) t
    by (auto simp: aggr_finish_def exit_no_skb_def cdc_ncm_tx_timeout_start_def Let_def
        split: if_splits)
  then show "0 \<le> tx_timer_pending ctx'" "ctx_stop ctx' = ctx_stop ctx1"
    "bh_scheduled ctx' = bh_scheduled ctx1" "timer_active ctx1 \<longrightarrow> timer_active ctx'"
    using p(2) by (auto simp: same_loop_def)
  consider (zero) "n = 0"
    | (wait) "n \<noteq> 0" "n < tx_max_datagrams ctx \<and> \<not> r \<and> timer_interval ctx > 0"
    | (send) "n \<noteq> 0" "\<not> (n < tx_max_datagrams ctx \<and> \<not> r \<and> timer_interval ctx > 0)" by blast
  then show "pending ctx' \<noteq> [] \<longrightarrow> timer_active ctx' \<or> ctx_stop ctx' \<or> two \<or> unat (tx_max ctx1) < length bs"
  proof cases
    case zero
    then have "tx_rem_skb ctx = None" "sk_data out = []" using p by auto
    with zero p(1) assms(2) show ?thesis
      by (auto simp: aggr_finish_def exit_no_skb_def pending_def)
  next
    case wait
    with p(1) assms(2) show ?thesis
      by (auto simp: aggr_finish_def exit_no_skb_def cdc_ncm_tx_timeout_start_def Let_def
          word_neq_0_conv split: if_splits)
  next
    case send
    with p(1) assms(2) have "pending ctx' = skb_bytes (tx_rem_skb ctx)"
      by (auto simp: aggr_finish_def Let_def pending_def)
    then show ?thesis using p(5) by auto
  qed
qed

lemma aggr_tx_frame_wake:
  assumes "agg_inv ctx" and "fits (tx_max ctx) skb" and "aggr_tx_frame True ctx skb = Inr (res, ctx')"
    and "0 \<le> tx_timer_pending ctx" and "skb \<noteq> None \<Longrightarrow> woken ctx"
  shows "woken ctx'" and "ctx_stop ctx' = ctx_stop ctx"
proof -
  let ?two = "tx_rem_skb ctx \<noteq> None \<and> skb \<noteq> None"
  obtain ctx1 skb1 r out c2 s2 o2 n2 r2 where st: "aggr_start True ctx skb = (ctx1, skb1, r, Some out)"
    "same_loop ctx ctx1"
    "aggr_loop ctx1 skb1 out (ucast (tx_curr_frame_num ctx1)) r = Inr (c2, s2, o2, n2, r2)"
    "loop_post ?two ctx1 (pending ctx @ skb_bytes skb) (ucast (tx_curr_frame_num ctx1)) r
       (c2, s2, o2, n2, r2)"
    using aggr_start_loop [OF assms(1,2)] by (metis prod.exhaust)
  have fin: "aggr_finish c2 s2 o2 n2 r2 = (res, ctx')"
    using assms(3) st(1,3) by (simp add: aggr_tx_frame_def)
  have "0 \<le> tx_timer_pending ctx1" using assms(4) st(2) by (simp add: same_loop_def)
  note w = aggr_finish_wake [OF st(4) fin this]
  show "ctx_stop ctx' = ctx_stop ctx" using w(2) st(2) by (simp add: same_loop_def)
  have short: "\<not> ?two \<and> \<not> unat (tx_max ctx1) < length (pending ctx @ skb_bytes skb)"
    if "skb = None \<or> pending ctx = []"
  proof (cases skb)
    case None
    have "length (pending ctx) \<le> unat (tx_max ctx)"
      using assms(1)
      by (auto simp: agg_inv_def pending_def room_def skb_bytes_def fits_def split: option.splits)
    then show ?thesis using None st(2) by (simp add: same_defs)
  next
    case (Some s)
    with that have "pending ctx = []" by simp
    then have "tx_rem_skb ctx = None"
      using assms(1) by (cases "tx_rem_skb ctx") (auto simp: agg_inv_def pending_def)
    then show ?thesis using \<open>pending ctx = []\<close> Some assms(2) st(2) by (simp add: same_defs)
  qed
  show "woken ctx'"
  proof (cases "skb = None \<or> pending ctx = []")
    case True
    then show ?thesis using w(1,5) short by (auto simp: woken_def)
  next
    case False
    then have "timer_active ctx \<or> bh_scheduled ctx \<or> ctx_stop ctx"
      using assms(5) by (auto simp: woken_def)
    then show ?thesis using w st(2) by (auto simp: woken_def same_loop_def)
  qed
qed

text \<open>A call without a frame sends everything.\<close>

lemma aggr_tx_frame_flush:
  assumes "agg_inv ctx" and "aggr_tx_frame True ctx None = Inr (res, ctx')"
  shows "pending ctx' = []"
proof -
  obtain ctx1 skb1 out c2 s2 o2 n2 r2 where st: "aggr_start True ctx None = (ctx1, skb1, True, Some out)"
    "same_loop ctx ctx1"
    "aggr_loop ctx1 skb1 out (ucast (tx_curr_frame_num ctx1)) True = Inr (c2, s2, o2, n2, r2)"
    "loop_post False ctx1 (pending ctx) (ucast (tx_curr_frame_num ctx1)) True (c2, s2, o2, n2, r2)"
    using aggr_start_loop [OF assms(1), of None] by (auto simp: split_paired_Ex)
  have fin: "aggr_finish c2 s2 o2 n2 r2 = (res, ctx')"
    using assms(2) st(1,3) by (simp add: aggr_tx_frame_def)
  have "length (pending ctx) \<le> unat (tx_max ctx)"
    using assms(1)
    by (auto simp: agg_inv_def pending_def room_def skb_bytes_def fits_def split: option.splits)
  then have p: "s2 = None" "r2" "tx_rem_skb c2 = None" "n2 = 0 \<longrightarrow> sk_data o2 = []"
    using st(2,4) by (auto simp: loop_post_def same_defs)
  show ?thesis
  proof (cases "n2 = 0")
    case True
    then show ?thesis using p fin by (auto simp: aggr_finish_def exit_no_skb_def pending_def)
  next
    case False
    then show ?thesis using p fin by (auto simp: aggr_finish_def Let_def pending_def)
  qed
qed

lemma tx_event_step_wake:
  assumes "agg_inv ctx" and "event_fits (tx_max ctx) e" and "woken ctx"
    and "tx_event_step ctx e = Inr (res, ctx')"
  shows "woken ctx'" and "ctx_stop ctx' = ctx_stop ctx"
proof -
  have "woken ctx' \<and> ctx_stop ctx' = ctx_stop ctx"
  proof (cases e)
    case (Packet s)
    then show ?thesis
      using aggr_tx_frame_wake [OF assms(1), of "Some s" res ctx'] assms by (auto simp: woken_def)
  next
    case Timer_Fires
    then show ?thesis
      using assms(3,4) timer_fields_kept(2)
      by (auto simp: woken_def cdc_ncm_tx_timer_cb_def Let_def pending_def split: if_splits)
  next
    case Run_Bh
    obtain b c where bh: "cdc_ncm_txpath_bh True ctx = (b, c)" by fastforce
    have c: "agg_inv c" "pending c = pending ctx" "ctx_stop c = ctx_stop ctx"
      "0 \<le> tx_timer_pending c" "b = Bh_Restarted \<Longrightarrow> woken c"
      using timer_fields_kept(7-9) [where net = True and ctx = ctx] assms(1,3) bh
      by (auto simp: cdc_ncm_txpath_bh_def cdc_ncm_tx_timeout_start_def Let_def woken_def
          split: if_splits)
    have b: "b \<noteq> Bh_Nothing" using bh by (auto simp: cdc_ncm_txpath_bh_def Let_def split: if_splits)
    show ?thesis
    proof (cases "bh_scheduled ctx \<and> b = Bh_Xmit_NULL")
      case True
      then have "aggr_tx_frame True c None = Inr (res, ctx')"
        using assms(4) Run_Bh bh by simp
      then show ?thesis using aggr_tx_frame_wake [of c None res ctx'] c by simp
    next
      case False
      then show ?thesis using assms(3,4) Run_Bh bh b c by (cases b) (auto split: if_splits)
    qed
  qed
  then show "woken ctx'" "ctx_stop ctx' = ctx_stop ctx" by auto
qed

lemma tx_run_wake:
  assumes "agg_inv ctx" and "\<forall>e \<in> set es. event_fits (tx_max ctx) e" and "woken ctx"
    and "tx_run ctx es = Inr (outs, ctx')"
  shows "woken ctx' \<and> ctx_stop ctx' = ctx_stop ctx"
  using assms
proof (induction es arbitrary: ctx outs)
  case Nil
  then show ?case by simp
next
  case (Cons e es)
  obtain res c where s: "tx_event_step ctx e = Inr (res, c)" "agg_inv c" "same_setup ctx c"
    using tx_event_step_ok [of ctx e] Cons.prems by auto
  note w = tx_event_step_wake [OF Cons.prems(1) _ Cons.prems(3) s(1)]
  obtain outs' where "tx_run c es = Inr (outs', ctx')"
    using Cons.prems(4) s(1) by (auto simp: returns_iff)
  then show ?case
    using Cons.IH [OF s(2)] w Cons.prems(2) s(3) by (auto simp: same_setup_def)
qed

text \<open>One firing of the timer and one run of the bottom half.\<close>

abbreviation "timer_round \<equiv> [Timer_Fires, Run_Bh]"

lemma timer_round_step:
  assumes "agg_inv ctx" and "woken ctx" and "\<not> ctx_stop ctx" and "pending ctx \<noteq> []"
  shows "\<exists>outs ctx'. tx_run ctx timer_round = Inr (outs, ctx') \<and>
     (if tx_timer_pending ctx = 0 then pending ctx' = []
      else tx_timer_pending ctx' = tx_timer_pending ctx - 1)"
proof -
  obtain c where c: "tx_event_step ctx Timer_Fires = Inr (None, c)" "bh_scheduled c"
    "tx_timer_pending c = tx_timer_pending ctx" "agg_inv c"
    using assms timer_fields_kept(1) [of ctx]
    by (cases "timer_active ctx") (auto simp: woken_def cdc_ncm_tx_timer_cb_def Let_def)
  show ?thesis
  proof (cases "tx_timer_pending ctx = 0")
    case True
    let ?d = "c\<lparr>bh_scheduled := False\<rparr>"
    have i: "agg_inv ?d"
      using timer_fields_kept(7) [where net = True and ctx = c] c True
      by (simp add: cdc_ncm_txpath_bh_def)
    then obtain res ctx' where a: "aggr_tx_frame True ?d None = Inr (res, ctx')"
      using aggr_tx_frame_step [OF i, of None] by auto
    have "pending ctx' = []" by (rule aggr_tx_frame_flush [OF i a])
    then show ?thesis using True c a by (simp add: cdc_ncm_txpath_bh_def)
  next
    case False
    then show ?thesis
      using c by (simp add: cdc_ncm_txpath_bh_def cdc_ncm_tx_timeout_start_def Let_def)
  qed
qed

lemma tx_run_append:
  "tx_run ctx (es @ fs) = bnd (tx_run ctx es) (\<lambda>(outs, c).
     bnd (tx_run c fs) (\<lambda>(outs', c'). Inr (outs @ outs', c')))"
proof (induction es arbitrary: ctx)
  case Nil
  show ?case by (cases "tx_run ctx fs") auto
next
  case (Cons e es)
  show ?case
  proof (cases "tx_event_step ctx e")
    case (Inr r)
    obtain o1 c1 where r: "r = (o1, c1)" by (cases r)
    show ?thesis
    proof (cases "tx_run c1 es")
      case in2: (Inr r2)
      obtain o2 c2 where r2: "r2 = (o2, c2)" by (cases r2)
      show ?thesis
        using Inr in2 r r2 by (cases "tx_run c2 fs") (auto simp: Cons.IH split: option.split)
    qed (use Inr r in \<open>simp add: Cons.IH\<close>)
  qed simp
qed

lemma timer_rounds_flush:
  assumes "agg_inv ctx" and "woken ctx" and "\<not> ctx_stop ctx" and "tx_timer_pending ctx \<le> int k"
  shows "\<exists>outs ctx'. tx_run ctx (concat (replicate (Suc k) timer_round)) = Inr (outs, ctx')
     \<and> pending ctx' = []"
  using assms
proof (induction k arbitrary: ctx)
  case 0
  have "\<forall>e \<in> set timer_round. event_fits (tx_max ctx) e" by simp
  from tx_run_ok [OF "0.prems"(1) this] obtain outs ctx' where
    r: "tx_run ctx timer_round = Inr (outs, ctx')" "frames_bytes outs @ pending ctx' = pending ctx"
    by auto
  show ?case
  proof (cases "pending ctx = []")
    case True
    then show ?thesis using r by auto
  next
    case False
    moreover have "tx_timer_pending ctx = 0" using "0.prems" by (simp add: woken_def)
    ultimately show ?thesis using timer_round_step [OF "0.prems"(1-3)] by auto
  qed
next
  case (Suc k)
  have fit: "\<forall>e \<in> set timer_round. event_fits (tx_max ctx) e" by simp
  from tx_run_ok [OF Suc.prems(1) fit] obtain outs c where
    r: "tx_run ctx timer_round = Inr (outs, c)" "agg_inv c" "frames_bytes outs @ pending c = pending ctx"
    by auto
  have w: "woken c" "\<not> ctx_stop c" using tx_run_wake [OF Suc.prems(1) fit Suc.prems(2) r(1)] Suc.prems by auto
  have run: "tx_run ctx (concat (replicate (Suc (Suc k)) timer_round))
      = bnd (tx_run c (concat (replicate (Suc k) timer_round))) (\<lambda>(os, c'). Inr (outs @ os, c'))"
    by (simp only: replicate_Suc [of "Suc k"] concat.simps tx_run_append r bnd_simps prod.case)
  show ?case
  proof (cases "pending c = []")
    case True
    have "\<forall>e \<in> set (concat (replicate (Suc k) timer_round)). event_fits (tx_max c) e" by auto
    moreover have "concat (map event_bytes (concat (replicate (Suc k) timer_round))) = []" by simp
    ultimately obtain os c' where "tx_run c (concat (replicate (Suc k) timer_round)) = Inr (os, c')"
      "pending c' = []"
      using tx_run_ok [OF r(2)] True by (metis append_is_Nil_conv append_Nil)
    then show ?thesis unfolding run by simp
  next
    case False
    then have "pending ctx \<noteq> []" using r(3) by auto
    then have "tx_timer_pending c \<le> int k"
      using timer_round_step [OF Suc.prems(1-3)] r(1) False Suc.prems(4) by (auto split: if_splits)
    then show ?thesis using Suc.IH [OF r(2) w] unfolding run by auto
  qed
qed

section \<open>Properties of the aggregation\<close>

text \<open>The context as \<open>GobiUSBNetProbe\<close> sets it up.\<close>

definition ctx_init :: "int \<Rightarrow> cdc_ncm_ctx" where
  "ctx_init gtimer = \<lparr>tx_curr_skb = None, tx_rem_skb = None, timer_interval = gtimer,
     tx_timer_pending = 0, tx_max_datagrams = 0x20, tx_curr_frame_num = 0, tx_max = 0x7C00,
     tx_curr_size = 0, tx_curr_frame_payload = 0, tx_reason_max_datagram = 0, tx_overhead = 0,
     ctx_stop = False, timer_active = False, bh_scheduled = False, tx_dropped = 0\<rparr>"

lemma ctx_init_ok: "agg_inv (ctx_init t)" "woken (ctx_init t)" "pending (ctx_init t) = []"
  by (simp_all add: ctx_init_def agg_inv_def woken_def pending_def)


definition frame_example :: "nat \<Rightarrow> sk_buff" where
  "frame_example n = \<lparr>sk_head = [], sk_data = [0, 0x81, 0, word_of_nat n] @ replicate n 7,
     sk_tail = [], sk_protocol = 0\<rparr>"

lemma frame_example_fits: "n \<le> 200 \<Longrightarrow> event_fits 0x7C00 (Packet (frame_example n))"
  by (simp add: frame_example_def)




text \<open>The state a frame longer than a whole transfer leaves behind.\<close>

definition stuck :: "sk_buff \<Rightarrow> cdc_ncm_ctx \<Rightarrow> bool" where
  "stuck r ctx \<longleftrightarrow> 0 < tx_max_datagrams ctx \<and> unat (tx_max ctx) < length (sk_data r)
     \<and> tx_rem_skb ctx = Some r \<and> tx_curr_size ctx = tx_max ctx \<and> tx_curr_frame_num ctx = 0
     \<and> tx_curr_skb ctx \<noteq> None \<and> \<not> timer_active ctx \<and> \<not> bh_scheduled ctx"

fun is_packet :: "tx_event \<Rightarrow> bool" where
  "is_packet (Packet s) = True"
| "is_packet _ = False"

lemma stuck_step:
  assumes "stuck r ctx"
  shows "\<exists>ctx'. tx_event_step ctx e = Inr (None, ctx') \<and> stuck r ctx'
     \<and> tx_dropped ctx' = tx_dropped ctx + (if is_packet e then 1 else 0)"
proof (cases e)
  case (Packet s)
  obtain out where out: "tx_curr_skb ctx = Some out" using assms by (auto simp: stuck_def)
  have st: "aggr_start True ctx (Some s) = (ctx\<lparr>tx_rem_skb := Some s\<rparr>, Some r, False, Some out)"
    using assms out by (simp add: aggr_start_def stuck_def)
  show ?thesis
    using assms Packet out
    by (simp add: aggr_tx_frame_def st aggr_loop_no_room stuck_def aggr_finish_def exit_no_skb_def)
qed (use assms in \<open>auto simp: stuck_def\<close>)

lemma stuck_run:
  "stuck r ctx \<Longrightarrow> \<exists>ctx'. tx_run ctx es = Inr ([], ctx')
     \<and> tx_dropped ctx' = tx_dropped ctx + length (filter is_packet es)"
proof (induction es arbitrary: ctx)
  case Nil
  then show ?case by simp
next
  case (Cons e es)
  obtain c where c: "tx_event_step ctx e = Inr (None, c)" "stuck r c"
    "tx_dropped c = tx_dropped ctx + (if is_packet e then 1 else 0)"
    using stuck_step [OF Cons.prems] by blast
  then show ?case using Cons.IH [OF c(2)] by auto
qed

text \<open>
  A frame longer than a transfer blocks the transmit path for good: from then on, whatever
  packets and timer events follow, nothing is sent any more and every further packet is dropped.
\<close>

theorem oversized_frame_blocks_aggregation:
  assumes "0x7C00 < length (sk_data r)"
  shows "\<exists>ctx. tx_run (ctx_init gtimer) (Packet r # es) = Inr ([], ctx)
     \<and> tx_dropped ctx = length (filter is_packet es)"
proof -
  let ?c = "ctx_init gtimer\<lparr>tx_rem_skb := Some r, tx_curr_size := 0x7C00,
    tx_curr_frame_num := 0, tx_curr_frame_payload := 0\<rparr>"
  let ?out = "alloc_skb 0x7C00"
  have st: "aggr_start True (ctx_init gtimer) (Some r) = (?c, None, False, Some ?out)"
    by (simp add: aggr_start_def ctx_init_def)
  have lt: "0 < tx_max_datagrams ?c" by (simp add: ctx_init_def)
  have "aggr_loop ?c None ?out 0 False = aggr_loop (?c\<lparr>tx_rem_skb := None\<rparr>) (Some r) ?out 0 False"
    by (rule aggr_loop_rem [OF lt]) simp
  also have "\<dots> = Inr (?c, None, ?out, 0, True)"
    using lt assms by (subst aggr_loop_no_room) simp_all
  finally have lp: "aggr_loop ?c None ?out 0 False = Inr (?c, None, ?out, 0, True)" .
  let ?c' = "?c\<lparr>tx_curr_skb := Some ?out\<rparr>"
  have "aggr_tx_frame True (ctx_init gtimer) (Some r) = Inr (None, ?c')"
    by (simp add: aggr_tx_frame_def st lp aggr_finish_def exit_no_skb_def)
  moreover have "stuck r ?c'" and "tx_dropped ?c' = 0"
    using assms by (simp_all add: stuck_def ctx_init_def)
  ultimately show ?thesis using stuck_run [of r ?c' es] by auto
qed

theorem oversized_frame_blocks_aggregation_witness:
  "\<exists>ctx. tx_run (ctx_init 1000) [Packet (frame_example 31741), Packet (frame_example 8), Timer_Fires, Run_Bh]
      = Inr ([], ctx) \<and> tx_dropped ctx = 1"
  using oversized_frame_blocks_aggregation [of "frame_example 31741" 1000
      "[Packet (frame_example 8), Timer_Fires, Run_Bh]"]
  by (simp add: frame_example_def)

end
