(* ===== verification/CString.thy ===== *)
theory CString
  imports Prelude
begin

text \<open>
  C strings in arrays: the functions of the kernel's string library that the INF parser of
  \<^verbatim>\<open>InfParser/qtiDevInf.c\<close> uses, and the parser's own helpers \<open>rstrip\<close>, \<open>lskip\<close>,
  \<open>find_chars_or_comment\<close> and \<open>strncpy0\<close>. An array is the list of all its characters and a pointer into
  it an index. A function that writes returns the array; an access outside of the array is a fault. The
  characters of a string are the ones before the first \<open>NUL\<close>, as for the C functions.
\<close>

section \<open>Characters\<close>

abbreviation (input) "NUL \<equiv> CHR 0x00"

text \<open>The character table of the kernel: it is Latin-1, with the no-break space as a space.\<close>

definition isspace :: "char \<Rightarrow> bool" where
  "isspace c = (let n = of_char c :: nat in 9 \<le> n \<and> n \<le> 13 \<or> n = 32 \<or> n = 160)"

definition isdigit :: "char \<Rightarrow> bool" where
  "isdigit c = (let n = of_char c :: nat in 48 \<le> n \<and> n \<le> 57)"

definition isupper :: "char \<Rightarrow> bool" where
  "isupper c = (let n = of_char c :: nat in 65 \<le> n \<and> n \<le> 90 \<or> 192 \<le> n \<and> n \<le> 222 \<and> n \<noteq> 215)"

definition tolower :: "char \<Rightarrow> char" where
  "tolower c = (if isupper c then char_of (of_char c + 32 :: nat) else c)"

declare bnd_cong [fundef_cong]

text \<open>\<open>strchr\<close> finds the terminating character too.\<close>

definition strchr :: "string \<Rightarrow> char \<Rightarrow> bool" where
  "strchr s c \<longleftrightarrow> c \<in> set s \<or> c = NUL"

text \<open>\<open>strncasecmp\<close> against a constant of length \<open>n\<close>, for equality.\<close>

definition has_prefix :: "string \<Rightarrow> string \<Rightarrow> bool" where
  "has_prefix s k \<longleftrightarrow> map tolower (take (length k) s) = map tolower k"

section \<open>Numbers\<close>

definition digit_value :: "char \<Rightarrow> nat" where
  "digit_value c = (let n = of_char c :: nat in
     if 48 \<le> n \<and> n \<le> 57 then n - 48
     else if 97 \<le> n \<and> n \<le> 102 then n - 87
     else if 65 \<le> n \<and> n \<le> 70 then n - 55
     else 16)"

fun parse_integer :: "nat \<Rightarrow> nat \<Rightarrow> string \<Rightarrow> nat" where
  "parse_integer base acc [] = acc"
| "parse_integer base acc (c # cs) =
     (if base \<le> digit_value c then acc
      else parse_integer base ((base * acc + digit_value c) mod 2 ^ 64) cs)"

text \<open>Base 16 with an optional \<^verbatim>\<open>0x\<close>.\<close>

definition simple_strtoul :: "nat \<Rightarrow> string \<Rightarrow> nat" where
  "simple_strtoul base s =
     (if base = 16 \<and> map tolower (take 2 s) = ''0x'' then parse_integer base 0 (drop 2 s)
      else parse_integer base 0 s)"

section \<open>Strings in arrays\<close>

type_synonym carr = string

definition rdc :: "carr \<Rightarrow> nat \<Rightarrow> fault + char" where
  "rdc a p = (if p < length a then Inr (a ! p) else Inl (OOB_Read p))"

definition wrc :: "carr \<Rightarrow> nat \<Rightarrow> char \<Rightarrow> fault + carr" where
  "wrc a p c = (if p < length a then Inr (a[p := c]) else Inl (OOB_Write p))"

definition cstr :: "carr \<Rightarrow> nat \<Rightarrow> string" where
  "cstr a p = takeWhile (\<lambda>c. c \<noteq> NUL) (drop p a)"

definition strlen :: "carr \<Rightarrow> nat \<Rightarrow> fault + nat" where
  "strlen a p = (if NUL \<in> set (drop p a) then Inr (length (cstr a p)) else Inl (OOB_Read (length a)))"

section \<open>Helpers of the parser\<close>

definition trimmed :: "char \<Rightarrow> bool" where
  "trimmed c \<longleftrightarrow> isspace c \<or> c = CHR ''%'' \<or> c = CHR 0x22"

fun rstrip_loop :: "carr \<Rightarrow> nat \<Rightarrow> nat \<Rightarrow> fault + carr" where
  "rstrip_loop a s 0 = Inr a"
| "rstrip_loop a s (Suc p) =
     (if Suc p > s then
        bnd (rdc a p) (\<lambda>c.
        if trimmed c then bnd (wrc a p NUL) (\<lambda>a. rstrip_loop a s p) else Inr a)
      else Inr a)"

definition rstrip :: "carr \<Rightarrow> nat \<Rightarrow> fault + carr" where
  "rstrip a s = bnd (strlen a s) (\<lambda>n. rstrip_loop a s (s + n))"

function lskip :: "carr \<Rightarrow> nat \<Rightarrow> fault + nat" where
  "lskip a s = bnd (rdc a s) (\<lambda>c. if c \<noteq> NUL \<and> trimmed c then lskip a (s + 1) else Inr s)"
  by pat_completeness auto
termination
  by (relation "measure (\<lambda>(a, s). length a - s)") (auto simp: rdc_def split: if_splits)

function find_chars_or_comment :: "carr \<Rightarrow> nat \<Rightarrow> string \<Rightarrow> fault + nat" where
  "find_chars_or_comment a s chars =
     bnd (rdc a s) (\<lambda>c. if c \<noteq> NUL \<and> \<not> strchr chars c then find_chars_or_comment a (s + 1) chars else Inr s)"
  by pat_completeness auto
termination
  by (relation "measure (\<lambda>(a, s, chars). length a - s)") (auto simp: rdc_def split: if_splits)

declare lskip.simps [simp del] find_chars_or_comment.simps [simp del]

text \<open>\<open>strsep\<close>: the token and what is left, with its end written into the array.\<close>

definition strsep :: "carr \<Rightarrow> nat option \<Rightarrow> string \<Rightarrow> fault + (nat option \<times> nat option \<times> carr)" where
  "strsep a data delim =
     (case data of None \<Rightarrow> Inr (None, None, a) | Some p \<Rightarrow>
      bnd (find_chars_or_comment a p delim) (\<lambda>q.
      bnd (rdc a q) (\<lambda>c.
      if c = NUL then Inr (Some p, None, a)
      else bnd (wrc a q NUL) (\<lambda>a. Inr (Some p, Some (q + 1), a)))))"

text \<open>What is in a destination of \<open>n\<close> bytes after \<open>strncpy0\<close>.\<close>

definition strncpy0 :: "string \<Rightarrow> nat \<Rightarrow> string" where
  "strncpy0 src n = take (n - 1) src"

section \<open>A terminated string\<close>

text \<open>
  The string at \<open>p\<close> with its end inside the array. On such strings the helpers do not fault, and they do
  what they do on lists of characters.
\<close>

definition cstring :: "carr \<Rightarrow> nat \<Rightarrow> bool" where
  "cstring a p \<longleftrightarrow> NUL \<in> set (drop p a)"

lemma cstring_end:
  assumes "cstring a p"
  shows "p + length (cstr a p) < length a" and "a ! (p + length (cstr a p)) = NUL"
    and "\<And>k. k < length (cstr a p) \<Longrightarrow> a ! (p + k) = cstr a p ! k" and "NUL \<notin> set (cstr a p)"
proof -
  let ?d = "drop p a"
  have d: "?d = takeWhile (\<lambda>c. c \<noteq> NUL) ?d @ dropWhile (\<lambda>c. c \<noteq> NUL) ?d" by simp
  have ne: "dropWhile (\<lambda>c. c \<noteq> NUL) ?d \<noteq> []" using assms by (simp add: cstring_def)
  have l: "length (cstr a p) < length ?d"
    unfolding cstr_def by (metis (no_types, lifting) append_Nil2 d length_takeWhile_le le_neq_implies_less ne takeWhile_eq_all_conv dropWhile_eq_Nil_conv takeWhile_eq_take take_all_iff order_refl)
  then show "p + length (cstr a p) < length a" by simp
  have "?d ! length (cstr a p) = NUL"
    using l unfolding cstr_def by (rule nth_length_takeWhile [THEN notnotD, simplified])
  then show "a ! (p + length (cstr a p)) = NUL" using l by simp
  show "a ! (p + k) = cstr a p ! k" if "k < length (cstr a p)" for k
    using takeWhile_nth [of k "\<lambda>c. c \<noteq> NUL" ?d] that l by (simp add: cstr_def)
  show "NUL \<notin> set (cstr a p)" by (auto simp: cstr_def dest: set_takeWhileD)
qed

lemma cstr_unfold: "p < length a \<Longrightarrow> cstr a p = (if a ! p = NUL then [] else a ! p # cstr a (Suc p))"
  by (simp add: cstr_def flip: Cons_nth_drop_Suc)

lemma cstring_unfold: "cstring a p \<longleftrightarrow> p < length a \<and> (a ! p = NUL \<or> cstring a (Suc p))"
  by (cases "p < length a") (auto simp: cstring_def simp flip: Cons_nth_drop_Suc)

lemma cstr_induct [consumes 1, case_names Nul Char]:
  assumes "cstring a p"
    and "\<And>p. p < length a \<Longrightarrow> a ! p = NUL \<Longrightarrow> cstr a p = [] \<Longrightarrow> P p"
    and "\<And>p. p < length a \<Longrightarrow> a ! p \<noteq> NUL \<Longrightarrow> cstring a (Suc p) \<Longrightarrow> cstr a p = a ! p # cstr a (Suc p)
       \<Longrightarrow> P (Suc p) \<Longrightarrow> P p"
  shows "P p"
  using assms(1)
proof (induction "length a - p" arbitrary: p rule: less_induct)
  case less
  note u = less(2) [unfolded cstring_unfold [of a p]]
  show ?case
  proof (cases "a ! p = NUL")
    case True
    then show ?thesis using u assms(2) by (simp add: cstr_unfold)
  next
    case False
    then have "P (Suc p)" using u by (intro less(1)) auto
    then show ?thesis using u False assms(3) [of p] by (simp add: cstr_unfold)
  qed
qed

lemma find_chars_spec:
  assumes "cstring a p"
  shows "find_chars_or_comment a p chars = Inr (p + length (takeWhile (\<lambda>c. c \<notin> set chars) (cstr a p)))"
  using assms
proof (induction rule: cstr_induct)
  case (Nul p)
  then show ?case by (subst find_chars_or_comment.simps) (simp add: rdc_def)
next
  case (Char p)
  then show ?case by (subst find_chars_or_comment.simps) (simp add: rdc_def strchr_def)
qed

lemma lskip_spec:
  assumes "cstring a p"
  shows "lskip a p = Inr (p + length (takeWhile trimmed (cstr a p)))"
  using assms
proof (induction rule: cstr_induct)
  case (Nul p)
  then show ?case by (subst lskip.simps) (simp add: rdc_def)
next
  case (Char p)
  then show ?case by (subst lskip.simps) (simp add: rdc_def)
qed

lemma cstr_drop: "cstring a p \<Longrightarrow> k \<le> length (cstr a p) \<Longrightarrow> cstr a (p + k) = drop k (cstr a p) \<and> cstring a (p + k)"
proof (induction k arbitrary: p)
  case (Suc k)
  then have "p < length a" "a ! p \<noteq> NUL" "cstring a (Suc p)"
    using cstring_unfold [of a p] by (auto simp: cstr_unfold split: if_splits)
  then show ?case using Suc.IH [of "Suc p"] Suc.prems by (simp add: cstr_unfold)
qed simp

lemma cstr_nth: "cstring a p \<Longrightarrow> k \<le> length (cstr a p) \<Longrightarrow> a ! (p + k) = (cstr a p @ [NUL]) ! k"
  using cstring_end(2) [of a p] cstring_end(3) [of a p k] by (cases "k < length (cstr a p)") (simp_all add: nth_append)

text \<open>Cutting a string: the character at \<open>k\<close> becomes its end.\<close>

lemma cstr_other: "q < r \<Longrightarrow> cstr (a[q := c]) r = cstr a r \<and> (cstring (a[q := c]) r \<longleftrightarrow> cstring a r)"
  by (simp add: cstr_def cstring_def drop_update_swap)

lemma cstr_cut:
  assumes "cstring a p" and "k \<le> length (cstr a p)"
  shows "cstr (a[p + k := NUL]) p = take k (cstr a p)" and "cstring (a[p + k := NUL]) p"
proof -
  have "cstr (a[p + k := NUL]) p = take k (cstr a p) \<and> cstring (a[p + k := NUL]) p"
    using assms
  proof (induction k arbitrary: p)
    case 0
    then have "p < length a" using cstring_unfold by blast
    then show ?case by (simp add: cstr_unfold cstring_unfold [of "a[p := NUL]" p])
  next
    case (Suc k)
    then have u: "p < length a" "a ! p \<noteq> NUL" "cstring a (Suc p)" "cstr a p = a ! p # cstr a (Suc p)"
      using cstring_unfold [of a p] by (auto simp: cstr_unfold split: if_splits)
    have "p + Suc k \<noteq> p" "p + Suc k = Suc p + k" by simp_all
    then show ?case using Suc.IH [of "Suc p"] Suc.prems(2) u
      using cstring_unfold [of "a[p + Suc k := NUL]" p] cstr_unfold [of p "a[p + Suc k := NUL]"] by simp
  qed
  then show "cstr (a[p + k := NUL]) p = take k (cstr a p)" "cstring (a[p + k := NUL]) p" by blast+
qed

text \<open>Stripping white space at the end.\<close>

definition strip_right :: "string \<Rightarrow> string" where
  "strip_right s = rev (dropWhile trimmed (rev s))"

lemma strip_right_simps [simp]:
  "strip_right [] = []"
  "strip_right (s @ [c]) = (if trimmed c then strip_right s else s @ [c])"
  by (simp_all add: strip_right_def)

lemma strip_right_prefix: "strip_right s = take (length (strip_right s)) s"
proof -
  have "length (strip_right s) \<le> length s" for s
    using length_dropWhile_le [of trimmed "rev s"] by (simp add: strip_right_def)
  then show ?thesis by (induction s rule: rev_induct) auto
qed

lemma rstrip_loop_spec:
  "cstring a s \<Longrightarrow> length (cstr a s) = n \<Longrightarrow> \<exists>a'. rstrip_loop a s (s + n) = Inr a'
     \<and> cstr a' s = strip_right (cstr a s) \<and> cstring a' s \<and> length a' = length a
     \<and> (\<forall>q > s + n. cstr a' q = cstr a q \<and> (cstring a' q \<longleftrightarrow> cstring a q))"
proof (induction n arbitrary: a)
  case 0
  then show ?case by (cases s) auto
next
  case (Suc n)
  have sn: "s + n < length a" using cstring_end(1) [OF Suc.prems(1)] Suc.prems(2) by simp
  obtain t c where t: "cstr a s = t @ [c]" "length t = n"
    using Suc.prems(2) by (metis length_Suc_conv_rev)
  have c: "a ! (s + n) = c" using cstr_nth [OF Suc.prems(1), of n] t by (simp add: nth_append)
  show ?case
  proof (cases "trimmed c")
    case False
    then show ?thesis using sn c t Suc.prems by (simp add: rdc_def)
  next
    case True
    let ?a = "a[s + n := NUL]"
    have cut: "cstr ?a s = t" "cstring ?a s" using cstr_cut [OF Suc.prems(1), of n] t by simp_all
    obtain a' where a': "rstrip_loop ?a s (s + n) = Inr a'" "cstr a' s = strip_right t" "cstring a' s"
      "length a' = length a" "\<forall>q > s + n. cstr a' q = cstr ?a q \<and> (cstring a' q \<longleftrightarrow> cstring ?a q)"
      using Suc.IH [OF cut(2)] cut(1) t(2) by auto
    have "\<forall>q > s + Suc n. cstr a' q = cstr a q \<and> (cstring a' q \<longleftrightarrow> cstring a q)"
      using a'(5) cstr_other by auto
    then show ?thesis using sn c t True a' by (simp add: rdc_def wrc_def)
  qed
qed

lemma rstrip_spec:
  assumes "cstring a s"
  shows "\<exists>a'. rstrip a s = Inr a' \<and> cstr a' s = strip_right (cstr a s) \<and> cstring a' s \<and> length a' = length a
     \<and> (\<forall>q > s + length (cstr a s). cstr a' q = cstr a q \<and> (cstring a' q \<longleftrightarrow> cstring a q))"
  using rstrip_loop_spec [OF assms refl] assms by (simp add: rstrip_def strlen_def cstring_def)

lemma strsep_spec:
  assumes "cstring a p"
    and tok_def: "tok = takeWhile (\<lambda>c. c \<notin> set delim) (cstr a p)"
  shows "\<exists>a'. strsep a (Some p) delim = Inr (Some p,
       if length tok < length (cstr a p) then Some (p + length tok + 1) else None, a')
     \<and> cstr a' p = tok \<and> cstring a' p \<and> length a' = length a
     \<and> (\<forall>q > p + length tok. cstr a' q = cstr a q \<and> (cstring a' q \<longleftrightarrow> cstring a q))"
proof -
  have le: "length tok \<le> length (cstr a p)" unfolding tok_def by (rule length_takeWhile_le)
  have q: "p + length tok < length a" using cstring_end(1) [OF assms(1)] le by simp
  have tk: "tok = take (length tok) (cstr a p)" unfolding tok_def by (rule takeWhile_eq_take)
  show ?thesis
  proof (cases "length tok < length (cstr a p)")
    case True
    then have "a ! (p + length tok) \<noteq> NUL"
      using cstring_end(3) [OF assms(1) True] cstring_end(4) [OF assms(1)] nth_mem [OF True] by metis
    then show ?thesis
      using q True cstr_cut [OF assms(1) le] tk cstr_other
      by (auto simp: strsep_def find_chars_spec [OF assms(1)] rdc_def wrc_def simp flip: tok_def)
  next
    case False
    then have l: "length tok = length (cstr a p)" using le by simp
    then have "a ! (p + length tok) = NUL" using cstring_end(2) [OF assms(1)] by simp
    then show ?thesis
      using q False l tk assms(1)
      by (auto simp: strsep_def find_chars_spec [OF assms(1)] rdc_def simp flip: tok_def)
  qed
qed

end
