(* ===== verification/Lifecycle.thy ===== *)
theory Lifecycle
  imports Aio TxAggr CString
begin

text \<open>
  The life of a QMI device, from \<^verbatim>\<open>qmidevice.c\<close>: \<open>RegisterQMIDevice\<close>, which starts the reads,
  sets up the session and creates the character devices, and \<open>DeregisterQMIDevice\<close>, which releases
  the clients, closes the files that are still open and takes everything down again.

  A \<open>life\<close> is the driver with its open files and what the two functions set up: per QMI device
  whether its character device is initialised, its device node exists and its class is alive, and its
  name; the minors of the region; the worker thread; the limits of the transmit aggregation. The results of
  the kernel's functions are taken from \<open>usb\<close>, as elsewhere.
\<close>

unbundle bit_operations_syntax

section \<open>State\<close>

abbreviation (input) "EEXIST \<equiv> (17 :: int)"

record life =
  lu :: users
  mbCdevIsInitialized :: "nat \<Rightarrow> bool"
  mDevNum :: "nat \<Rightarrow> bool"
  mpDevClass :: "nat \<Rightarrow> bool"
  mdeviceName :: "nat \<Rightarrow> string"
  chrdev_region :: "nat list"
  pGobiWaitThread :: bool
  tx_aggr_ctx :: cdc_ncm_ctx
  rx_urb_size :: "nat \<Rightarrow> nat"

text \<open>The names the device node is made of: per network device its name, the key, the bus.\<close>

record node_names =
  net_name :: "nat \<Rightarrow> string"
  mpKey :: string
  busnum :: nat
  devpath :: string

abbreviation "lw l \<equiv> uw (lu l)"
abbreviation "set_lw w l \<equiv> l\<lparr>lu := (lu l)\<lparr>uw := w\<rparr>\<rparr>"
abbreviation "upd_lg f l \<equiv> set_lw (upd_gb f (lw l)) l"

definition kernel_call :: "life \<Rightarrow> int \<times> life" where
  "kernel_call l = (let (r, w) = pop_usb (lw l) in (r, set_lw w l))"

definition on_world :: "(world \<Rightarrow> fault + ('a \<times> world)) \<Rightarrow> life \<Rightarrow> fault + ('a \<times> life)" where
  "on_world f l = bnd (f (lw l)) (\<lambda>(x, w). Inr (x, set_lw w l))"

section \<open>Registration\<close>

text \<open>Up to the MUX ids.\<close>

definition register_start :: "bool \<Rightarrow> nat \<Rightarrow> start_env \<Rightarrow> life \<Rightarrow> fault + (int \<times> life)" where
  "register_start dt s e l =
     (let l = upd_lg (\<lambda>g. g\<lparr>mbQMIReadyStatus := False, mbQMIValid := True\<rparr>) l;
          (result, l) = kernel_call l in
      if result < 0 then Inr (result, l) else
      bnd (on_world (GetClientID dt s 0 0) l) (\<lambda>(result, l).
      if result \<noteq> 0 then Inr (result, upd_lg (\<lambda>g. g\<lparr>mbQMIValid := False\<rparr>) l) else
      let l = upd_lg (\<lambda>g. g\<lparr>mQMICTLTransactionID := 1\<rparr>) l;
          (result, g) = StartRead e (gb (lw l)); l = upd_lg (\<lambda>_. g) l in
      if result \<noteq> 0 then Inr (result, upd_lg (\<lambda>g. g\<lparr>mbQMIValid := False\<rparr>) l) else
      Inr (0, upd_lg (\<lambda>g. g\<lparr>qmi_devs := \<lambda>i. if i \<le> unat MAX_MUX_DEVICES
            then (qmi_devs g i)\<lparr>qd_cfg := (qd_cfg (qmi_devs g i))\<lparr>MuxId := 0x81 + word_of_nat i\<rparr>\<rparr>
            else qmi_devs g i\<rparr>) l)))"

definition RX_URB_SIZE :: nat where
  "RX_URB_SIZE = 0x7C00"

text \<open>When the modem is ready within 3.5 seconds the session is set up here, else by the worker.\<close>

definition register_session :: "bool \<Rightarrow> nat \<Rightarrow> life \<Rightarrow> fault + (int \<times> life)" where
  "register_session dt s l =
     bnd (on_world (QMIReady s 3500) l) (\<lambda>(ready, l).
     if \<not> ready then Inr (0, l) else
     let l = upd_lg (\<lambda>g. g\<lparr>mbQMIReadyStatus := True\<rparr>) l in
     bnd (on_world (ConfigureQMAP dt s) l) (\<lambda>(result, l).
     if result \<noteq> 0 then Inr (result, l) else
     bnd (on_world (SetupQMIWDSCallback dt s 0) l) (\<lambda>(result, l).
     if result \<noteq> 0 then Inr (result, l) else
     bnd (on_world (QMIDMSGetMEID dt s 0) l) (\<lambda>(result, l).
     if result \<noteq> 0 then Inr (result, l) else
     let al = agg (gb (lw l)) in
     Inr (0, l\<lparr>rx_urb_size := (\<lambda>i. if i \<le> unat MAX_MUX_DEVICES then RX_URB_SIZE else rx_urb_size l i),
        tx_aggr_ctx := (tx_aggr_ctx l)\<lparr>tx_max := al_ULDatagramSize al,
          tx_max_datagrams := ucast (al_ULDatagram al)\<rparr>\<rparr>)))))"

fun add_cdevs :: "nat list \<Rightarrow> life \<Rightarrow> int \<times> life" where
  "add_cdevs [] l = (0, l)"
| "add_cdevs (i # is) l =
     (let l = l\<lparr>mbCdevIsInitialized := (mbCdevIsInitialized l)(i := True)\<rparr>;
          (result, l) = kernel_call l in
      if result \<noteq> 0 then (result, l) else add_cdevs is l)"

text \<open>The number behind \<^verbatim>\<open>usb\<close> in the name of a network device, as an \<open>int\<close>.\<close>

fun strstr :: "string \<Rightarrow> string \<Rightarrow> string option" where
  "strstr [] needle = (if needle = [] then Some [] else None)"
| "strstr (c # cs) needle =
     (if take (length needle) (c # cs) = needle then Some (c # cs) else strstr cs needle)"

definition usb_index :: "string \<Rightarrow> int option" where
  "usb_index name = (case strstr name ''usb'' of None \<Rightarrow> None
     | Some pDevName \<Rightarrow> Some (as_int (int (simple_strtoul 10 (drop (length ''usb'') pDevName)))))"

definition node_name :: "node_names \<Rightarrow> nat \<Rightarrow> nat \<Rightarrow> string" where
  "node_name nn GobiQMIIndex i = mpKey nn @ '':'' @ decimal (busnum nn) @ ''-'' @ devpath nn @ '':usb''
     @ decimal GobiQMIIndex @ ''_'' @ decimal i"

text \<open>The node of one QMI device; a node that cannot be created takes its class and its minor with it.\<close>

definition create_node :: "node_names \<Rightarrow> nat \<Rightarrow> life \<Rightarrow> fault + (int \<times> life)" where
  "create_node nn i l =
     (case usb_index (net_name nn i) of None \<Rightarrow> Inr (- ENXIO, l) | Some GobiQMIIndex \<Rightarrow>
      if GobiQMIIndex < 0 then Inr (- ENXIO, l) else
      let (result, l) = kernel_call l in
      if result < 0 then Inr (result, l\<lparr>mpDevClass := (mpDevClass l)(i := False),
             chrdev_region := remove1 i (chrdev_region l)\<rparr>)
      else
        let l = l\<lparr>mDevNum := (mDevNum l)(i := True)\<rparr> in
        bnd (sprintf_to 256 (node_name nn (nat GobiQMIIndex) i)) (\<lambda>name.
        Inr (0, l\<lparr>mdeviceName := (mdeviceName l)(i := name)\<rparr>)))"

fun create_nodes :: "node_names \<Rightarrow> nat list \<Rightarrow> life \<Rightarrow> fault + (int \<times> life)" where
  "create_nodes nn [] l = Inr (0, l)"
| "create_nodes nn (i # is) l =
     bnd (create_node nn i l) (\<lambda>(result, l).
     if result \<noteq> 0 then Inr (result, l) else create_nodes nn is l)"

definition register_nodes :: "node_names \<Rightarrow> life \<Rightarrow> fault + (int \<times> life)" where
  "register_nodes nn l =
     (let (result, l) = kernel_call l;
          l = l\<lparr>pGobiWaitThread := 0 \<le> result\<rparr>;
          (result, l) = kernel_call l in
      if result < 0 then Inr (result, l) else
      let l = l\<lparr>chrdev_region := [0, 1, 2, 3]\<rparr>;
          (result, l) = add_cdevs [0, 1, 2, 3] l in
      if result \<noteq> 0 then Inr (result, l) else
      bnd (create_node nn 0 l) (\<lambda>(result, l).
      if result \<noteq> 0 then Inr (result, l) else
      let (result, l) = kernel_call l in
      if result \<noteq> 0 then Inr (result, l) else
      create_nodes nn [1, 2, 3] l))"

definition RegisterQMIDevice ::
  "bool \<Rightarrow> nat \<Rightarrow> start_env \<Rightarrow> node_names \<Rightarrow> life \<Rightarrow> fault + (int \<times> life)" where
  "RegisterQMIDevice dt s e nn l =
     (let l = l\<lparr>lu := (lu l)\<lparr>io_mutex := False\<rparr>\<rparr> in
      if mbCdevIsInitialized l 0 then Inr (- EEXIST, l) else
      bnd (register_start dt s e l) (\<lambda>(result, l).
      if result \<noteq> 0 then Inr (result, l) else
      bnd (register_session dt s l) (\<lambda>(result, l).
      if result \<noteq> 0 then Inr (result, l) else
      register_nodes nn l)))"

section \<open>Deregistration\<close>

fun release_clients :: "bool \<Rightarrow> nat \<Rightarrow> nat \<Rightarrow> u16 list \<Rightarrow> world \<Rightarrow> fault + world" where
  "release_clients dt s i [] w = Inr w"
| "release_clients dt s i (c # cs) w = bnd (ReleaseClientID dt s c i w) (release_clients dt s i cs)"

fun release_devices :: "bool \<Rightarrow> nat \<Rightarrow> nat list \<Rightarrow> world \<Rightarrow> fault + world" where
  "release_devices dt s [] w = Inr w"
| "release_devices dt s (i # is) w =
     bnd (release_clients dt s i (client_ids i (gb w)) w) (release_devices dt s is)"

text \<open>
  Closing the open files of device \<open>i\<close>: the descriptor table of one process, split at the current
  descriptor (\<open>kept\<close> before it), between the tables of the processes before and after it. The descriptor
  is cleared before the file is closed; a file is open as often as it is in a table.
\<close>

fun close_table ::
  "bool \<Rightarrow> nat \<Rightarrow> (nat \<Rightarrow> nat) \<Rightarrow> nat \<Rightarrow> nat list list \<Rightarrow> nat list \<Rightarrow> nat list \<Rightarrow> nat list list
   \<Rightarrow> users \<Rightarrow> fault + (nat list \<times> users)" where
  "close_table dt s file_inode i before kept [] after u = Inr (kept, u)"
| "close_table dt s file_inode i before kept (n # fds) after u =
     (if file_inode n \<noteq> i then close_table dt s file_inode i before (kept @ [n]) fds after u
      else
        let tables = before @ [kept @ fds] @ after;
            file_count = 1 + length (filter (\<lambda>m. m = n) (concat tables)) in
        bnd (UserspaceClose dt s file_count tables n (files u n) (io_mutex u) (uw u)) (\<lambda>(_, F, m, w).
        close_table dt s file_inode i before kept fds after
          (u\<lparr>files := (files u)(n := F), io_mutex := m, uw := w\<rparr>)))"

fun close_tables ::
  "bool \<Rightarrow> nat \<Rightarrow> (nat \<Rightarrow> nat) \<Rightarrow> nat \<Rightarrow> nat list list \<Rightarrow> nat list list \<Rightarrow> users
   \<Rightarrow> fault + (nat list list \<times> users)" where
  "close_tables dt s file_inode i before [] u = Inr (before, u)"
| "close_tables dt s file_inode i before (t # after) u =
     bnd (close_table dt s file_inode i before [] t after u) (\<lambda>(t, u).
     close_tables dt s file_inode i (before @ [t]) after u)"

fun close_devices ::
  "bool \<Rightarrow> nat \<Rightarrow> (nat \<Rightarrow> nat) \<Rightarrow> nat list \<Rightarrow> nat list list \<Rightarrow> users \<Rightarrow> fault + (nat list list \<times> users)" where
  "close_devices dt s file_inode [] tables u = Inr (tables, u)"
| "close_devices dt s file_inode (i # is) tables u =
     bnd (close_tables dt s file_inode i [] tables u) (\<lambda>(tables, u).
     close_devices dt s file_inode is tables u)"

text \<open>
  The end: the device is no longer valid, the list of the worker is emptied and the thread is
  stopped (\<open>stopped\<close>: the semaphore is given if the thread waits for it), nodes and region go.
\<close>

definition deregister_end :: "life \<Rightarrow> fault + life" where
  "deregister_end l =
     (let l = upd_lg (\<lambda>g. g\<lparr>mbQMIValid := False\<rparr>) l;
          (_, l) = kernel_call l in
      if \<not> worker_ready (gb (lw l)) then Inl Null_Deref else
      let l = upd_lg (\<lambda>g. g\<lparr>mpIndDataInfoList := []\<rparr>) l;
          l = (if pGobiWaitThread l \<and> responseReadSem (gb (lw l)) = 0
               then upd_lg (\<lambda>g. g\<lparr>responseReadSem := responseReadSem g + 1\<rparr>) l else l);
          l = l\<lparr>pGobiWaitThread := False\<rparr>
      in Inr (l\<lparr>mDevNum := (\<lambda>i. if i \<le> unat MAX_MUX_DEVICES \<and> mpDevClass l i then False else mDevNum l i),
              chrdev_region := []\<rparr>))"

definition DeregisterQMIDevice ::
  "bool \<Rightarrow> nat \<Rightarrow> (nat \<Rightarrow> nat) \<Rightarrow> nat list list \<Rightarrow> life \<Rightarrow> fault + life" where
  "DeregisterQMIDevice dt s file_inode tables l =
     (if \<not> valid (lw l) then Inr l else
      bnd (release_devices dt s [0, 1, 2, 3] (lw l)) (\<lambda>w.
      let l = set_lw (upd_gb KillRead w) l in
      if \<not> mbCdevIsInitialized l 0 then Inr l else
      bnd (close_devices dt s file_inode [0, 1, 2, 3] tables (lu l)) (\<lambda>(_, u).
      deregister_end (l\<lparr>lu := u\<rparr>))))"

section \<open>Releasing without the control service\<close>

text \<open>What does not change when nothing can be sent.\<close>

definition quiet :: "world \<Rightarrow> world \<Rightarrow> bool" where
  "quiet w w' \<longleftrightarrow> qmi_devs (gb w') = qmi_devs (gb w) \<and> mbQMIValid (gb w') = mbQMIValid (gb w)
     \<and> usb_written (gb w') = usb_written (gb w) \<and> worker_ready (gb w') = worker_ready (gb w)
     \<and> events w' = events w"

lemma quiet_refl [simp]: "quiet w w"
  by (simp add: quiet_def)

lemma quiet_idle: "quiet w w' \<Longrightarrow> idle w \<Longrightarrow> idle w'"
  by (simp add: quiet_def idle_def)

lemma quiet_find: "quiet w w' \<Longrightarrow> FindClientMem (gb w') = FindClientMem (gb w)"
  by (intro find_cong_devs) (simp_all add: quiet_def)

lemma quiet_suspend [simp]: "worker_ready (snd (GobiSuspend s e g)) = worker_ready g"
  by (simp add: GobiSuspend_def GobiSetDownReason_def KillRead_def Let_def)

lemma AddURB_unknown:
  assumes "mbQMIValid g" and "FindClientMem g cid i = None"
  shows "AddToURBList a g cid u i = (if locked i g then Inl Deadlock else Inr (False, g))"
proof -
  have "FindClientMem (set_dev i (\<lambda>d. d\<lparr>mClientMemLock := v\<rparr>) g) cid i = None" for v
    using assms by (auto simp: FindClientMem_find)
  then show ?thesis using assms
    by (auto simp: AddToURBList_def spin_lock_def spin_unlock_def lock_update_idle)
qed

lemma WriteSync_unknown:
  assumes "valid w" and "FindClientMem (gb w) cid i = None" and "6 \<le> n" and "n < 65536" and "n \<le> length b"
  shows "(\<exists>r w'. WriteSync (Some b) (int n) cid i w = Inr (r, w') \<and> r < 0 \<and> quiet w w')
     \<or> locked i (gb w) \<and> WriteSync (Some b) (int n) cid i w = Inl Deadlock"
proof -
  let ?b = "qmux_bytes (word_of_nat n - 1) 0 cid @ drop 6 b"
  have fill: "FillQMUX cid (Some b) (word_of_nat n) = Inr (0, Some ?b)"
    using assms(3-5) by (intro FillQMUX_writes) (simp_all add: unat_of_nat_widths)
  obtain ok1 w1 where 1: "alloc w = (ok1, w1)" by fastforce
  note f1 = alloc_facts [OF 1]
  obtain ok3 w3 where 3: "alloc (w1\<lparr>next_urb := next_urb w1 + 1\<rparr>) = (ok3, w3)" by fastforce
  note f3 = alloc_facts [OF 3]
  obtain r4 w4 where 4: "pop_usb w3 = (r4, w4)" by fastforce
  note f4 = pop_usb_facts [OF 4]
  obtain s w5 where 5: "pop_usb w4 = (s, w5)" by fastforce
  note f5 = pop_usb_facts [OF 5]
  obtain ok6 w6 where 6: "pop_kmem (w4\<lparr>autopm := autopm w4 + 1\<rparr>) = (ok6, w6)" by fastforce
  note f6 = pop_kmem_facts [OF 6]
  have g6: "gb w6 = gb w" using f1 f3 f4 f6 by simp
  have add: "AddToURBList ok6 (gb w6) cid (next_urb w1) i
      = (if locked i (gb w) then Inl Deadlock else Inr (False, gb w6))"
    using AddURB_unknown [of "gb w" cid i ok6 "next_urb w1"] assms(1,2) by (simp add: g6)
  let ?w7 = "if r4 = - EPERM then upd_gb (\<lambda>g. snd (GobiSuspend s PM_EVENT_SUSPEND g)) w5 else w4"
  have "WriteSync (Some b) (int n) cid i w =
     (if \<not> ok1 then Inr (- ENOMEM, w1) else if \<not> ok3 then Inr (- ENOMEM, w3)
      else if r4 < 0 then Inr (r4, free (free ?w7))
      else if locked i (gb w) then Inl Deadlock
      else Inr (- EINVAL, free (free (w6\<lparr>autopm := autopm w6 - 1\<rparr>))))"
    using assms(1) fill add 3 6 by (simp add: WriteSync_def 1 4 5 on_gb_def Let_def)
  moreover have "quiet w w1" "quiet w w3" "quiet w (free (free (w6\<lparr>autopm := autopm w6 - 1\<rparr>)))"
    using f1 f3 f4 f6 by (simp_all add: quiet_def)
  moreover have "quiet w (free (free ?w7))" using f1 f3 f4 f5 by (simp add: quiet_def)
  ultimately show ?thesis by (simp split: if_split)
qed

lemma release_request_ok:
  "\<exists>b. QMICTLReleaseClientIDReq (Some (replicate 17 0)) QMICTLReleaseClientIDReqSize tid cid = Inr (17, Some b)
     \<and> length b = 17"
proof -
  have sz: "unat QMICTLReleaseClientIDReqSize = 17" by (simp add: req_sizes)
  obtain b where "QMICTLReleaseClientIDReq (Some (replicate 17 0)) QMICTLReleaseClientIDReqSize tid cid
      = Inr (17, Some b)" "holds_request (Ctl tid 0x23 [(0x01, le16 cid)]) (replicate 17 0) b"
    using QMICTLReleaseClientIDReq_msg [of QMICTLReleaseClientIDReqSize "replicate 17 0" tid cid] sz by auto
  then show ?thesis by (auto simp: holds_request_def req_bytes_eval)
qed

lemma release_exchange_quiet:
  assumes "valid w" and "FindClientMem (gb w) QMICTL 0 = None"
  shows "(\<exists>w'. release_exchange dt s cid w = Inr w' \<and> quiet w w')
     \<or> locked 0 (gb w) \<and> release_exchange dt s cid w = Inl Deadlock"
proof -
  obtain ok w1 where 1: "alloc w = (ok, w1)" by fastforce
  note f1 = alloc_facts [OF 1]
  show ?thesis
  proof (cases ok)
    case False
    then show ?thesis using f1 by (simp add: release_exchange_def 1 quiet_def)
  next
    case True
    obtain tid g where t: "next_ctl_tid (gb w1) = (tid, g)" by fastforce
    obtain v where g: "g = (gb w1)\<lparr>mQMICTLTransactionID := v\<rparr>" using next_ctl_tid_keeps [OF t] by blast
    let ?w = "w1\<lparr>gb := g\<rparr>"
    obtain b where b: "QMICTLReleaseClientIDReq (Some (replicate 17 0)) QMICTLReleaseClientIDReqSize tid cid
        = Inr (17, Some b)" "length b = 17" using release_request_ok by blast
    have sz: "unat QMICTLReleaseClientIDReqSize = 17" by (simp add: req_sizes)
    have q: "quiet w ?w" using f1 by (simp add: quiet_def g)
    have "FindClientMem (gb ?w) QMICTL 0 = None" "valid ?w" "locked 0 (gb ?w) = locked 0 (gb w)"
      using quiet_find [OF q] assms q by (simp_all add: quiet_def)
    from WriteSync_unknown [OF this(2,1), of 17 b] this(3) b(2)
    consider r w' where "WriteSync (Some b) 17 QMICTL 0 ?w = Inr (r, w')" "r < 0" "quiet ?w w'"
      | "locked 0 (gb w)" "WriteSync (Some b) 17 QMICTL 0 ?w = Inl Deadlock"
      by auto
    then show ?thesis
    proof cases
      case 1
      then have "quiet w (free w')" using q by (simp add: quiet_def)
      then show ?thesis using True 1 b(1) by (simp add: release_exchange_def \<open>alloc w = (ok, w1)\<close> t sz)
    next
      case 2
      then show ?thesis using True b(1) by (simp add: release_exchange_def 1 t sz)
    qed
  qed
qed

text \<open>Releasing an id when the control client is gone, on a free lock and on a held one.\<close>

lemma Release_unknown:
  assumes "idle w" and "FindClientMem (gb w) QMICTL 0 = None" and "cid \<notin> set (client_ids i (gb w))"
  shows "\<exists>w'. ReleaseClientID dt s cid i w = Inr w' \<and> locked i (gb w') \<and> valid w'
     \<and> FindClientMem (gb w') QMICTL 0 = None"
proof -
  have "\<exists>w1. (if cid \<noteq> QMICTL then release_exchange dt s cid w else Inr w) = Inr w1 \<and> quiet w w1"
    using release_exchange_quiet [of w dt s cid] assms(1,2) by (cases "cid = QMICTL") (auto simp: idle_def)
  then obtain w1 where w1: "(if cid \<noteq> QMICTL then release_exchange dt s cid w else Inr w) = Inr w1" "quiet w w1"
    by blast
  have i1: "idle w1" "FindClientMem (gb w1) QMICTL 0 = None" "cid \<notin> set (client_ids i (gb w1))"
    using quiet_idle [OF w1(2) assms(1)] quiet_find [OF w1(2)] assms(2,3) w1(2)
    by (simp_all add: quiet_def del: list.set_map)
  let ?w = "upd_gb (set_dev i (\<lambda>d. d\<lparr>mClientMemLock := True\<rparr>)) w1"
  have "ReleaseClientID dt s cid i w = Inr ?w"
    using assms(1) w1(1) i1(1) release_loop_none [OF i1(3)]
    by (simp add: ReleaseClientID_def spin_lock_def idle_def)
  moreover have "FindClientMem (gb ?w) QMICTL 0 = None"
    using i1(1,2) by (auto simp: FindClientMem_find idle_def)
  ultimately show ?thesis using i1(1) by (intro exI [of _ ?w]) (simp add: idle_def)
qed

lemma Release_locked:
  assumes "valid w" and "locked i (gb w)" and "FindClientMem (gb w) QMICTL 0 = None"
  shows "ReleaseClientID dt s cid i w = Inl Deadlock"
proof -
  consider w1 where "(if cid \<noteq> QMICTL then release_exchange dt s cid w else Inr w) = Inr w1" "quiet w w1"
    | "(if cid \<noteq> QMICTL then release_exchange dt s cid w else Inr w) = Inl Deadlock"
    using release_exchange_quiet [of w dt s cid] assms(1,3) by (cases "cid = QMICTL") auto
  then show ?thesis
  proof cases
    case 1
    then have "locked i (gb w1)" using assms(2) by (simp add: quiet_def)
    then show ?thesis using assms(1) 1(1) by (simp add: ReleaseClientID_def spin_lock_def)
  qed (use assms(1) in \<open>simp add: ReleaseClientID_def\<close>)
qed

text \<open>What the release of one registered client leaves, with its id gone.\<close>

definition released :: "nat \<Rightarrow> world \<Rightarrow> world \<Rightarrow> bool" where
  "released i w w' \<longleftrightarrow> idle w' \<and> events w' = events w \<and> usb_written (gb w') = usb_written (gb w)
     \<and> worker_ready (gb w') = worker_ready (gb w) \<and> (\<forall>j. j \<noteq> i \<longrightarrow> qmi_devs (gb w') j = qmi_devs (gb w) j)
     \<and> set (clients i (gb w')) \<subseteq> set (clients i (gb w))"

lemma released_trans: "released i w w1 \<Longrightarrow> released i w1 w2 \<Longrightarrow> released i w w2"
  by (auto simp: released_def)

lemma Release_registered:
  assumes "idle w" and "FindClientMem (gb w) QMICTL 0 = None \<or> cid = QMICTL"
    and "FindClientMem (gb w) cid i = Some c" and "harmless c" and "distinct (client_ids i (gb w))"
  shows "\<exists>w'. ReleaseClientID dt s cid i w = Inr w' \<and> released i w w'
     \<and> client_ids i (gb w') = remove1 cid (client_ids i (gb w))"
proof -
  have "\<exists>w1. (if cid \<noteq> QMICTL then release_exchange dt s cid w else Inr w) = Inr w1 \<and> quiet w w1"
    using release_exchange_quiet [of w dt s cid] assms(1,2) by (cases "cid = QMICTL") (auto simp: idle_def)
  then obtain w1 where w1: "(if cid \<noteq> QMICTL then release_exchange dt s cid w else Inr w) = Inr w1" "quiet w w1"
    by blast
  have i1: "idle w1" "FindClientMem (gb w1) cid i = Some c" "distinct (client_ids i (gb w1))"
    using quiet_idle [OF w1(2) assms(1)] quiet_find [OF w1(2)] assms(3,5) w1(2) by (simp_all add: quiet_def)
  obtain w' where w': "release_loop cid i (client_ids i (gb w1))
       (upd_gb (set_dev i (\<lambda>d. d\<lparr>mClientMemLock := True\<rparr>)) w1) = Inr w'"
    and r: "idle w'" "events w' = events w1" "client_ids i (gb w') = remove1 cid (client_ids i (gb w1))"
      "\<forall>j. j \<noteq> i \<longrightarrow> qmi_devs (gb w') j = qmi_devs (gb w1) j"
      "set (clients i (gb w')) \<subseteq> set (clients i (gb w1))" "usb_written (gb w') = usb_written (gb w1)"
      "worker_ready (gb w') = worker_ready (gb w1)"
    using release_loop_removes [OF i1(1,2) assms(4) i1(3)] by blast
  have "ReleaseClientID dt s cid i w = Inr w'"
    using assms(1) w1(1) w' i1(1) by (simp add: ReleaseClientID_def spin_lock_def idle_def)
  moreover have "released i w w'" "client_ids i (gb w') = remove1 cid (client_ids i (gb w))"
    using r w1(2) by (simp_all add: released_def quiet_def)
  ultimately show ?thesis by blast
qed

text \<open>All clients of a device go: from the control client on nothing is sent.\<close>

definition releasable :: "nat \<Rightarrow> world \<Rightarrow> bool" where
  "releasable i w \<longleftrightarrow> idle w \<and> distinct (client_ids i (gb w)) \<and> (\<forall>c \<in> set (clients i (gb w)). harmless c)"

lemma Find_None: "mbQMIValid g \<Longrightarrow> FindClientMem g cid i = None \<longleftrightarrow> cid \<notin> set (client_ids i g)"
  by (auto simp: FindClientMem_find find_None_iff)

lemma Find_registered:
  assumes "mbQMIValid g" and "cid \<in> set (client_ids i g)"
  shows "\<exists>c. FindClientMem g cid i = Some c \<and> c \<in> set (clients i g)"
  using Find_None [OF assms(1), of cid i] assms(2) found_client by fastforce

lemma release_clients_clear:
  assumes "releasable i w"
    and "i = 0 \<and> (\<exists>ids. client_ids 0 (gb w) = QMICTL # ids) \<or> FindClientMem (gb w) QMICTL 0 = None"
  shows "\<exists>w'. release_clients dt s i (client_ids i (gb w)) w = Inr w' \<and> released i w w'
     \<and> clients i (gb w') = [] \<and> FindClientMem (gb w') QMICTL 0 = None"
  using assms
proof (induction "client_ids i (gb w)" arbitrary: w)
  case Nil
  then have "released i w w" "clients i (gb w) = []" by (simp_all add: released_def releasable_def)
  moreover have "FindClientMem (gb w) QMICTL 0 = None" using Nil(1,3) by auto
  ultimately show ?case by (simp flip: Nil(1))
next
  case (Cons cid ids)
  have rw: "idle w" "distinct (client_ids i (gb w))" "\<forall>c \<in> set (clients i (gb w)). harmless c"
    using Cons(3) by (simp_all add: releasable_def)
  have ids: "cid \<notin> set ids" using rw(2) by (simp flip: Cons(2))
  have v: "mbQMIValid (gb w)" using rw(1) by (simp add: idle_def)
  have "cid \<in> set (client_ids i (gb w))" by (simp flip: Cons(2) del: list.set_map)
  then obtain c where c: "FindClientMem (gb w) cid i = Some c" "c \<in> set (clients i (gb w))"
    using Find_registered [OF v] by blast
  have ctl: "FindClientMem (gb w) QMICTL 0 = None \<or> cid = QMICTL \<and> i = 0" using Cons(2,4) by auto
  obtain w1 where w1: "ReleaseClientID dt s cid i w = Inr w1" "released i w w1"
    "client_ids i (gb w1) = remove1 cid (client_ids i (gb w))"
    using Release_registered [OF rw(1) _ c(1) _ rw(2)] ctl c(2) rw(3) by blast
  have i1: "ids = client_ids i (gb w1)" using w1(3) by (simp flip: Cons(2))
  have r1: "releasable i w1" using w1(2) rw i1 by (auto simp: releasable_def released_def simp flip: Cons(2))
  have v1: "mbQMIValid (gb w1)" using w1(2) by (simp add: released_def idle_def)
  have "set (client_ids 0 (gb w1)) \<subseteq> set (client_ids 0 (gb w)) - (if i = 0 then {cid} else {})"
  proof (cases "i = 0")
    case True
    then have "client_ids 0 (gb w1) = ids" "client_ids 0 (gb w) = cid # ids" using i1 Cons(2) by simp_all
    then show ?thesis using ids True by (auto simp del: list.set_map)
  qed (use w1(2) in \<open>simp add: released_def\<close>)
  then have "FindClientMem (gb w1) QMICTL 0 = None"
    using ctl by (auto simp: Find_None [OF v] Find_None [OF v1] simp del: list.set_map)
  then obtain w' where w': "release_clients dt s i ids w1 = Inr w'" "released i w1 w'" "clients i (gb w') = []"
    "FindClientMem (gb w') QMICTL 0 = None"
    using Cons(1) [OF i1 r1] by (auto simp flip: i1)
  have "release_clients dt s i (client_ids i (gb w)) w = Inr w'" using w1(1) w'(1) by (simp flip: Cons(2))
  then show ?case using released_trans [OF w1(2) w'(2)] w'(3,4) by blast
qed

lemma releasable_other: "released i w w' \<Longrightarrow> releasable j w \<Longrightarrow> i \<noteq> j \<Longrightarrow> releasable j w'"
  by (simp add: releasable_def released_def)

text \<open>What the release of all clients of the devices \<open>is\<close> leaves.\<close>

definition all_released :: "nat list \<Rightarrow> world \<Rightarrow> world \<Rightarrow> bool" where
  "all_released is w w' \<longleftrightarrow> idle w' \<and> events w' = events w \<and> usb_written (gb w') = usb_written (gb w)
     \<and> worker_ready (gb w') = worker_ready (gb w) \<and> (\<forall>i \<in> set is. clients i (gb w') = [])
     \<and> FindClientMem (gb w') QMICTL 0 = None"

lemma release_devices_clear:
  assumes "\<forall>i \<in> set is. releasable i w" and "distinct is" and "idle w" and "FindClientMem (gb w) QMICTL 0 = None"
  shows "\<exists>w'. release_devices dt s is w = Inr w' \<and> all_released is w w'
     \<and> (\<forall>j. j \<notin> set is \<longrightarrow> qmi_devs (gb w') j = qmi_devs (gb w) j)"
  using assms
proof (induction "is" arbitrary: w)
  case (Cons i "is")
  obtain w1 where w1: "release_clients dt s i (client_ids i (gb w)) w = Inr w1" "released i w w1"
    "clients i (gb w1) = []" "FindClientMem (gb w1) QMICTL 0 = None"
    using release_clients_clear [of i w dt s] Cons.prems(1,4) by auto
  have "\<forall>j \<in> set is. releasable j w1" using Cons.prems(1,2) releasable_other [OF w1(2)] by auto
  moreover have "idle w1" "distinct is" using w1(2) Cons.prems(2) by (simp_all add: released_def)
  ultimately obtain w' where w': "release_devices dt s is w1 = Inr w'" "all_released is w1 w'"
    "\<forall>j. j \<notin> set is \<longrightarrow> qmi_devs (gb w') j = qmi_devs (gb w1) j"
    using Cons.IH w1(4) by blast
  have "clients i (gb w') = []" using w'(3) w1(3) Cons.prems(2) by simp
  then show ?case using w1(1,2) w' by (auto simp: all_released_def released_def)
qed (simp add: all_released_def)

lemma release_all:
  assumes "\<forall>i \<in> set (0 # is). releasable i w" and "distinct (0 # is)" and "client_ids 0 (gb w) = QMICTL # ids"
  shows "\<exists>w'. release_devices dt s (0 # is) w = Inr w' \<and> all_released (0 # is) w w'"
proof -
  obtain w1 where w1: "release_clients dt s 0 (client_ids 0 (gb w)) w = Inr w1" "released 0 w w1"
    "clients 0 (gb w1) = []" "FindClientMem (gb w1) QMICTL 0 = None"
    using release_clients_clear [of 0 w dt s] assms(1,3) by (auto simp del: list.set_map)
  have "\<forall>j \<in> set is. releasable j w1" using assms(1,2) releasable_other [OF w1(2)] by auto
  moreover have "idle w1" "distinct is" using w1(2) assms(2) by (simp_all add: released_def)
  ultimately obtain w' where w': "release_devices dt s is w1 = Inr w'" "all_released is w1 w'"
    "\<forall>j. j \<notin> set is \<longrightarrow> qmi_devs (gb w') j = qmi_devs (gb w1) j"
    using release_devices_clear w1(4) by blast
  have "clients 0 (gb w') = []" using w'(3) w1(3) assms(2) by simp
  then show ?thesis using w1(1,2) w' by (auto simp: all_released_def released_def)
qed

section \<open>Removal\<close>

lemma close_table_other:
  "\<forall>n \<in> set fds. file_inode n \<noteq> i \<Longrightarrow> close_table dt s file_inode i before kept fds after u = Inr (kept @ fds, u)"
  by (induction fds arbitrary: kept) auto

lemma close_tables_other:
  "\<forall>t \<in> set ts. \<forall>n \<in> set t. file_inode n \<noteq> i \<Longrightarrow> close_tables dt s file_inode i before ts u = Inr (before @ ts, u)"
  by (induction ts arbitrary: before) (simp_all add: close_table_other)

lemma close_devices_other:
  "\<forall>i \<in> set is. \<forall>t \<in> set ts. \<forall>n \<in> set t. file_inode n \<noteq> i \<Longrightarrow> close_devices dt s file_inode is ts u = Inr (ts, u)"
  by (induction "is") (simp_all add: close_tables_other)

lemma upto_devices: "i \<in> set [0, 1, 2, 3] \<longleftrightarrow> i \<le> (3 :: nat)"
  by auto

lemma deregister_end_down:
  assumes "worker_ready (gb (lw l))"
  shows "\<exists>l'. deregister_end l = Inr l' \<and> qmi_devs (gb (lw l')) = qmi_devs (gb (lw l)) \<and> \<not> valid (lw l')
     \<and> rd (gb (lw l')) = rd (gb (lw l)) \<and> mpIndDataInfoList (gb (lw l')) = [] \<and> \<not> pGobiWaitThread l'
     \<and> chrdev_region l' = [] \<and> usb_written (gb (lw l')) = usb_written (gb (lw l))"
  using assms by (simp add: deregister_end_def kernel_call_def Let_def case_prod_unfold)

lemma KillRead_frees:
  assumes "mbQMIValid g"
  shows "\<not> mpReadURB (rd (KillRead g))" "\<not> mpIntURB (rd (KillRead g))" "\<not> mpReadBuffer (rd (KillRead g))"
    "\<not> mpIntBuffer (rd (KillRead g))" "\<not> mpReadSetupPacket (rd (KillRead g))"
    "worker_ready (KillRead g) = worker_ready g"
  using assms by (simp_all add: KillRead_def Let_def)

text \<open>
  C39: removing a device on which no file is open takes everything down: every client of every QMI device is
  released, the read URBs, their buffers and the setup packet are freed, the device is no longer valid, the
  worker has stopped with nothing queued and no character device number is left. But the modem is not told:
  the client of the control service is released first, so that every later request is refused and not
  one byte is sent.
\<close>

theorem deregister_takes_down:
  assumes "\<forall>i \<le> 3. releasable i (lw l)" and "client_ids 0 (gb (lw l)) = QMICTL # ids"
    and "worker_ready (gb (lw l))" and "mbCdevIsInitialized l 0"
    and "\<forall>t \<in> set tables. \<forall>n \<in> set t. 3 < file_inode n"
  shows "\<exists>l'. DeregisterQMIDevice dt s file_inode tables l = Inr l'
     \<and> (\<forall>i \<le> 3. clients i (gb (lw l')) = []) \<and> \<not> valid (lw l')
     \<and> \<not> mpReadURB (rd (gb (lw l'))) \<and> \<not> mpIntURB (rd (gb (lw l'))) \<and> \<not> mpReadBuffer (rd (gb (lw l')))
     \<and> \<not> mpIntBuffer (rd (gb (lw l'))) \<and> \<not> mpReadSetupPacket (rd (gb (lw l')))
     \<and> mpIndDataInfoList (gb (lw l')) = [] \<and> \<not> pGobiWaitThread l' \<and> chrdev_region l' = []
     \<and> usb_written (gb (lw l')) = usb_written (gb (lw l))"
proof -
  let ?is = "[0, 1, 2, 3 :: nat]"
  have "releasable 0 (lw l)" using assms(1) by blast
  then have v: "valid (lw l)" by (simp add: releasable_def idle_def)
  have "\<forall>i \<in> set ?is. releasable i (lw l)" using assms(1) upto_devices by blast
  then obtain w where w: "release_devices dt s ?is (lw l) = Inr w" "all_released ?is (lw l) w"
    using release_all [of "[1, 2, 3]" "lw l" ids dt s] assms(2) by auto
  have vw: "mbQMIValid (gb w)" using w(2) by (simp add: all_released_def idle_def)
  have rw: "worker_ready (gb w)" using w(2) assms(3) by (simp add: all_released_def)
  have no_files: "close_devices dt s file_inode ?is tables u = Inr (tables, u)" for u
    by (rule close_devices_other) (use assms(5) in fastforce)
  let ?l = "set_lw (upd_gb KillRead w) l"
  have "worker_ready (gb (lw ?l))" using rw vw by (simp add: KillRead_frees)
  then obtain l' where l': "deregister_end ?l = Inr l'" "qmi_devs (gb (lw l')) = qmi_devs (gb w)"
    "\<not> valid (lw l')" "rd (gb (lw l')) = rd (KillRead (gb w))" "mpIndDataInfoList (gb (lw l')) = []"
    "\<not> pGobiWaitThread l'" "chrdev_region l' = []" "usb_written (gb (lw l')) = usb_written (gb w)"
    using deregister_end_down [of ?l] by auto
  have "DeregisterQMIDevice dt s file_inode tables l = Inr l'"
    using v w(1) assms(4) no_files l'(1) by (simp add: DeregisterQMIDevice_def Let_def)
  moreover have "clients i (gb (lw l')) = []" if "i \<le> 3" for i
    using w(2) that unfolding all_released_def l'(2) upto_devices [symmetric] by blast
  moreover have "usb_written (gb (lw l')) = usb_written (gb (lw l))"
    using l'(8) w(2) by (simp add: all_released_def)
  ultimately show ?thesis using l'(3,5-7) KillRead_frees [OF vw] unfolding l'(4) [symmetric] by blast
qed

text \<open>A device with two clients, whose character devices are there.\<close>

definition life_example :: "world \<Rightarrow> (nat \<Rightarrow> filp option) \<Rightarrow> life" where
  "life_example w F = \<lparr>lu = \<lparr>files = F, io_mutex = False, uw = w\<rparr>,
     mbCdevIsInitialized = (\<lambda>_. True), mDevNum = (\<lambda>_. True), mpDevClass = (\<lambda>_. True),
     mdeviceName = (\<lambda>_. []), chrdev_region = [0, 1, 2, 3], pGobiWaitThread = True, tx_aggr_ctx = ctx_init 0,
     rx_urb_size = (\<lambda>_. 0)\<rparr>"

lemma life_example_sel [simp]:
  "lw (life_example w F) = w" "files (lu (life_example w F)) = F" "mbCdevIsInitialized (life_example w F) i"
  by (simp_all add: life_example_def)

lemma releasable_example: "releasable i (world_example [])"
  by (simp add: releasable_def harmless_def del: list.set_map)
    (auto simp: gobi_example_def dev_example_def client_example_def)

lemma example_worker: "worker_ready gobi_example"
  by (simp add: gobi_example_def)

theorem deregister_takes_down_witness:
  "\<exists>l'. DeregisterQMIDevice True 5 (\<lambda>_. 9) [[4, 5], [6]] (life_example (world_example []) (\<lambda>_. None)) = Inr l'
     \<and> clients 0 (gb (lw l')) = [] \<and> usb_written (gb (lw l')) = usb_written gobi_example"
proof -
  have "\<exists>l'. DeregisterQMIDevice True 5 (\<lambda>_. 9) [[4, 5], [6]] (life_example (world_example []) (\<lambda>_. None)) = Inr l'
     \<and> (\<forall>i \<le> 3. clients i (gb (lw l')) = []) \<and> \<not> valid (lw l')
     \<and> \<not> mpReadURB (rd (gb (lw l'))) \<and> \<not> mpIntURB (rd (gb (lw l'))) \<and> \<not> mpReadBuffer (rd (gb (lw l')))
     \<and> \<not> mpIntBuffer (rd (gb (lw l'))) \<and> \<not> mpReadSetupPacket (rd (gb (lw l')))
     \<and> mpIndDataInfoList (gb (lw l')) = [] \<and> \<not> pGobiWaitThread l' \<and> chrdev_region l' = []
     \<and> usb_written (gb (lw l')) = usb_written (gb (lw (life_example (world_example []) (\<lambda>_. None))))"
    by (rule deregister_takes_down [where ids = "[0x101]"])
      (simp_all add: releasable_example example_worker del: list.set_map)
  then show ?thesis by auto
qed

text \<open>
  C40: removing a device on which two files are open deadlocks: the clients are released before the files are
  closed, so that closing the first file releases an id that is no longer on the list, which leaves
  the lock of the client memory held, and closing the second one waits for that lock.
\<close>

theorem deregister_deadlocks_with_open_files:
  assumes "\<forall>i \<le> 3. releasable i (lw l)" and "client_ids 0 (gb (lw l)) = QMICTL # ids"
    and "mbCdevIsInitialized l 0" and "m \<noteq> n" and "file_inode m = 0" and "file_inode n = 0"
    and "files (lu l) m = Some (file_on cid 0)" and "files (lu l) n = Some (file_on cid' 0)"
    and "cid \<noteq> no_client" and "cid' \<noteq> no_client"
  shows "DeregisterQMIDevice dt s file_inode [[m, n]] l = Inl Deadlock"
proof -
  let ?is = "[0, 1, 2, 3 :: nat]"
  have "releasable 0 (lw l)" using assms(1) by blast
  then have v: "valid (lw l)" by (simp add: releasable_def idle_def)
  have "\<forall>i \<in> set ?is. releasable i (lw l)" using assms(1) upto_devices by blast
  then obtain w where w: "release_devices dt s ?is (lw l) = Inr w" "all_released ?is (lw l) w"
    using release_all [of "[1, 2, 3]" "lw l" ids dt s] assms(2) by auto
  let ?w = "upd_gb KillRead w"
  have iw: "idle w" "clients 0 (gb w) = []" "FindClientMem (gb w) QMICTL 0 = None"
    using w(2) by (simp_all add: all_released_def)
  have i: "idle ?w" using iw(1) by (simp add: idle_def)
  have "FindClientMem (gb ?w) = FindClientMem (gb w)" by (intro find_cong_devs) simp_all
  then have f: "FindClientMem (gb ?w) QMICTL 0 = None" using iw(3) by simp
  have "cid \<notin> set (client_ids 0 (gb ?w))" using iw(2) by simp
  then obtain w1 where w1: "ReleaseClientID dt s cid 0 ?w = Inr w1" "locked 0 (gb w1)" "valid w1"
    "FindClientMem (gb w1) QMICTL 0 = None"
    using Release_unknown [OF i f] by blast
  note w2 = Release_locked [OF w1(3,2,4), of dt s cid']
  have first: "UserspaceClose dt s 1 tables m (Some (file_on cid 0)) mu ?w
      = Inr (0, Some ((file_on cid 0)\<lparr>private_data := None\<rparr>), False, w1)" for tables mu
    using w1(1) assms(9) i by (simp add: UserspaceClose_def idle_def)
  have second: "UserspaceClose dt s 1 tables n (Some (file_on cid' 0)) mu w1 = Inl Deadlock" for tables mu
    using w2 assms(10) w1(3) by (simp add: UserspaceClose_def)
  show ?thesis
    using v w(1) assms(3-8) first second by (simp add: DeregisterQMIDevice_def Let_def)
qed

text \<open>The same device with a third client; each of the two files has a client of its own.\<close>

definition two_files_example :: life where
  "two_files_example = life_example
     (upd_gb (set_dev 0 (\<lambda>d. d\<lparr>mClientMemList := mClientMemList d @ [client_example 0x102]\<rparr>)) (world_example []))
     ((\<lambda>_. None)(4 := Some (file_on 0x101 0), 5 := Some (file_on 0x102 0)))"

lemma two_files_example_ok:
  "releasable i (lw two_files_example)" "client_ids 0 (gb (lw two_files_example)) = [0, 0x101, 0x102]"
  by (simp_all add: two_files_example_def releasable_def harmless_def idle_def)
    (auto simp: gobi_example_def dev_example_def client_example_def)

theorem deregister_deadlocks_with_open_files_witness:
  "DeregisterQMIDevice True 5 (\<lambda>_. 0) [[4, 5]] two_files_example = Inl Deadlock"
  by (rule deregister_deadlocks_with_open_files [where ids = "[0x101, 0x102]" and cid = "0x101" and cid' = "0x102"])
    (simp_all add: two_files_example_ok del: list.set_map, simp_all add: two_files_example_def)

section \<open>Registration\<close>

lemma on_world_ensures [simp]:
  "ensures (on_world f l) Q = ensures (f (lw l)) (\<lambda>(x, w). Q (x, set_lw w l))"
  by (simp add: on_world_def case_prod_unfold)

lemma kernel_call_sel [simp]:
  "gb (lw (snd (kernel_call l))) = gb (lw l)" "chrdev_region (snd (kernel_call l)) = chrdev_region l"
  "mbCdevIsInitialized (snd (kernel_call l)) = mbCdevIsInitialized l" "mDevNum (snd (kernel_call l)) = mDevNum l"
  by (simp_all add: kernel_call_def case_prod_unfold Let_def)

lemma dev_ok_cfg [simp]: "dev_ok (d\<lparr>qd_cfg := c\<rparr>) = dev_ok d"
  by (simp add: dev_ok_def)

lemma StartRead_devs: "qmi_devs (snd (StartRead e g)) = qmi_devs g"
  by (simp add: StartRead_def Let_def split: option.split)

lemma register_start_inv:
  assumes "driver_inv (gb (lw l))"
  shows "ensures (register_start dt s e l) (\<lambda>(r, l'). driver_inv (gb (lw l')))"
proof -
  have s: "driver_inv (snd (StartRead e g))" if "driver_inv g" for g
    using that by (simp add: driver_inv_def StartRead_devs)
  have mux: "driver_inv (g\<lparr>qmi_devs := \<lambda>i. if P i then (D i)\<lparr>qd_cfg := C i\<rparr> else D i\<rparr>) = (\<forall>i. dev_ok (D i))"
    for g P D C by (auto simp: driver_inv_def)
  have "dev_ok (qmi_devs (snd (StartRead e g)) i)" if "driver_inv g" for g i
    using s [OF that] by (simp add: driver_inv_def)
  then show ?thesis using assms s
    by (auto simp: register_start_def Let_def case_prod_unfold mux intro!: GetClientID_inv)
qed

lemma register_session_inv:
  assumes "driver_inv (gb (lw l))"
  shows "ensures (register_session dt s l) (\<lambda>(r, l'). driver_inv (gb (lw l')))"
  using assms by (auto simp: register_session_def Let_def intro!: inv_step)

lemma create_node_post:
  "ensures (create_node nn i l) (\<lambda>(r, l'). gb (lw l') = gb (lw l) \<and> mbCdevIsInitialized l' = mbCdevIsInitialized l
     \<and> (r = 0 \<longrightarrow> mDevNum l' = (mDevNum l)(i := True) \<and> chrdev_region l' = chrdev_region l))"
  by (auto simp: create_node_def Let_def case_prod_unfold intro!: lock_free [THEN lock_free_then] split: option.split)

lemma create_nodes_post:
  "ensures (create_nodes nn is l) (\<lambda>(r, l'). gb (lw l') = gb (lw l) \<and> mbCdevIsInitialized l' = mbCdevIsInitialized l
     \<and> (r = 0 \<longrightarrow> (\<forall>i. mDevNum l' i \<longleftrightarrow> mDevNum l i \<or> i \<in> set is) \<and> chrdev_region l' = chrdev_region l))"
proof (induction "is" arbitrary: l)
  case (Cons i "is")
  let ?Q = "\<lambda>(r, l'). gb (lw l') = gb (lw l) \<and> mbCdevIsInitialized l' = mbCdevIsInitialized l
     \<and> (r = 0 \<longrightarrow> (\<forall>j. mDevNum l' j \<longleftrightarrow> mDevNum l j \<or> j \<in> set (i # is)) \<and> chrdev_region l' = chrdev_region l)"
  have step: "ensures (create_nodes nn is l1) ?Q"
    if "gb (lw l1) = gb (lw l)" "mbCdevIsInitialized l1 = mbCdevIsInitialized l"
      "mDevNum l1 = (mDevNum l)(i := True)" "chrdev_region l1 = chrdev_region l" for l1
  proof (rule ensures_mono [OF Cons.IH [of l1]])
    fix x :: "int \<times> life"
    assume x: "case x of (r, l') \<Rightarrow> gb (lw l') = gb (lw l1) \<and> mbCdevIsInitialized l' = mbCdevIsInitialized l1
     \<and> (r = 0 \<longrightarrow> (\<forall>i. mDevNum l' i \<longleftrightarrow> mDevNum l1 i \<or> i \<in> set is) \<and> chrdev_region l' = chrdev_region l1)"
    obtain r l2 where r: "x = (r, l2)" by fastforce
    show "?Q x" using x unfolding r that split_conv by auto
  qed
  show ?case
    unfolding create_nodes.simps ensures_simps(3)
  proof (rule ensures_mono [OF create_node_post])
    fix x :: "int \<times> life" assume x: "case x of (r, l') \<Rightarrow> gb (lw l') = gb (lw l) \<and> mbCdevIsInitialized l' = mbCdevIsInitialized l
     \<and> (r = 0 \<longrightarrow> mDevNum l' = (mDevNum l)(i := True) \<and> chrdev_region l' = chrdev_region l)"
    obtain r l1 where r: "x = (r, l1)" by fastforce
    show "ensures (case x of (result, l) \<Rightarrow> if result \<noteq> 0 then Inr (result, l) else create_nodes nn is l) ?Q"
      using x step [of l1] unfolding r by (cases "r = 0") simp_all
  qed
qed simp

lemma add_cdevs_post:
  "add_cdevs is l = (r, l') \<Longrightarrow> gb (lw l') = gb (lw l) \<and> mDevNum l' = mDevNum l \<and> chrdev_region l' = chrdev_region l
     \<and> (r = 0 \<longrightarrow> (\<forall>i. mbCdevIsInitialized l' i \<longleftrightarrow> mbCdevIsInitialized l i \<or> i \<in> set is))"
proof (induction "is" arbitrary: l)
  case (Cons i "is")
  let ?l = "l\<lparr>mbCdevIsInitialized := (mbCdevIsInitialized l)(i := True)\<rparr>"
  obtain res l1 where k: "kernel_call ?l = (res, l1)" by fastforce
  have l1: "gb (lw l1) = gb (lw l)" "mDevNum l1 = mDevNum l" "chrdev_region l1 = chrdev_region l"
    "mbCdevIsInitialized l1 = (mbCdevIsInitialized l)(i := True)"
    using kernel_call_sel [of ?l] by (simp_all add: k)
  show ?case
  proof (cases "res = 0")
    case True
    then have "add_cdevs is l1 = (r, l')" using Cons.prems by (simp add: k)
    from Cons.IH [OF this] show ?thesis by (auto simp: l1)
  qed (use Cons.prems k l1 in auto)
qed simp

lemma register_nodes_post:
  "ensures (register_nodes nn l) (\<lambda>(r, l'). gb (lw l') = gb (lw l)
     \<and> (r = 0 \<longrightarrow> (\<forall>i \<le> 3. mbCdevIsInitialized l' i \<and> mDevNum l' i) \<and> chrdev_region l' = [0, 1, 2, 3]))"
proof -
  obtain r1 l1 where 1: "kernel_call l = (r1, l1)" by fastforce
  obtain r2 l2 where 2: "kernel_call (l1\<lparr>pGobiWaitThread := 0 \<le> r1\<rparr>) = (r2, l2)" by fastforce
  obtain r3 l3 where 3: "add_cdevs [0, 1, 2, 3] (l2\<lparr>chrdev_region := [0, 1, 2, 3]\<rparr>) = (r3, l3)" by fastforce
  have g2: "gb (lw l2) = gb (lw l)"
    using kernel_call_sel(1) [of l] kernel_call_sel(1) [of "l1\<lparr>pGobiWaitThread := 0 \<le> r1\<rparr>"] by (simp add: 1 2)
  have l3: "gb (lw l3) = gb (lw l)" "chrdev_region l3 = [0, 1, 2, 3]"
    "r3 = 0 \<longrightarrow> (\<forall>i \<le> 3. mbCdevIsInitialized l3 i)"
    using add_cdevs_post [OF 3] g2 upto_devices by auto
  let ?Q = "\<lambda>(r, l'). gb (lw l') = gb (lw l)
     \<and> (r = 0 \<longrightarrow> (\<forall>i \<le> 3. mbCdevIsInitialized l' i \<and> mDevNum l' i) \<and> chrdev_region l' = [0, 1, 2, 3])"
  have last: "ensures (create_nodes nn [1, 2, 3] l5) ?Q"
    if "gb (lw l5) = gb (lw l)" "mbCdevIsInitialized l5 = mbCdevIsInitialized l3" "mDevNum l5 0"
      "chrdev_region l5 = [0, 1, 2, 3]" "r3 = 0" for l5
  proof (rule ensures_mono [OF create_nodes_post])
    fix x :: "int \<times> life" assume x: "case x of (r, l') \<Rightarrow> gb (lw l') = gb (lw l5) \<and> mbCdevIsInitialized l' = mbCdevIsInitialized l5
     \<and> (r = 0 \<longrightarrow> (\<forall>i. mDevNum l' i \<longleftrightarrow> mDevNum l5 i \<or> i \<in> set [1, 2, 3]) \<and> chrdev_region l' = chrdev_region l5)"
    have "i \<le> 3 \<Longrightarrow> i = 0 \<or> i \<in> set [1, 2, 3]" for i :: nat by auto
    then show "?Q x" using x that l3(3) by auto
  qed
  have tail: "ensures (bnd (create_node nn 0 l3) (\<lambda>(result, l). if result \<noteq> 0 then Inr (result, l) else
      let (result, l) = kernel_call l in
      if result \<noteq> 0 then Inr (result, l) else create_nodes nn [1, 2, 3] l)) ?Q" if "r3 = 0"
    unfolding ensures_simps(3)
  proof (rule ensures_mono [OF create_node_post])
    fix x :: "int \<times> life" assume x: "case x of (r, l') \<Rightarrow> gb (lw l') = gb (lw l3) \<and> mbCdevIsInitialized l' = mbCdevIsInitialized l3
     \<and> (r = 0 \<longrightarrow> mDevNum l' = (mDevNum l3)(0 := True) \<and> chrdev_region l' = chrdev_region l3)"
    obtain r l4 where r: "x = (r, l4)" by fastforce
    obtain r5 l5 where 5: "kernel_call l4 = (r5, l5)" by fastforce
    note l5 = kernel_call_sel [of l4, unfolded 5 snd_conv]
    have "ensures (create_nodes nn [1, 2, 3] l5) ?Q" if "r = 0"
      by (rule last) (use x that l3 l5 \<open>r3 = 0\<close> in \<open>simp_all add: r\<close>)
    then show "ensures (case x of (result, l) \<Rightarrow> if result \<noteq> 0 then Inr (result, l) else
      let (result, l) = kernel_call l in
      if result \<noteq> 0 then Inr (result, l) else create_nodes nn [1, 2, 3] l) ?Q"
      using x l3(1) l5(1) unfolding r by (cases "r = 0"; cases "r5 = 0") (simp_all add: 5 del: create_nodes.simps)
  qed
  show ?thesis
    using g2 l3(1) tail 3 by (cases "r3 = 0"; cases "r2 < 0")
      (simp_all add: register_nodes_def 1 2 Let_def del: add_cdevs.simps create_nodes.simps ensures_simps(3))
qed

text \<open>
  C38: registering a device is sound whatever the kernel and the modem answer: it never deadlocks on a client
  list and never gives back a lock it does not hold, it keeps the invariant of the client memory,
  and when it reports success the character devices of all four QMI devices are initialised with a node each,
  and their numbers are allocated.
\<close>

theorem register_sound:
  assumes "driver_inv (gb (lw l))"
  shows "case RegisterQMIDevice dt s e nn l of Inl f \<Rightarrow> f \<noteq> Deadlock \<and> f \<noteq> Bad_Unlock
     | Inr (r, l') \<Rightarrow> driver_inv (gb (lw l'))
         \<and> (r = 0 \<longrightarrow> (\<forall>i \<le> 3. mbCdevIsInitialized l' i \<and> mDevNum l' i) \<and> chrdev_region l' = [0, 1, 2, 3])"
proof -
  let ?Q = "\<lambda>(r, l'). driver_inv (gb (lw l'))
     \<and> (r = 0 \<longrightarrow> (\<forall>i \<le> 3. mbCdevIsInitialized l' i \<and> mDevNum l' i) \<and> chrdev_region l' = [0, 1, 2, 3])"
  have nodes: "ensures (register_nodes nn l2) ?Q" if "driver_inv (gb (lw l2))" for l2
    by (rule ensures_mono [OF register_nodes_post]) (use that in auto)
  have session: "ensures (bnd (register_session dt s l1) (\<lambda>(result, l).
      if result \<noteq> 0 then Inr (result, l) else register_nodes nn l)) ?Q" if "driver_inv (gb (lw l1))" for l1
    using nodes by (auto intro!: ensures_mono [OF register_session_inv [OF that]])
  let ?l = "l\<lparr>lu := (lu l)\<lparr>io_mutex := False\<rparr>\<rparr>"
  have "ensures (bnd (register_start dt s e ?l) (\<lambda>(result, l). if result \<noteq> 0 then Inr (result, l) else
      bnd (register_session dt s l) (\<lambda>(result, l).
      if result \<noteq> 0 then Inr (result, l) else register_nodes nn l))) ?Q"
    unfolding ensures_simps(3) using session assms
    by (intro ensures_mono [OF register_start_inv]) auto
  then have "ensures (RegisterQMIDevice dt s e nn l) ?Q"
    using assms by (cases "mbCdevIsInitialized l 0") (simp_all add: RegisterQMIDevice_def Let_def del: ensures_simps(3))
  then show ?thesis by (auto simp: ensures_def lock_fault_def split: sum.splits)
qed

text \<open>A device that was just probed, and a modem that takes every request and never answers.\<close>

definition fresh_life :: life where
  "fresh_life = (life_example (upd_gb (\<lambda>g. g\<lparr>qmi_devs := \<lambda>_. dev_example [], mbQMIValid := False\<rparr>) (world_example []))
     (\<lambda>_. None))\<lparr>mbCdevIsInitialized := \<lambda>_. False, mDevNum := \<lambda>_. False, chrdev_region := []\<rparr>"

lemma fresh_life_inv: "driver_inv (gb (lw fresh_life))"
  by (simp add: fresh_life_def life_example_def driver_inv_def dev_ok_def dev_example_def)

definition start_example :: start_env where
  "start_example = \<lparr>se_read_urb = True, se_int_urb = True, se_read_buf = True, se_int_buf = True, se_setup = True,
     se_endpoints = [(0x81, 3)], se_submit = 0\<rparr>"

theorem register_sound_witness:
  "RegisterQMIDevice True 5 start_example \<lparr>net_name = \<lambda>_. ''usb0'', mpKey = ''k'', busnum = 1, devpath = ''1''\<rparr> fresh_life
     \<notin> {Inl Deadlock, Inl Bad_Unlock}"
  using register_sound [OF fresh_life_inv, of True 5 start_example
      "\<lparr>net_name = \<lambda>_. ''usb0'', mpKey = ''k'', busnum = 1, devpath = ''1''\<rparr>"]
  by (auto split: sum.splits)

text \<open>
  When the modem refuses the control line state, the registration fails but the device stays valid:
  this return is the only one on the way to the first read that does not clear \<open>mbQMIValid\<close>.
\<close>

lemma register_fails_but_valid:
  assumes "\<not> mbCdevIsInitialized l 0" and "usb (lw l) = r # rs" and "r < 0"
  shows "\<exists>l'. RegisterQMIDevice dt s e nn l = Inr (r, l') \<and> valid (lw l')"
  using assms by (simp add: RegisterQMIDevice_def register_start_def kernel_call_def pop_usb_def Let_def)

end
