(* ===== verification/InfParser.thy ===== *)
theory InfParser
  imports CString
begin

text \<open>
  The parser of Windows INF files of \<^verbatim>\<open>InfParser/qtiDevInf.c\<close>, from which the Linux drivers learn the
  devices they serve: the line reader, the handlers of the \<open>[Version]\<close>, \<open>[Manufacturer]\<close>, device and
  \<open>[Strings]\<close> sections, \<open>processData\<close>, the two entry points \<open>QTIDevInfEntrySize\<close> (count the devices) and
  \<open>QTIDevInfParse\<close> (store them), the look-up \<open>QTIDevInfGetDevInfo\<close>, and \<open>UpdateDeviceInfo\<close> of the drivers,
  which puts them together. A file is what can still be read of it.
\<close>

section \<open>Data\<close>

datatype QTIdevtype = QTIDEV_INF_TYPE_TRACE_IN | QTIDEV_INF_TYPE_DPL | QTIDEV_INF_TYPE_BULK
  | QTIDEV_INF_TYPE_BULK_IN_OUT | QTIDEV_INF_TYPE_LPC | QTIDEV_INF_TYPE_UNKNOWN

datatype deviceClass = QTIDEV_INF_CLASS_NET | QTIDEV_INF_CLASS_MODEM | QTIDEV_INF_CLASS_PORTS
  | QTIDEV_INF_CLASS_USB | QTIDEV_INF_CLASS_UNKNOWN

datatype sectionInfo_t = QTIDEV_INF_VERSION | QTIDEV_INF_MANUFACTURER | QTIDEV_INF_DEVICE_INFO
  | QTIDEV_INF_STRING | QTIDEV_INF_UNKNOWN

text \<open>\<open>mpKey\<close> is the string in the 64 bytes of the key; it has 64 characters when they hold no end.\<close>

record devInfo_t =
  mDevType :: QTIdevtype
  mpKey :: string
  mVid_pid_iface :: "int list"

record fileInfo_t =
  mClass :: deviceClass
  mLength :: nat
  mNumResp :: nat
  mDevInfo :: "devInfo_t list"

abbreviation (input) "QTIDEV_INF_MAX_KEY_SIZE \<equiv> (64 :: nat)"
abbreviation (input) "QTIDEV_INF_MAX_LINE_SIZE \<equiv> (512 :: nat)"
abbreviation (input) "newline \<equiv> CHR 0x0A"
abbreviation (input) "backslash \<equiv> CHR 0x5C"

section \<open>Reading lines\<close>

fun read_chars :: "carr \<Rightarrow> nat \<Rightarrow> nat \<Rightarrow> nat \<Rightarrow> string \<Rightarrow> fault + (int \<times> carr \<times> string)" where
  "read_chars a p len i [] =
     (if i < len then Inr (- ENXIO, a, [])
      else bnd (wrc a (p + i) NUL) (\<lambda>a. Inr (int i, a, [])))"
| "read_chars a p len i (c # inp) =
     (if i < len then
        bnd (wrc a (p + i) c) (\<lambda>a.
        if c = newline then bnd (wrc a (p + (i + 1)) NUL) (\<lambda>a. Inr (int (i + 1), a, inp))
        else read_chars a p len (i + 1) inp)
      else bnd (wrc a (p + i) NUL) (\<lambda>a. Inr (int i, a, c # inp)))"

definition MyReadLine :: "carr \<Rightarrow> nat \<Rightarrow> int \<Rightarrow> string \<Rightarrow> fault + (int \<times> carr \<times> string)" where
  "MyReadLine a p len inp = (if len \<le> 0 then Inr (- EINVAL, a, inp) else read_chars a p (nat len) 0 inp)"

text \<open>
  The end of a line: the last index that is no white space. The loop looks at the character before
  the array when all of them are.
\<close>

fun strip_end :: "carr \<Rightarrow> nat \<Rightarrow> fault + (nat \<times> carr)" where
  "strip_end a 0 = Inl (OOB_Read 0)"
| "strip_end a (Suc len) =
     bnd (rdc a len) (\<lambda>c.
     if c = newline \<or> isspace c then bnd (wrc a len NUL) (\<lambda>a. strip_end a len)
     else Inr (len, a))"

lemma read_chars_shorter:
  "read_chars a p len i inp = Inr (n, a', inp') \<Longrightarrow> length inp' \<le> length inp
     \<and> (int i < n \<longrightarrow> length inp' < length inp)"
proof (induction a p len i inp rule: read_chars.induct)
  case (2 a p len i c inp)
  then show ?case by (fastforce simp: returns_iff split: if_splits)
qed (auto simp: returns_iff split: if_splits)

lemma MyReadLine_shorter:
  "MyReadLine a p len inp = Inr (n, a', inp') \<Longrightarrow> 0 < n \<Longrightarrow> length inp' < length inp"
  by (auto simp: MyReadLine_def dest!: read_chars_shorter split: if_splits)

text \<open>\<open>_MyReadLine\<close>: the next line that is not empty; a line that ends in a backslash goes on on the next.\<close>

function read_line :: "nat \<Rightarrow> nat \<Rightarrow> carr \<Rightarrow> string \<Rightarrow> fault + (int \<times> carr \<times> string)" where
  "read_line maxlen kept a inp =
     bnd (MyReadLine a kept (int maxlen - int kept) inp) (\<lambda>(len, a, inp).
     if len \<le> 0 then Inr (len, a, inp) else
     bnd (strlen a 0) (\<lambda>len.
     if len \<le> 1 then read_line maxlen kept a inp else
     bnd (rdc a (len - 1)) (\<lambda>c.
     if c \<noteq> newline then Inr (- 1, a, inp) else
     bnd (strip_end a len) (\<lambda>(len, a).
     bnd (rdc a len) (\<lambda>c.
     if c = backslash then read_line maxlen len a inp
     else Inr (int len, a, inp))))))"
  by pat_completeness auto
termination
  by (relation "measure (\<lambda>(maxlen, kept, a, inp). length inp)") (auto dest: MyReadLine_shorter)

declare read_line.simps [simp del]

section \<open>Handlers of the sections\<close>

definition updateVersion :: "string \<Rightarrow> string \<Rightarrow> fileInfo_t \<Rightarrow> fileInfo_t" where
  "updateVersion key val f =
     (if length key = length ''Class'' \<and> has_prefix key ''Class'' then
        f\<lparr>mClass := if has_prefix val ''Net'' then QTIDEV_INF_CLASS_NET
          else if has_prefix val ''Modem'' then QTIDEV_INF_CLASS_MODEM
          else if has_prefix val ''Ports'' then QTIDEV_INF_CLASS_PORTS
          else if has_prefix val ''USB'' then QTIDEV_INF_CLASS_USB
          else QTIDEV_INF_CLASS_UNKNOWN\<rparr>
      else f)"

lemma rstrip_loop_length: "rstrip_loop a s p = Inr a' \<Longrightarrow> length a' = length a"
  by (induction a s p rule: rstrip_loop.induct) (auto simp: returns_iff wrc_def split: if_splits)

lemma rstrip_length: "rstrip a s = Inr a' \<Longrightarrow> length a' = length a"
  by (auto simp: rstrip_def returns_iff dest: rstrip_loop_length)

lemma find_chars_range: "find_chars_or_comment a s chars = Inr q \<Longrightarrow> s \<le> q \<and> q < length a"
proof (induction a s chars rule: find_chars_or_comment.induct)
  case (1 a s chars)
  from 1(2) show ?case
    by (subst (asm) find_chars_or_comment.simps)
      (use 1(1) in \<open>fastforce simp: returns_iff rdc_def split: if_splits\<close>)
qed

lemma strsep_facts:
  "strsep a data delim = Inr (tok, data', a') \<Longrightarrow> length a' = length a \<and> tok = data
     \<and> (\<forall>p. data = Some p \<longrightarrow> p < length a \<and> (\<forall>q. data' = Some q \<longrightarrow> p < q \<and> q \<le> length a))"
  by (auto simp: strsep_def returns_iff wrc_def dest!: find_chars_range split: option.splits if_splits)

text \<open>
  The manufacturers: the first name of the list is the model, the others become \<open>model.name\<close>. The
  allocations are answered by \<open>ks\<close>. The names are kept in 63 bytes.
\<close>

function mfg_loop ::
  "carr \<Rightarrow> nat option \<Rightarrow> string \<Rightarrow> string list \<Rightarrow> bool list \<Rightarrow> fault + (string list \<times> carr \<times> bool list)" where
  "mfg_loop a data model mfgInfo ks =
     bnd (strsep a data '','') (\<lambda>(tmp, data, a).
     case tmp of None \<Rightarrow> Inr (mfgInfo, a, ks) | Some tmp \<Rightarrow>
     if ks \<noteq> [] \<and> \<not> hd ks then Inr (mfgInfo, a, tl ks) else
     bnd (rstrip a tmp) (\<lambda>a.
     bnd (lskip a tmp) (\<lambda>tmp.
     let name = take (QTIDEV_INF_MAX_KEY_SIZE - 2)
           (if mfgInfo \<noteq> [] then model @ ''.'' @ cstr a tmp else cstr a tmp);
         model = (if mfgInfo \<noteq> [] then model else name)
     in mfg_loop a data model (name # mfgInfo) (tl ks))))"
  by pat_completeness auto
termination
  by (relation "measure (\<lambda>(a, data, _). case data of None \<Rightarrow> 0 | Some p \<Rightarrow> Suc (length a) - p)")
    (auto dest!: strsep_facts rstrip_length split: option.splits)

declare mfg_loop.simps [simp del]

definition updateManufacturer ::
  "carr \<Rightarrow> nat \<Rightarrow> nat \<Rightarrow> string list \<Rightarrow> bool list \<Rightarrow> fault + (string list \<times> carr \<times> bool list)" where
  "updateManufacturer a val len mfgInfo ks =
     (if mfgInfo \<noteq> [] \<or> len = 0 then Inr (mfgInfo, a, ks) else mfg_loop a (Some val) [] [] ks)"

function skip_to_digit :: "carr \<Rightarrow> nat \<Rightarrow> fault + nat" where
  "skip_to_digit a p =
     bnd (rdc a p) (\<lambda>c. if c \<noteq> NUL \<and> \<not> isdigit c then skip_to_digit a (p + 1) else Inr p)"
  by pat_completeness auto
termination
  by (relation "measure (\<lambda>(a, p). length a - p)") (auto simp: rdc_def split: if_splits)

declare skip_to_digit.simps [simp del]

function vid_loop :: "carr \<Rightarrow> nat option \<Rightarrow> nat \<Rightarrow> int list \<Rightarrow> fault + (int list \<times> carr)" where
  "vid_loop a data idx ids =
     bnd (strsep a data ''_'') (\<lambda>(tmp, data, a).
     case data of
       Some d \<Rightarrow>
         if tmp \<noteq> None \<and> idx < 3 then
           vid_loop a data (idx + 1) (ids[idx := as_int (int (simple_strtoul 16 (cstr a d)))])
         else Inr (ids, a)
     | None \<Rightarrow> Inr (ids, a))"
  by pat_completeness auto
termination
  by (relation "measure (\<lambda>(a, data, idx, ids). 3 - idx)") auto

declare vid_loop.simps [simp del]

text \<open>A device line, for the key at \<open>key\<close> and the value at \<open>val\<close>.\<close>

definition updateDeviceInfo :: "carr \<Rightarrow> nat \<Rightarrow> nat \<Rightarrow> fileInfo_t \<Rightarrow> fault + (fileInfo_t \<times> carr)" where
  "updateDeviceInfo a key val f =
     (if mNumResp f > mLength f then Inr (f, a) else
      let n = mNumResp f in
      if n \<ge> length (mDevInfo f) then Inl (OOB_Write n) else
      let d = (mDevInfo f ! n)\<lparr>mDevType := QTIDEV_INF_TYPE_UNKNOWN\<rparr> in
      bnd (strsep a (Some val) '','') (\<lambda>(tmp, data, a).
      bnd (case data of
             None \<Rightarrow> Inr (d, tmp)
           | Some _ \<Rightarrow>
               bnd (skip_to_digit a (the tmp)) (\<lambda>tmp.
               bnd (rdc a tmp) (\<lambda>c.
               let v = (if c \<noteq> NUL then as_int (int (simple_strtoul 16 (cstr a tmp))) else 0)
               in Inr (d\<lparr>mDevType := if v \<noteq> 0 then QTIDEV_INF_TYPE_DPL else QTIDEV_INF_TYPE_BULK\<rparr>, data))))
        (\<lambda>(d, data).
      bnd (vid_loop a data 0 (mVid_pid_iface d)) (\<lambda>(ids, a).
      let d = d\<lparr>mVid_pid_iface := ids, mpKey := strncpy0 (cstr a key) QTIDEV_INF_MAX_KEY_SIZE\<rparr> in
      Inr (f\<lparr>mDevInfo := (mDevInfo f)[n := d], mNumResp := n + 1\<rparr>, a)))))"

text \<open>
  \<open>extractDevName\<close> into the 64 bytes of the key of a device: what is longer runs into the first byte
  of the ids behind it.
\<close>

definition extractDevName :: "string \<Rightarrow> nat \<Rightarrow> devInfo_t \<Rightarrow> devInfo_t" where
  "extractDevName src len d =
     (let name = map (\<lambda>c. if c = CHR '' '' \<or> c = CHR ''('' \<or> c = CHR '')'' then CHR ''_'' else c) (take len src)
      in if length name < 64 then d\<lparr>mpKey := name\<rparr>
         else d\<lparr>mpKey := name, mVid_pid_iface := (mVid_pid_iface d)
                [0 := mVid_pid_iface d ! 0 - mVid_pid_iface d ! 0 mod 256]\<rparr>)"

text \<open>The entry with the key; the search ends one entry behind the number of devices, found or not.\<close>

function find_entry :: "devInfo_t list \<Rightarrow> string \<Rightarrow> nat \<Rightarrow> nat \<Rightarrow> fault + nat" where
  "find_entry devs key n idx =
     (if idx \<ge> length devs then Inl (OOB_Read idx)
      else if take QTIDEV_INF_MAX_KEY_SIZE (mpKey (devs ! idx)) = take QTIDEV_INF_MAX_KEY_SIZE key then Inr idx
      else if idx \<le> n then find_entry devs key n (idx + 1)
      else Inr idx)"
  by pat_completeness auto
termination
  by (relation "measure (\<lambda>(devs, key, n, idx). length devs - idx)") auto

declare find_entry.simps [simp del]

definition updateDevStringInfo :: "string \<Rightarrow> string \<Rightarrow> fileInfo_t \<Rightarrow> fault + fileInfo_t" where
  "updateDevStringInfo key val f =
     bnd (find_entry (mDevInfo f) key (mNumResp f) 0) (\<lambda>i.
     let d = extractDevName val QTIDEV_INF_MAX_KEY_SIZE (mDevInfo f ! i);
         d = (if mpKey d = [] then d\<lparr>mpKey := strncpy0 ''QTI'' (length ''QTI'')\<rparr> else d)
     in Inr (f\<lparr>mDevInfo := (mDevInfo f)[i := d]\<rparr>))"

section \<open>Processing a file\<close>

record inf_state =
  line_buf :: carr
  inf_file :: string
  sectionInfo :: sectionInfo_t
  inf_mfg :: "string list"
  Filevalid :: bool
  inf_count :: nat
  inf_info :: fileInfo_t
  inf_kmem :: "bool list"

datatype inf_step = Next | Break | Return int

text \<open>
  The section a name stands for; \<open>names\<close> are the manufacturers. Both names are in 64 bytes filled up with
  zeros, so that \<open>memcmp\<close> compares the strings.
\<close>

definition section_of :: "string \<Rightarrow> string list \<Rightarrow> sectionInfo_t" where
  "section_of name names =
     (if has_prefix name ''Manufacturer'' then QTIDEV_INF_MANUFACTURER
      else if has_prefix name ''Version'' then QTIDEV_INF_VERSION
      else if has_prefix name ''String'' then QTIDEV_INF_STRING
      else if name \<in> set names then QTIDEV_INF_DEVICE_INFO
      else QTIDEV_INF_UNKNOWN)"

text \<open>A section line, its bracket at \<open>p\<close>. The list of the manufacturers goes when one of them is found.\<close>

definition section_line :: "bool \<Rightarrow> nat \<Rightarrow> inf_state \<Rightarrow> fault + (inf_step \<times> inf_state)" where
  "section_line flag p st =
     (if \<not> flag \<and> sectionInfo st = QTIDEV_INF_DEVICE_INFO then Inr (Break, st) else
      let st = st\<lparr>sectionInfo := QTIDEV_INF_UNKNOWN\<rparr> in
      bnd (find_chars_or_comment (line_buf st) (p + 1) '']'') (\<lambda>e.
      bnd (rdc (line_buf st) e) (\<lambda>c.
      if c \<noteq> CHR '']'' then Inr (Return (- 1), st) else
      bnd (wrc (line_buf st) e NUL) (\<lambda>a.
      let k = section_of (strncpy0 (cstr a (p + 1)) 64) (inf_mfg st)
      in Inr (Next, st\<lparr>line_buf := a, sectionInfo := k,
            inf_mfg := (if k = QTIDEV_INF_DEVICE_INFO then [] else inf_mfg st),
            Filevalid := (Filevalid st \<or> k = QTIDEV_INF_VERSION)\<rparr>)))))"

text \<open>What is done with one entry: its name and its value are in the array.\<close>

definition handle_entry :: "bool \<Rightarrow> nat \<Rightarrow> nat \<Rightarrow> inf_state \<Rightarrow> fault + (inf_step \<times> inf_state)" where
  "handle_entry flag name val st =
     (let a = line_buf st in
      case sectionInfo st of
        QTIDEV_INF_VERSION \<Rightarrow>
          Inr (Next, if flag then st\<lparr>inf_info := updateVersion (cstr a name) (cstr a val) (inf_info st)\<rparr> else st)
      | QTIDEV_INF_MANUFACTURER \<Rightarrow>
          bnd (strlen a val) (\<lambda>n.
          bnd (updateManufacturer a val n (inf_mfg st) (inf_kmem st)) (\<lambda>(m, a, ks).
          Inr (Next, st\<lparr>line_buf := a, inf_mfg := m, inf_kmem := ks\<rparr>)))
      | QTIDEV_INF_DEVICE_INFO \<Rightarrow>
          if flag then
            if mLength (inf_info st) \<le> mNumResp (inf_info st) then Inr (Next, st)
            else bnd (updateDeviceInfo a name val (inf_info st)) (\<lambda>(f, a).
                 Inr (Next, st\<lparr>line_buf := a, inf_info := f\<rparr>))
          else Inr (Next, st\<lparr>inf_count := inf_count st + 1\<rparr>)
      | QTIDEV_INF_STRING \<Rightarrow>
          if flag then
            bnd (updateDevStringInfo (cstr a name) (cstr a val) (inf_info st)) (\<lambda>f.
            Inr (Next, st\<lparr>inf_info := f\<rparr>))
          else Inr (Next, st)
      | QTIDEV_INF_UNKNOWN \<Rightarrow> Inr (Next, st))"

text \<open>
  An entry line from \<open>p\<close> on. A line without an operator is an entry, too: \<open>strchr\<close> finds the end
  of the string, and the value is what is left in the array behind it.
\<close>

definition entry_line :: "bool \<Rightarrow> nat \<Rightarrow> inf_state \<Rightarrow> fault + (inf_step \<times> inf_state)" where
  "entry_line flag p st =
     bnd (find_chars_or_comment (line_buf st) p '':='') (\<lambda>e.
     bnd (rdc (line_buf st) e) (\<lambda>c.
     if \<not> strchr '':='' c then Inr (Next, st) else
     bnd (wrc (line_buf st) e NUL) (\<lambda>a.
     bnd (rstrip a p) (\<lambda>a.
     let val = e + 1 in
     bnd (find_chars_or_comment a val '';#'') (\<lambda>e.
     bnd (rdc a e) (\<lambda>c.
     bnd (if c \<noteq> NUL then wrc a e NUL else Inr a) (\<lambda>a.
     bnd (lskip a val) (\<lambda>val.
     bnd (rstrip a val) (\<lambda>a.
     handle_entry flag p val (st\<lparr>line_buf := a\<rparr>))))))))))"

definition process_line :: "bool \<Rightarrow> inf_state \<Rightarrow> fault + (inf_step \<times> inf_state)" where
  "process_line flag st =
     bnd (rstrip (line_buf st) 0) (\<lambda>a.
     bnd (lskip a 0) (\<lambda>p.
     bnd (rdc a p) (\<lambda>c.
     let st = st\<lparr>line_buf := a\<rparr> in
     if strchr '';#'' c then Inr (Next, st)
     else if c = CHR ''['' then section_line flag p st
     else if sectionInfo st \<noteq> QTIDEV_INF_UNKNOWN \<and> Filevalid st then entry_line flag p st
     else Inr (Next, st))))"

lemma bndE: "bnd m f = Inr y \<Longrightarrow> (\<And>x. m = Inr x \<Longrightarrow> f x = Inr y \<Longrightarrow> P) \<Longrightarrow> P"
  by (cases m) simp_all

lemma handle_entry_file: "handle_entry flag name val st = Inr (s, st') \<Longrightarrow> inf_file st' = inf_file st"
  by (cases "sectionInfo st") (auto simp: handle_entry_def Let_def returns_iff split: if_splits)

lemma section_line_file: "section_line flag p st = Inr (s, st') \<Longrightarrow> inf_file st' = inf_file st"
  by (auto simp: section_line_def Let_def returns_iff split: if_splits)

lemma entry_line_file: "entry_line flag p st = Inr (s, st') \<Longrightarrow> inf_file st' = inf_file st"
  unfolding entry_line_def Let_def
  by (elim bndE, simp split: if_splits, elim bndE, auto dest!: handle_entry_file)

lemma process_line_file: "process_line flag st = Inr (s, st') \<Longrightarrow> inf_file st' = inf_file st"
  by (auto simp: process_line_def Let_def returns_iff dest!: section_line_file entry_line_file split: if_splits)

lemma MyReadLine_not_0: "MyReadLine a p len inp = Inr (n, a', inp') \<Longrightarrow> n \<noteq> 0"
proof -
  have "read_chars a p m i inp = Inr (n, a', inp') \<Longrightarrow> i < m \<or> 0 < i \<Longrightarrow> n \<noteq> 0" for m i
    by (induction a p m i inp rule: read_chars.induct) (auto simp: returns_iff split: if_splits)
  then show "MyReadLine a p len inp = Inr (n, a', inp') \<Longrightarrow> n \<noteq> 0"
    by (auto simp: MyReadLine_def split: if_splits)
qed

lemma read_line_shorter:
  "read_line n k a inp = Inr (r, a', inp') \<Longrightarrow> 0 \<le> r \<Longrightarrow> length inp' < length inp"
proof (induction n k a inp rule: read_line.induct)
  case (1 n k a inp)
  note def = 1(3) [unfolded read_line.simps [of n k a inp]]
  obtain len a1 inp1 where m: "MyReadLine a k (int n - int k) inp = Inr (len, a1, inp1)"
    using def by (auto simp: returns_iff)
  show ?case
  proof (cases "len \<le> 0")
    case True
    then show ?thesis using def m 1(4) MyReadLine_not_0 [OF m] by simp
  next
    case False
    then have s: "length inp1 < length inp" using MyReadLine_shorter [OF m] by simp
    note IH = 1(1) [OF m refl refl False]
    show ?thesis
      using def m False s IH 1(2) [OF m refl refl False] 1(4)
      by (fastforce simp: returns_iff split: if_splits)
  qed
qed

function process_lines :: "bool \<Rightarrow> inf_state \<Rightarrow> fault + (int \<times> inf_state)" where
  "process_lines flag st =
     bnd (read_line QTIDEV_INF_MAX_LINE_SIZE 0 (line_buf st) (inf_file st)) (\<lambda>(ret, a, inp).
     let st = st\<lparr>line_buf := a, inf_file := inp\<rparr> in
     if ret < 0 then Inr (as_int (int (inf_count st)), st) else
     bnd (process_line flag st) (\<lambda>(s, st).
     case s of
       Next \<Rightarrow> process_lines flag st
     | Break \<Rightarrow> Inr (as_int (int (inf_count st)), st)
     | Return r \<Rightarrow> Inr (r, st)))"
  by pat_completeness auto
termination
  by (relation "measure (\<lambda>(flag, st). length (inf_file st))")
    (auto dest!: read_line_shorter process_line_file)

declare process_lines.simps [simp del]

definition inf_start :: "fileInfo_t \<Rightarrow> string \<Rightarrow> bool list \<Rightarrow> inf_state" where
  "inf_start info inp ks = \<lparr>line_buf = replicate (QTIDEV_INF_MAX_LINE_SIZE + 1) NUL, inf_file = inp,
     sectionInfo = QTIDEV_INF_UNKNOWN, inf_mfg = [], Filevalid = False, inf_count = 0, inf_info = info,
     inf_kmem = ks\<rparr>"

definition processData :: "bool \<Rightarrow> fileInfo_t \<Rightarrow> string \<Rightarrow> bool list \<Rightarrow> fault + (int \<times> fileInfo_t \<times> bool list)" where
  "processData flag info inp ks =
     bnd (process_lines flag (inf_start info inp ks)) (\<lambda>(r, st). Inr (r, inf_info st, inf_kmem st))"

section \<open>Entry points\<close>

text \<open>A path is the file that opening it gives, if it can be opened.\<close>

definition no_info :: fileInfo_t where
  "no_info = \<lparr>mClass = QTIDEV_INF_CLASS_NET, mLength = 0, mNumResp = 0, mDevInfo = []\<rparr>"

definition QTIDevInfEntrySize :: "string option \<Rightarrow> bool list \<Rightarrow> fault + (int \<times> bool list)" where
  "QTIDevInfEntrySize path ks =
     (case path of None \<Rightarrow> Inr (- EINVAL, ks)
      | Some inp \<Rightarrow> bnd (processData False no_info inp ks) (\<lambda>(r, _, ks). Inr (r, ks)))"

text \<open>A file that cannot be parsed is only logged.\<close>

definition QTIDevInfParse :: "string option \<Rightarrow> fileInfo_t \<Rightarrow> bool list \<Rightarrow> fault + (int \<times> fileInfo_t \<times> bool list)" where
  "QTIDevInfParse path info ks =
     (case path of None \<Rightarrow> Inr (- EINVAL, info, ks)
      | Some inp \<Rightarrow> bnd (processData True info inp ks) (\<lambda>(_, info, ks). Inr (0, info, ks)))"

definition QTIDevInfCheckFileStatus :: "fileInfo_t option \<Rightarrow> string option option \<Rightarrow> int" where
  "QTIDevInfCheckFileStatus info path =
     (case (info, path) of
        (Some _, Some (Some _)) \<Rightarrow> 0
      | _ \<Rightarrow> - ENXIO)"

text \<open>The search runs up to and including the entry behind the last one.\<close>

function dev_lookup :: "fileInfo_t \<Rightarrow> int \<Rightarrow> int \<Rightarrow> nat \<Rightarrow> fault + devInfo_t option" where
  "dev_lookup f idProduct ifaceNum idx =
     (if idx \<le> mNumResp f then
        if idx \<ge> length (mDevInfo f) then Inl (OOB_Read idx) else
        let d = mDevInfo f ! idx in
        if mVid_pid_iface d ! 1 = idProduct \<and> mVid_pid_iface d ! 2 = ifaceNum then Inr (Some d)
        else dev_lookup f idProduct ifaceNum (idx + 1)
      else Inr None)"
  by pat_completeness auto
termination
  by (relation "measure (\<lambda>(f, p, i, idx). Suc (mNumResp f) - idx)") auto

declare dev_lookup.simps [simp del]

definition QTIDevInfGetDevInfo :: "u16 \<Rightarrow> u8 \<Rightarrow> fileInfo_t option \<Rightarrow> fault + devInfo_t option" where
  "QTIDevInfGetDevInfo idProduct bInterfaceNumber pFileInfo =
     (case pFileInfo of None \<Rightarrow> Inr None
      | Some f \<Rightarrow> dev_lookup f (int (unat idProduct)) (int (unat bInterfaceNumber)) 0)"

text \<open>
  What the drivers do with it: count the devices, allocate that many zeroed entries, and read the file
  again. The result of the allocation is not checked.
\<close>

definition zero_dev :: devInfo_t where
  "zero_dev = \<lparr>mDevType = QTIDEV_INF_TYPE_TRACE_IN, mpKey = [], mVid_pid_iface = [0, 0, 0]\<rparr>"

definition UpdateDeviceInfo :: "string option option \<Rightarrow> bool list \<Rightarrow> fault + (int \<times> fileInfo_t option \<times> bool list)" where
  "UpdateDeviceInfo pFilePath ks =
     (case pFilePath of None \<Rightarrow> Inr (- EINVAL, None, ks) | Some path \<Rightarrow>
      bnd (QTIDevInfEntrySize path ks) (\<lambda>(ret, ks).
      if ret < 0 then Inr (ret, None, ks)
      else if ks \<noteq> [] \<and> \<not> hd ks then Inl Null_Deref
      else
        let f = \<lparr>mClass = QTIDEV_INF_CLASS_NET, mLength = nat ret, mNumResp = 0,
                 mDevInfo = replicate (nat ret) zero_dev\<rparr> in
        bnd (QTIDevInfParse path f (tl ks)) (\<lambda>(r, f, ks).
        if r < 0 then Inr (- ENXIO, None, ks) else Inr (0, Some f, ks))))"

end
