(* ===== verification/InfSpec.thy ===== *)
theory InfSpec
  imports InfParser
begin

text \<open>
  What the INF parser of \<^verbatim>\<open>InfParser/qtiDevInf.c\<close> does, stated on lists of characters: the reader
  delivers the logical lines of the file, the two passes of a driver over the file agree on the number of
  devices, a device line gives its ids, and the look-ups find what was stored, or leave the table.
\<close>

section \<open>Logical lines\<close>

fun take_line :: "nat \<Rightarrow> string \<Rightarrow> (string \<times> string) option" where
  "take_line 0 inp = Some ([], inp)"
| "take_line (Suc n) [] = None"
| "take_line (Suc n) (c # inp) =
     (if c = newline then Some ([c], inp) else map_option (\<lambda>(l, r). (c # l, r)) (take_line n inp))"

lemma take_line_length: "take_line n inp = Some (l, r) \<Longrightarrow> inp = l @ r \<and> length l \<le> n \<and> (0 < n \<longrightarrow> l \<noteq> [])"
  by (induction n inp arbitrary: l rule: take_line.induct) (auto split: if_splits)

definition strip_space :: "string \<Rightarrow> string" where
  "strip_space s = rev (dropWhile isspace (rev s))"

lemma strip_space_simps [simp]:
  "strip_space [] = []"
  "strip_space (s @ [c]) = (if isspace c then strip_space s else s @ [c])"
  by (simp_all add: strip_space_def)

text \<open>
  A logical line and the rest of the file; the result when there is none; or a line of white space only,
  on which the code leaves its array.
\<close>

datatype logical = Line string string | Stop int string | Blank

function logical_line :: "nat \<Rightarrow> string \<Rightarrow> string \<Rightarrow> logical" where
  "logical_line n pre inp =
     (if n \<le> length pre then Stop (- EINVAL) inp else
      case take_line (n - length pre) inp of
        None \<Rightarrow> Stop (- ENXIO) []
      | Some (l, inp') \<Rightarrow>
          let s = takeWhile (\<lambda>c. c \<noteq> NUL) (pre @ l) in
          if length s \<le> 1 then logical_line n pre inp'
          else if last s \<noteq> newline then Stop (- 1) inp'
          else
            let t = strip_space s in
            if t = [] then Blank
            else if last t = backslash then logical_line n (butlast t) inp'
            else Line t inp')"
  by pat_completeness auto
termination
  by (relation "measure (\<lambda>(n, pre, inp). length inp)") (auto dest: take_line_length)

declare logical_line.simps [simp del]

text \<open>The array after a string was stored with its end.\<close>

definition stored :: "carr \<Rightarrow> nat \<Rightarrow> string \<Rightarrow> carr" where
  "stored a p l = take p a @ l @ NUL # drop (p + length l + 1) a"

lemma stored_length [simp]: "p + length l < length a \<Longrightarrow> length (stored a p l) = length a"
  by (simp add: stored_def)

lemma stored_Cons: "p < length a \<Longrightarrow> stored (a[p := c]) (Suc p) l = stored a p (c # l)"
  by (simp add: stored_def take_Suc_conv_app_nth drop_update_cancel)

lemma stored_Nil: "p < length a \<Longrightarrow> stored a p [] = a[p := NUL]"
  by (simp add: stored_def upd_conv_take_nth_drop)

lemma read_chars_spec:
  assumes "p + len < length a" and "i \<le> len"
  shows "case take_line (len - i) inp of
      None \<Rightarrow> \<exists>a'. read_chars a p len i inp = Inr (- ENXIO, a', [])
    | Some (l, inp') \<Rightarrow> read_chars a p len i inp = Inr (int (i + length l), stored a (p + i) l, inp')"
  using assms
proof (induction a p len i inp rule: read_chars.induct)
  case (1 a p len i)
  then show ?case by (cases "len - i") (auto simp: wrc_def stored_Nil)
next
  case (2 a p len i c inp)
  show ?case
  proof (cases "i < len")
    case False
    then show ?thesis using 2(2,3) by (simp add: wrc_def stored_Nil)
  next
    case True
    then obtain m where m: "len - i = Suc m" "len - (i + 1) = m" by (metis Suc_diff_Suc Suc_eq_plus1)
    have w: "wrc a (p + i) c = Inr (a[p + i := c])" using 2(2) True by (simp add: wrc_def)
    show ?thesis
    proof (cases "c = newline")
      case nl: True
      have "Suc (p + i) < length a" using 2(2) True by simp
      then show ?thesis using nl w True m 2(2)
        by (simp add: wrc_def flip: stored_Nil stored_Cons)
    next
      case False
      have "p + i < length a" using 2(2) True by simp
      then show ?thesis
        using 2(1) [OF True w False] 2(2) True False w m
        by (auto simp: stored_Cons split: option.splits)
    qed
  qed
qed

lemma strip_end_spec:
  assumes "take (length s) a = s" and "length s < length a"
  shows "if strip_space s = [] then strip_end a (length s) = Inl (OOB_Read 0)
     else strip_end a (length s) = Inr (length (strip_space s) - 1,
       strip_space s @ replicate (length s - length (strip_space s)) NUL @ drop (length s) a)"
  using assms
proof (induction s arbitrary: a rule: rev_induct)
  case (snoc c s)
  have c: "a ! length s = c" "take (length s) a = s" "length s < length a"
    using snoc.prems by (simp_all add: take_Suc_conv_app_nth)
  show ?case
  proof (cases "isspace c")
    case False
    moreover have "c \<noteq> newline" using False by (auto simp: isspace_def)
    moreover have "a = s @ c # drop (Suc (length s)) a" using id_take_nth_drop [OF c(3)] c(1,2) by simp
    ultimately show ?thesis using c(1,3) by (simp add: rdc_def)
  next
    case True
    let ?a = "a[length s := NUL]"
    have a: "take (length s) ?a = s" "length s < length ?a" using c by simp_all
    have "drop (length s) ?a = NUL # drop (Suc (length s)) a"
      using c(3) by (metis Cons_nth_drop_Suc a(2) drop_update_cancel lessI nth_list_update_eq)
    moreover have "replicate k NUL @ NUL # xs = replicate (Suc k) NUL @ xs" for k xs
      by (simp add: replicate_app_Cons_same)
    moreover have "length (strip_space s) \<le> length s"
      using length_dropWhile_le [of isspace "rev s"] by (simp add: strip_space_def)
    ultimately show ?thesis
      using snoc.IH [OF a] True c by (auto simp: rdc_def wrc_def Suc_diff_le split: if_splits)
  qed
qed simp

lemma strip_space_length: "length (strip_space s) \<le> length s"
  using length_dropWhile_le [of isspace "rev s"] by (simp add: strip_space_def)

lemma strip_space_prefix: "strip_space s = take (length (strip_space s)) s"
proof (induction s rule: rev_induct)
  case (snoc c s)
  then show ?case using strip_space_length [of s] by auto
qed simp

lemma strip_space_set: "set (strip_space s) \<subseteq> set s"
  by (metis set_take_subset strip_space_prefix)

lemma strip_space_shorter: "s \<noteq> [] \<Longrightarrow> last s = newline \<Longrightarrow> length (strip_space s) < length s"
  using strip_space_length [of "butlast s"] by (cases s rule: rev_cases) (auto simp: isspace_def)

text \<open>The array of a line: its last byte is always an end.\<close>

definition line_ok :: "nat \<Rightarrow> carr \<Rightarrow> bool" where
  "line_ok n a \<longleftrightarrow> length a = Suc n \<and> a ! n = NUL"

lemma line_ok_cstring: "line_ok n a \<Longrightarrow> p \<le> n \<Longrightarrow> cstring a p"
  by (auto simp: line_ok_def cstring_def in_set_conv_nth intro!: exI [of _ "n - p"])

lemma stored_line:
  assumes "line_ok n a" and "take (length pre) a = pre" and "length pre + length l \<le> n"
  defines "b \<equiv> stored a (length pre) l"
  shows "line_ok n b" and "take (length pre) b = pre" and "cstr b 0 = takeWhile (\<lambda>c. c \<noteq> NUL) (pre @ l)"
proof -
  have b: "b = (pre @ l) @ NUL # drop (Suc (length (pre @ l))) a" using assms(2) by (simp add: b_def stored_def)
  have n: "n < length a" using assms(1) by (simp add: line_ok_def)
  show "line_ok n b"
    using assms(1,3) unfolding line_ok_def b
    by (cases "length (pre @ l) = n") (auto simp: nth_append)
  show "take (length pre) b = pre" by (simp add: b)
  show "cstr b 0 = takeWhile (\<lambda>c. c \<noteq> NUL) (pre @ l)"
    unfolding cstr_def b drop_0 by (rule takeWhile_tail) simp
qed

text \<open>The step after a line was read, and the array once its end is stripped.\<close>

lemma read_line_step:
  assumes "MyReadLine a k (int n - int k) inp = Inr (int len, b, inp1)" and "0 < len" and "cstring b 0" and "cstr b 0 = s"
  shows "read_line n k a inp = (if length s \<le> 1 then read_line n k b inp1
      else if last s \<noteq> newline then Inr (- 1, b, inp1) else
          bnd (strip_end b (length s)) (\<lambda>(len, a). bnd (rdc a len) (\<lambda>c.
          if c = backslash then read_line n len a inp1 else Inr (int len, a, inp1))))"
proof -
  have sl: "strlen b 0 = Inr (length s)" using assms(3,4) by (simp add: strlen_def cstring_def)
  have "rdc b (length s - 1) = Inr (last s)" if "\<not> length s \<le> 1"
  proof -
    have "length s - 1 < length s" "s \<noteq> []" using that by auto
    then show ?thesis
      using cstring_end(1,3) [OF assms(3)] assms(4) by (simp add: rdc_def last_conv_nth)
  qed
  then show ?thesis using assms(1,2) sl by (subst read_line.simps) simp
qed

lemma line_stripped:
  assumes "line_ok n b" and "cstr b 0 = s" and "last s = newline" and "s \<noteq> []" and "strip_space s = t" and "t \<noteq> []"
  shows "\<exists>a'. strip_end b (length s) = Inr (length t - 1, a') \<and> line_ok n a' \<and> cstr a' 0 = t
     \<and> rdc a' (length t - 1) = Inr (last t) \<and> take (length (butlast t)) a' = butlast t"
    and "NUL \<notin> set t" and "length t < n"
proof -
  have cb: "cstring b 0" using line_ok_cstring [OF assms(1)] by simp
  have sn: "length s < length b" "take (length s) b = s" "NUL \<notin> set s"
    using cstring_end(1,4) [OF cb] assms(2) takeWhile_eq_take [of "\<lambda>c. c \<noteq> NUL" b] by (simp_all add: cstr_def)
  define a' where "a' = t @ replicate (length s - length t) NUL @ drop (length s) b"
  have ts: "length t < length s" using strip_space_shorter [OF assms(4,3)] assms(5) by simp
  have st: "strip_end b (length s) = Inr (length t - 1, a')"
    using strip_end_spec [OF sn(2,1)] assms(5,6) by (simp add: a'_def)
  obtain k where k: "length s - length t = Suc k" using ts by (metis Suc_diff_Suc)
  have a': "a' = t @ NUL # replicate k NUL @ drop (length s) b" by (simp add: a'_def k)
  show nn: "NUL \<notin> set t" using strip_space_set [of s] sn(3) assms(5) by auto
  have "cstr a' 0 = t" unfolding cstr_def a' drop_0 using nn by (subst takeWhile_tail) auto
  moreover have "line_ok n a'" using assms(1) ts sn(1) unfolding line_ok_def a'_def by (auto simp: nth_append)
  moreover have "rdc a' (length t - 1) = Inr (last t)"
    using assms(6) by (simp add: rdc_def a' nth_append last_conv_nth)
  moreover have "take (length (butlast t)) a' = butlast t" by (simp add: a' butlast_conv_take)
  ultimately show "\<exists>a'. strip_end b (length s) = Inr (length t - 1, a') \<and> line_ok n a' \<and> cstr a' 0 = t
     \<and> rdc a' (length t - 1) = Inr (last t) \<and> take (length (butlast t)) a' = butlast t" using st by blast
  show "length t < n" using ts sn(1) assms(1) by (simp add: line_ok_def)
qed

text \<open>What a logical line says of the reader.\<close>

definition delivers :: "nat \<Rightarrow> logical \<Rightarrow> fault + (int \<times> carr \<times> string) \<Rightarrow> bool" where
  "delivers n ll r = (case ll of
      Line t inp' \<Rightarrow> t \<noteq> [] \<and> length t < n \<and> (\<exists>a'. r = Inr (int (length t - 1), a', inp') \<and> line_ok n a' \<and> cstr a' 0 = t)
    | Stop e inp' \<Rightarrow> e < 0 \<and> (\<exists>a'. r = Inr (e, a', inp'))
    | Blank \<Rightarrow> r = Inl (OOB_Read 0))"

lemma delivers_simps [simp]:
  "delivers n (Line t inp') r \<longleftrightarrow> t \<noteq> [] \<and> length t < n \<and> (\<exists>a'. r = Inr (int (length t - 1), a', inp') \<and> line_ok n a' \<and> cstr a' 0 = t)"
  "delivers n (Stop e inp') r \<longleftrightarrow> e < 0 \<and> (\<exists>a'. r = Inr (e, a', inp'))"
  "delivers n Blank r \<longleftrightarrow> r = Inl (OOB_Read 0)"
  by (simp_all add: delivers_def)

lemma read_line_delivers:
  assumes "line_ok n a" and "take (length pre) a = pre" and "NUL \<notin> set pre" and "length pre \<le> n"
  shows "delivers n (logical_line n pre inp) (read_line n (length pre) a inp)"
  using assms
proof (induction n pre inp arbitrary: a rule: logical_line.induct)
  case (1 n pre inp)
  note a = 1(3-6)
  let ?k = "length pre"
  note ll = logical_line.simps [of n pre inp]
  have len: "length a = Suc n" using a(1) by (simp add: line_ok_def)
  show ?case
  proof (cases "n \<le> ?k")
    case True
    then show ?thesis unfolding ll by (subst read_line.simps) (simp add: MyReadLine_def)
  next
    case False
    have my: "MyReadLine a ?k (int n - int ?k) inp = read_chars a ?k (n - ?k) 0 inp"
      using False by (simp add: MyReadLine_def nat_diff_distrib)
    have rc: "case take_line (n - ?k) inp of None \<Rightarrow> \<exists>a'. read_chars a ?k (n - ?k) 0 inp = Inr (- ENXIO, a', [])
      | Some (l, inp') \<Rightarrow> read_chars a ?k (n - ?k) 0 inp = Inr (int (length l), stored a ?k l, inp')"
      using read_chars_spec [of ?k "n - ?k" a 0 inp] len False by (simp split: option.splits prod.splits)
    show ?thesis
    proof (cases "take_line (n - ?k) inp")
      case None
      then show ?thesis using rc False unfolding ll by (subst read_line.simps) (auto simp: my)
    next
      case (Some li)
      obtain l inp1 where li: "li = (l, inp1)" by fastforce
      define b where "b = stored a ?k l"
      define s where "s = takeWhile (\<lambda>c. c \<noteq> NUL) (pre @ l)"
      have l: "?k + length l \<le> n" "0 < length l" using take_line_length Some li False by fastforce+
      note b = stored_line [OF a(1,2) l(1), folded b_def s_def]
      have cb: "cstring b 0" using line_ok_cstring [OF b(1)] by simp
      have "MyReadLine a ?k (int n - int ?k) inp = Inr (int (length l), b, inp1)"
        using rc Some li by (simp add: my b_def)
      note step = read_line_step [OF this l(2) cb b(3)]
      have lg: "logical_line n pre inp = (if length s \<le> 1 then logical_line n pre inp1
          else if last s \<noteq> newline then Stop (- 1) inp1
          else if strip_space s = [] then Blank
          else if last (strip_space s) = backslash then logical_line n (butlast (strip_space s)) inp1
          else Line (strip_space s) inp1)"
        unfolding ll using Some li False by (simp add: Let_def flip: s_def)
      consider "length s \<le> 1" | "1 < length s" "last s \<noteq> newline"
        | "1 < length s" "last s = newline" "strip_space s = []"
        | "1 < length s" "last s = newline" "strip_space s \<noteq> []" by linarith
      then show ?thesis
      proof cases
        case 1
        then show ?thesis
          using "1.IH"(1) [OF False Some li [symmetric] s_def 1 b(1,2) a(3,4)] unfolding lg step by simp
      next
        case 2
        then show ?thesis unfolding lg step by simp
      next
        case 3
        have "take (length s) b = s" "length s < length b"
          using cstring_end(1) [OF cb] b(3) takeWhile_eq_take [of "\<lambda>c. c \<noteq> NUL" b] by (simp_all add: cstr_def)
        then show ?thesis using 3 strip_end_spec [of s b] unfolding lg step by simp
      next
        case 4
        define t where "t = strip_space s"
        have ne: "s \<noteq> []" "\<not> length s \<le> 1" "t \<noteq> []" using 4 by (auto simp: t_def)
        obtain a' where a': "strip_end b (length s) = Inr (length t - 1, a')" "line_ok n a'" "cstr a' 0 = t"
          "rdc a' (length t - 1) = Inr (last t)" "take (length (butlast t)) a' = butlast t"
          using line_stripped(1) [OF b(1,3) 4(2) ne(1) t_def [symmetric] ne(3)] by blast
        note nn = line_stripped(2,3) [OF b(1,3) 4(2) ne(1) t_def [symmetric] ne(3)]
        have "NUL \<notin> set (butlast t)" "length (butlast t) \<le> n"
          using nn in_set_butlastD [of NUL t] by auto
        then have "delivers n (logical_line n (butlast t) inp1) (read_line n (length (butlast t)) a' inp1)"
          if "last t = backslash"
          using "1.IH"(2) [OF False Some li [symmetric] s_def ne(2) _ t_def ne(3) that a'(2,5)] 4(2) by simp
        then show ?thesis
          using a' 4(2) ne nn(2) unfolding lg step by (simp flip: t_def)
      qed
    qed
  qed
qed

section \<open>One line\<close>

lemma wrc_nul_ok: "line_ok n a \<Longrightarrow> q \<le> n \<Longrightarrow> wrc a q NUL = Inr (a[q := NUL]) \<and> line_ok n (a[q := NUL])"
  by (auto simp: wrc_def line_ok_def nth_list_update)

lemma rstrip_loop_ok: "rstrip_loop a s p = Inr a' \<Longrightarrow> line_ok n a \<Longrightarrow> line_ok n a'"
  by (induction a s p rule: rstrip_loop.induct)
    (auto simp: returns_iff wrc_def line_ok_def nth_list_update split: if_splits)

lemma rstrip_ok: "rstrip a s = Inr a' \<Longrightarrow> line_ok n a \<Longrightarrow> line_ok n a'"
  by (auto simp: rstrip_def returns_iff dest: rstrip_loop_ok)

lemma rstrip_line:
  assumes "line_ok n a" and "p \<le> n"
  shows "\<exists>a'. rstrip a p = Inr a' \<and> line_ok n a' \<and> cstr a' p = strip_right (cstr a p)"
  using rstrip_spec [OF line_ok_cstring [OF assms]] rstrip_ok [OF _ assms(1)] by blast

lemma cstr_end_le: "line_ok n a \<Longrightarrow> p \<le> n \<Longrightarrow> p + length (cstr a p) \<le> n"
  using cstring_end(1) [OF line_ok_cstring, of n a p] by (simp add: line_ok_def)

lemma find_chars_line:
  assumes "line_ok n a" and "p \<le> n"
  shows "find_chars_or_comment a p chars = Inr (p + length (takeWhile (\<lambda>c. c \<notin> set chars) (cstr a p)))"
    and "p + length (takeWhile (\<lambda>c. c \<notin> set chars) (cstr a p)) \<le> p + length (cstr a p)"
  using find_chars_spec [OF line_ok_cstring [OF assms]] by (simp_all add: length_takeWhile_le)

lemma rdc_line: "line_ok n a \<Longrightarrow> p \<le> n \<Longrightarrow> rdc a p = Inr (a ! p)"
  by (simp add: rdc_def line_ok_def)

lemma line_char: "line_ok n a \<Longrightarrow> p \<le> n \<Longrightarrow> k \<le> length (cstr a p) \<Longrightarrow> a ! (p + k) = (cstr a p @ [NUL]) ! k"
  using cstr_nth [OF line_ok_cstring] by blast

lemma stop_char:
  "(s @ [NUL]) ! length (takeWhile P s) = (if length (takeWhile P s) < length s then s ! length (takeWhile P s) else NUL)"
  using length_takeWhile_le [of P s] by (auto simp: nth_append)

lemma find_stops:
  assumes "line_ok n a" and "p \<le> n"
  shows "\<exists>e. find_chars_or_comment a p chars = Inr e \<and> e \<le> p + length (cstr a p) \<and> strchr chars (a ! e)
     \<and> (a ! e = NUL \<longleftrightarrow> set (cstr a p) \<inter> set chars = {})"
proof -
  let ?s = "cstr a p"
  let ?k = "length (takeWhile (\<lambda>c. c \<notin> set chars) ?s)"
  have k: "?k \<le> length ?s" by (rule length_takeWhile_le)
  have c: "a ! (p + ?k) = (if ?k < length ?s then ?s ! ?k else NUL)"
    using line_char [OF assms k] by (simp add: stop_char)
  have nn: "NUL \<notin> set ?s" using cstring_end(4) [OF line_ok_cstring [OF assms]] .
  have "strchr chars (a ! (p + ?k)) \<and> (a ! (p + ?k) = NUL \<longleftrightarrow> set ?s \<inter> set chars = {})"
  proof (cases "?k < length ?s")
    case True
    then have "?s ! ?k \<in> set chars" "?s ! ?k \<in> set ?s"
      using nth_length_takeWhile [of "\<lambda>c. c \<notin> set chars" ?s] by simp_all
    moreover from this have "?s ! ?k \<noteq> NUL" "set ?s \<inter> set chars \<noteq> {}" using nn by metis (use calculation in blast)
    ultimately show ?thesis using c True by (auto simp: strchr_def)
  next
    case False
    then have "takeWhile (\<lambda>c. c \<notin> set chars) ?s = ?s" using k by (metis le_antisym not_le takeWhile_eq_take take_all_iff)
    then have "set ?s \<inter> set chars = {}" by (auto simp: takeWhile_eq_all_conv)
    then show ?thesis using c False by (simp add: strchr_def)
  qed
  then show ?thesis using find_chars_line [OF assms, of chars] by auto
qed

text \<open>The text of a line without the white space around it, and what it starts with.\<close>

definition line_text :: "string \<Rightarrow> string" where
  "line_text t = dropWhile trimmed (strip_right t)"

definition first_char :: "string \<Rightarrow> char" where
  "first_char s = (case s of [] \<Rightarrow> NUL | c # _ \<Rightarrow> c)"

definition text_start :: "string \<Rightarrow> nat" where
  "text_start t = length (takeWhile trimmed (strip_right t))"

text \<open>What is done with a line that starts with \<open>c\<close> at \<open>p\<close>.\<close>

definition dispatch :: "bool \<Rightarrow> char \<Rightarrow> nat \<Rightarrow> inf_state \<Rightarrow> fault + (inf_step \<times> inf_state)" where
  "dispatch flag c p st =
     (if strchr '';#'' c then Inr (Next, st)
      else if c = CHR ''['' then section_line flag p st
      else if sectionInfo st \<noteq> QTIDEV_INF_UNKNOWN \<and> Filevalid st then entry_line flag p st
      else Inr (Next, st))"

lemma process_line_cases:
  assumes "line_ok n a" and "cstr a 0 = t"
  shows "\<exists>a'. line_ok n a' \<and> cstr a' (text_start t) = line_text t \<and> text_start t + length (line_text t) \<le> length t
     \<and> (\<forall>flag st. line_buf st = a \<longrightarrow>
          process_line flag st = dispatch flag (first_char (line_text t)) (text_start t) (st\<lparr>line_buf := a'\<rparr>))"
proof -
  obtain a' where a': "rstrip a 0 = Inr a'" "line_ok n a'" "cstr a' 0 = strip_right t"
    using rstrip_line [OF assms(1), of 0] assms(2) by auto
  let ?p = "text_start t" and ?s = "strip_right t"
  have sp: "takeWhile trimmed ?s @ line_text t = ?s" by (simp add: line_text_def)
  have c0: "cstring a' 0" using line_ok_cstring [OF a'(2)] by simp
  have ls: "lskip a' 0 = Inr ?p" using lskip_spec [OF c0] by (simp add: a'(3) text_start_def)
  have ple: "?p \<le> length ?s" unfolding text_start_def by (rule length_takeWhile_le)
  have cp: "cstr a' ?p = line_text t" "cstring a' ?p"
    using cstr_drop [OF c0, of ?p] ple by (simp_all add: a'(3) text_start_def line_text_def dropWhile_eq_drop)
  have len: "?p + length (line_text t) \<le> length t"
  proof -
    have "?p + length (line_text t) = length ?s" by (metis length_append sp text_start_def)
    moreover have "length ?s \<le> length t" by (metis length_rev length_dropWhile_le strip_right_def)
    ultimately show ?thesis by simp
  qed
  have "rdc a' ?p = Inr (first_char (line_text t))"
    using cstr_unfold [of ?p a'] cstring_end(1) [OF cp(2)] cp(1)
    by (auto simp: rdc_def first_char_def split: list.split if_splits)
  then have "\<forall>flag st. line_buf st = a \<longrightarrow>
      process_line flag st = dispatch flag (first_char (line_text t)) ?p (st\<lparr>line_buf := a'\<rparr>)"
    using a'(1) ls by (simp add: process_line_def dispatch_def Let_def)
  then show ?thesis using a'(2) cp(1) len by blast
qed

text \<open>An entry line comes down to its handler, on the same array in both passes.\<close>

lemma entry_line_handles:
  assumes "line_ok n a" and "p + length (cstr a p) < n"
  shows "\<exists>a' v. line_ok n a' \<and> v \<le> n
     \<and> (\<forall>flag st. line_buf st = a \<longrightarrow> entry_line flag p st = handle_entry flag p v (st\<lparr>line_buf := a'\<rparr>))"
proof -
  have p: "p \<le> n" using assms(2) by simp
  obtain e where e: "find_chars_or_comment a p '':='' = Inr e" "e < n" "strchr '':='' (a ! e)"
    using find_stops [OF assms(1) p, of "'':=''"] assms(2) by auto
  obtain a1 where a1: "wrc a e NUL = Inr a1" "line_ok n a1" using wrc_nul_ok [OF assms(1), of e] e(2) by auto
  obtain a2 where a2: "rstrip a1 p = Inr a2" "line_ok n a2" using rstrip_line [OF a1(2) p] by blast
  define v where "v = e + 1"
  have v: "v \<le> n" and sv: "Suc e = v" using e(2) by (simp_all add: v_def)
  obtain f where f: "find_chars_or_comment a2 v '';#'' = Inr f" "f \<le> n"
    using find_stops [OF a2(2) v, of "'';#''"] cstr_end_le [OF a2(2) v] by auto
  obtain a3 where a3: "(if a2 ! f \<noteq> NUL then wrc a2 f NUL else Inr a2) = Inr a3" "line_ok n a3"
    using wrc_nul_ok [OF a2(2) f(2)] a2(2) by (cases "a2 ! f = NUL") auto
  obtain v' where l: "lskip a3 v = Inr v'" "v' \<le> n"
    using lskip_spec [OF line_ok_cstring [OF a3(2) v]] cstr_end_le [OF a3(2) v]
      length_takeWhile_le [of trimmed "cstr a3 v"] by fastforce
  obtain a4 where a4: "rstrip a3 v' = Inr a4" "line_ok n a4" using rstrip_line [OF a3(2) l(2)] by blast
  have r: "rdc a e = Inr (a ! e)" "rdc a2 f = Inr (a2 ! f)"
    using rdc_line [OF assms(1)] rdc_line [OF a2(2) f(2)] e(2) by simp_all
  have "entry_line flag p st = handle_entry flag p v' (st\<lparr>line_buf := a4\<rparr>)" if "line_buf st = a" for flag st
    unfolding entry_line_def Let_def that e(1) bnd_simps r(1)
    using e(3) a1(1) a2(1) f(1) r(2) a3(1) l(1) a4(1) sv by simp
  then show ?thesis using a4(2) l(2) by blast
qed

text \<open>A section line.\<close>

definition section_name :: "string \<Rightarrow> string" where
  "section_name s = strncpy0 (takeWhile (\<lambda>c. c \<noteq> CHR '']'') s) 64"

lemma section_line_cases:
  assumes "line_ok n a" and "cstr a p = CHR ''['' # s" and "p < n"
  shows "\<exists>a'. line_ok n a' \<and> (\<forall>flag st. line_buf st = a \<longrightarrow> section_line flag p st =
     (if \<not> flag \<and> sectionInfo st = QTIDEV_INF_DEVICE_INFO then Inr (Break, st)
      else if CHR '']'' \<notin> set s then Inr (Return (- 1), st\<lparr>sectionInfo := QTIDEV_INF_UNKNOWN\<rparr>)
      else let k = section_of (section_name s) (inf_mfg st) in
        Inr (Next, st\<lparr>line_buf := a', sectionInfo := k,
            inf_mfg := (if k = QTIDEV_INF_DEVICE_INFO then [] else inf_mfg st),
            Filevalid := (Filevalid st \<or> k = QTIDEV_INF_VERSION)\<rparr>)))"
proof -
  define q where "q = p + 1"
  have q: "q \<le> n" and sq: "Suc p = q" using assms(3) by (simp_all add: q_def)
  have s: "cstr a q = s" using cstr_drop [OF line_ok_cstring [OF assms(1)], of p 1] assms(2,3) by (simp add: q_def)
  have cq: "cstring a q" using line_ok_cstring [OF assms(1) q] .
  let ?t = "takeWhile (\<lambda>c. c \<noteq> CHR '']'') s"
  have P: "(\<lambda>c. c \<notin> set '']'') = (\<lambda>c. c \<noteq> CHR '']'')" by auto
  define e where "e = q + length ?t"
  have tl: "length ?t \<le> length (cstr a q)" "take (length ?t) s = ?t" by (simp_all add: s length_takeWhile_le flip: takeWhile_eq_take)
  have f: "find_chars_or_comment a q '']'' = Inr e" using find_chars_spec [OF cq, of "'']''"] unfolding P s e_def .
  have "e \<le> n" using tl(1) cstr_end_le [OF assms(1) q] by (simp add: e_def)
  then have e: "find_chars_or_comment a q '']'' = Inr e" "e \<le> n" "a ! e = CHR '']'' \<longleftrightarrow> CHR '']'' \<in> set s"
    using f find_stops [OF assms(1) q, of "'']''"] by (fastforce simp: s strchr_def)+
  have c: "rdc a e = Inr (a ! e)" using rdc_line [OF assms(1) e(2)] .
  let ?a = "a[e := NUL]"
  have w: "wrc a e NUL = Inr ?a" "line_ok n ?a" using wrc_nul_ok [OF assms(1) e(2)] by blast+
  have "cstr ?a q = ?t" using cstr_cut [OF cq tl(1)] tl(2) by (simp add: e_def s)
  then show ?thesis
    by (intro exI [of _ ?a]) (use w e(1,3) c sq in \<open>auto simp: section_line_def section_name_def Let_def\<close>)
qed

section \<open>The handlers stay in the line\<close>

lemma strsep_line:
  assumes "line_ok n a" and "p \<le> n"
  shows "\<exists>d a'. strsep a (Some p) delim = Inr (Some p, d, a') \<and> line_ok n a' \<and> (\<forall>q. d = Some q \<longrightarrow> q \<le> n)"
proof -
  obtain e where e: "find_chars_or_comment a p delim = Inr e" "e \<le> n"
    using find_stops [OF assms, of delim] cstr_end_le [OF assms] by fastforce
  have "e < n" if "a ! e \<noteq> NUL" using that assms(1) e(2) by (metis le_neq_implies_less line_ok_def)
  then show ?thesis
    using e assms(1) rdc_line [OF assms(1) e(2)] wrc_nul_ok [OF assms(1) e(2)]
    by (cases "a ! e = NUL") (auto simp: strsep_def)
qed

lemma mfg_loop_ok:
  assumes "line_ok n a" and "\<forall>p. data = Some p \<longrightarrow> p \<le> n"
  shows "\<exists>m a' ks'. mfg_loop a data model mfgInfo ks = Inr (m, a', ks') \<and> line_ok n a' \<and> (ks = [] \<longrightarrow> ks' = [])"
  using assms
proof (induction a data model mfgInfo ks rule: mfg_loop.induct)
  case (1 a data model mfgInfo ks)
  show ?case
  proof (cases data)
    case None
    then show ?thesis using 1(2) by (subst mfg_loop.simps) (simp add: strsep_def)
  next
    case (Some p)
    obtain d a1 where s: "strsep a data '','' = Inr (Some p, d, a1)" "line_ok n a1" "\<forall>q. d = Some q \<longrightarrow> q \<le> n"
      using strsep_line [OF 1(2), of p "'',''"] 1(3) Some by auto
    have p: "p \<le> n" using 1(3) Some by simp
    obtain a2 where r: "rstrip a1 p = Inr a2" "line_ok n a2" using rstrip_line [OF s(2) p] by blast
    obtain q where l: "lskip a2 p = Inr q" using lskip_spec [OF line_ok_cstring [OF r(2) p]] by blast
    show ?thesis
    proof (cases "ks \<noteq> [] \<and> \<not> hd ks")
      case True
      then show ?thesis using s(1,2) by (subst mfg_loop.simps) simp
    next
      case False
      then show ?thesis
        using s r l 1(1) [OF s(1) refl refl refl False r(1) l refl refl r(2) s(3)]
        by (subst mfg_loop.simps, cases "mfgInfo = []") (auto simp: Let_def)
    qed
  qed
qed

lemma skip_to_digit_ok:
  assumes "cstring a p"
  shows "\<exists>q. skip_to_digit a p = Inr q \<and> q \<le> p + length (cstr a p)"
  using assms
proof (induction rule: cstr_induct)
  case (Nul p)
  then show ?case by (subst skip_to_digit.simps) (simp add: rdc_def)
next
  case (Char p)
  then show ?case by (subst skip_to_digit.simps) (auto simp: rdc_def)
qed

lemma vid_loop_ok:
  assumes "line_ok n a" and "\<forall>p. data = Some p \<longrightarrow> p \<le> n"
  shows "\<exists>ids' a'. vid_loop a data idx ids = Inr (ids', a') \<and> line_ok n a'"
  using assms
proof (induction a data idx ids rule: vid_loop.induct)
  case (1 a data idx ids)
  show ?case
  proof (cases data)
    case None
    then show ?thesis using 1(2) by (subst vid_loop.simps) (simp add: strsep_def)
  next
    case (Some p)
    obtain d a1 where s: "strsep a data ''_'' = Inr (Some p, d, a1)" "line_ok n a1" "\<forall>q. d = Some q \<longrightarrow> q \<le> n"
      using strsep_line [OF 1(2), of p "''_''"] 1(3) Some by auto
    then show ?thesis
      using 1(1) [OF s(1) refl refl _ _ s(2,3)] by (subst vid_loop.simps) (auto split: option.split)
  qed
qed

text \<open>The table of devices: as many entries as were allocated, not more in use.\<close>

definition table_ok :: "fileInfo_t \<Rightarrow> bool" where
  "table_ok f \<longleftrightarrow> length (mDevInfo f) = mLength f \<and> mNumResp f \<le> mLength f"

lemma updateDeviceInfo_ok:
  assumes "line_ok n a" and "v \<le> n" and "table_ok f" and "mNumResp f < mLength f"
  shows "\<exists>f' a'. updateDeviceInfo a key v f = Inr (f', a') \<and> line_ok n a'
     \<and> mNumResp f' = mNumResp f + 1 \<and> mLength f' = mLength f \<and> length (mDevInfo f') = length (mDevInfo f)"
proof -
  obtain d a1 where s: "strsep a (Some v) '','' = Inr (Some v, d, a1)" "line_ok n a1" "\<forall>q. d = Some q \<longrightarrow> q \<le> n"
    using strsep_line [OF assms(1,2)] by blast
  have n: "\<not> mNumResp f > mLength f" "\<not> mNumResp f \<ge> length (mDevInfo f)" using assms(3,4) by (simp_all add: table_ok_def)
  show ?thesis
  proof (cases d)
    case None
    obtain ids a2 where "vid_loop a1 (Some v) 0 (mVid_pid_iface (mDevInfo f ! mNumResp f)) = Inr (ids, a2)" "line_ok n a2"
      using vid_loop_ok [OF s(2), of "Some v"] assms(2) by blast
    then show ?thesis using n s(1) None by (simp add: updateDeviceInfo_def Let_def)
  next
    case (Some q)
    obtain t where t: "skip_to_digit a1 v = Inr t" "t \<le> n"
      using skip_to_digit_ok [OF line_ok_cstring [OF s(2) assms(2)]] cstr_end_le [OF s(2) assms(2)] by fastforce
    obtain ids a2 where "vid_loop a1 (Some q) 0 (mVid_pid_iface (mDevInfo f ! mNumResp f)) = Inr (ids, a2)" "line_ok n a2"
      using vid_loop_ok [OF s(2), of "Some q"] s(3) Some by blast
    then show ?thesis using n s(1) Some t rdc_line [OF s(2) t(2)] by (simp add: updateDeviceInfo_def Let_def)
  qed
qed

lemma find_entry_faults:
  "find_entry devs key n idx = Inl x \<Longrightarrow> idx \<le> length devs \<Longrightarrow> x = OOB_Read (length devs)"
proof (induction devs key n idx rule: find_entry.induct)
  case (1 devs key n idx)
  from 1(2) show ?case
    by (subst (asm) find_entry.simps) (use 1(1,3) in \<open>auto split: if_splits\<close>)
qed

lemma updateDevStringInfo_table:
  "updateDevStringInfo key val f = Inr f' \<Longrightarrow> mNumResp f' = mNumResp f \<and> mLength f' = mLength f
     \<and> length (mDevInfo f') = length (mDevInfo f)"
  "updateDevStringInfo key val f = Inl x \<Longrightarrow> x = OOB_Read (length (mDevInfo f))"
  by (auto simp: updateDevStringInfo_def returns_iff bnd_Inl_iff Let_def dest: find_entry_faults)

lemma updateVersion_table [simp]:
  "mNumResp (updateVersion k v f) = mNumResp f" "mLength (updateVersion k v f) = mLength f"
  "mDevInfo (updateVersion k v f) = mDevInfo f"
  by (simp_all add: updateVersion_def)

text \<open>
  What one handler leaves alone: the file and the section, and in the pass that counts the table, in the pass
  that stores its size.
\<close>

lemma handle_entry_ok:
  assumes "line_ok n (line_buf st)" and "v \<le> n" and "flag \<longrightarrow> table_ok (inf_info st)"
  shows "case handle_entry flag name v st of
      Inr (s, st') \<Rightarrow> s = Next \<and> line_ok n (line_buf st') \<and> inf_file st' = inf_file st
        \<and> sectionInfo st' = sectionInfo st \<and> Filevalid st' = Filevalid st
        \<and> mLength (inf_info st') = mLength (inf_info st) \<and> (flag \<longrightarrow> table_ok (inf_info st'))
        \<and> mNumResp (inf_info st') = mNumResp (inf_info st)
            + (if flag \<and> sectionInfo st = QTIDEV_INF_DEVICE_INFO \<and> mNumResp (inf_info st) < mLength (inf_info st)
               then 1 else 0)
        \<and> inf_count st' = inf_count st + (if \<not> flag \<and> sectionInfo st = QTIDEV_INF_DEVICE_INFO then 1 else 0)
        \<and> (inf_kmem st = [] \<longrightarrow> inf_kmem st' = [])
    | Inl x \<Rightarrow> flag \<and> x = OOB_Read (mLength (inf_info st))"
proof (cases "sectionInfo st")
  case QTIDEV_INF_MANUFACTURER
  obtain m where m: "strlen (line_buf st) v = Inr m"
    using line_ok_cstring [OF assms(1,2)] by (simp add: strlen_def cstring_def)
  have "\<exists>r a' ks'. updateManufacturer (line_buf st) v m (inf_mfg st) (inf_kmem st) = Inr (r, a', ks')
      \<and> line_ok n a' \<and> (inf_kmem st = [] \<longrightarrow> ks' = [])"
    using mfg_loop_ok [OF assms(1), of "Some v"] assms(1,2) by (simp add: updateManufacturer_def)
  then show ?thesis using QTIDEV_INF_MANUFACTURER m assms(3) by (auto simp: handle_entry_def Let_def)
next
  case QTIDEV_INF_DEVICE_INFO
  show ?thesis
  proof (cases "flag \<and> mNumResp (inf_info st) < mLength (inf_info st)")
    case True
    then obtain f' a' where "updateDeviceInfo (line_buf st) name v (inf_info st) = Inr (f', a')" "line_ok n a'"
     "mNumResp f' = mNumResp (inf_info st) + 1" "mLength f' = mLength (inf_info st)"
     "length (mDevInfo f') = length (mDevInfo (inf_info st))"
      using updateDeviceInfo_ok [OF assms(1,2)] assms(3) by blast
    then show ?thesis using True QTIDEV_INF_DEVICE_INFO assms(3)
      by (simp add: handle_entry_def Let_def table_ok_def)
  next
    case False
    then show ?thesis using QTIDEV_INF_DEVICE_INFO assms by (cases flag) (auto simp: handle_entry_def Let_def)
  qed
next
  case QTIDEV_INF_STRING
  show ?thesis
  proof (cases flag)
    case True
    show ?thesis
    proof (cases "updateDevStringInfo (cstr (line_buf st) name) (cstr (line_buf st) v) (inf_info st)")
      case (Inl x)
      then show ?thesis using updateDevStringInfo_table(2) [OF Inl] True QTIDEV_INF_STRING assms(3)
        by (simp add: handle_entry_def Let_def table_ok_def)
    next
      case (Inr f')
      then show ?thesis using updateDevStringInfo_table(1) [OF Inr] True QTIDEV_INF_STRING assms(1,3)
        by (simp add: handle_entry_def Let_def table_ok_def)
    qed
  qed (use QTIDEV_INF_STRING assms(1) in \<open>simp add: handle_entry_def Let_def\<close>)
qed (use assms in \<open>auto simp: handle_entry_def Let_def table_ok_def\<close>)

section \<open>The whole file\<close>

text \<open>The progress of a pass: from \<open>st\<close> to \<open>st'\<close> with the file consumed and the counters moved by at most one.\<close>

definition pass_step :: "nat \<Rightarrow> bool \<Rightarrow> inf_state \<Rightarrow> inf_state \<Rightarrow> bool" where
  "pass_step n flag st st' \<longleftrightarrow> line_ok n (line_buf st') \<and> inf_file st' = inf_file st
     \<and> (flag \<longrightarrow> table_ok (inf_info st')) \<and> mLength (inf_info st') = mLength (inf_info st)
     \<and> mNumResp (inf_info st) \<le> mNumResp (inf_info st')
     \<and> inf_count st \<le> inf_count st' \<and> inf_count st' \<le> inf_count st + 1 \<and> (inf_kmem st = [] \<longrightarrow> inf_kmem st' = [])"

lemma process_line_ok:
  assumes "line_ok n (line_buf st)" and "length (cstr (line_buf st) 0) < n" and "flag \<longrightarrow> table_ok (inf_info st)"
  shows "case process_line flag st of Inl x \<Rightarrow> flag \<and> x = OOB_Read (mLength (inf_info st))
    | Inr (s, st') \<Rightarrow> pass_step n flag st st' \<and> (\<forall>r. s = Return r \<longrightarrow> r = - 1)"
proof -
  define t where "t = cstr (line_buf st) 0"
  obtain a where a: "line_ok n a" "cstr a (text_start t) = line_text t"
    "text_start t + length (line_text t) \<le> length t"
    and eq: "process_line flag st = dispatch flag (first_char (line_text t)) (text_start t) (st\<lparr>line_buf := a\<rparr>)"
    using process_line_cases [OF assms(1) t_def [symmetric]] by blast
  note eq = eq [unfolded dispatch_def]
  have p: "text_start t + length (cstr a (text_start t)) < n" using a(2,3) assms(2) by (simp add: t_def)
  consider "strchr '';#'' (first_char (line_text t))"
    | s where "\<not> strchr '';#'' (first_char (line_text t))" "line_text t = CHR ''['' # s"
    | "\<not> strchr '';#'' (first_char (line_text t))" "first_char (line_text t) \<noteq> CHR ''[''"
    by (cases "line_text t") (auto simp: first_char_def)
  then show ?thesis
  proof cases
    case 1
    then show ?thesis using a(1) assms(3) by (simp add: eq pass_step_def)
  next
    case (2 s)
    obtain a' where "line_ok n a'"
      and sec: "\<And>flag st. line_buf st = a \<Longrightarrow> section_line flag (text_start t) st =
     (if \<not> flag \<and> sectionInfo st = QTIDEV_INF_DEVICE_INFO then Inr (Break, st)
      else if CHR '']'' \<notin> set s then Inr (Return (- 1), st\<lparr>sectionInfo := QTIDEV_INF_UNKNOWN\<rparr>)
      else let k = section_of (section_name s) (inf_mfg st) in
        Inr (Next, st\<lparr>line_buf := a', sectionInfo := k,
            inf_mfg := (if k = QTIDEV_INF_DEVICE_INFO then [] else inf_mfg st),
            Filevalid := (Filevalid st \<or> k = QTIDEV_INF_VERSION)\<rparr>))"
      using section_line_cases [OF a(1), of "text_start t" s] a(2) p 2(2) by auto
    then show ?thesis using 2 a(1) assms(3) sec [of "st\<lparr>line_buf := a\<rparr>"]
      by (auto simp: eq pass_step_def Let_def first_char_def)
  next
    case 3
    obtain a' v where e: "line_ok n a'" "v \<le> n"
      "\<And>flag st. line_buf st = a \<Longrightarrow> entry_line flag (text_start t) st
         = handle_entry flag (text_start t) v (st\<lparr>line_buf := a'\<rparr>)"
      using entry_line_handles [OF a(1) p] by blast
    have h: "case handle_entry flag (text_start t) v (st\<lparr>line_buf := a'\<rparr>) of
        Inl x \<Rightarrow> flag \<and> x = OOB_Read (mLength (inf_info st))
      | Inr (s, st') \<Rightarrow> s = Next \<and> pass_step n flag st st'"
      using handle_entry_ok [of n "st\<lparr>line_buf := a'\<rparr>" v flag "text_start t"] e(1,2) assms(3)
      by (auto simp: pass_step_def split: sum.splits prod.splits)
    have n: "pass_step n flag st (st\<lparr>line_buf := a\<rparr>)" using a(1) assms(3) by (simp add: pass_step_def)
    show ?thesis
      using 3 n h e(3) [of "st\<lparr>line_buf := a\<rparr>"]
      by (cases "sectionInfo st \<noteq> QTIDEV_INF_UNKNOWN \<and> Filevalid st") (auto simp: eq split: sum.splits prod.splits)
  qed
qed

text \<open>What a pass over a file can end with.\<close>

definition pass_ends :: "bool \<Rightarrow> inf_state \<Rightarrow> fault + (int \<times> inf_state) \<Rightarrow> bool" where
  "pass_ends flag st r = (case r of
      Inl x \<Rightarrow> x = OOB_Read 0 \<or> flag \<and> x = OOB_Read (mLength (inf_info st))
    | Inr (r, st') \<Rightarrow> (r = - 1 \<or> r = as_int (int (inf_count st')))
        \<and> (flag \<longrightarrow> table_ok (inf_info st')) \<and> mLength (inf_info st') = mLength (inf_info st)
        \<and> mNumResp (inf_info st) \<le> mNumResp (inf_info st') \<and> inf_count st \<le> inf_count st'
        \<and> inf_count st' \<le> inf_count st + length (inf_file st) \<and> (inf_kmem st = [] \<longrightarrow> inf_kmem st' = []))"

lemma process_lines_ends:
  assumes "line_ok QTIDEV_INF_MAX_LINE_SIZE (line_buf st)" and "flag \<longrightarrow> table_ok (inf_info st)"
  shows "pass_ends flag st (process_lines flag st)"
  using assms
proof (induction flag st rule: process_lines.induct)
  case (1 flag st)
  note d = read_line_delivers [OF 1(2), of "[]" "inf_file st", simplified]
  show ?case
  proof (cases "logical_line QTIDEV_INF_MAX_LINE_SIZE [] (inf_file st)")
    case Blank
    then show ?thesis using d by (subst process_lines.simps) (simp add: pass_ends_def)
  next
    case (Stop e inp)
    then show ?thesis using d 1(3) by (subst process_lines.simps) (auto simp: pass_ends_def Let_def)
  next
    case (Line t inp)
    then obtain a where r: "read_line QTIDEV_INF_MAX_LINE_SIZE 0 (line_buf st) (inf_file st) = Inr (int (length t - 1), a, inp)"
      and a: "line_ok QTIDEV_INF_MAX_LINE_SIZE a" "cstr a 0 = t" "length t < QTIDEV_INF_MAX_LINE_SIZE"
      using d by auto
    have shorter: "length inp < length (inf_file st)" using read_line_shorter [OF r] by simp
    let ?st = "st\<lparr>line_buf := a, inf_file := inp\<rparr>"
    have ok: "case process_line flag ?st of Inl x \<Rightarrow> flag \<and> x = OOB_Read (mLength (inf_info ?st))
      | Inr (s, st') \<Rightarrow> pass_step QTIDEV_INF_MAX_LINE_SIZE flag ?st st' \<and> (\<forall>r. s = Return r \<longrightarrow> r = - 1)"
      using process_line_ok [of QTIDEV_INF_MAX_LINE_SIZE ?st flag] a 1(3) by simp
    have unf: "process_lines flag st = bnd (process_line flag ?st) (\<lambda>(s, st). case s of Next \<Rightarrow> process_lines flag st
        | Break \<Rightarrow> Inr (as_int (int (inf_count st)), st) | Return r \<Rightarrow> Inr (r, st))"
      by (subst process_lines.simps) (simp add: r Let_def)
    show ?thesis
    proof (cases "process_line flag ?st")
      case (Inl x)
      then show ?thesis using ok unfolding unf Inl by (simp add: pass_ends_def)
    next
      case (Inr y)
      obtain s st' where y: "y = (s, st')" by fastforce
      have st': "pass_step QTIDEV_INF_MAX_LINE_SIZE flag ?st st'" "\<forall>r. s = Return r \<longrightarrow> r = - 1" using ok Inr y by simp_all
      have IH: "s = Next \<Longrightarrow> pass_ends flag st' (process_lines flag st')"
        using 1(1) [OF r refl refl refl _ Inr y [symmetric]] st' by (simp add: pass_step_def)
      show ?thesis
        using IH st' shorter
        by (cases s) (auto simp: unf Inr y pass_ends_def pass_step_def split: sum.splits)
    qed
  qed
qed


text \<open>
  The two passes side by side: before the devices their arrays are the same, too; among the devices the
  pass that stores cuts up its values, on which the counting does not depend.
\<close>

definition same_pass :: "inf_state \<Rightarrow> inf_state \<Rightarrow> bool" where
  "same_pass st0 st1 \<longleftrightarrow> line_ok QTIDEV_INF_MAX_LINE_SIZE (line_buf st0) \<and> line_ok QTIDEV_INF_MAX_LINE_SIZE (line_buf st1)
     \<and> inf_file st1 = inf_file st0 \<and> sectionInfo st1 = sectionInfo st0 \<and> inf_mfg st1 = inf_mfg st0
     \<and> Filevalid st1 = Filevalid st0 \<and> inf_kmem st1 = inf_kmem st0
     \<and> inf_count st0 = mNumResp (inf_info st1) \<and> table_ok (inf_info st1)
     \<and> (sectionInfo st0 = QTIDEV_INF_DEVICE_INFO \<or> line_buf st1 = line_buf st0)"

lemma same_entry_elsewhere:
  assumes "same_pass st0 st1" and "sectionInfo st0 \<noteq> QTIDEV_INF_DEVICE_INFO" and "v \<le> QTIDEV_INF_MAX_LINE_SIZE"
    and "handle_entry False p v st0 = Inr (s, st0')" and "handle_entry True p v st1 = Inr (s1, st1')"
  shows "s = Next \<and> s1 = Next \<and> same_pass st0' st1'"
proof -
  note st = assms(1) [unfolded same_pass_def]
  have ok: "case handle_entry True p v st1 of
      Inr (s, st') \<Rightarrow> s = Next \<and> line_ok QTIDEV_INF_MAX_LINE_SIZE (line_buf st') \<and> inf_file st' = inf_file st1
        \<and> sectionInfo st' = sectionInfo st1 \<and> Filevalid st' = Filevalid st1
        \<and> mLength (inf_info st') = mLength (inf_info st1) \<and> (True \<longrightarrow> table_ok (inf_info st'))
        \<and> mNumResp (inf_info st') = mNumResp (inf_info st1)
            + (if True \<and> sectionInfo st1 = QTIDEV_INF_DEVICE_INFO \<and> mNumResp (inf_info st1) < mLength (inf_info st1)
               then 1 else 0)
        \<and> inf_count st' = inf_count st1 + (if \<not> True \<and> sectionInfo st1 = QTIDEV_INF_DEVICE_INFO then 1 else 0)
        \<and> (inf_kmem st1 = [] \<longrightarrow> inf_kmem st' = [])
    | Inl x \<Rightarrow> True \<and> x = OOB_Read (mLength (inf_info st1))"
    by (rule handle_entry_ok) (use st assms(3) in auto)
  show ?thesis
    using st assms(2,4,5) ok unfolding same_pass_def
    by (cases "sectionInfo st0") (auto simp: handle_entry_def Let_def returns_iff)
qed


lemma same_entry_among_devices:
  assumes "same_pass st0 st1" and "sectionInfo st0 = QTIDEV_INF_DEVICE_INFO" and "v \<le> QTIDEV_INF_MAX_LINE_SIZE"
    and "v' \<le> QTIDEV_INF_MAX_LINE_SIZE"
    and "handle_entry False p v st0 = Inr (s, st0')" and "handle_entry True p' v' st1 = Inr (s1, st1')"
    and "inf_count st0' \<le> mLength (inf_info st1)"
  shows "s = Next \<and> s1 = Next \<and> same_pass st0' st1'"
proof -
  note st = assms(1) [unfolded same_pass_def]
  have c: "s = Next" "st0' = st0\<lparr>inf_count := inf_count st0 + 1\<rparr>"
    using assms(2,5) by (auto simp: handle_entry_def Let_def)
  have less: "mNumResp (inf_info st1) < mLength (inf_info st1)" using c(2) st assms(7) by simp
  then obtain f' a' where u: "updateDeviceInfo (line_buf st1) p' v' (inf_info st1) = Inr (f', a')"
    "line_ok QTIDEV_INF_MAX_LINE_SIZE a'" "mNumResp f' = mNumResp (inf_info st1) + 1"
    "mLength f' = mLength (inf_info st1)" "length (mDevInfo f') = length (mDevInfo (inf_info st1))"
    using updateDeviceInfo_ok [of QTIDEV_INF_MAX_LINE_SIZE "line_buf st1" v' "inf_info st1"] st assms(4) by blast
  have "s1 = Next" "st1' = st1\<lparr>line_buf := a', inf_info := f'\<rparr>"
    using assms(2,6) st less u(1) by (auto simp: handle_entry_def Let_def)
  then show ?thesis using c st u less assms(2) by (simp add: same_pass_def table_ok_def)
qed

lemma same_step_elsewhere:
  assumes st: "same_pass st0 st1" and other: "sectionInfo st0 \<noteq> QTIDEV_INF_DEVICE_INFO"
    and t: "cstr (line_buf st0) 0 = t" "length t < QTIDEV_INF_MAX_LINE_SIZE"
    and p0: "process_line False st0 = Inr (s, st0')" and p1: "process_line True st1 = Inr (s1, st1')"
  shows "s = Next \<and> s1 = Next \<and> same_pass st0' st1' \<or> s = Return (- 1)"
proof -
  note d = st [unfolded same_pass_def]
  let ?n = "QTIDEV_INF_MAX_LINE_SIZE" and ?c = "first_char (line_text t)" and ?p = "text_start t"
  have eq: "line_buf st1 = line_buf st0" using d other by blast
  obtain a where a: "line_ok ?n a" "cstr a ?p = line_text t" "?p + length (line_text t) \<le> length t"
    and "\<And>flag st. line_buf st = line_buf st0 \<Longrightarrow> process_line flag st = dispatch flag ?c ?p (st\<lparr>line_buf := a\<rparr>)"
    using process_line_cases [OF _ t(1)] d by blast
  then have di: "dispatch False ?c ?p (st0\<lparr>line_buf := a\<rparr>) = Inr (s, st0')" "dispatch True ?c ?p (st1\<lparr>line_buf := a\<rparr>) = Inr (s1, st1')"
    using p0 p1 eq by simp_all
  have p: "?p + length (cstr a ?p) < ?n" using a(2,3) t(2) by simp
  obtain b v where b: "line_ok ?n b" "v \<le> ?n"
    and h: "\<And>flag st. line_buf st = a \<Longrightarrow> entry_line flag ?p st = handle_entry flag ?p v (st\<lparr>line_buf := b\<rparr>)"
    using entry_line_handles [OF a(1) p] by blast
  have keep: "same_pass (st0\<lparr>line_buf := c\<rparr>) (st1\<lparr>line_buf := c\<rparr>)" if "line_ok ?n c" for c
    using d that by (simp add: same_pass_def)
  consider "?c = CHR ''[''" | "?c \<noteq> CHR ''[''" "strchr '';#'' ?c \<or> sectionInfo st0 = QTIDEV_INF_UNKNOWN \<or> \<not> Filevalid st0"
    | "?c \<noteq> CHR ''[''" "\<not> strchr '';#'' ?c" "sectionInfo st0 \<noteq> QTIDEV_INF_UNKNOWN \<and> Filevalid st0" by blast
  then show ?thesis
  proof cases
    case 1
    then obtain r where r: "cstr a ?p = CHR ''['' # r" using a(2) by (cases "line_text t") (auto simp: first_char_def)
    obtain b where "line_ok ?n b"
      and "\<And>flag st. line_buf st = a \<Longrightarrow> section_line flag ?p st =
     (if \<not> flag \<and> sectionInfo st = QTIDEV_INF_DEVICE_INFO then Inr (Break, st)
      else if CHR '']'' \<notin> set r then Inr (Return (- 1), st\<lparr>sectionInfo := QTIDEV_INF_UNKNOWN\<rparr>)
      else let k = section_of (section_name r) (inf_mfg st) in
        Inr (Next, st\<lparr>line_buf := b, sectionInfo := k,
            inf_mfg := (if k = QTIDEV_INF_DEVICE_INFO then [] else inf_mfg st),
            Filevalid := (Filevalid st \<or> k = QTIDEV_INF_VERSION)\<rparr>))"
      using section_line_cases [OF a(1) r] p by auto
    then show ?thesis using di 1 d other
      by (auto simp: dispatch_def strchr_def same_pass_def Let_def split: if_splits)
  next
    case 2
    then show ?thesis using di d keep [OF a(1)] by (auto simp: dispatch_def split: if_splits)
  next
    case 3
    have "handle_entry False ?p v (st0\<lparr>line_buf := b\<rparr>) = Inr (s, st0')"
      "handle_entry True ?p v (st1\<lparr>line_buf := b\<rparr>) = Inr (s1, st1')"
      using di 3 d h [of "st0\<lparr>line_buf := a\<rparr>" False] h [of "st1\<lparr>line_buf := a\<rparr>" True] by (auto simp: dispatch_def)
    from same_entry_elsewhere [OF keep [OF b(1)] _ b(2) this] other show ?thesis by simp
  qed
qed

lemma same_step_among_devices:
  assumes st: "same_pass st0 st1" and dev: "sectionInfo st0 = QTIDEV_INF_DEVICE_INFO"
    and t: "cstr (line_buf st0) 0 = t" "cstr (line_buf st1) 0 = t" "length t < QTIDEV_INF_MAX_LINE_SIZE"
    and p0: "process_line False st0 = Inr (s, st0')" and p1: "process_line True st1 = Inr (s1, st1')"
    and le: "inf_count st0' \<le> mLength (inf_info st1)"
  shows "s = Next \<and> s1 = Next \<and> same_pass st0' st1' \<or> s = Break \<and> inf_count st0' = inf_count st0"
proof -
  note d = st [unfolded same_pass_def]
  let ?n = "QTIDEV_INF_MAX_LINE_SIZE" and ?c = "first_char (line_text t)" and ?p = "text_start t"
  have handled: "\<exists>a b v. line_ok ?n a \<and> line_ok ?n b \<and> v \<le> ?n
      \<and> dispatch flag ?c ?p (st\<lparr>line_buf := a\<rparr>) = process_line flag st
      \<and> entry_line flag ?p (st\<lparr>line_buf := a\<rparr>) = handle_entry flag ?p v (st\<lparr>line_buf := b\<rparr>)"
    if ok: "line_ok ?n (line_buf st)" "cstr (line_buf st) 0 = t" for flag st
  proof -
    obtain a where a: "line_ok ?n a" "cstr a ?p = line_text t" "?p + length (line_text t) \<le> length t"
      "process_line flag st = dispatch flag ?c ?p (st\<lparr>line_buf := a\<rparr>)"
      using process_line_cases [OF ok] by blast
    then have "?p + length (cstr a ?p) < ?n" using t(3) by simp
    from entry_line_handles [OF a(1) this] obtain b v where "line_ok ?n b" "v \<le> ?n"
      "\<And>flag st. line_buf st = a \<Longrightarrow> entry_line flag ?p st = handle_entry flag ?p v (st\<lparr>line_buf := b\<rparr>)" by blast
    then show ?thesis using a by (intro exI [of _ a] exI [of _ b] exI [of _ v]) simp
  qed
  obtain a0 b0 v0 where h0: "line_ok ?n a0" "line_ok ?n b0" "v0 \<le> ?n"
    "dispatch False ?c ?p (st0\<lparr>line_buf := a0\<rparr>) = Inr (s, st0')"
    "entry_line False ?p (st0\<lparr>line_buf := a0\<rparr>) = handle_entry False ?p v0 (st0\<lparr>line_buf := b0\<rparr>)"
    using handled [of st0 False] d t(1) p0 by auto
  obtain a1 b1 v1 where h1: "line_ok ?n a1" "line_ok ?n b1" "v1 \<le> ?n"
    "dispatch True ?c ?p (st1\<lparr>line_buf := a1\<rparr>) = Inr (s1, st1')"
    "entry_line True ?p (st1\<lparr>line_buf := a1\<rparr>) = handle_entry True ?p v1 (st1\<lparr>line_buf := b1\<rparr>)"
    using handled [of st1 True] d t(2) p1 by auto
  have keep: "same_pass (st0\<lparr>line_buf := c0\<rparr>) (st1\<lparr>line_buf := c1\<rparr>)" if "line_ok ?n c0" "line_ok ?n c1" for c0 c1
    using d dev that by (simp add: same_pass_def)
  consider "?c = CHR ''[''" | "?c \<noteq> CHR ''[''" "strchr '';#'' ?c \<or> \<not> Filevalid st0"
    | "?c \<noteq> CHR ''[''" "\<not> strchr '';#'' ?c" "Filevalid st0" by blast
  then show ?thesis
  proof cases
    case 1
    then show ?thesis using h0(4) dev by (auto simp: dispatch_def section_line_def strchr_def)
  next
    case 2
    then show ?thesis using h0(4) h1(4) dev d keep [OF h0(1) h1(1)] by (auto simp: dispatch_def split: if_splits)
  next
    case 3
    have "handle_entry False ?p v0 (st0\<lparr>line_buf := b0\<rparr>) = Inr (s, st0')"
      "handle_entry True ?p v1 (st1\<lparr>line_buf := b1\<rparr>) = Inr (s1, st1')"
      using 3 h0(4,5) h1(4,5) dev d by (auto simp: dispatch_def)
    from same_entry_among_devices [OF keep [OF h0(2) h1(2)] _ h0(3) h1(3) this] dev le show ?thesis by simp
  qed
qed

lemma same_step:
  assumes "same_pass st0 st1" and "cstr (line_buf st0) 0 = t" and "cstr (line_buf st1) 0 = t"
    and "length t < QTIDEV_INF_MAX_LINE_SIZE"
    and "process_line False st0 = Inr (s, st0')" and "process_line True st1 = Inr (s1, st1')"
    and "inf_count st0' \<le> mLength (inf_info st1)"
  shows "case s of Next \<Rightarrow> s1 = Next \<and> same_pass st0' st1' | Break \<Rightarrow> inf_count st0' = inf_count st0 | Return r \<Rightarrow> r = - 1"
  using same_step_elsewhere [OF assms(1) _ assms(2,4-6)] same_step_among_devices [OF assms(1) _ assms(2-7)]
  by (cases "sectionInfo st0 = QTIDEV_INF_DEVICE_INFO") auto


text \<open>The pass that stores finds no fewer devices than the pass that counts.\<close>

lemma process_lines_line:
  assumes "read_line QTIDEV_INF_MAX_LINE_SIZE 0 (line_buf st) (inf_file st) = Inr (r, a, inp)" and "0 \<le> r"
  shows "process_lines flag st = bnd (process_line flag (st\<lparr>line_buf := a, inf_file := inp\<rparr>)) (\<lambda>(s, st).
       case s of Next \<Rightarrow> process_lines flag st | Break \<Rightarrow> Inr (as_int (int (inf_count st)), st) | Return r \<Rightarrow> Inr (r, st))"
  using assms by (subst process_lines.simps) (simp add: Let_def)

lemma stored_as_counted:
  assumes "same_pass st0 st1" and "process_lines False st0 = Inr (r, st0')" and "0 \<le> r"
    and "inf_count st0' \<le> mLength (inf_info st1)" and "process_lines True st1 = Inr (r1, st1')"
  shows "inf_count st0' \<le> mNumResp (inf_info st1')"
proof -
  have "flag = False \<Longrightarrow> same_pass st0 st1 \<Longrightarrow> process_lines flag st0 = Inr (r, st0') \<Longrightarrow>
    inf_count st0' \<le> mLength (inf_info st1) \<Longrightarrow> process_lines True st1 = Inr (r1, st1') \<Longrightarrow>
    inf_count st0' \<le> mNumResp (inf_info st1')" for flag
  proof (induction flag st0 arbitrary: st1 rule: process_lines.induct)
    case (1 flag st0)
    let ?n = QTIDEV_INF_MAX_LINE_SIZE
    note flag = 1(2) and st = 1(3) [unfolded same_pass_def]
    have mono: "mNumResp (inf_info st1) \<le> mNumResp (inf_info st1')" "inf_count st0 = mNumResp (inf_info st1)"
      using process_lines_ends [of st1 True] st 1(6) by (simp_all add: pass_ends_def)
    have d: "delivers ?n (logical_line ?n [] (inf_file st0)) (read_line ?n 0 (line_buf st) (inf_file st0))"
      if "line_ok ?n (line_buf st)" for st
      using read_line_delivers [OF that, of "[]"] by simp
    show ?case
    proof (cases "logical_line ?n [] (inf_file st0)")
      case Blank
      then show ?thesis using d [of st0] st 1(4) by (simp add: process_lines.simps [of flag st0])
    next
      case (Stop e inp)
      then show ?thesis using d [of st0] st 1(4) mono by (auto simp: process_lines.simps [of flag st0] Let_def)
    next
      case (Line t inp)
      obtain a0 where a0: "read_line ?n 0 (line_buf st0) (inf_file st0) = Inr (int (length t - 1), a0, inp)"
        "line_ok ?n a0" "cstr a0 0 = t" "length t < ?n" using d [of st0] st Line by auto
      obtain a1 where a1: "read_line ?n 0 (line_buf st1) (inf_file st1) = Inr (int (length t - 1), a1, inp)"
        "line_ok ?n a1" "cstr a1 0 = t" using d [of st1] st Line by auto
      let ?st0 = "st0\<lparr>line_buf := a0, inf_file := inp\<rparr>" and ?st1 = "st1\<lparr>line_buf := a1, inf_file := inp\<rparr>"
      have "a1 = a0 \<or> sectionInfo st0 = QTIDEV_INF_DEVICE_INFO" using a0(1) a1(1) st by auto
      then have same: "same_pass ?st0 ?st1" using st a0(2) a1(2) by (auto simp: same_pass_def)
      note p0 = 1(4) [unfolded process_lines_line [OF a0(1) of_nat_0_le_iff]]
        and p1 = 1(6) [unfolded process_lines_line [OF a1(1) of_nat_0_le_iff]]
      obtain s st0'' where q0: "process_line flag ?st0 = Inr (s, st0'')" using p0 by (auto simp: returns_iff)
      obtain s1 st1'' where q1: "process_line True ?st1 = Inr (s1, st1'')" using p1 by (auto simp: returns_iff)
      have le: "inf_count st0'' \<le> inf_count st0'"
        using p0 q0 process_lines_ends [of st0'' flag] process_line_ok [of ?n ?st0 flag] a0 flag
        by (cases s) (auto simp: pass_ends_def pass_step_def)
      note step = same_step [OF same _ _ a0(4) q0 [unfolded flag] q1]
      show ?thesis
        using p0 p1 q0 q1 step le 1(5) a0(3) a1(3) mono flag assms(3)
          1(1) [OF a0(1) refl refl refl _ q0 refl, of st1'']
          process_line_ok [of ?n ?st1 True] a1 a0(4) st
        by (cases s) (auto simp: pass_step_def)
    qed
  qed
  then show ?thesis using assms by blast
qed

end
