(* ===== verification/InfText.thy ===== *)
theory InfText
  imports InfSpec
begin

text \<open>
  The INF parser on the text of a file. Where every entry line has an operator, what the parser does is a
  function of the characters of the lines alone: the arrays, their indices and the ends written into them
  refine it. On this level the passes over a file are computed, compared and stated.
\<close>

section \<open>Fields\<close>

definition before :: "char \<Rightarrow> string \<Rightarrow> string" where
  "before c t = takeWhile (\<lambda>x. x \<noteq> c) t"

text \<open>What follows the first \<open>c\<close>, if there is one.\<close>

fun behind :: "char \<Rightarrow> string \<Rightarrow> string option" where
  "behind c [] = None"
| "behind c (x # xs) = (if x = c then Some xs else behind c xs)"

lemma behind_length: "behind c t = Some r \<Longrightarrow> length r < length t"
  by (induction t) (auto split: if_splits)

lemma before_behind:
  "behind c t = None \<Longrightarrow> before c t = t"
  "behind c t = Some r \<Longrightarrow> t = before c t @ c # r"
  by (induction t) (auto simp: before_def split: if_splits)

lemma strsep_field:
  assumes "cstring a p"
  shows "\<exists>a'. cstr a' p = before c (cstr a p) \<and> cstring a' p \<and> take p a' = take p a \<and>
    (case behind c (cstr a p) of
       None \<Rightarrow> strsep a (Some p) [c] = Inr (Some p, None, a')
     | Some r \<Rightarrow> \<exists>q. strsep a (Some p) [c] = Inr (Some p, Some q, a') \<and> p + length (cstr a' p) < q
         \<and> cstr a' q = r \<and> cstring a' q)"
proof -
  let ?t = "cstr a p"
  define tok where "tok = takeWhile (\<lambda>x. x \<notin> set [c]) ?t"
  have tok: "tok = before c ?t" by (simp add: tok_def before_def)
  obtain a' where a': "strsep a (Some p) [c] = Inr (Some p,
       if length tok < length ?t then Some (p + length tok + 1) else None, a')"
    "cstr a' p = tok" "cstring a' p"
    "\<forall>q > p + length tok. cstr a' q = cstr a q \<and> (cstring a' q \<longleftrightarrow> cstring a q)"
    using strsep_spec [OF assms tok_def] by blast
  have keep: "take p a' = take p a"
    using a'(1) find_chars_range
    by (fastforce simp: strsep_def returns_iff wrc_def split: if_splits)
  show ?thesis
  proof (cases "behind c ?t")
    case None
    then show ?thesis using a'(1,2,3) keep before_behind(1) [OF None] tok by (intro exI [of _ a']) simp
  next
    case (Some r)
    have t: "?t = tok @ c # r" using before_behind(2) [OF Some] tok by simp
    then have l: "length tok < length ?t" "drop (length tok + 1) ?t = r" by simp_all
    define q where "q = p + (length tok + 1)"
    have "cstr a q = r \<and> cstring a q" using cstr_drop [OF assms, of "length tok + 1"] l by (simp add: q_def)
    moreover have "strsep a (Some p) [c] = Inr (Some p, Some q, a')" using a'(1) l(1) by (simp add: q_def)
    ultimately show ?thesis using a' keep tok Some
      by (intro exI [of _ a']) (auto intro!: exI [of _ q] simp: q_def)
  qed
qed

section \<open>Manufacturers\<close>

definition trim :: "string \<Rightarrow> string" where
  "trim s = dropWhile trimmed (strip_right s)"

lemma trim_array:
  assumes "cstring a p" and "cstr a p = s"
  shows "\<exists>a' q. rstrip a p = Inr a' \<and> lskip a' p = Inr q \<and> p \<le> q \<and> cstr a' q = trim s \<and> cstring a' q
    \<and> (\<forall>r > p + length s. cstr a' r = cstr a r \<and> (cstring a' r \<longleftrightarrow> cstring a r))"
proof -
  obtain a' where a': "rstrip a p = Inr a'" "cstr a' p = strip_right s" "cstring a' p"
    "\<forall>r > p + length s. cstr a' r = cstr a r \<and> (cstring a' r \<longleftrightarrow> cstring a r)"
    using rstrip_spec [OF assms(1)] assms(2) by auto
  let ?k = "length (takeWhile trimmed (strip_right s))"
  have "?k \<le> length (cstr a' p)" by (simp add: a'(2) length_takeWhile_le)
  then have "cstr a' (p + ?k) = trim s \<and> cstring a' (p + ?k)"
    using cstr_drop [OF a'(3), of ?k] by (simp add: a'(2) trim_def dropWhile_eq_drop)
  then show ?thesis using a' lskip_spec [OF a'(3)]
    by (intro exI [of _ a'] exI [of _ "p + ?k"]) simp
qed

text \<open>The names of a list of manufacturers in front of the ones already there; \<open>ks\<close> answers the allocations.\<close>

function mfg_names :: "string \<Rightarrow> string \<Rightarrow> string list \<Rightarrow> bool list \<Rightarrow> string list \<times> bool list" where
  "mfg_names t model names ks =
     (if ks \<noteq> [] \<and> \<not> hd ks then (names, tl ks) else
      let s = trim (before CHR '','' t);
          name = take 62 (if names \<noteq> [] then model @ ''.'' @ s else s);
          model = (if names \<noteq> [] then model else name)
      in case behind CHR '','' t of None \<Rightarrow> (name # names, tl ks)
         | Some r \<Rightarrow> mfg_names r model (name # names) (tl ks))"
  by pat_completeness auto
termination
  by (relation "measure (\<lambda>(t, model, names, ks). length t)") (auto dest: behind_length)

declare mfg_names.simps [simp del]

lemma mfg_loop_names:
  assumes "cstring a p" and "cstr a p = t"
  shows "\<exists>a'. mfg_loop a (Some p) model names ks = Inr (fst (mfg_names t model names ks), a', snd (mfg_names t model names ks))"
  using assms
proof (induction t model names ks arbitrary: a p rule: mfg_names.induct)
  case (1 t model names ks)
  obtain a1 where a1: "cstr a1 p = before CHR '','' t" "cstring a1 p"
    "case behind CHR '','' t of None \<Rightarrow> strsep a (Some p) '','' = Inr (Some p, None, a1)
     | Some r \<Rightarrow> \<exists>q. strsep a (Some p) '','' = Inr (Some p, Some q, a1) \<and> p + length (cstr a1 p) < q
         \<and> cstr a1 q = r \<and> cstring a1 q"
    using strsep_field [OF 1(2), of "CHR '',''"] 1(3) by auto
  obtain d where s: "strsep a (Some p) '','' = Inr (Some p, d, a1)" using a1(3) by (auto split: option.splits)
  show ?case
  proof (cases "ks \<noteq> [] \<and> \<not> hd ks")
    case True
    then show ?thesis using s by (simp add: mfg_names.simps [of t] mfg_loop.simps [of a])
  next
    case False
    obtain a2 q where a2: "rstrip a1 p = Inr a2" "lskip a2 p = Inr q" "cstr a2 q = trim (before CHR '','' t)"
      "\<forall>r > p + length (before CHR '','' t). cstr a2 r = cstr a1 r \<and> (cstring a2 r \<longleftrightarrow> cstring a1 r)"
      using trim_array [OF a1(2,1)] by blast
    define name where "name = take 62 (if names \<noteq> [] then model @ ''.'' @ trim (before CHR '','' t) else trim (before CHR '','' t))"
    define model' where "model' = (if names \<noteq> [] then model else name)"
    have loop: "mfg_loop a (Some p) model names ks = mfg_loop a2 d model' (name # names) (tl ks)"
      using s a2(1-3) False by (subst mfg_loop.simps) (auto simp: Let_def name_def model'_def)
    show ?thesis
    proof (cases "behind CHR '','' t")
      case None
      then have "d = None" using a1(3) s by simp
      then have "mfg_loop a2 d model' (name # names) (tl ks) = Inr (name # names, a2, tl ks)"
        by (subst mfg_loop.simps) (simp add: strsep_def)
      then show ?thesis using None False unfolding loop
        by (simp add: mfg_names.simps [of t] Let_def flip: name_def)
    next
      case (Some r)
      then obtain q where q: "d = Some q" "cstr a2 q = r" "cstring a2 q" using a1 s a2(4) by auto
      have "mfg_names t model names ks = mfg_names r model' (name # names) (tl ks)"
        using Some False by (auto simp: mfg_names.simps [of t] Let_def name_def model'_def)
      then show ?thesis
        using "1.IH" [OF False refl name_def model'_def Some q(3,2)] unfolding loop q(1) by simp
    qed
  qed
qed


section \<open>Devices\<close>

text \<open>The ids: the numbers behind the first three underscores.\<close>

function dev_ids :: "string \<Rightarrow> nat \<Rightarrow> int list \<Rightarrow> int list" where
  "dev_ids t idx ids =
     (case behind CHR ''_'' t of None \<Rightarrow> ids
      | Some r \<Rightarrow>
          if idx < 3 then dev_ids r (idx + 1) (ids[idx := as_int (int (simple_strtoul 16 r))]) else ids)"
  by pat_completeness auto
termination
  by (relation "measure (\<lambda>(t, idx, ids). length t)") (auto dest: behind_length)

declare dev_ids.simps [simp del]

lemma vid_loop_ids:
  assumes "cstring a p" and "cstr a p = t"
  shows "\<exists>a'. vid_loop a (Some p) idx ids = Inr (dev_ids t idx ids, a') \<and> take p a' = take p a"
  using assms
proof (induction t idx ids arbitrary: a p rule: dev_ids.induct)
  case (1 t idx ids)
  obtain a1 where a1: "cstr a1 p = before CHR ''_'' t" "cstring a1 p" "take p a1 = take p a"
    "case behind CHR ''_'' t of None \<Rightarrow> strsep a (Some p) ''_'' = Inr (Some p, None, a1)
     | Some r \<Rightarrow> \<exists>q. strsep a (Some p) ''_'' = Inr (Some p, Some q, a1) \<and> p + length (cstr a1 p) < q
         \<and> cstr a1 q = r \<and> cstring a1 q"
    using strsep_field [OF 1(2), of "CHR ''_''"] 1(3) by auto
  show ?case
  proof (cases "behind CHR ''_'' t")
    case None
    then show ?thesis using a1 by (subst vid_loop.simps) (simp add: dev_ids.simps [of t])
  next
    case (Some r)
    then obtain q where q: "strsep a (Some p) ''_'' = Inr (Some p, Some q, a1)" "p \<le> q" "cstr a1 q = r" "cstring a1 q"
      using a1(4) by auto
    show ?thesis
    proof (cases "idx < 3")
      case True
      obtain a' where a': "vid_loop a1 (Some q) (idx + 1) (ids[idx := as_int (int (simple_strtoul 16 r))])
          = Inr (dev_ids r (idx + 1) (ids[idx := as_int (int (simple_strtoul 16 r))]), a')" "take q a' = take q a1"
        using "1.IH" [OF Some True q(4,3)] by blast
      have "take p a' = take p (take q a')" using q(2) by (simp add: min_absorb1)
      also have "\<dots> = take p a" using q(2) a'(2) a1(3) by (simp add: min_absorb1)
      finally show ?thesis using q(1,3) True Some a'(1) by (subst vid_loop.simps) (simp add: dev_ids.simps [of t])
    next
      case False
      then show ?thesis using q(1) Some a1(3) by (subst vid_loop.simps) (simp add: dev_ids.simps [of t])
    qed
  qed
qed

lemma cstr_take:
  assumes "take r a' = take r a" and "cstring a p" and "p + length (cstr a p) < r"
  shows "cstr a' p = cstr a p"
proof -
  define s k where "s = cstr a p" and "k = r - p - length s"
  have k: "0 < k" "r - p = length s + k" using assms(3) by (simp_all add: s_def k_def)
  obtain x y where xy: "drop p a = x @ NUL # y" "NUL \<notin> set x"
    using assms(2) split_list_first [of NUL "drop p a"] unfolding cstring_def by blast
  then have "s = x" unfolding s_def cstr_def by (simp add: takeWhile_tail) (metis takeWhile_eq_all_conv)
  then have y: "drop p a = s @ NUL # y" using xy(1) by simp
  have "drop p (take r a) = s @ NUL # take (k - 1) y" unfolding drop_take y using k by (simp add: take_Cons')
  moreover have "p \<le> length (take r a)" using cstring_end(1) [OF assms(2)] assms(3) by simp
  ultimately have "drop p a' = s @ NUL # take (k - 1) y @ drop r a'"
    using append_take_drop_id [of r a', symmetric] assms(1) by (metis append.assoc append_Cons drop_append drop_0 diff_is_0_eq)
  moreover have "NUL \<notin> set s" using cstring_end(4) [OF assms(2)] by (simp add: s_def)
  ultimately have "cstr a' p = s" by (auto simp: cstr_def takeWhile_tail takeWhile_eq_all_conv)
  then show ?thesis by (simp add: s_def)
qed

definition dev_entry :: "string \<Rightarrow> string \<Rightarrow> devInfo_t \<Rightarrow> devInfo_t" where
  "dev_entry key val d =
     (case behind CHR '','' val of
        None \<Rightarrow> d\<lparr>mDevType := QTIDEV_INF_TYPE_UNKNOWN, mVid_pid_iface := dev_ids val 0 (mVid_pid_iface d),
          mpKey := strncpy0 key QTIDEV_INF_MAX_KEY_SIZE\<rparr>
      | Some r \<Rightarrow>
          let s = dropWhile (\<lambda>c. \<not> isdigit c) (before CHR '','' val);
              v = (if s \<noteq> [] then as_int (int (simple_strtoul 16 s)) else 0)
          in d\<lparr>mDevType := if v \<noteq> 0 then QTIDEV_INF_TYPE_DPL else QTIDEV_INF_TYPE_BULK,
               mVid_pid_iface := dev_ids r 0 (mVid_pid_iface d),
               mpKey := strncpy0 key QTIDEV_INF_MAX_KEY_SIZE\<rparr>)"

lemma skip_to_digit_spec:
  assumes "cstring a p"
  shows "skip_to_digit a p = Inr (p + length (takeWhile (\<lambda>c. \<not> isdigit c) (cstr a p)))"
  using assms
proof (induction rule: cstr_induct)
  case (Nul p)
  then show ?case by (subst skip_to_digit.simps) (simp add: rdc_def)
next
  case (Char p)
  then show ?case by (subst skip_to_digit.simps) (simp add: rdc_def)
qed

lemma updateDeviceInfo_entry:
  assumes "cstring a v" and "cstring a k" and "k + length (cstr a k) < v"
    and "cstr a k = key" and "cstr a v = val"
    and "mNumResp f < mLength f" and "table_ok f"
  shows "\<exists>a'. updateDeviceInfo a k v f = Inr (f\<lparr>mDevInfo := (mDevInfo f)[mNumResp f := dev_entry key val (mDevInfo f ! mNumResp f)],
      mNumResp := mNumResp f + 1\<rparr>, a')"
proof -
  let ?d = "mDevInfo f ! mNumResp f"
  have n: "\<not> mNumResp f > mLength f" "\<not> mNumResp f \<ge> length (mDevInfo f)" using assms(6,7) by (simp_all add: table_ok_def)
  obtain a1 where a1: "cstr a1 v = before CHR '','' val" "cstring a1 v" "take v a1 = take v a"
    "case behind CHR '','' val of None \<Rightarrow> strsep a (Some v) '','' = Inr (Some v, None, a1)
     | Some r \<Rightarrow> \<exists>q. strsep a (Some v) '','' = Inr (Some v, Some q, a1) \<and> v + length (cstr a1 v) < q
         \<and> cstr a1 q = r \<and> cstring a1 q"
    using strsep_field [OF assms(1), of "CHR '',''"] assms(5) by auto
  show ?thesis
  proof (cases "behind CHR '','' val")
    case None
    then have "cstr a1 v = val" using a1(1) before_behind(1) [OF None] by simp
    from vid_loop_ids [OF a1(2) this, of 0 "mVid_pid_iface ?d"]
    obtain a2 where a2: "vid_loop a1 (Some v) 0 (mVid_pid_iface ?d) = Inr (dev_ids val 0 (mVid_pid_iface ?d), a2)" "take v a2 = take v a1" by blast
    then have "cstr a2 k = key" using cstr_take [OF _ assms(2,3), of a2] a1(3) assms(4) by simp
    then show ?thesis using None a1(4) a2(1) n by (simp add: updateDeviceInfo_def dev_entry_def Let_def)
  next
    case (Some r)
    then obtain q where q: "strsep a (Some v) '','' = Inr (Some v, Some q, a1)" "v < q" "cstr a1 q = r" "cstring a1 q"
      using a1(4) by auto
    from vid_loop_ids [OF q(4,3), of 0 "mVid_pid_iface ?d"]
    obtain a2 where a2: "vid_loop a1 (Some q) 0 (mVid_pid_iface ?d) = Inr (dev_ids r 0 (mVid_pid_iface ?d), a2)" "take q a2 = take q a1" by blast
    have "take v a2 = take v a1" using a2(2) q(2) by (metis less_imp_le min.absorb1 take_take)
    then have k: "cstr a2 k = key" using cstr_take [OF _ assms(2,3), of a2] a1(3) assms(4) by simp
    define s where "s = dropWhile (\<lambda>c. \<not> isdigit c) (before CHR '','' val)"
    define t where "t = v + length (takeWhile (\<lambda>c. \<not> isdigit c) (before CHR '','' val))"
    have t: "skip_to_digit a1 v = Inr t" using skip_to_digit_spec [OF a1(2)] by (simp add: t_def a1(1))
    have ct: "cstr a1 t = s" "cstring a1 t"
      using cstr_drop [OF a1(2), of "length (takeWhile (\<lambda>c. \<not> isdigit c) (before CHR '','' val))"]
      by (simp_all add: t_def s_def a1(1) length_takeWhile_le dropWhile_eq_drop)
    have "rdc a1 t = Inr (a1 ! t)" "a1 ! t \<noteq> NUL \<longleftrightarrow> s \<noteq> []"
      using cstring_end(1) [OF ct(2)] cstr_unfold [of t a1] ct(1) by (auto simp: rdc_def)
    then show ?thesis using Some q(1) a2(1) t k ct(1) n
      by (simp add: updateDeviceInfo_def dev_entry_def Let_def flip: s_def)
  qed
qed

section \<open>Entries\<close>

definition has_op :: "string \<Rightarrow> bool" where
  "has_op u \<longleftrightarrow> CHR '':'' \<in> set u \<or> CHR ''='' \<in> set u"

definition entry_name :: "string \<Rightarrow> string" where
  "entry_name u = strip_right (takeWhile (\<lambda>c. c \<noteq> CHR '':'' \<and> c \<noteq> CHR ''='') u)"

definition entry_value :: "string \<Rightarrow> string" where
  "entry_value u = strip_right (dropWhile trimmed (takeWhile (\<lambda>c. c \<noteq> CHR '';'' \<and> c \<noteq> CHR ''#'')
     (tl (dropWhile (\<lambda>c. c \<noteq> CHR '':'' \<and> c \<noteq> CHR ''='') u))))"

lemma strip_right_length: "length (strip_right s) \<le> length s"
  by (metis length_dropWhile_le length_rev strip_right_def)

lemma rstrip_take: "rstrip a s = Inr a' \<Longrightarrow> take s a' = take s a"
proof -
  have "rstrip_loop a s p = Inr a' \<Longrightarrow> take s a' = take s a" for p
    by (induction a s p rule: rstrip_loop.induct) (fastforce simp: returns_iff wrc_def split: if_splits)+
  then show "rstrip a s = Inr a' \<Longrightarrow> take s a' = take s a" by (auto simp: rstrip_def returns_iff)
qed

text \<open>Cutting the value out of the line, at \<open>v\<close>.\<close>

lemma value_text:
  assumes a: "line_ok n a" and v: "v \<le> n"
    and w_def: "w = takeWhile (\<lambda>c. c \<noteq> CHR '';'' \<and> c \<noteq> CHR ''#'') (cstr a v)"
  shows "\<exists>f a3 a4 v'. find_chars_or_comment a v '';#'' = Inr f \<and> f \<le> n
     \<and> (if a ! f \<noteq> NUL then wrc a f NUL else Inr a) = Inr a3 \<and> lskip a3 v = Inr v' \<and> v \<le> v' \<and> v' \<le> n
     \<and> rstrip a3 v' = Inr a4 \<and> line_ok n a4 \<and> cstr a4 v' = strip_right (dropWhile trimmed w) \<and> take v a4 = take v a"
proof -
  have Q: "(\<lambda>c. c \<notin> set '';#'') = (\<lambda>c. c \<noteq> CHR '';'' \<and> c \<noteq> CHR ''#'')" by auto
  have cv: "cstring a v" using line_ok_cstring [OF a v] .
  have wl: "length w \<le> length (cstr a v)" "w = take (length w) (cstr a v)"
    unfolding w_def by (rule length_takeWhile_le, rule takeWhile_eq_take)
  define f where "f = v + length w"
  have f: "find_chars_or_comment a v '';#'' = Inr f" "f \<le> n"
    using find_chars_spec [OF cv, of "'';#''"] wl(1) cstr_end_le [OF a v] unfolding Q by (simp_all add: f_def w_def)
  define a3 where "a3 = a[f := NUL]"
  have a3: "(if a ! f \<noteq> NUL then wrc a f NUL else Inr a) = Inr a3" "line_ok n a3"
    using wrc_nul_ok [OF a f(2)] list_update_id [of a f] by (cases "a ! f = NUL", simp_all add: a3_def)
  have c3: "cstr a3 v = w" using cstr_cut [OF cv wl(1)] wl(2) by (simp add: a3_def f_def)
  define v' where "v' = v + length (takeWhile trimmed w)"
  have v': "lskip a3 v = Inr v'" "v' \<le> n" "cstr a3 v' = dropWhile trimmed w" "v \<le> v'"
    using lskip_spec [OF line_ok_cstring [OF a3(2) v]] cstr_end_le [OF a3(2) v] length_takeWhile_le [of trimmed w]
      cstr_drop [OF line_ok_cstring [OF a3(2) v], of "length (takeWhile trimmed w)"]
    by (simp_all add: c3 v'_def dropWhile_eq_drop)
  obtain a4 where a4: "rstrip a3 v' = Inr a4" "line_ok n a4" "cstr a4 v' = strip_right (dropWhile trimmed w)"
    using rstrip_line [OF a3(2) v'(2)] by (auto simp: v'(3))
  have "take v a4 = take v (take v' a4)" using v'(4) by (simp add: min_absorb1)
  also have "\<dots> = take v a" using rstrip_take [OF a4(1)] v'(4) by (simp add: min_absorb1 a3_def f_def)
  finally have "take v a4 = take v a" .
  then show ?thesis using f a3(1) v' a4 by blast
qed

lemma entry_line_text:
  assumes "line_ok n a" and "cstr a p = u" and "p + length u < n" and "has_op u"
  shows "\<exists>a' v. line_ok n a' \<and> v \<le> n \<and> p + length (cstr a' p) < v \<and> cstr a' p = entry_name u \<and> cstr a' v = entry_value u
     \<and> (\<forall>flag st. line_buf st = a \<longrightarrow> entry_line flag p st = handle_entry flag p v (st\<lparr>line_buf := a'\<rparr>))"
proof -
  have p: "p \<le> n" and cp: "cstring a p" using assms(3) line_ok_cstring [OF assms(1), of p] by simp_all
  let ?P = "\<lambda>c. c \<noteq> CHR '':'' \<and> c \<noteq> CHR ''=''"
  define k where "k = length (takeWhile ?P u)"
  have P: "(\<lambda>c. c \<notin> set '':='') = ?P" by auto
  have k: "k < length u" "\<not> ?P (u ! k)" "takeWhile ?P u = take k u" "dropWhile ?P u = drop k u"
  proof -
    have "takeWhile ?P u \<noteq> u" using assms(4) by (auto simp: has_op_def takeWhile_eq_all_conv)
    then show "k < length u" unfolding k_def
      by (metis (no_types, lifting) le_neq_implies_less length_takeWhile_le takeWhile_eq_take take_all_iff order_refl)
    then show "\<not> ?P (u ! k)" unfolding k_def by (rule nth_length_takeWhile)
    show "takeWhile ?P u = take k u" unfolding k_def by (rule takeWhile_eq_take)
    show "dropWhile ?P u = drop k u" unfolding k_def by (rule dropWhile_eq_drop)
  qed
  have e: "find_chars_or_comment a p '':='' = Inr (p + k)"
    using find_chars_spec [OF cp, of "'':=''"] unfolding assms(2) P k_def .
  have c: "rdc a (p + k) = Inr (u ! k)"
    using cstring_end(1,3) [OF cp] k(1) assms(2) by (auto simp: rdc_def)
  define a1 v where "a1 = a[p + k := NUL]" and "v = p + k + 1"
  have w: "wrc a (p + k) NUL = Inr a1" "line_ok n a1" using wrc_nul_ok [OF assms(1), of "p + k"] k(1) assms(3) by (simp_all add: a1_def)
  have n1: "cstr a1 p = take k u" "cstring a1 p" using cstr_cut [OF cp, of k] k(1) assms(2) by (simp_all add: a1_def)
  have vn: "v \<le> n" using k(1) assms(3) by (simp add: v_def)
  have r: "cstr a1 v = drop (k + 1) u"
    using cstr_other [of "p + k" v a NUL] cstr_drop [OF cp, of "k + 1"] k(1) assms(2) by (simp add: a1_def v_def add.assoc)
  obtain a2 where a2: "rstrip a1 p = Inr a2" "cstr a2 p = entry_name u" "line_ok n a2" "cstr a2 v = drop (k + 1) u"
    using rstrip_spec [OF n1(2)] rstrip_ok [OF _ w(2)] n1(1) r k(1,3) by (fastforce simp: v_def entry_name_def)
  have pv: "p + length (cstr a2 p) < v"
    using strip_right_length [of "take k u"] k(1,3) by (simp add: a2(2) v_def entry_name_def)
  obtain f a3 a4 v' where x: "find_chars_or_comment a2 v '';#'' = Inr f" "f \<le> n"
    "(if a2 ! f \<noteq> NUL then wrc a2 f NUL else Inr a2) = Inr a3" "lskip a3 v = Inr v'" "v \<le> v'" "v' \<le> n"
    "rstrip a3 v' = Inr a4" "line_ok n a4" "cstr a4 v' = entry_value u" "take v a4 = take v a2"
    using value_text [OF a2(3) vn refl] k(4) by (fastforce simp: a2(4) entry_value_def drop_Suc tl_drop)
  have k4: "cstr a4 p = entry_name u" using cstr_take [OF x(10) _ pv] line_ok_cstring [OF a2(3) p] a2(2) by simp
  have "entry_line flag p st = handle_entry flag p v' (st\<lparr>line_buf := a4\<rparr>)" if "line_buf st = a" for flag st
    unfolding entry_line_def Let_def that e bnd_simps c
    using k(2) w(1) a2(1) x(1,3,4,7) rdc_line [OF a2(3) x(2)] by (auto simp: strchr_def v_def)
  then show ?thesis using x(5,6,8,9) pv k4 a2(2) by (intro exI [of _ a4] exI [of _ v']) simp
qed

section \<open>A file as a list of lines\<close>

text \<open>
  The same states with an array that is never looked at. An entry line without an operator is not
  determined by its text: \<open>None\<close>.
\<close>

definition text_entry :: "bool \<Rightarrow> string \<Rightarrow> string \<Rightarrow> inf_state \<Rightarrow> fault + inf_state" where
  "text_entry flag key val st =
     (case sectionInfo st of
        QTIDEV_INF_VERSION \<Rightarrow> Inr (if flag then st\<lparr>inf_info := updateVersion key val (inf_info st)\<rparr> else st)
      | QTIDEV_INF_MANUFACTURER \<Rightarrow>
          Inr (if inf_mfg st \<noteq> [] \<or> val = [] then st
               else st\<lparr>inf_mfg := fst (mfg_names val [] [] (inf_kmem st)), inf_kmem := snd (mfg_names val [] [] (inf_kmem st))\<rparr>)
      | QTIDEV_INF_DEVICE_INFO \<Rightarrow>
          let f = inf_info st; n = mNumResp f in
          Inr (if \<not> flag then st\<lparr>inf_count := inf_count st + 1\<rparr>
               else if mLength f \<le> n then st
               else st\<lparr>inf_info := f\<lparr>mDevInfo := (mDevInfo f)[n := dev_entry key val (mDevInfo f ! n)], mNumResp := n + 1\<rparr>\<rparr>)
      | QTIDEV_INF_STRING \<Rightarrow>
          if flag then bnd (updateDevStringInfo key val (inf_info st)) (\<lambda>f. Inr (st\<lparr>inf_info := f\<rparr>)) else Inr st
      | QTIDEV_INF_UNKNOWN \<Rightarrow> Inr st)"

definition text_section :: "bool \<Rightarrow> string \<Rightarrow> inf_state \<Rightarrow> inf_step \<times> inf_state" where
  "text_section flag s st =
     (if \<not> flag \<and> sectionInfo st = QTIDEV_INF_DEVICE_INFO then (Break, st)
      else if CHR '']'' \<notin> set s then (Return (- 1), st\<lparr>sectionInfo := QTIDEV_INF_UNKNOWN\<rparr>)
      else let k = section_of (section_name s) (inf_mfg st) in
        (Next, st\<lparr>sectionInfo := k, inf_mfg := (if k = QTIDEV_INF_DEVICE_INFO then [] else inf_mfg st),
            Filevalid := (Filevalid st \<or> k = QTIDEV_INF_VERSION)\<rparr>))"

definition text_line :: "bool \<Rightarrow> string \<Rightarrow> inf_state \<Rightarrow> (fault + (inf_step \<times> inf_state)) option" where
  "text_line flag t st =
     (let u = line_text t; c = first_char u in
      if strchr '';#'' c then Some (Inr (Next, st))
      else if c = CHR ''['' then Some (Inr (text_section flag (tl u) st))
      else if sectionInfo st \<noteq> QTIDEV_INF_UNKNOWN \<and> Filevalid st then
        if has_op u then Some (bnd (text_entry flag (entry_name u) (entry_value u) st) (\<lambda>st. Inr (Next, st))) else None
      else Some (Inr (Next, st)))"

text \<open>The state without the array.\<close>

abbreviation (input) text_state :: "inf_state \<Rightarrow> inf_state" where
  "text_state st \<equiv> st\<lparr>line_buf := []\<rparr>"

lemma handle_entry_text:
  assumes "line_ok n (line_buf st)" and "v \<le> n" and "p + length (cstr (line_buf st) p) < v"
    and "cstr (line_buf st) p = key" and "cstr (line_buf st) v = val" and "flag \<longrightarrow> table_ok (inf_info st)"
  shows "map_sum id (map_prod id text_state) (handle_entry flag p v st)
    = bnd (text_entry flag key val (text_state st)) (\<lambda>st. Inr (Next, st))"
proof -
  have c: "cstring (line_buf st) v" "cstring (line_buf st) p"
    using line_ok_cstring [OF assms(1,2)] line_ok_cstring [OF assms(1), of p] assms(2,3) by simp_all
  have l: "strlen (line_buf st) v = Inr (length val)" using c(1) assms(5) by (simp add: strlen_def cstring_def)
  show ?thesis
  proof (cases "sectionInfo st")
    case QTIDEV_INF_MANUFACTURER
    then show ?thesis
      using l mfg_loop_names [OF c(1) assms(5), of "[]" "[]" "inf_kmem st"]
      by (auto simp: handle_entry_def text_entry_def updateManufacturer_def)
  next
    case QTIDEV_INF_DEVICE_INFO
    show ?thesis
    proof (cases "flag \<and> mNumResp (inf_info st) < mLength (inf_info st)")
      case True
      then show ?thesis
        using updateDeviceInfo_entry [OF c assms(3-5), of "inf_info st"] assms(6) QTIDEV_INF_DEVICE_INFO
        by (auto simp: handle_entry_def text_entry_def Let_def)
    next
      case False
      then show ?thesis using QTIDEV_INF_DEVICE_INFO by (auto simp: handle_entry_def text_entry_def Let_def)
    qed
  next
    case QTIDEV_INF_STRING
    then show ?thesis using assms(4,5)
      by (cases "updateDevStringInfo key val (inf_info st)") (auto simp: handle_entry_def text_entry_def Let_def)
  qed (use assms(4,5) in \<open>auto simp: handle_entry_def text_entry_def Let_def\<close>)
qed

lemma process_line_text:
  assumes "line_ok n (line_buf st)" and "cstr (line_buf st) 0 = t" and "length t < n" and "flag \<longrightarrow> table_ok (inf_info st)"
    and "text_line flag t (text_state st) = Some r"
  shows "map_sum id (map_prod id text_state) (process_line flag st) = r"
proof -
  let ?u = "line_text t" and ?p = "text_start t"
  obtain a where a: "line_ok n a" "cstr a ?p = ?u" "?p + length ?u \<le> length t"
    and di: "process_line flag st = dispatch flag (first_char ?u) ?p (st\<lparr>line_buf := a\<rparr>)"
    using process_line_cases [OF assms(1,2)] by blast
  have p: "?p + length ?u < n" using a(3) assms(3) by simp
  consider "strchr '';#'' (first_char ?u)" | s where "\<not> strchr '';#'' (first_char ?u)" "?u = CHR ''['' # s"
    | "\<not> strchr '';#'' (first_char ?u)" "first_char ?u \<noteq> CHR ''[''"
    by (cases ?u) (auto simp: first_char_def)
  then show ?thesis
  proof cases
    case 1
    then show ?thesis using assms(5) by (auto simp: di dispatch_def text_line_def Let_def)
  next
    case (2 s)
    then obtain b where "\<And>flag st. line_buf st = a \<Longrightarrow> section_line flag ?p st =
     (if \<not> flag \<and> sectionInfo st = QTIDEV_INF_DEVICE_INFO then Inr (Break, st)
      else if CHR '']'' \<notin> set s then Inr (Return (- 1), st\<lparr>sectionInfo := QTIDEV_INF_UNKNOWN\<rparr>)
      else let k = section_of (section_name s) (inf_mfg st) in
        Inr (Next, st\<lparr>line_buf := b, sectionInfo := k,
            inf_mfg := (if k = QTIDEV_INF_DEVICE_INFO then [] else inf_mfg st),
            Filevalid := (Filevalid st \<or> k = QTIDEV_INF_VERSION)\<rparr>))"
      using section_line_cases [OF a(1), of ?p s] a(2) p by auto
    then show ?thesis using 2 assms(5)
      by (auto simp: di dispatch_def text_line_def text_section_def Let_def first_char_def)
  next
    case 3
    show ?thesis
    proof (cases "sectionInfo st \<noteq> QTIDEV_INF_UNKNOWN \<and> Filevalid st")
      case True
      then have op: "has_op ?u" using 3 assms(5) by (auto simp: text_line_def Let_def split: if_splits)
      obtain b v where b: "line_ok n b" "v \<le> n" "?p + length (cstr b ?p) < v" "cstr b ?p = entry_name ?u"
        "cstr b v = entry_value ?u" "entry_line flag ?p (st\<lparr>line_buf := a\<rparr>) = handle_entry flag ?p v (st\<lparr>line_buf := b\<rparr>)"
        using entry_line_text [OF a(1,2) p op] by fastforce
      then show ?thesis
        using handle_entry_text [of n "st\<lparr>line_buf := b\<rparr>" v ?p "entry_name ?u" "entry_value ?u" flag] 3 True op assms(4,5)
        by (auto simp: di dispatch_def text_line_def Let_def)
    next
      case False
      then show ?thesis using 3 assms(5) by (auto simp: di dispatch_def text_line_def Let_def)
    qed
  qed
qed


text \<open>All lines.\<close>

lemma logical_line_shorter: "logical_line n pre inp = Line t inp' \<Longrightarrow> length inp' < length inp"
proof (induction n pre inp rule: logical_line.induct)
  case (1 n pre inp)
  note def = 1(3) [unfolded logical_line.simps [of n pre inp]]
  obtain l r where l: "\<not> n \<le> length pre" "take_line (n - length pre) inp = Some (l, r)"
    using def by (auto split: if_splits option.splits)
  then have less: "length r < length inp" using take_line_length [OF l(2)] by auto
  define s where "s = takeWhile (\<lambda>c. c \<noteq> NUL) (pre @ l)"
  consider "length s \<le> 1" "logical_line n pre r = Line t inp'"
    | "\<not> length s \<le> 1" "\<not> last s \<noteq> newline" "strip_space s \<noteq> []" "last (strip_space s) = backslash"
      "logical_line n (butlast (strip_space s)) r = Line t inp'"
    | "inp' = r"
    using def l by (auto simp: Let_def simp flip: s_def split: if_splits)
  then show ?case
  proof cases
    case 1
    then show ?thesis using "1.IH"(1) [OF l(1,2) refl s_def] less by simp
  next
    case 2
    then show ?thesis using "1.IH"(2) [OF l(1,2) refl s_def 2(1,2) refl 2(3,4)] less by simp
  qed (use less in simp)
qed

function text_pass :: "bool \<Rightarrow> inf_state \<Rightarrow> (fault + (int \<times> inf_state)) option" where
  "text_pass flag st =
     (case logical_line QTIDEV_INF_MAX_LINE_SIZE [] (inf_file st) of
        Blank \<Rightarrow> Some (Inl (OOB_Read 0))
      | Stop _ inp \<Rightarrow> Some (Inr (as_int (int (inf_count st)), st\<lparr>inf_file := inp\<rparr>))
      | Line t inp \<Rightarrow>
         (case text_line flag t (st\<lparr>inf_file := inp\<rparr>) of
            None \<Rightarrow> None
          | Some (Inl x) \<Rightarrow> Some (Inl x)
          | Some (Inr (Next, st)) \<Rightarrow> text_pass flag st
          | Some (Inr (Break, st)) \<Rightarrow> Some (Inr (as_int (int (inf_count st)), st))
          | Some (Inr (Return r, st)) \<Rightarrow> Some (Inr (r, st))))"
  by pat_completeness auto
termination
proof (relation "measure (\<lambda>(flag, st). length (inf_file st))", goal_cases)
  case (2 flag st t inp y z s st')
  then have "inf_file st' = inp"
    by (auto simp: text_line_def text_section_def text_entry_def Let_def returns_iff
        split: if_splits sectionInfo_t.splits)
  then show ?case using logical_line_shorter 2 by fastforce
qed simp

declare text_pass.simps [simp del]

lemma process_lines_text:
  assumes "line_ok QTIDEV_INF_MAX_LINE_SIZE (line_buf st)" and "flag \<longrightarrow> table_ok (inf_info st)"
    and "text_pass flag (text_state st) = Some r"
  shows "map_sum id (map_prod id text_state) (process_lines flag st) = r"
  using assms
proof (induction flag st rule: process_lines.induct)
  case (1 flag st)
  let ?n = QTIDEV_INF_MAX_LINE_SIZE
  have d: "delivers ?n (logical_line ?n [] (inf_file st)) (read_line ?n 0 (line_buf st) (inf_file st))"
    using read_line_delivers [OF 1(2), of "[]"] by simp
  note pass = 1(4) [unfolded text_pass.simps [of flag "text_state st"]]
  show ?case
  proof (cases "logical_line ?n [] (inf_file st)")
    case Blank
    then show ?thesis using d pass by (auto simp: process_lines.simps [of flag st])
  next
    case (Stop e inp)
    then show ?thesis using d pass by (auto simp: process_lines.simps [of flag st] Let_def)
  next
    case (Line t inp)
    then obtain a where a: "read_line ?n 0 (line_buf st) (inf_file st) = Inr (int (length t - 1), a, inp)"
      "line_ok ?n a" "cstr a 0 = t" "length t < ?n" using d by auto
    let ?st = "st\<lparr>line_buf := a, inf_file := inp\<rparr>"
    have eq: "st\<lparr>line_buf := [], inf_file := inp\<rparr> = st\<lparr>inf_file := inp, line_buf := []\<rparr>" by (cases st) simp
    obtain l where l: "text_line flag t (text_state ?st) = Some l" using pass Line by (auto simp: eq split: option.splits)
    have p: "map_sum id (map_prod id text_state) (process_line flag ?st) = l"
      using process_line_text [of ?n ?st t flag l] a(2-4) 1(3) l by simp
    note ok = process_line_ok [of ?n ?st flag]
    note unf = process_lines_line [OF a(1) of_nat_0_le_iff, of flag]
    show ?thesis
    proof (cases "process_line flag ?st")
      case (Inl x)
      have "l = Inl x" using p Inl by simp
      then show ?thesis using pass Line l unfolding unf Inl by (auto simp: eq)
    next
      case (Inr y)
      obtain s st' where y: "y = (s, st')" by fastforce
      have "pass_step ?n flag ?st st'" using ok a(2-4) 1(3) Inr y by simp
      then have "s = Next \<Longrightarrow> text_pass flag (text_state st') = Some r \<Longrightarrow>
          map_sum id (map_prod id text_state) (process_lines flag st') = r"
        using 1(1) [OF a(1) refl refl refl _ Inr y [symmetric]] by (simp add: pass_step_def id_def)
      moreover have "l = Inr (s, text_state st')" using p Inr y by simp
      ultimately show ?thesis using pass Line l unfolding unf Inr y by (cases s) (auto simp: eq id_def)
    qed
  qed
qed

lemma inf_start_ok: "line_ok QTIDEV_INF_MAX_LINE_SIZE (line_buf (inf_start f inp ks))"
  by (simp add: inf_start_def line_ok_def)

text \<open>
  C18: The parser refines its reading of the text of a file: where every entry line has an operator, a pass
  over the file computes what the pass over its lines does, faults and allocations included; the fixed
  array of a line, the ends written into it and the indices are not seen.
\<close>

theorem processData_refines_text:
  assumes "text_pass flag (text_state (inf_start f inp ks)) = Some r" and "flag \<longrightarrow> table_ok f"
  shows "processData flag f inp ks = bnd r (\<lambda>(ret, st). Inr (ret, inf_info st, inf_kmem st))"
proof -
  have "map_sum id (map_prod id text_state) (process_lines flag (inf_start f inp ks)) = r"
    by (rule process_lines_text [OF inf_start_ok _ assms(1)]) (use assms(2) in \<open>simp add: inf_start_def\<close>)
  then show ?thesis
    by (cases "process_lines flag (inf_start f inp ks)") (auto simp: processData_def)
qed

section \<open>Writing a file\<close>

definition inf_lines :: "string list \<Rightarrow> string" where
  "inf_lines ls = concat (map (\<lambda>l. l @ [newline]) ls)"

definition text_line_ok :: "string \<Rightarrow> bool" where
  "text_line_ok t \<longleftrightarrow> t \<noteq> [] \<and> newline \<notin> set t \<and> NUL \<notin> set t \<and> \<not> isspace (last t) \<and> last t \<noteq> backslash
     \<and> length t < QTIDEV_INF_MAX_LINE_SIZE"

lemma take_line_newline: "newline \<notin> set t \<Longrightarrow> length t < n \<Longrightarrow> take_line n (t @ newline # r) = Some (t @ [newline], r)"
proof (induction t arbitrary: n)
  case Nil
  then show ?case by (cases n) simp_all
next
  case (Cons c t)
  then show ?case by (cases n) auto
qed

lemma logical_line_written:
  assumes "text_line_ok t"
  shows "logical_line QTIDEV_INF_MAX_LINE_SIZE [] (inf_lines (t # ls)) = Line t (inf_lines ls)"
proof -
  note t = assms [unfolded text_line_ok_def]
  have "take_line QTIDEV_INF_MAX_LINE_SIZE (inf_lines (t # ls)) = Some (t @ [newline], inf_lines ls)"
    using take_line_newline [of t QTIDEV_INF_MAX_LINE_SIZE "inf_lines ls"] t by (simp add: inf_lines_def)
  moreover have "takeWhile (\<lambda>c. c \<noteq> NUL) (t @ [newline]) = t @ [newline]" using t by (auto simp: takeWhile_eq_all_conv)
  moreover have "isspace newline" by (simp add: isspace_def)
  moreover have "strip_space t = t" using t by (cases t rule: rev_cases) (simp_all add: strip_space_def)
  ultimately show ?thesis using t by (subst logical_line.simps) (simp add: Let_def)
qed

lemma logical_line_end: "logical_line QTIDEV_INF_MAX_LINE_SIZE [] (inf_lines []) = Stop (- ENXIO) []"
  by (subst logical_line.simps) (simp add: inf_lines_def eval_nat_numeral)

text \<open>A device, printed.\<close>

definition hex_char :: "nat \<Rightarrow> char" where
  "hex_char n = char_of (if n < 10 then 48 + n else 87 + n)"

definition hex4 :: "int \<Rightarrow> string" where
  "hex4 n = map (\<lambda>k. hex_char (nat n div k mod 16)) [4096, 256, 16, 1]"

definition hex2 :: "int \<Rightarrow> string" where
  "hex2 n = map (\<lambda>k. hex_char (nat n div k mod 16)) [16, 1]"

definition device_line :: "devInfo_t \<Rightarrow> string" where
  "device_line d = mpKey d @ ''=Q, USB'' @ [backslash] @ ''VID_'' @ hex4 (mVid_pid_iface d ! 0) @ ''&PID_'' @
     hex4 (mVid_pid_iface d ! 1) @ ''&MI_'' @ hex2 (mVid_pid_iface d ! 2)"

definition plain :: "char \<Rightarrow> bool" where
  "plain c \<longleftrightarrow> \<not> trimmed c \<and> c \<notin> set '';#[:='' \<and> c \<noteq> NUL"

definition device_ok :: "devInfo_t \<Rightarrow> bool" where
  "device_ok d \<longleftrightarrow> mDevType d = QTIDEV_INF_TYPE_BULK \<and> mpKey d \<noteq> [] \<and> length (mpKey d) < 64 \<and> list_all plain (mpKey d)
     \<and> (\<exists>v p i. mVid_pid_iface d = [v, p, i] \<and> 0 \<le> v \<and> v < 65536 \<and> 0 \<le> p \<and> p < 65536 \<and> 0 \<le> i \<and> i < 256)"

lemma digit_value_hex: "k < 16 \<Longrightarrow> digit_value (hex_char k) = k"
  by (auto simp: digit_value_def hex_char_def Let_def)

lemma hex_char_code: "k < 16 \<Longrightarrow> (of_char (hex_char k) :: nat) = (if k < 10 then 48 + k else 87 + k)"
  by (simp add: hex_char_def)

lemma char_eq_code: "c = d \<longleftrightarrow> (of_char c :: nat) = of_char d"
  by (simp add: of_char_eq_iff)

lemma hex_char_plain:
  assumes "k < 16"
  shows "plain (hex_char k)" and "hex_char k \<noteq> CHR ''_''" and "hex_char k \<noteq> CHR '',''" and "hex_char k \<noteq> backslash"
    and "tolower (hex_char k) \<noteq> CHR ''x''"
proof -
  note [simp] = hex_char_code [OF assms]
  show "hex_char k \<noteq> CHR ''_''" "hex_char k \<noteq> CHR '',''" "hex_char k \<noteq> backslash"
    unfolding char_eq_code [of "hex_char k"] using assms by auto
  have "\<not> isupper (hex_char k)" using assms by (simp add: isupper_def Let_def)
  then show "tolower (hex_char k) \<noteq> CHR ''x''"
    unfolding char_eq_code [of "tolower (hex_char k)"] using assms by (simp add: tolower_def)
  have "\<not> isspace (hex_char k)" using assms by (simp add: isspace_def Let_def)
  then show "plain (hex_char k)"
    unfolding plain_def trimmed_def set_simps insert_iff char_eq_code [of "hex_char k"] using assms by simp
qed

lemma parse_stops: "r = [] \<or> 16 \<le> digit_value (hd r) \<Longrightarrow> parse_integer 16 acc r = acc"
  by (cases r) auto

lemma parse_digit: "k < 16 \<Longrightarrow> acc < 2 ^ 20 \<Longrightarrow> parse_integer 16 acc (hex_char k # r) = parse_integer 16 (16 * acc + k) r"
  by (simp add: digit_value_hex)

lemma parse_digits:
  assumes "a < 16" and "b < 16" and "r = [] \<or> 16 \<le> digit_value (hd r)"
  shows "parse_integer 16 0 (hex_char a # hex_char b # r) = 16 * a + b"
    and "c < 16 \<Longrightarrow> d < 16 \<Longrightarrow> parse_integer 16 0 (hex_char a # hex_char b # hex_char c # hex_char d # r)
      = 16 * (16 * (16 * a + b) + c) + d"
proof -
  have a: "parse_integer 16 0 (hex_char a # s) = parse_integer 16 a s" for s using parse_digit [OF assms(1), of 0] by simp
  have b: "parse_integer 16 a (hex_char b # s) = parse_integer 16 (16 * a + b) s" for s
    using assms(1) by (intro parse_digit [OF assms(2)]) simp
  show "parse_integer 16 0 (hex_char a # hex_char b # r) = 16 * a + b"
    using parse_stops [OF assms(3)] by (simp only: a b)
  show "parse_integer 16 0 (hex_char a # hex_char b # hex_char c # hex_char d # r) = 16 * (16 * (16 * a + b) + c) + d"
    if "c < 16" "d < 16"
  proof -
    have "parse_integer 16 (16 * a + b) (hex_char c # s) = parse_integer 16 (16 * (16 * a + b) + c) s" for s
      using assms(1,2) by (intro parse_digit [OF that(1)]) simp
    moreover have "parse_integer 16 (16 * (16 * a + b) + c) (hex_char d # s)
        = parse_integer 16 (16 * (16 * (16 * a + b) + c) + d) s" for s
      using assms(1,2) that(1) by (intro parse_digit [OF that(2)]) simp
    ultimately show ?thesis using parse_stops [OF assms(3)] by (simp only: a b)
  qed
qed

lemma strtoul_hex:
  assumes "k < 16"
  shows "simple_strtoul 16 (c # hex_char k # r) = parse_integer 16 0 (c # hex_char k # r)"
proof -
  have "map tolower (take 2 (c # hex_char k # r)) \<noteq> ''0x''" using hex_char_plain(5) [OF assms] by simp
  then show ?thesis unfolding simple_strtoul_def by (intro if_not_P) blast
qed

lemma digits4:
  assumes "(m :: nat) < 65536"
  shows "16 * (16 * (16 * (m div 4096 mod 16) + m div 256 mod 16) + m div 16 mod 16) + m mod 16 = m"
proof -
  have "m div 4096 mod 16 = m div 4096" using assms by (simp add: mod_less less_mult_imp_div_less)
  moreover have "m div 256 = m div 16 div 16" "m div 4096 = m div 16 div 16 div 16" by (simp_all flip: div_mult2_eq)
  ultimately show ?thesis by (simp only: mult_div_mod_eq)
qed

lemma parse_hex:
  assumes "r = [] \<or> 16 \<le> digit_value (hd r)"
  shows "0 \<le> n \<Longrightarrow> n < 65536 \<Longrightarrow> simple_strtoul 16 (hex4 n @ r) = nat n"
    and "0 \<le> n \<Longrightarrow> n < 256 \<Longrightarrow> simple_strtoul 16 (hex2 n @ r) = nat n"
proof -
  show "simple_strtoul 16 (hex4 n @ r) = nat n" if "0 \<le> n" "n < 65536"
  proof -
    have m: "nat n < 65536" using that by simp
    have "simple_strtoul 16 (hex4 n @ r) = parse_integer 16 0 (hex4 n @ r)"
      unfolding hex4_def list.map append_Cons append_Nil by (rule strtoul_hex) simp
    also have "\<dots> = 16 * (16 * (16 * (nat n div 4096 mod 16) + nat n div 256 mod 16) + nat n div 16 mod 16) + nat n mod 16"
      unfolding hex4_def list.map append_Cons append_Nil div_by_1 by (rule parse_digits(2) [OF _ _ assms]) simp_all
    also have "\<dots> = nat n" by (rule digits4 [OF m])
    finally show ?thesis .
  qed
  show "simple_strtoul 16 (hex2 n @ r) = nat n" if "0 \<le> n" "n < 256"
  proof -
    have "simple_strtoul 16 (hex2 n @ r) = parse_integer 16 0 (hex2 n @ r)"
      unfolding hex2_def list.map append_Cons append_Nil by (rule strtoul_hex) simp
    also have "\<dots> = 16 * (nat n div 16 mod 16) + nat n mod 16"
      unfolding hex2_def list.map append_Cons append_Nil div_by_1 by (rule parse_digits(1) [OF _ _ assms]) simp_all
    also have "\<dots> = nat n" using that by simp
    finally show ?thesis .
  qed
qed

lemma behind_skip: "c \<notin> set s \<Longrightarrow> behind c (s @ r) = behind c r"
  by (induction s) auto

lemma before_skip: "c \<notin> set s \<Longrightarrow> before c (s @ c # r) = s"
  by (auto simp: before_def takeWhile_tail takeWhile_eq_all_conv)

lemma hex_plain:
  "list_all plain (hex4 n)" "CHR ''_'' \<notin> set (hex4 n)" "CHR '','' \<notin> set (hex4 n)"
  "list_all plain (hex2 n)" "CHR ''_'' \<notin> set (hex2 n)" "CHR '','' \<notin> set (hex2 n)"
  "\<exists>s c. hex2 n = s @ [c] \<and> plain c \<and> c \<noteq> backslash" "length (hex4 n) = 4" "length (hex2 n) = 2"
proof -
  have ne: "CHR ''_'' \<noteq> hex_char k" "CHR '','' \<noteq> hex_char k" if "k < 16" for k
    using hex_char_plain(2,3) [OF that] by metis+
  show "\<exists>s c. hex2 n = s @ [c] \<and> plain c \<and> c \<noteq> backslash"
    by (intro exI [of _ "[hex_char (nat n div 16 mod 16)]"] exI [of _ "hex_char (nat n mod 16)"])
      (simp add: hex2_def hex_char_plain(1,4))
qed (simp_all add: hex4_def hex2_def hex_char_plain(1) hex_char_plain(2,3) [symmetric])

definition ids_text :: "int \<Rightarrow> int \<Rightarrow> int \<Rightarrow> string" where
  "ids_text v p i = '' USB'' @ backslash # ''VID_'' @ hex4 v @ ''&PID_'' @ hex4 p @ ''&MI_'' @ hex2 i"

lemma dev_ids_text:
  assumes "0 \<le> v" "v < 65536" "0 \<le> p" "p < 65536" "0 \<le> i" "i < 256"
  shows "dev_ids (ids_text v p i) 0 [x, y, z] = [v, p, i]"
proof -
  have amp: "16 \<le> digit_value (hd (''&'' @ s))" for s by (simp add: digit_value_def)
  have n: "as_int (int (nat m)) = m" if "0 \<le> m" "m < 65536" for m using that by (simp add: as_int_def)
  define r3 r2 r1 where "r3 = hex2 i" and "r2 = hex4 p @ ''&MI_'' @ r3" and "r1 = hex4 v @ ''&PID_'' @ r2"
  have s: "simple_strtoul 16 r1 = nat v" "simple_strtoul 16 r2 = nat p" "simple_strtoul 16 r3 = nat i"
    using parse_hex(1) [of "''&'' @ ''PID_'' @ r2" v] parse_hex(1) [of "''&'' @ ''MI_'' @ r3" p] parse_hex(2) [of "[]" i] amp assms
    by (simp_all add: r1_def r2_def r3_def)
  have b: "behind CHR ''_'' (ids_text v p i) = Some r1" "behind CHR ''_'' r1 = Some r2" "behind CHR ''_'' r2 = Some r3"
    "behind CHR ''_'' r3 = None"
    using hex_plain(2) [of v] hex_plain(2) [of p] hex_plain(5) [of i] behind_skip [of "CHR ''_''" "hex2 i" "[]"]
    by (simp_all add: ids_text_def r1_def r2_def r3_def behind_skip)
  show ?thesis
    using dev_ids.simps [of "ids_text v p i" 0 "[x, y, z]"] dev_ids.simps [of r1 1 "[v, y, z]"] dev_ids.simps [of r2 2 "[v, p, z]"]
      dev_ids.simps [of r3 3 "[v, p, i]"] b s n assms
    by (simp add: numeral_2_eq_2 numeral_3_eq_3)
qed

lemma device_line_entry:
  assumes "device_ok d"
  obtains v p i where "mVid_pid_iface d = [v, p, i]" and "device_line d = mpKey d @ ''='' @ ''Q,'' @ ids_text v p i"
    and "dev_entry (mpKey d) (''Q,'' @ ids_text v p i) zero_dev = d"
proof -
  note d = assms [unfolded device_ok_def]
  obtain v p i where v: "mVid_pid_iface d = [v, p, i]" "0 \<le> v" "v < 65536" "0 \<le> p" "p < 65536" "0 \<le> i" "i < 256"
    using d by blast
  have "device_line d = mpKey d @ ''='' @ ''Q,'' @ ids_text v p i" by (simp add: device_line_def ids_text_def v(1))
  moreover have "dev_entry (mpKey d) (''Q,'' @ ids_text v p i) zero_dev = d"
    using d v(1) dev_ids_text [OF v(2-7)]
    by (cases d) (simp add: dev_entry_def zero_dev_def before_def isdigit_def strncpy0_def Let_def)
  ultimately show thesis using that v(1) by blast
qed

lemma strip_right_plain: "s \<noteq> [] \<Longrightarrow> \<not> trimmed (last s) \<Longrightarrow> strip_right s = s"
  by (cases s rule: rev_cases) simp_all

lemma plain_facts:
  assumes "plain c"
  shows "\<not> trimmed c" "\<not> isspace c" "c \<noteq> newline" "c \<noteq> NUL" "c \<noteq> CHR '';''" "c \<noteq> CHR ''#''" "c \<noteq> CHR ''[''" "c \<noteq> CHR '':''" "c \<noteq> CHR ''=''"
proof -
  show "\<not> trimmed c" "c \<noteq> NUL" "c \<noteq> CHR '';''" "c \<noteq> CHR ''#''" "c \<noteq> CHR ''[''" "c \<noteq> CHR '':''" "c \<noteq> CHR ''=''"
    using assms by (simp_all add: plain_def)
  then show "\<not> isspace c" by (simp add: trimmed_def)
  moreover have "isspace newline" by (simp add: isspace_def)
  ultimately show "c \<noteq> newline" by blast
qed

lemma not_plain: "\<not> plain newline" "\<not> plain NUL" "\<not> plain CHR '';''" "\<not> plain CHR ''#''"
  using plain_facts(3-6) by blast+

lemma ids_text_facts:
  "\<exists>s c. ids_text v p i = s @ [c] \<and> plain c \<and> c \<noteq> backslash"
  "x \<in> set (ids_text v p i) \<Longrightarrow> x = CHR '' '' \<or> plain x" "length (ids_text v p i) = 28"
proof -
  obtain s c where "hex2 i = s @ [c]" "plain c" "c \<noteq> backslash" using hex_plain(7) by blast
  then show "\<exists>s c. ids_text v p i = s @ [c] \<and> plain c \<and> c \<noteq> backslash"
    by (intro exI [of _ "'' USB'' @ backslash # ''VID_'' @ hex4 v @ ''&PID_'' @ hex4 p @ ''&MI_'' @ s"] exI [of _ c])
      (simp add: ids_text_def)
  have "list_all plain ((''USB'' @ backslash # ''VID_'') @ hex4 v @ ''&PID_'' @ hex4 p @ ''&MI_'' @ hex2 i)"
  proof -
    have "list_all plain (''USB'' @ backslash # ''VID_'')" "list_all plain ''&PID_''" "list_all plain ''&MI_''"
      by (simp_all add: plain_def trimmed_def isspace_def)
    then show ?thesis using hex_plain(1,4) unfolding list_all_append by blast
  qed
  then show "x \<in> set (ids_text v p i) \<Longrightarrow> x = CHR '' '' \<or> plain x" by (auto simp: ids_text_def list_all_iff)
  show "length (ids_text v p i) = 28" by (simp add: ids_text_def hex_plain(8,9))
qed

lemma device_line_text:
  assumes "device_ok d"
  shows "text_line_ok (device_line d)" and "line_text (device_line d) = device_line d"
    and "plain (first_char (device_line d))" and "has_op (device_line d)"
    and "entry_name (device_line d) = mpKey d" and "dev_entry (mpKey d) (entry_value (device_line d)) zero_dev = d"
proof -
  have key: "mpKey d \<noteq> []" "length (mpKey d) < 64" "\<And>c. c \<in> set (mpKey d) \<Longrightarrow> plain c"
    using assms by (auto simp: device_ok_def list_all_iff)
  obtain v p i where v: "device_line d = mpKey d @ ''='' @ ''Q,'' @ ids_text v p i"
    "dev_entry (mpKey d) (''Q,'' @ ids_text v p i) zero_dev = d"
    using device_line_entry [OF assms] by blast
  obtain s c where sc: "ids_text v p i = s @ [c]" "plain c" "c \<noteq> backslash" using ids_text_facts(1) by blast
  have q: "plain CHR ''Q''" "plain CHR '',''" by (simp_all add: plain_def trimmed_def isspace_def)
  have all: "x = CHR '' '' \<or> plain x \<or> x = CHR ''='' " if "x \<in> set (device_line d)" for x
    using that key(3) ids_text_facts(2) [of x v p i] q unfolding v(1) set_append set_simps by blast
  have l: "last (device_line d) = c" "device_line d \<noteq> []" by (simp_all add: v(1) sc(1))
  note c = plain_facts [OF sc(2)]
  have "newline \<notin> set (device_line d)" using all [of newline] not_plain by auto
  moreover have "NUL \<notin> set (device_line d)" using all [of NUL] not_plain by auto
  moreover have "length (device_line d) < QTIDEV_INF_MAX_LINE_SIZE" using key(2) ids_text_facts(3) [of v p i] by (simp add: v(1))
  ultimately show "text_line_ok (device_line d)" using l c sc(3) by (simp add: text_line_ok_def)
  obtain k ks where k: "mpKey d = k # ks" using key(1) by (cases "mpKey d") auto
  have pk: "plain k" using key(3) k by simp
  show "line_text (device_line d) = device_line d"
    using strip_right_plain [OF l(2)] l(1) c(1) plain_facts(1) [OF pk] by (simp add: line_text_def v(1) k)
  show "plain (first_char (device_line d))" using pk by (simp add: v(1) k first_char_def)
  show "has_op (device_line d)" by (simp add: has_op_def v(1))
  have tw: "takeWhile (\<lambda>c. c \<noteq> CHR '';'' \<and> c \<noteq> CHR ''#'') (ids_text v p i) = ids_text v p i"
    using ids_text_facts(2) [of "CHR '';''" v p i] ids_text_facts(2) [of "CHR ''#''" v p i] not_plain(3,4)
    by (simp add: takeWhile_eq_all_conv) blast
  have ops: "\<forall>x \<in> set (mpKey d). x \<noteq> CHR '':'' \<and> x \<noteq> CHR ''=''" using key(3) plain_facts(8,9) by blast
  then have "takeWhile (\<lambda>c. c \<noteq> CHR '':'' \<and> c \<noteq> CHR ''='') (device_line d) = mpKey d"
    "dropWhile (\<lambda>c. c \<noteq> CHR '':'' \<and> c \<noteq> CHR ''='') (device_line d) = ''='' @ ''Q,'' @ ids_text v p i"
    by (simp_all add: v(1) takeWhile_append2 dropWhile_append2)
  moreover have "strip_right (mpKey d) = mpKey d"
    using strip_right_plain [OF key(1)] key(3) last_in_set [OF key(1)] plain_facts(1) by blast
  moreover have "strip_right (''Q,'' @ ids_text v p i) = ''Q,'' @ ids_text v p i"
    using c(1) by (intro strip_right_plain) (simp_all add: sc(1))
  ultimately show "entry_name (device_line d) = mpKey d" "dev_entry (mpKey d) (entry_value (device_line d)) zero_dev = d"
    using v(2) by (simp_all add: tw entry_name_def entry_value_def trimmed_def isspace_def)
qed

lemma text_pass_line:
  assumes "text_line_ok t" and "text_line flag t (st\<lparr>inf_file := inf_lines ls\<rparr>) = Some (Inr (Next, st'))"
    and "inf_file st = inf_lines (t # ls)"
  shows "text_pass flag st = text_pass flag st'"
  using assms by (subst text_pass.simps) (simp add: logical_line_written)

lemma text_pass_end:
  "inf_file st = inf_lines [] \<Longrightarrow> text_pass flag st = Some (Inr (as_int (int (inf_count st)), st\<lparr>inf_file := []\<rparr>))"
  by (subst text_pass.simps) (simp add: logical_line_end)

lemma text_line_device:
  assumes "device_ok d" and "sectionInfo st = QTIDEV_INF_DEVICE_INFO" and "Filevalid st"
  shows "text_line flag (device_line d) st =
    Some (bnd (text_entry flag (mpKey d) (entry_value (device_line d)) st) (\<lambda>st. Inr (Next, st)))"
  using device_line_text(2-5) [OF assms(1)] plain_facts(4-7) [OF device_line_text(3) [OF assms(1)]] assms(2,3)
  by (simp add: text_line_def Let_def strchr_def)

text \<open>The devices are counted, or stored behind the ones that are there.\<close>

lemma count_devices:
  assumes "list_all device_ok ds" and "inf_file st = inf_lines (map device_line ds)"
    and "sectionInfo st = QTIDEV_INF_DEVICE_INFO" and "Filevalid st"
  shows "text_pass False st = Some (Inr (as_int (int (inf_count st + length ds)), st\<lparr>inf_file := [], inf_count := inf_count st + length ds\<rparr>))"
  using assms
proof (induction ds arbitrary: st)
  case Nil
  then show ?case using text_pass_end [of st False] by simp
next
  case (Cons d ds)
  let ?st = "st\<lparr>inf_file := inf_lines (map device_line ds)\<rparr>"
  have "text_pass False st = text_pass False (?st\<lparr>inf_count := inf_count st + 1\<rparr>)"
    by (rule text_pass_line [where t = "device_line d" and ls = "map device_line ds"])
      (use Cons.prems in \<open>simp_all add: device_line_text(1) text_line_device text_entry_def Let_def\<close>)
  then show ?case using Cons.IH [of "?st\<lparr>inf_count := inf_count st + 1\<rparr>"] Cons.prems by simp
qed

lemma store_devices:
  assumes "list_all device_ok ds" and "inf_file st = inf_lines (map device_line ds)"
    and "sectionInfo st = QTIDEV_INF_DEVICE_INFO" and "Filevalid st"
    and "inf_info st = f\<lparr>mLength := length old + length ds, mNumResp := length old, mDevInfo := old @ replicate (length ds) zero_dev\<rparr>"
  shows "text_pass True st = Some (Inr (as_int (int (inf_count st)), st\<lparr>inf_file := [],
    inf_info := f\<lparr>mLength := length old + length ds, mNumResp := length old + length ds, mDevInfo := old @ ds\<rparr>\<rparr>))"
  using assms
proof (induction ds arbitrary: st old)
  case Nil
  then show ?case using text_pass_end [of st True] by (cases st) simp
next
  case (Cons d ds)
  let ?st = "st\<lparr>inf_file := inf_lines (map device_line ds), inf_info := f\<lparr>mLength := length old + Suc (length ds),
    mNumResp := length old + 1, mDevInfo := (old @ [d]) @ replicate (length ds) zero_dev\<rparr>\<rparr>"
  have d: "device_ok d" using Cons.prems(1) by simp
  have "text_pass True st = text_pass True ?st"
    by (rule text_pass_line [where t = "device_line d" and ls = "map device_line ds"])
      (use Cons.prems in \<open>simp_all add: device_line_text(1,6) [OF d] text_line_device [OF d] text_entry_def Let_def\<close>)
  then show ?case using Cons.IH [of ?st "old @ [d]"] Cons.prems by simp
qed

definition inf_header :: "string list" where
  "inf_header = [''[Version]'', ''Class=Ports'', ''[Manufacturer]'', ''M=Q'', ''[Q]'']"

definition inf_text :: "devInfo_t list \<Rightarrow> string" where
  "inf_text ds = inf_lines (inf_header @ map device_line ds)"

lemma header_lines: "list_all text_line_ok inf_header"
  by (simp add: inf_header_def text_line_ok_def isspace_def)

lemma header_eval:
  "text_line flag ''[Version]'' st = Some (Inr (text_section flag ''Version]'' st))"
  "text_line flag ''[Manufacturer]'' st = Some (Inr (text_section flag ''Manufacturer]'' st))"
  "text_line flag ''[Q]'' st = Some (Inr (text_section flag ''Q]'' st))"
  by (simp_all add: text_line_def line_text_def strip_right_def trimmed_def isspace_def first_char_def strchr_def)

lemma header_sections:
  "section_of (section_name ''Version]'') names = QTIDEV_INF_VERSION"
  "section_of (section_name ''Manufacturer]'') names = QTIDEV_INF_MANUFACTURER"
  "section_of (section_name ''Q]'') [''Q''] = QTIDEV_INF_DEVICE_INFO"
  by (simp_all add: section_of_def section_name_def strncpy0_def has_prefix_def tolower_def isupper_def Let_def)

lemma header_entries:
  "sectionInfo st \<noteq> QTIDEV_INF_UNKNOWN \<Longrightarrow> Filevalid st \<Longrightarrow>
     text_line flag ''Class=Ports'' st = Some (bnd (text_entry flag ''Class'' ''Ports'' st) (\<lambda>st. Inr (Next, st)))"
  "sectionInfo st \<noteq> QTIDEV_INF_UNKNOWN \<Longrightarrow> Filevalid st \<Longrightarrow>
     text_line flag ''M=Q'' st = Some (bnd (text_entry flag ''M'' ''Q'' st) (\<lambda>st. Inr (Next, st)))"
  by (simp_all add: text_line_def line_text_def strip_right_def trimmed_def isspace_def first_char_def strchr_def has_op_def
      entry_name_def entry_value_def)

lemma Ports_class: "updateVersion ''Class'' ''Ports'' f = f\<lparr>mClass := QTIDEV_INF_CLASS_PORTS\<rparr>"
  by (simp add: updateVersion_def has_prefix_def tolower_def isupper_def Let_def)

lemma one_manufacturer: "mfg_names ''Q'' [] [] [] = ([''Q''], [])"
  by (simp add: mfg_names.simps Let_def before_def trim_def strip_right_def trimmed_def isspace_def)

lemma text_pass_header:
  "text_pass flag (text_state (inf_start f (inf_text ds) [])) = text_pass flag \<lparr>line_buf = [], inf_file = inf_lines (map device_line ds),
     sectionInfo = QTIDEV_INF_DEVICE_INFO, inf_mfg = [], Filevalid = True, inf_count = 0,
     inf_info = (if flag then f\<lparr>mClass := QTIDEV_INF_CLASS_PORTS\<rparr> else f), inf_kmem = []\<rparr>"
proof -
  let ?r = "map device_line ds" and ?g = "if flag then f\<lparr>mClass := QTIDEV_INF_CLASS_PORTS\<rparr> else f"
  define st where "st k s m g = \<lparr>line_buf = [], inf_file = inf_lines (drop k inf_header @ ?r), sectionInfo = s,
     inf_mfg = m, Filevalid = (0 < k), inf_count = 0, inf_info = g, inf_kmem = []\<rparr>" for k s m g
  have "text_state (inf_start f (inf_text ds) []) = st 0 QTIDEV_INF_UNKNOWN [] f"
    by (simp add: inf_start_def inf_text_def st_def)
  also have "text_pass flag \<dots> = text_pass flag (st 1 QTIDEV_INF_VERSION [] f)"
    by (rule text_pass_line [where t = "''[Version]''" and ls = "drop 1 inf_header @ ?r"])
      (use header_lines in \<open>simp_all add: st_def header_eval header_sections text_section_def inf_header_def\<close>)
  also have "\<dots> = text_pass flag (st 2 QTIDEV_INF_VERSION [] ?g)"
    by (rule text_pass_line [where t = "''Class=Ports''" and ls = "drop 2 inf_header @ ?r"])
      (use header_lines in \<open>simp_all add: st_def header_entries text_entry_def Ports_class inf_header_def\<close>)
  also have "\<dots> = text_pass flag (st 3 QTIDEV_INF_MANUFACTURER [] ?g)"
    by (rule text_pass_line [where t = "''[Manufacturer]''" and ls = "drop 3 inf_header @ ?r"])
      (use header_lines in \<open>simp_all add: st_def header_eval header_sections text_section_def inf_header_def\<close>)
  also have "\<dots> = text_pass flag (st 4 QTIDEV_INF_MANUFACTURER [''Q''] ?g)"
    by (rule text_pass_line [where t = "''M=Q''" and ls = "drop 4 inf_header @ ?r"])
      (use header_lines in \<open>simp_all add: st_def header_entries text_entry_def one_manufacturer inf_header_def\<close>)
  also have "\<dots> = text_pass flag (st 5 QTIDEV_INF_DEVICE_INFO [] ?g)"
    by (rule text_pass_line [where t = "''[Q]''" and ls = "drop 5 inf_header @ ?r"])
      (use header_lines in \<open>simp_all add: st_def header_eval header_sections text_section_def inf_header_def\<close>)
  finally show ?thesis by (simp add: st_def inf_header_def)
qed

section \<open>Results\<close>

lemma entry_size_simps:
  "QTIDevInfEntrySize (Some inp) ks = (case process_lines False (inf_start no_info inp ks) of
     Inl x \<Rightarrow> Inl x | Inr (r, st) \<Rightarrow> Inr (r, inf_kmem st))"
  "QTIDevInfParse (Some inp) f ks = (case process_lines True (inf_start f inp ks) of
     Inl x \<Rightarrow> Inl x | Inr (r, st) \<Rightarrow> Inr (0, inf_info st, inf_kmem st))"
  by (simp_all add: QTIDevInfEntrySize_def QTIDevInfParse_def processData_def split: sum.split prod.split)

text \<open>
  C21: The pass that counts the devices of a file leaves no array on any file, but for a line of white space,
  where it looks at the byte before its line; otherwise it reports that the file does not parse, or a number
  of devices that the file is at least as long as.
\<close>

theorem counting_is_safe:
  "case QTIDevInfEntrySize (Some inp) ks of
     Inl x \<Rightarrow> x = OOB_Read 0
   | Inr (r, _) \<Rightarrow> r = - 1 \<or> (\<exists>n. n \<le> length inp \<and> r = as_int (int n))"
  using process_lines_ends [OF inf_start_ok, of False no_info inp ks]
  by (auto simp: entry_size_simps pass_ends_def inf_start_def split: sum.splits)

lemma as_int_nat: "int n < 2 ^ 31 \<Longrightarrow> as_int (int n) = int n"
  by (simp add: as_int_def)



lemma text_state_eq: "st\<lparr>line_buf := []\<rparr> = st' \<Longrightarrow> inf_info st = inf_info st' \<and> inf_kmem st = inf_kmem st'"
  by auto

lemma count_written:
  assumes "list_all device_ok ds"
  shows "QTIDevInfEntrySize (Some (inf_text ds)) [] = Inr (as_int (int (length ds)), [])"
proof -
  have "text_pass False (text_state (inf_start no_info (inf_text ds) [])) = Some (Inr (as_int (int (length ds)),
      \<lparr>line_buf = [], inf_file = [], sectionInfo = QTIDEV_INF_DEVICE_INFO, inf_mfg = [], Filevalid = True,
       inf_count = length ds, inf_info = no_info, inf_kmem = []\<rparr>))"
    unfolding text_pass_header by (subst count_devices [OF assms]) simp_all
  from process_lines_text [OF inf_start_ok _ this] show ?thesis
    by (cases "process_lines False (inf_start no_info (inf_text ds) [])") (auto simp: entry_size_simps dest!: text_state_eq split: prod.splits)
qed

lemma store_written:
  assumes "list_all device_ok ds"
    and "f = \<lparr>mClass = c, mLength = length ds, mNumResp = 0, mDevInfo = replicate (length ds) zero_dev\<rparr>"
  shows "QTIDevInfParse (Some (inf_text ds)) f [] =
    Inr (0, \<lparr>mClass = QTIDEV_INF_CLASS_PORTS, mLength = length ds, mNumResp = length ds, mDevInfo = ds\<rparr>, [])"
proof -
  have "text_pass True (text_state (inf_start f (inf_text ds) [])) = Some (Inr (as_int 0,
      \<lparr>line_buf = [], inf_file = [], sectionInfo = QTIDEV_INF_DEVICE_INFO, inf_mfg = [], Filevalid = True,
       inf_count = 0, inf_info = \<lparr>mClass = QTIDEV_INF_CLASS_PORTS, mLength = length ds, mNumResp = length ds, mDevInfo = ds\<rparr>,
       inf_kmem = []\<rparr>))"
    unfolding text_pass_header
    by (subst store_devices [OF assms(1), where old = "[]" and f = "f\<lparr>mClass := QTIDEV_INF_CLASS_PORTS\<rparr>"])
      (simp_all add: assms(2))
  from process_lines_text [OF inf_start_ok _ this] show ?thesis
    by (cases "process_lines True (inf_start f (inf_text ds) [])")
      (auto simp: entry_size_simps inf_start_def table_ok_def assms(2) dest!: text_state_eq split: prod.splits)
qed

text \<open>
  C19: Writing devices to a file and loading it gives them back: for every table of well-formed devices, the
  drivers' \<open>UpdateDeviceInfo\<close> on the file that lists them, each on its line with its name and its vendor,
  product and interface ids in hexadecimal, returns the same table, in order, and the class of the file.
\<close>

theorem device_file_round_trip:
  assumes "list_all device_ok ds" and "length ds < 2 ^ 31"
  shows "UpdateDeviceInfo (Some (Some (inf_text ds))) [] = Inr (0, Some
    \<lparr>mClass = QTIDEV_INF_CLASS_PORTS, mLength = length ds, mNumResp = length ds, mDevInfo = ds\<rparr>, [])"
proof -
  have n: "as_int (int (length ds)) = int (length ds)" using assms(2) by (simp add: as_int_nat)
  show ?thesis
    using count_written [OF assms(1)] store_written [OF assms(1) refl]
    by (simp add: UpdateDeviceInfo_def n)
qed


text \<open>Two devices, for the witnesses.\<close>

definition two_devices :: "devInfo_t list" where
  "two_devices = [\<lparr>mDevType = QTIDEV_INF_TYPE_BULK, mpKey = ''rmnet'', mVid_pid_iface = [0x5C6, 0x9001, 8]\<rparr>,
     \<lparr>mDevType = QTIDEV_INF_TYPE_BULK, mpKey = ''dpl'', mVid_pid_iface = [0x5C6, 0x90DB, 4]\<rparr>]"

lemma two_devices_ok: "list_all device_ok two_devices"
  by (simp add: two_devices_def device_ok_def plain_def trimmed_def isspace_def)

definition full_table :: fileInfo_t where
  "full_table = \<lparr>mClass = QTIDEV_INF_CLASS_PORTS, mLength = 2, mNumResp = 2, mDevInfo = two_devices\<rparr>"

lemma two_devices_facts: "length two_devices = 2" "mNumResp full_table = length (mDevInfo full_table)"
  by (simp_all add: two_devices_def full_table_def)

theorem device_file_round_trip_witness:
  "UpdateDeviceInfo (Some (Some (inf_text two_devices))) [] = Inr (0, Some full_table, [])"
  using device_file_round_trip [OF two_devices_ok] by (simp add: two_devices_facts full_table_def)

lemma two_devices_loaded:
  "UpdateDeviceInfo (Some (Some (inf_text two_devices))) [] = Inr (0, Some full_table, [])"
  using count_written [OF two_devices_ok] store_written [OF two_devices_ok refl]
  by (simp add: UpdateDeviceInfo_def as_int_def two_devices_facts full_table_def)

lemma two_devices_length: "length (inf_text two_devices) < 2 ^ 31"
  by (simp add: inf_text_def inf_lines_def inf_header_def two_devices_def device_line_def hex4_def hex2_def)


theorem processData_refines_text_witness:
  "processData False no_info (inf_text two_devices) [] = Inr (2, no_info, [])"
proof -
  have "text_pass False (text_state (inf_start no_info (inf_text two_devices) [])) = Some (Inr (as_int (int 2),
      \<lparr>line_buf = [], inf_file = [], sectionInfo = QTIDEV_INF_DEVICE_INFO, inf_mfg = [], Filevalid = True,
       inf_count = 2, inf_info = no_info, inf_kmem = []\<rparr>))"
    unfolding text_pass_header by (subst count_devices [OF two_devices_ok]) (simp_all add: two_devices_def)
  from processData_refines_text [OF this] show ?thesis by (simp add: as_int_def)
qed

section \<open>Looking devices up\<close>

lemma find_entry_full:
  assumes "n = length devs" and "idx \<le> n"
  shows "find_entry devs key n idx = (case find (\<lambda>i. take 64 (mpKey (devs ! i)) = take 64 key) [idx..<n] of
     Some i \<Rightarrow> Inr i | None \<Rightarrow> Inl (OOB_Read n))"
  using assms
proof (induction devs key n idx rule: find_entry.induct)
  case (1 devs key n idx)
  show ?case
  proof (cases "idx = n")
    case True
    then show ?thesis using 1(2) by (subst find_entry.simps) simp
  next
    case False
    then have "[idx..<n] = idx # [idx + 1..<n]" "\<not> idx \<ge> length devs" using 1(2,3) by (simp_all add: upt_conv_Cons)
    then show ?thesis using 1 by (subst find_entry.simps) simp
  qed
qed

text \<open>
  On a full table, the kind that loading a file leaves, a line of the strings section renames the first
  device with its key; a key that no device has makes the search leave the table, where it reads and would
  go on to write.
\<close>

theorem strings_rename_or_overrun:
  assumes "mNumResp f = length (mDevInfo f)"
  shows "updateDevStringInfo key val f =
    (case find (\<lambda>i. take 64 (mpKey (mDevInfo f ! i)) = take 64 key) [0..<length (mDevInfo f)] of
       None \<Rightarrow> Inl (OOB_Read (length (mDevInfo f)))
     | Some i \<Rightarrow>
         let d = extractDevName val 64 (mDevInfo f ! i)
         in Inr (f\<lparr>mDevInfo := (mDevInfo f)[i := if mpKey d = [] then d\<lparr>mpKey := ''QT''\<rparr> else d]\<rparr>))"
  unfolding updateDevStringInfo_def assms find_entry_full [OF refl le0]
  by (simp add: strncpy0_def Let_def split: option.split)

theorem strings_rename_or_overrun_witness:
  "updateDevStringInfo ''QTISrcDisk'' ''USB Disk'' full_table = Inl (OOB_Read 2)"
  using strings_rename_or_overrun [OF two_devices_facts(2), of "''QTISrcDisk''" "''USB Disk''"]
  by (simp add: full_table_def two_devices_def upt_rec)

lemma dev_lookup_full:
  assumes "mNumResp f = length (mDevInfo f)" and "idx \<le> length (mDevInfo f)"
  shows "dev_lookup f p i idx =
    (case find (\<lambda>d. mVid_pid_iface d ! 1 = p \<and> mVid_pid_iface d ! 2 = i) (drop idx (mDevInfo f)) of
       Some d \<Rightarrow> Inr (Some d) | None \<Rightarrow> Inl (OOB_Read (length (mDevInfo f))))"
  using assms
proof (induction f p i idx rule: dev_lookup.induct)
  case (1 f p i idx)
  show ?case
  proof (cases "idx = length (mDevInfo f)")
    case True
    then show ?thesis using 1(2) by (subst dev_lookup.simps) simp
  next
    case False
    then have "drop idx (mDevInfo f) = mDevInfo f ! idx # drop (idx + 1) (mDevInfo f)" "\<not> idx \<ge> length (mDevInfo f)"
      using 1(3) by (simp_all add: Cons_nth_drop_Suc)
    then show ?thesis using 1 by (subst dev_lookup.simps) (simp add: Let_def)
  qed
qed

text \<open>
  Looking up an interface in a full table gives the first device with its product and interface ids; for
  an interface that is not listed the search reads the entry behind the table instead of giving up.
\<close>

theorem lookup_finds_or_overreads:
  assumes "mNumResp f = length (mDevInfo f)"
  shows "QTIDevInfGetDevInfo p i (Some f) =
    (case find (\<lambda>d. mVid_pid_iface d ! 1 = int (unat p) \<and> mVid_pid_iface d ! 2 = int (unat i)) (mDevInfo f) of
       Some d \<Rightarrow> Inr (Some d) | None \<Rightarrow> Inl (OOB_Read (length (mDevInfo f))))"
  using dev_lookup_full [OF assms, where idx = 0] by (simp add: QTIDevInfGetDevInfo_def)

theorem lookup_finds_or_overreads_witness:
  "QTIDevInfGetDevInfo 0x90DB 4 (Some full_table) = Inr (Some (two_devices ! 1))
    \<and> QTIDevInfGetDevInfo 0x90DB 5 (Some full_table) = Inl (OOB_Read 2)"
  using lookup_finds_or_overreads [OF two_devices_facts(2), of "0x90DB" 4]
    lookup_finds_or_overreads [OF two_devices_facts(2), of "0x90DB" 5]
  by (simp add: full_table_def two_devices_def)

end
