(* ===== verification/QosFilter.thy ===== *)
theory QosFilter
  imports Prelude
begin

text \<open>
  The packet filters of the quality-of-service layer of the Windows miniport, \<^verbatim>\<open>windows/ndis/MPQOS.c\<close>:
  the readers of IPv4 and IPv6 headers, the match of a packet with a filter, and the identifications of
  fragmented datagrams that a filter remembers. It is the build for NDIS 6.20 with IPv6. A packet is
  looked at in the adapter's packet buffer, whose bytes behind the packet are what earlier packets left;
  a read behind the buffer is a fault. Answers of the memory allocator are a list of booleans, all
  successes when it is used up.
\<close>

unbundle bit_operations_syntax

declare bnd_cong [fundef_cong]

section \<open>Loads\<close>

definition of_be32 :: "bytes \<Rightarrow> u32" where
  "of_be32 bs = word_of_nat (16777216 * unat (bs ! 0) + 65536 * unat (bs ! 1) + 256 * unat (bs ! 2) + unat (bs ! 3))"

definition rd32be :: "bytes \<Rightarrow> nat \<Rightarrow> fault + u32" where
  "rd32be b i = (if i + 4 \<le> length b then Inr (of_be32 (drop i b)) else Inl (OOB_Read i))"

text \<open>A copy of \<open>n\<close> bytes.\<close>

definition rdn :: "bytes \<Rightarrow> nat \<Rightarrow> nat \<Rightarrow> fault + bytes" where
  "rdn b i n = (if i + n \<le> length b then Inr (take n (drop i b)) else Inl (OOB_Read i))"

section \<open>Steps that can fault\<close>

text \<open>A step returns a value with \<open>Q\<close>, or faults with \<open>E\<close>.\<close>

definition gives :: "(fault \<Rightarrow> bool) \<Rightarrow> ('a \<Rightarrow> bool) \<Rightarrow> fault + 'a \<Rightarrow> bool" where
  "gives E Q m = (case m of Inl e \<Rightarrow> E e | Inr x \<Rightarrow> Q x)"

lemma gives_simps [simp]:
  "gives E Q (Inl e) = E e" "gives E Q (Inr x) = Q x"
  by (simp_all add: gives_def)

lemma gives_bnd [simp]: "gives E Q (bnd m f) \<longleftrightarrow> gives E (\<lambda>x. gives E Q (f x)) m"
  by (cases m) simp_all

lemma gives_anything [simp]: "gives (\<lambda>_. True) (\<lambda>_. True) m"
  by (cases m) simp_all

lemma givesD: "gives E Q m \<Longrightarrow> m = Inr x \<Longrightarrow> Q x"
  by simp

lemma gives_if: "gives E Q (if b then m else n) \<longleftrightarrow> (b \<longrightarrow> gives E Q m) \<and> (\<not> b \<longrightarrow> gives E Q n)"
  by simp

lemma gives_mono:
  assumes "gives E Q m" and "\<And>x. m = Inr x \<Longrightarrow> Q x \<Longrightarrow> R x" and "\<And>e. E e \<Longrightarrow> F e"
  shows "gives F R m"
  using assms by (cases m) simp_all

definition over_read :: "fault \<Rightarrow> bool" where
  "over_read e \<longleftrightarrow> (\<exists>i. e = OOB_Read i)"

lemma gives_reads [simp]:
  "gives over_read (\<lambda>_. True) (rd8 b i)" "gives over_read (\<lambda>_. True) (rd16 b i)"
  "gives over_read (\<lambda>_. True) (rd16be b i)" "gives over_read (\<lambda>_. True) (rd32be b i)"
  "gives over_read (\<lambda>_. True) (rdn b i n)"
  by (simp_all add: rd8_def rd16_def rd16be_def rd32be_def rdn_def over_read_def)

lemma gives_always: "gives E (\<lambda>_. True) m \<Longrightarrow> (\<And>x. Q x) \<Longrightarrow> gives E Q m"
  by (cases m) simp_all

lemmas reads_always = gives_reads [THEN gives_always]

section \<open>Headers\<close>

abbreviation (input) "ICMP \<equiv> (0x01 :: u8)"
abbreviation (input) "TCP \<equiv> (0x06 :: u8)"
abbreviation (input) "UDP \<equiv> (0x11 :: u8)"
abbreviation (input) "TCPUDP \<equiv> (0xFD :: u8)"
abbreviation (input) "TYPE_ICMPV6 \<equiv> (0x3A :: u8)"
abbreviation (input) "TYPE_FRAGMENT \<equiv> (0x2C :: u8)"
abbreviation (input) "TYPE_ROUTING \<equiv> (43 :: u8)"
abbreviation (input) "TYPE_HOP_BY_HOP_OPT \<equiv> (0 :: u8)"

record ref_ipv4_hdr =
  v4_Version :: u8
  v4_HdrLen :: u8
  v4_TOS :: u8
  v4_TotalLength :: u16
  v4_Identification :: u16
  v4_Flags :: u8
  v4_FragmentOffset :: u16
  v4_Protocol :: u8
  v4_SrcAddr :: u32
  v4_DestAddr :: u32
  v4_SrcPort :: u16
  v4_DestPort :: u16
  icmp_Type :: u8
  icmp_Code :: u8

definition v4_base :: "bytes \<Rightarrow> nat \<Rightarrow> fault + ref_ipv4_hdr" where
  "v4_base b p =
     bnd (rd8 b p) (\<lambda>b0.
     bnd (rd8 b (p + 1)) (\<lambda>tos.
     bnd (rd16be b (p + 2)) (\<lambda>total.
     bnd (rd16 b (p + 4)) (\<lambda>ident.
     bnd (rd8 b (p + 6)) (\<lambda>b6.
     bnd (rd8 b (p + 7)) (\<lambda>b7.
     bnd (rd8 b (p + 9)) (\<lambda>proto.
     bnd (rd32be b (p + 12)) (\<lambda>src.
     bnd (rd32be b (p + 16)) (\<lambda>dest.
     Inr \<lparr>v4_Version = drop_bit 4 (b0 AND 0xF0), v4_HdrLen = (b0 AND 0x0F) * 4, v4_TOS = tos,
          v4_TotalLength = total, v4_Identification = ident, v4_Flags = drop_bit 5 b6,
          v4_FragmentOffset = push_bit 8 (ucast (b6 AND 0x1F)) OR ucast b7, v4_Protocol = proto,
          v4_SrcAddr = src, v4_DestAddr = dest, v4_SrcPort = 0, v4_DestPort = 0, icmp_Type = 0, icmp_Code = 0\<rparr>)))))))))"

definition MPQOS_GetIPHeaderV4 :: "bytes \<Rightarrow> nat \<Rightarrow> fault + ref_ipv4_hdr" where
  "MPQOS_GetIPHeaderV4 b p =
     bnd (v4_base b p) (\<lambda>h.
     let q = p + unat (v4_HdrLen h) in
     if v4_Protocol h = TCP \<or> v4_Protocol h = UDP then
       bnd (rd16be b q) (\<lambda>src.
       bnd (rd16be b (q + 2)) (\<lambda>dest.
       Inr (h\<lparr>v4_SrcPort := src, v4_DestPort := dest\<rparr>)))
     else if v4_Protocol h = ICMP then
       bnd (rd8 b q) (\<lambda>ty.
       bnd (rd8 b (q + 1)) (\<lambda>code.
       Inr (h\<lparr>icmp_Type := ty, icmp_Code := code\<rparr>)))
     else Inr h)"

record ref_ipv6_hdr =
  v6_Version :: u8
  v6_TrafficClass :: u8
  v6_FlowLabel :: u32
  v6_PayloadLength :: u16
  v6_NextHeader :: u8
  v6_HopLimit :: u8
  v6_SrcAddr :: bytes
  v6_DestAddr :: bytes
  v6_SrcPort :: u16
  v6_DestPort :: u16
  v6_MFlag :: u8
  v6_FragmentOffset :: u16
  v6_Identification :: u32
  v6_Protocol :: u8

definition v6_base :: "bytes \<Rightarrow> nat \<Rightarrow> fault + ref_ipv6_hdr" where
  "v6_base b p =
     bnd (rd8 b p) (\<lambda>b0.
     bnd (rd8 b (p + 1)) (\<lambda>b1.
     bnd (rd16 b (p + 2)) (\<lambda>label.
     bnd (rd16 b (p + 4)) (\<lambda>len.
     bnd (rd8 b (p + 6)) (\<lambda>next.
     bnd (rd8 b (p + 7)) (\<lambda>hop.
     bnd (rdn b (p + 8) 16) (\<lambda>src.
     bnd (rdn b (p + 24) 16) (\<lambda>dest.
     Inr \<lparr>v6_Version = drop_bit 4 (b0 AND 0xF0), v6_TrafficClass = push_bit 4 (b0 AND 0x0F) OR (b1 AND 0xF0),
          v6_FlowLabel = push_bit 16 (ucast (b1 AND 0x0F)) OR ucast label, v6_PayloadLength = len,
          v6_NextHeader = next, v6_HopLimit = hop, v6_SrcAddr = src, v6_DestAddr = dest, v6_SrcPort = 0,
          v6_DestPort = 0, v6_MFlag = 0, v6_FragmentOffset = 0, v6_Identification = 0, v6_Protocol = 0\<rparr>))))))))"

text \<open>
  The extension headers from \<open>p\<close> on: what follows the last one, where, and what a fragment header said. A
  routing or hop-by-hop header is eight bytes longer than the length it gives.
\<close>

function v6_ext :: "bytes \<Rightarrow> nat \<Rightarrow> u8 \<Rightarrow> ref_ipv6_hdr \<Rightarrow> fault + (u8 \<times> nat \<times> ref_ipv6_hdr)" where
  "v6_ext b p nextHdr h =
     (if nextHdr = TYPE_ROUTING \<or> nextHdr = TYPE_HOP_BY_HOP_OPT then
        bnd (rd8 b p) (\<lambda>next.
        bnd (rd8 b (p + 1)) (\<lambda>len.
        v6_ext b (p + (8 + unat len * 8)) next h))
      else if nextHdr = TYPE_FRAGMENT then
        bnd (rd8 b p) (\<lambda>next.
        bnd (rd8 b (p + 2)) (\<lambda>b2.
        bnd (rd8 b (p + 3)) (\<lambda>b3.
        bnd (rd32be b (p + 4)) (\<lambda>ident.
        v6_ext b (p + 8) next (h\<lparr>v6_MFlag := b3 AND 1, v6_FragmentOffset := push_bit 5 (ucast b2) OR ucast (drop_bit 3 b3),
          v6_Identification := ident\<rparr>)))))
      else Inr (nextHdr, p, h))"
  by pat_completeness auto
termination
  by (relation "measure (\<lambda>(b, p, _). length b - p)") (auto simp: rd8_def split: if_splits)

declare v6_ext.simps [simp del]

definition QCQOS_GetIPHeaderV6 :: "bytes \<Rightarrow> nat \<Rightarrow> fault + ref_ipv6_hdr" where
  "QCQOS_GetIPHeaderV6 b p =
     bnd (v6_base b p) (\<lambda>h.
     bnd (v6_ext b (p + 40) (v6_NextHeader h) h) (\<lambda>(next, q, h).
     if next = TCP \<or> next = UDP then
       bnd (rd16be b q) (\<lambda>src.
       bnd (rd16be b (q + 2)) (\<lambda>dest.
       Inr (h\<lparr>v6_Protocol := next, v6_SrcPort := src, v6_DestPort := dest\<rparr>)))
     else if next = TYPE_ICMPV6 then Inr (h\<lparr>v6_Protocol := next\<rparr>)
     else Inr h))"

section \<open>Filters\<close>

text \<open>
  What is remembered of a fragmented datagram. A filter has one IP version, and so have its entries; of a
  datagram of another version than 4 and 6 nothing is copied into the entry.
\<close>

datatype pkt_info = PktV4 u32 u32 u8 u16 | PktV6 bytes bytes u8 u32 | PktNone

record qmi_filter =
  IpVersion :: u8
  Ipv4SrcAddr :: u32
  Ipv4SrcAddrSubnetMask :: u32
  Ipv4DestAddr :: u32
  Ipv4DestAddrSubnetMask :: u32
  Ipv4NextHdrProtocol :: u8
  Ipv4TypeOfService :: u8
  Ipv4TypeOfServiceMask :: u8
  TcpSrcPort :: "(u16 \<times> u16) option"
  TcpDestPort :: "(u16 \<times> u16) option"
  UdpSrcPort :: "(u16 \<times> u16) option"
  UdpDestPort :: "(u16 \<times> u16) option"
  TcpUdpSrcPort :: "(u16 \<times> u16) option"
  TcpUdpDestPort :: "(u16 \<times> u16) option"
  IcmpFilterMsgType :: "u8 option"
  IcmpFilterCodeField :: "u8 option"
  Ipv6SrcAddr :: bytes
  Ipv6SrcAddrPrefixLen :: u8
  Ipv6SrcAddrMask :: "u64 \<times> u64"
  Ipv6DestAddr :: bytes
  Ipv6DestAddrPrefixLen :: u8
  Ipv6DestAddrMask :: "u64 \<times> u64"
  Ipv6NextHdrProtocol :: u8
  Ipv6TrafficClass :: u8
  Ipv6TrafficClassMask :: u8
  Ipv6FlowLabel :: u32
  Precedence :: u16
  Flow :: nat
  PacketInfoList :: "pkt_info list"

definition info_v4 :: "ref_ipv4_hdr \<Rightarrow> pkt_info" where
  "info_v4 h = (if v4_Version h = 4 then PktV4 (v4_SrcAddr h) (v4_DestAddr h) (v4_Protocol h) (v4_Identification h)
     else PktNone)"

definition info_v6 :: "ref_ipv6_hdr \<Rightarrow> pkt_info" where
  "info_v6 h = PktV6 (v6_SrcAddr h) (v6_DestAddr h) (v6_Protocol h) (v6_Identification h)"

definition MPQOS_CachePacketInfo :: "pkt_info \<Rightarrow> qmi_filter \<Rightarrow> bool list \<Rightarrow> qmi_filter \<times> bool list" where
  "MPQOS_CachePacketInfo i f ks =
     (if ks \<noteq> [] \<and> \<not> hd ks then (f, tl ks) else (f\<lparr>PacketInfoList := PacketInfoList f @ [i]\<rparr>, tl ks))"

text \<open>The first entry of the list that agrees in all fields; other versions than 4 and 6 have none.\<close>

definition MPQOS_IpIdMatch :: "pkt_info \<Rightarrow> pkt_info list \<Rightarrow> pkt_info option" where
  "MPQOS_IpIdMatch i infos = (if i = PktNone then None else find (\<lambda>x. x = i) infos)"

text \<open>A port, a first port and a range: they are compared as integers.\<close>

definition port_out :: "u16 \<Rightarrow> (u16 \<times> u16) option \<Rightarrow> bool" where
  "port_out port spec = (case spec of None \<Rightarrow> False
     | Some (lo, n) \<Rightarrow> port < lo \<or> unat port > unat lo + unat n)"

text \<open>The fields of an unfragmented packet or a first fragment.\<close>

definition v4_fields_match :: "qmi_filter \<Rightarrow> ref_ipv4_hdr \<Rightarrow> bool" where
  "v4_fields_match f h =
     (if Ipv4TypeOfServiceMask f \<noteq> 0 \<and> v4_TOS h \<noteq> Ipv4TypeOfService f then False
      else if Ipv4NextHdrProtocol f = TCPUDP \<and> v4_Protocol h \<noteq> TCP \<and> v4_Protocol h \<noteq> UDP then False
      else if Ipv4NextHdrProtocol f \<noteq> TCPUDP \<and> Ipv4NextHdrProtocol f \<noteq> 0
        \<and> v4_Protocol h \<noteq> Ipv4NextHdrProtocol f then False
      else if Ipv4SrcAddrSubnetMask f \<noteq> 0
        \<and> v4_SrcAddr h AND Ipv4SrcAddrSubnetMask f \<noteq> Ipv4SrcAddr f AND Ipv4SrcAddrSubnetMask f then False
      else if Ipv4DestAddrSubnetMask f \<noteq> 0
        \<and> v4_DestAddr h AND Ipv4DestAddrSubnetMask f \<noteq> Ipv4DestAddr f AND Ipv4DestAddrSubnetMask f then False
      else if Ipv4NextHdrProtocol f = 0 then True
      else if v4_Protocol h = TCP then
        \<not> port_out (v4_SrcPort h) (TcpSrcPort f) \<and> \<not> port_out (v4_SrcPort h) (TcpUdpSrcPort f)
        \<and> \<not> port_out (v4_DestPort h) (TcpDestPort f) \<and> \<not> port_out (v4_DestPort h) (TcpUdpDestPort f)
      else if v4_Protocol h = UDP then
        \<not> port_out (v4_SrcPort h) (UdpSrcPort f) \<and> \<not> port_out (v4_SrcPort h) (TcpUdpSrcPort f)
        \<and> \<not> port_out (v4_DestPort h) (UdpDestPort f) \<and> \<not> port_out (v4_DestPort h) (TcpUdpDestPort f)
      else if v4_Protocol h = TCPUDP then
        \<not> port_out (v4_SrcPort h) (TcpUdpSrcPort f) \<and> \<not> port_out (v4_DestPort h) (TcpUdpDestPort f)
      else if v4_Protocol h = ICMP then
        \<not> (\<exists>t. IcmpFilterMsgType f = Some t \<and> icmp_Type h \<noteq> t)
        \<and> \<not> (\<exists>c. IcmpFilterCodeField f = Some c \<and> icmp_Code h \<noteq> c)
      else False)"

text \<open>
  A prefix mask as the loop builds it: a shift of the 32-bit \<open>1\<close> by 32 bits or more is not defined in C.
\<close>

definition shl_one :: "nat \<Rightarrow> u64 option" where
  "shl_one n = (if n < 31 then Some (2 ^ n) else if n = 31 then Some (- (2 ^ 31)) else None)"

fun prefix_loop :: "nat \<Rightarrow> u64 \<times> u64 \<Rightarrow> (u64 \<times> u64) option" where
  "prefix_loop 0 m = Some m"
| "prefix_loop (Suc i) m =
     (case prefix_loop i m of None \<Rightarrow> None
      | Some (hi, lo) \<Rightarrow>
          if Suc i \<le> 64 then map_option (\<lambda>b. (hi OR b, lo)) (shl_one (64 - Suc i))
          else map_option (\<lambda>b. (hi, lo OR b)) (shl_one (128 - Suc i)))"

definition QCQOS_ConstructIPPrefixMask :: "u8 \<Rightarrow> (u64 \<times> u64) option" where
  "QCQOS_ConstructIPPrefixMask len = prefix_loop (unat len) (0, 0)"

definition QCQOS_AddressesMatchV6 :: "bytes \<Rightarrow> bytes \<Rightarrow> u64 \<times> u64 \<Rightarrow> bool" where
  "QCQOS_AddressesMatchV6 a1 a2 m \<longleftrightarrow>
     of_le64 a1 AND fst m = of_le64 a2 AND fst m
     \<and> of_le64 (drop 8 a1) AND snd m = of_le64 (drop 8 a2) AND snd m"

text \<open>The IPv6 fields: \<open>None\<close> is a mismatch, \<open>Some\<close> the value of the flag \<open>bMatch\<close> at the end.\<close>

definition v6_fields_match :: "qmi_filter \<Rightarrow> ref_ipv6_hdr \<Rightarrow> bool option" where
  "v6_fields_match f h =
     (let src = Ipv6SrcAddrPrefixLen f \<noteq> 0; dest = Ipv6DestAddrPrefixLen f \<noteq> 0;
          proto = Ipv6NextHdrProtocol f \<noteq> 0 \<and> Ipv6NextHdrProtocol f \<noteq> TCPUDP;
          tclass = Ipv6TrafficClass f \<noteq> 0; label = Ipv6FlowLabel f \<noteq> 0 in
      if src \<and> \<not> QCQOS_AddressesMatchV6 (v6_SrcAddr h) (Ipv6SrcAddr f) (Ipv6SrcAddrMask f) then None
      else if dest \<and> \<not> QCQOS_AddressesMatchV6 (v6_DestAddr h) (Ipv6DestAddr f) (Ipv6DestAddrMask f) then None
      else if proto \<and> Ipv6NextHdrProtocol f \<noteq> v6_Protocol h then None
      else if tclass \<and> Ipv6TrafficClass f AND Ipv6TrafficClassMask f \<noteq> v6_TrafficClass h AND Ipv6TrafficClassMask f then None
      else if label \<and> Ipv6FlowLabel f \<noteq> v6_FlowLabel h then None
      else
        let given = src \<or> dest \<or> proto \<or> tclass \<or> label in
        if v6_Protocol h = TCP then
          if port_out (v6_SrcPort h) (TcpSrcPort f) \<or> port_out (v6_SrcPort h) (TcpUdpSrcPort f)
            \<or> port_out (v6_DestPort h) (TcpDestPort f) \<or> port_out (v6_DestPort h) (TcpUdpDestPort f) then None
          else Some (given \<or> TcpSrcPort f \<noteq> None \<or> TcpUdpSrcPort f \<noteq> None \<or> TcpDestPort f \<noteq> None \<or> TcpUdpDestPort f \<noteq> None)
        else if v6_Protocol h = UDP then
          if port_out (v6_SrcPort h) (UdpSrcPort f) \<or> port_out (v6_SrcPort h) (TcpUdpSrcPort f)
            \<or> port_out (v6_DestPort h) (UdpDestPort f) \<or> port_out (v6_DestPort h) (TcpUdpDestPort f) then None
          else Some (given \<or> UdpSrcPort f \<noteq> None \<or> TcpUdpSrcPort f \<noteq> None \<or> UdpDestPort f \<noteq> None \<or> TcpUdpDestPort f \<noteq> None)
        else if v6_Protocol h = TYPE_ICMPV6 then Some True
        else Some given)"

text \<open>
  The fragments. \<open>mf\<close> says that more of them follow, \<open>first\<close> that the offset is zero; \<open>fm\<close> is what
  the fields of an unfragmented packet say.
\<close>

definition match_fragment ::
  "bool \<Rightarrow> bool \<Rightarrow> pkt_info \<Rightarrow> bool \<Rightarrow> qmi_filter \<Rightarrow> bool list \<Rightarrow> bool \<times> qmi_filter \<times> bool list" where
  "match_fragment mf first i fm f ks =
     (if mf \<and> \<not> first then (MPQOS_IpIdMatch i (PacketInfoList f) \<noteq> None, f, ks)
      else if \<not> mf \<and> \<not> first then
        (case MPQOS_IpIdMatch i (PacketInfoList f) of
           Some x \<Rightarrow> (True, f\<lparr>PacketInfoList := remove1 x (PacketInfoList f)\<rparr>, ks)
         | None \<Rightarrow> (False, f, ks))
      else if fm \<and> mf then (True, MPQOS_CachePacketInfo i f ks)
      else (fm, f, ks))"

definition MPQOS_DoesPktMatchThisFilterV6 ::
  "qmi_filter \<Rightarrow> bytes \<Rightarrow> nat \<Rightarrow> bool list \<Rightarrow> fault + (bool \<times> qmi_filter \<times> bool list)" where
  "MPQOS_DoesPktMatchThisFilterV6 f b p ks =
     bnd (QCQOS_GetIPHeaderV6 b p) (\<lambda>h.
     Inr (match_fragment (v6_MFlag h = 1) (v6_FragmentOffset h = 0) (info_v6 h) (v6_fields_match f h = Some True) f ks))"

definition MPQOS_DoesPktMatchThisFilterEx ::
  "qmi_filter \<Rightarrow> bytes \<Rightarrow> bool list \<Rightarrow> fault + (bool \<times> qmi_filter \<times> bool list)" where
  "MPQOS_DoesPktMatchThisFilterEx f b ks =
     bnd (MPQOS_GetIPHeaderV4 b 14) (\<lambda>h.
     if v4_Version h \<noteq> IpVersion f then Inr (False, f, ks)
     else if IpVersion f = 6 then MPQOS_DoesPktMatchThisFilterV6 f b 14 ks
     else Inr (match_fragment (v4_Flags h AND 1 \<noteq> 0) (v4_FragmentOffset h = 0) (info_v4 h) (v4_fields_match f h) f ks))"

end
