(* ===== verification/QosFlow.thy ===== *)
theory QosFlow
  imports QosFilter
begin

text \<open>
  The flows of the quality-of-service layer of the Windows miniport: the queues of \<^verbatim>\<open>windows/ndis/MPQOS.c\<close>
  and the flow reports of \<^verbatim>\<open>MPQOSC.c\<close>. Flows and filters are records at addresses; a filter points to its
  flow, the list ordered by precedence to filters, and an access to a record that was freed is a fault.
  Each definition is what the code does while it holds the spin lock \<open>TxLock\<close> once; the network stack, the
  modem's reports and the dispatch thread take turns with them in any order.
\<close>

section \<open>State\<close>

datatype flow_queue = FLOW_SEND_WITH_DATA | FLOW_SEND_WITHOUT_DATA | FLOW_QUEUED | FLOW_DEFAULT

text \<open>A packet: which one it is, and its bytes.\<close>

type_synonym packet = "nat \<times> bytes"

record flow_entry =
  FlowId :: u32
  FilterList :: "nat list"
  Packets :: "packet list"
  FlowState :: flow_queue

text \<open>
  The adapter: \<open>QosHdrLen\<close> is the size of the header that is put before each packet, zero when none is;
  \<open>Down\<close> that one of the flags of \<open>fMP_ANY_FLAGS\<close> is set. \<open>TxSent\<close> and \<open>TxFailed\<close> record what was handed to
  the USB layer and what was given back to the network stack with an error.
\<close>

record qos =
  flow_at :: "nat \<Rightarrow> flow_entry option"
  filter_at :: "nat \<Rightarrow> qmi_filter option"
  next_addr :: nat
  FlowDataQueue :: "flow_queue \<Rightarrow> nat list"
  FilterPrecedenceList :: "nat list"
  DefaultFlowEnabled :: bool
  QosPacketBuffer :: bytes
  QosHdrLen :: nat
  MPDisableQoS :: bool
  Down :: bool
  TxPendingList :: "packet list"
  TxBusyList :: "packet list"
  TxSent :: "(packet \<times> u32 \<times> bool) list"
  TxFailed :: "packet list"
  QosDispThreadTxEvent :: bool
  pool :: "bool list"

abbreviation (input) "DefaultQosFlow \<equiv> (0 :: nat)"
abbreviation (input) "QOS_FILTER_PRECEDENCE_INVALID \<equiv> (256 :: u16)"

definition flow_of :: "nat \<Rightarrow> qos \<Rightarrow> fault + flow_entry" where
  "flow_of a q = (case flow_at q a of None \<Rightarrow> Inl Wild_Pointer | Some f \<Rightarrow> Inr f)"

definition filter_of :: "nat \<Rightarrow> qos \<Rightarrow> fault + qmi_filter" where
  "filter_of x q = (case filter_at q x of None \<Rightarrow> Inl Wild_Pointer | Some f \<Rightarrow> Inr f)"

definition set_flow :: "nat \<Rightarrow> flow_entry \<Rightarrow> qos \<Rightarrow> qos" where
  "set_flow a f q = q\<lparr>flow_at := (flow_at q)(a \<mapsto> f)\<rparr>"

definition unlink :: "nat \<Rightarrow> qos \<Rightarrow> qos" where
  "unlink a q = q\<lparr>FlowDataQueue := (\<lambda>t. remove1 a (FlowDataQueue q t))\<rparr>"

definition insert_tail :: "flow_queue \<Rightarrow> nat \<Rightarrow> qos \<Rightarrow> qos" where
  "insert_tail t a q = q\<lparr>FlowDataQueue := (FlowDataQueue q)(t := FlowDataQueue q t @ [a])\<rparr>"

text \<open>A flow changes its queue.\<close>

definition move_flow :: "nat \<Rightarrow> flow_queue \<Rightarrow> qos \<Rightarrow> fault + qos" where
  "move_flow a t q =
     bnd (flow_of a q) (\<lambda>f. Inr (insert_tail t a (unlink a (set_flow a (f\<lparr>FlowState := t\<rparr>) q))))"

section \<open>Filters of a flow\<close>

fun insert_by_precedence :: "(nat \<Rightarrow> u16) \<Rightarrow> nat \<Rightarrow> nat list \<Rightarrow> nat list" where
  "insert_by_precedence prec x [] = [x]"
| "insert_by_precedence prec x (y # ys) =
     (if prec x < prec y then x # y # ys else y # insert_by_precedence prec x ys)"

definition prec_of :: "qos \<Rightarrow> nat \<Rightarrow> u16" where
  "prec_of q x = (case filter_at q x of None \<Rightarrow> 0 | Some f \<Rightarrow> Precedence f)"

definition AddQosFilterToPrecedenceList :: "nat list \<Rightarrow> qos \<Rightarrow> qos" where
  "AddQosFilterToPrecedenceList xs q =
     q\<lparr>FilterPrecedenceList := fold (insert_by_precedence (prec_of q))
        (filter (\<lambda>x. prec_of q x < QOS_FILTER_PRECEDENCE_INVALID) xs) (FilterPrecedenceList q)\<rparr>"

text \<open>The filters of a report are new records, on a list of their own; here they become filters of a flow.\<close>

fun new_filters :: "qmi_filter list \<Rightarrow> qos \<Rightarrow> nat list \<times> qos" where
  "new_filters [] q = ([], q)"
| "new_filters (f # fs) q =
     (let (xs, q') = new_filters fs (q\<lparr>filter_at := (filter_at q)(next_addr q \<mapsto> f), next_addr := next_addr q + 1\<rparr>)
      in (next_addr q # xs, q'))"

definition AddQosFilter :: "nat \<Rightarrow> nat list \<Rightarrow> qos \<Rightarrow> fault + qos" where
  "AddQosFilter a xs q =
     (let q = AddQosFilterToPrecedenceList xs q in
      bnd (flow_of a q) (\<lambda>f.
      Inr (set_flow a (f\<lparr>FilterList := FilterList f @ xs\<rparr>)
        (q\<lparr>filter_at := (\<lambda>x. if x \<in> set xs then map_option (\<lambda>f. f\<lparr>Flow := a\<rparr>) (filter_at q x) else filter_at q x)\<rparr>))))"

definition RemoveQosFilterFromPrecedenceList :: "nat list \<Rightarrow> qos \<Rightarrow> qos" where
  "RemoveQosFilterFromPrecedenceList xs q =
     q\<lparr>FilterPrecedenceList := filter (\<lambda>x. x \<notin> set xs) (FilterPrecedenceList q)\<rparr>"

text \<open>The filters of a flow go, with what they remember.\<close>

definition MPQOSC_PurgeFilterList :: "nat \<Rightarrow> qos \<Rightarrow> fault + qos" where
  "MPQOSC_PurgeFilterList a q =
     bnd (flow_of a q) (\<lambda>f.
     let q = RemoveQosFilterFromPrecedenceList (FilterList f) q in
     Inr (set_flow a (f\<lparr>FilterList := []\<rparr>)
       (q\<lparr>filter_at := (\<lambda>x. if x \<in> set (FilterList f) then None else filter_at q x)\<rparr>)))"

section \<open>Flow reports of the modem\<close>

definition flow_id_at :: "qos \<Rightarrow> nat \<Rightarrow> u32 option" where
  "flow_id_at q a = map_option FlowId (flow_at q a)"

definition FindQosFlow :: "flow_queue list \<Rightarrow> u32 \<Rightarrow> qos \<Rightarrow> nat option" where
  "FindQosFlow ts fid q = find (\<lambda>a. flow_id_at q a = Some fid) (concat (map (FlowDataQueue q) ts))"

datatype flow_action = FLOW_ACTIVATED | FLOW_SUSPENDED | FLOW_MODIFIED | FLOW_DELETED | FLOW_ENABLED | FLOW_DISABLED

abbreviation (input) "qos_queues \<equiv> [FLOW_SEND_WITH_DATA, FLOW_SEND_WITHOUT_DATA, FLOW_QUEUED]"

text \<open>What a report does once it is parsed: an action, the id of the flow, and filters.\<close>

definition flow_activated :: "u32 \<Rightarrow> qmi_filter list \<Rightarrow> qos \<Rightarrow> fault + qos" where
  "flow_activated fid fs q =
     (case FindQosFlow qos_queues fid q of
        Some _ \<Rightarrow> Inr q
      | None \<Rightarrow>
          let a = next_addr q;
              f = \<lparr>FlowId = fid, FilterList = [], Packets = [], FlowState = FLOW_SEND_WITHOUT_DATA\<rparr>;
              q = insert_tail FLOW_SEND_WITHOUT_DATA a (set_flow a f (q\<lparr>next_addr := a + 1\<rparr>));
              (xs, q) = new_filters fs q
          in AddQosFilter a xs q)"

definition flow_modified :: "u32 \<Rightarrow> qmi_filter list \<Rightarrow> qos \<Rightarrow> fault + qos" where
  "flow_modified fid fs q =
     (case FindQosFlow qos_queues fid q of
        None \<Rightarrow> Inr q
      | Some a \<Rightarrow>
          bnd (MPQOSC_PurgeFilterList a q) (\<lambda>q.
          let (xs, q) = new_filters fs q in AddQosFilter a xs q))"

definition flow_deleted :: "u32 \<Rightarrow> qos \<Rightarrow> fault + qos" where
  "flow_deleted fid q =
     (case FindQosFlow qos_queues fid q of
        None \<Rightarrow> Inr q
      | Some a \<Rightarrow>
          bnd (MPQOSC_PurgeFilterList a (unlink a q)) (\<lambda>q.
          bnd (flow_of a q) (\<lambda>f.
          let q = insert_tail FLOW_DEFAULT a (set_flow a (f\<lparr>FlowState := FLOW_DEFAULT\<rparr>) q) in
          Inr (if Packets f \<noteq> [] then q\<lparr>QosDispThreadTxEvent := True\<rparr> else q))))"

definition flow_enabled :: "u32 \<Rightarrow> qos \<Rightarrow> fault + qos" where
  "flow_enabled fid q =
     (if fid = 0 then Inr (q\<lparr>DefaultFlowEnabled := True, QosDispThreadTxEvent := True\<rparr>) else
      case FindQosFlow [FLOW_QUEUED] fid q of
        None \<Rightarrow> Inr q
      | Some a \<Rightarrow>
          bnd (flow_of a q) (\<lambda>f.
          if Packets f = [] then move_flow a FLOW_SEND_WITHOUT_DATA q
          else bnd (move_flow a FLOW_SEND_WITH_DATA q) (\<lambda>q. Inr (q\<lparr>QosDispThreadTxEvent := True\<rparr>))))"

definition flow_disabled :: "u32 \<Rightarrow> qos \<Rightarrow> fault + qos" where
  "flow_disabled fid q =
     (if fid = 0 then Inr (q\<lparr>DefaultFlowEnabled := False\<rparr>) else
      case FindQosFlow [FLOW_SEND_WITH_DATA, FLOW_SEND_WITHOUT_DATA] fid q of
        None \<Rightarrow> Inr q
      | Some a \<Rightarrow> move_flow a FLOW_QUEUED q)"

definition ProcessQosFlowReport :: "flow_action \<Rightarrow> u32 \<Rightarrow> qmi_filter list \<Rightarrow> qos \<Rightarrow> fault + qos" where
  "ProcessQosFlowReport act fid fs q =
     (case act of
        FLOW_ACTIVATED \<Rightarrow> flow_activated fid fs q
      | FLOW_SUSPENDED \<Rightarrow> flow_activated fid fs q
      | FLOW_MODIFIED \<Rightarrow> flow_modified fid fs q
      | FLOW_DELETED \<Rightarrow> flow_deleted fid q
      | FLOW_ENABLED \<Rightarrow> flow_enabled fid q
      | FLOW_DISABLED \<Rightarrow> flow_disabled fid q)"

section \<open>Packets come in\<close>

text \<open>The first filter of a list that is looked at and matches; the filters remember fragments as they are tried.\<close>

fun find_filter :: "(qmi_filter \<Rightarrow> bool) \<Rightarrow> nat list \<Rightarrow> qos \<Rightarrow> fault + (nat option \<times> qos)" where
  "find_filter P [] q = Inr (None, q)"
| "find_filter P (x # xs) q =
     bnd (filter_of x q) (\<lambda>f.
     if P f then
       bnd (MPQOS_DoesPktMatchThisFilterEx f (QosPacketBuffer q) (pool q)) (\<lambda>(m, f, ks).
       let q = q\<lparr>filter_at := (filter_at q)(x \<mapsto> f), pool := ks\<rparr> in
       if m then Inr (Some x, q) else find_filter P xs q)
     else find_filter P xs q)"

definition push_packet :: "nat \<Rightarrow> packet \<Rightarrow> qos \<Rightarrow> fault + qos" where
  "push_packet a p q = bnd (flow_of a q) (\<lambda>f. Inr (set_flow a (f\<lparr>Packets := Packets f @ [p]\<rparr>) q))"

definition MPQOS_EnqueueByPrecedence :: "packet \<Rightarrow> qos \<Rightarrow> fault + (bool \<times> qos)" where
  "MPQOS_EnqueueByPrecedence p q =
     bnd (find_filter (\<lambda>_. True) (FilterPrecedenceList q) q) (\<lambda>(x, q).
     case x of None \<Rightarrow> Inr (False, q) | Some x \<Rightarrow>
     bnd (filter_of x q) (\<lambda>r.
     bnd (push_packet (Flow r) p q) (\<lambda>q.
     bnd (flow_of (Flow r) q) (\<lambda>f.
     if FlowState f = FLOW_SEND_WITHOUT_DATA
     then bnd (move_flow (Flow r) FLOW_SEND_WITH_DATA q) (\<lambda>q. Inr (True, q))
     else Inr (True, q)))))"

text \<open>The flows of a queue, for their filters without a precedence.\<close>

fun try_flows :: "flow_queue \<Rightarrow> nat list \<Rightarrow> packet \<Rightarrow> qos \<Rightarrow> fault + (bool \<times> qos)" where
  "try_flows t [] p q = Inr (False, q)"
| "try_flows t (a # as) p q =
     bnd (flow_of a q) (\<lambda>f.
     bnd (find_filter (\<lambda>r. Precedence r \<ge> QOS_FILTER_PRECEDENCE_INVALID) (FilterList f) q) (\<lambda>(x, q).
     case x of
       None \<Rightarrow> try_flows t as p q
     | Some _ \<Rightarrow>
         bnd (push_packet a p q) (\<lambda>q.
         if t = FLOW_SEND_WITHOUT_DATA then bnd (move_flow a FLOW_SEND_WITH_DATA q) (\<lambda>q. Inr (True, q))
         else Inr (True, q))))"

fun try_queues :: "flow_queue list \<Rightarrow> packet \<Rightarrow> qos \<Rightarrow> fault + (bool \<times> qos)" where
  "try_queues [] p q = Inr (False, q)"
| "try_queues (t # ts) p q =
     bnd (try_flows t (FlowDataQueue q t) p q) (\<lambda>(found, q).
     if found then Inr (True, q) else try_queues ts p q)"

definition MPQOS_Enqueue :: "packet \<Rightarrow> qos \<Rightarrow> fault + qos" where
  "MPQOS_Enqueue p q =
     bnd (MPQOS_EnqueueByPrecedence p q) (\<lambda>(found, q).
     if found then Inr q else
     bnd (if MPDisableQoS q then Inr (False, q) else try_queues qos_queues p q) (\<lambda>(found, q).
     if found then Inr q else push_packet DefaultQosFlow p q))"

text \<open>
  The copy of a packet into the packet buffer: behind the room for the header, where there is one. The chain of
  memory descriptors holds the whole packet; of a packet whose memory cannot be mapped nothing is copied.
\<close>

definition MPUSB_RetriveDataPacket :: "bytes \<Rightarrow> qos \<Rightarrow> fault + (nat \<times> qos)" where
  "MPUSB_RetriveDataPacket dat q =
     (let o' = QosHdrLen q; b = QosPacketBuffer q in
      if dat = [] then Inr (0, q)
      else if o' + length dat > length b then Inl (OOB_Write (length b))
      else Inr (o' + length dat, q\<lparr>QosPacketBuffer := take o' b @ dat @ drop (o' + length dat) b\<rparr>))"

text \<open>One packet of the pending list. The filters look at the buffer from its beginning.\<close>

definition MPQOS_CategorizePacketsEx :: "qos \<Rightarrow> fault + qos" where
  "MPQOS_CategorizePacketsEx q =
     (case TxPendingList q of
        [] \<Rightarrow> Inr q
      | p # ps \<Rightarrow>
          let q = q\<lparr>TxPendingList := ps\<rparr> in
          if Down q then Inr (q\<lparr>TxFailed := TxFailed q @ [p]\<rparr>) else
          bnd (MPUSB_RetriveDataPacket (snd p) q) (\<lambda>(dataLen, q).
          if dataLen = 0 then Inr (q\<lparr>TxFailed := TxFailed q @ [p]\<rparr>)
          else bnd (MPQOS_Enqueue p q) (\<lambda>q. Inr (q\<lparr>QosDispThreadTxEvent := True\<rparr>))))"

section \<open>Packets go out\<close>

datatype nd_status = ND_SUCCESS | ND_MEDIA_BUSY | ND_OTHER

text \<open>
  A packet of a flow. When the adapter is down and nothing is being sent, the packet is given back, and the
  caller's status keeps the value \<open>stale\<close> that it had before the call: it is not initialised.
\<close>

definition MPQOS_DequeuePacket :: "nd_status \<Rightarrow> nat \<Rightarrow> qos \<Rightarrow> fault + (packet \<times> nd_status \<times> qos)" where
  "MPQOS_DequeuePacket stale a q =
     bnd (flow_of a q) (\<lambda>f.
     case Packets f of [] \<Rightarrow> Inl Wild_Pointer | p # ps \<Rightarrow>
     let q = set_flow a (f\<lparr>Packets := ps\<rparr>) q in
     if \<not> Down q then Inr (p, ND_SUCCESS, q\<lparr>TxBusyList := TxBusyList q @ [p]\<rparr>)
     else if TxBusyList q = [] then Inr (p, stale, q\<lparr>TxFailed := TxFailed q @ [p]\<rparr>)
     else Inr (p, ND_MEDIA_BUSY, q\<lparr>TxPendingList := p # TxPendingList q\<rparr>))"

text \<open>The USB layer uses the packet that it is given; a packet that was given back is not ours any more.\<close>

definition send_packet :: "packet \<Rightarrow> nd_status \<Rightarrow> u32 \<Rightarrow> bool \<Rightarrow> qos \<Rightarrow> fault + qos" where
  "send_packet p status fid hdr q =
     (if status = ND_SUCCESS then
        if Down q then Inl Wild_Pointer else Inr (q\<lparr>TxSent := TxSent q @ [(p, fid, hdr)]\<rparr>)
      else Inr q)"

text \<open>One turn of the loop over the flows with data.\<close>

definition transmit_step :: "nd_status \<Rightarrow> qos \<Rightarrow> fault + qos" where
  "transmit_step stale q =
     (case FlowDataQueue q FLOW_SEND_WITH_DATA of
        [] \<Rightarrow> Inr q
      | a # as \<Rightarrow>
          let q = q\<lparr>FlowDataQueue := (FlowDataQueue q)(FLOW_SEND_WITH_DATA := as)\<rparr> in
          bnd (flow_of a q) (\<lambda>f.
          if Packets f \<noteq> [] then
            bnd (MPQOS_DequeuePacket stale a (insert_tail FLOW_SEND_WITH_DATA a q)) (\<lambda>(p, status, q).
            send_packet p status (FlowId f) True q)
          else Inr (insert_tail FLOW_SEND_WITHOUT_DATA a (set_flow a (f\<lparr>FlowState := FLOW_SEND_WITHOUT_DATA\<rparr>) q))))"

definition flow_load :: "qos \<Rightarrow> nat" where
  "flow_load q = (\<Sum>a \<leftarrow> FlowDataQueue q FLOW_SEND_WITH_DATA.
     Suc (case flow_at q a of None \<Rightarrow> 0 | Some f \<Rightarrow> length (Packets f)))"

lemma sum_list_mono_strict:
  assumes "x \<in> set xs" and "\<And>y. y \<in> set xs \<Longrightarrow> f y \<le> (g y :: nat)" and "f x < g x"
  shows "(\<Sum>y \<leftarrow> xs. f y) < (\<Sum>y \<leftarrow> xs. g y)"
  using assms
proof (induction xs)
  case (Cons z xs)
  show ?case
  proof (cases "x \<in> set xs")
    case True
    then show ?thesis using Cons by (simp add: add_le_less_mono)
  next
    case False
    then show ?thesis using Cons.prems sum_list_mono [of xs f g] by (auto intro: add_less_le_mono)
  qed
qed simp

text \<open>Each turn takes a packet, or an empty flow, out of the queue.\<close>

lemma transmit_step_load:
  assumes "transmit_step stale q = Inr q'" and "FlowDataQueue q FLOW_SEND_WITH_DATA = a # as"
  shows "flow_load q' < flow_load q"
proof -
  obtain f where f: "flow_at q a = Some f"
    using assms by (auto simp: transmit_step_def flow_of_def returns_iff split: option.splits)
  show ?thesis
  proof (cases "Packets f")
    case Nil
    then have "q' = insert_tail FLOW_SEND_WITHOUT_DATA a (set_flow a (f\<lparr>FlowState := FLOW_SEND_WITHOUT_DATA\<rparr>)
       (q\<lparr>FlowDataQueue := (FlowDataQueue q)(FLOW_SEND_WITH_DATA := as)\<rparr>))"
      using assms f by (simp add: transmit_step_def flow_of_def)
    then have "flow_load q' \<le> (\<Sum>a \<leftarrow> as. Suc (case flow_at q a of None \<Rightarrow> 0 | Some f \<Rightarrow> length (Packets f)))"
      unfolding flow_load_def
      by (auto simp: insert_tail_def set_flow_def f intro!: sum_list_mono)
    then show ?thesis by (simp add: flow_load_def assms(2))
  next
    case (Cons p ps)
    then have q': "flow_at q' = (flow_at q)(a \<mapsto> f\<lparr>Packets := ps\<rparr>)" "FlowDataQueue q' FLOW_SEND_WITH_DATA = as @ [a]"
      using assms f
      by (auto simp: transmit_step_def flow_of_def MPQOS_DequeuePacket_def send_packet_def insert_tail_def set_flow_def Let_def
          split: if_splits)
    let ?n = "\<lambda>q a. Suc (case flow_at q a of None \<Rightarrow> 0 | Some f \<Rightarrow> length (Packets f))"
    have "flow_load q' = (\<Sum>a \<leftarrow> a # as. ?n q' a)" by (simp add: flow_load_def q'(2))
    also have "\<dots> < (\<Sum>a \<leftarrow> a # as. ?n q a)"
      by (rule sum_list_mono_strict [of a]) (auto simp: q'(1) f Cons)
    also have "\<dots> = flow_load q" by (simp add: flow_load_def assms(2))
    finally show ?thesis .
  qed
qed

text \<open>The loop over the flows with data.\<close>

function transmit_flows :: "nd_status \<Rightarrow> qos \<Rightarrow> fault + qos" where
  "transmit_flows stale q =
     (if FlowDataQueue q FLOW_SEND_WITH_DATA = [] then Inr q
      else bnd (transmit_step stale q) (transmit_flows stale))"
  by pat_completeness auto
termination
  by (relation "measure (\<lambda>(stale, q). flow_load q)") (auto simp: neq_Nil_conv dest: transmit_step_load)

declare transmit_flows.simps [simp del]

text \<open>
  The default queue: flows that were deleted go once their packets are gone; the default flow itself goes to
  the end when a deleted flow still has packets.
\<close>

fun default_loop :: "nat list \<Rightarrow> qos \<Rightarrow> fault + (bool \<times> bool \<times> qos)" where
  "default_loop [] q = Inr (False, False, q)"
| "default_loop (a # as) q =
     bnd (flow_of a q) (\<lambda>f.
     if Packets f = [] then
       if FlowId f \<noteq> 0 \<and> a \<noteq> DefaultQosFlow then
         bnd (MPQOSC_PurgeFilterList a q) (\<lambda>q.
         let q = unlink a q in
         default_loop as (q\<lparr>flow_at := (flow_at q)(a := None)\<rparr>))
       else bnd (default_loop as q) (\<lambda>(empty, present, q). Inr (True, present, q))
     else bnd (default_loop as q) (\<lambda>(empty, present, q). Inr (empty, True, q)))"

definition MPQOS_CheckDefaultQueue :: "qos \<Rightarrow> fault + (bool \<times> qos)" where
  "MPQOS_CheckDefaultQueue q =
     bnd (default_loop (FlowDataQueue q FLOW_DEFAULT) q) (\<lambda>(empty, present, q).
     bnd (if present \<and> empty then move_flow DefaultQosFlow FLOW_DEFAULT q else Inr q) (\<lambda>q.
     Inr (present, if present then q\<lparr>QosDispThreadTxEvent := True\<rparr> else q)))"

text \<open>One packet of the default queue.\<close>

definition default_packet :: "nd_status \<Rightarrow> qos \<Rightarrow> fault + qos" where
  "default_packet stale q =
     (case FlowDataQueue q FLOW_DEFAULT of
        [] \<Rightarrow> Inr q
      | a # as \<Rightarrow>
          if \<not> DefaultFlowEnabled q then Inr q else
          bnd (flow_of a q) (\<lambda>f.
          if Packets f \<noteq> [] then
            bnd (MPQOS_DequeuePacket stale a q) (\<lambda>(p, status, q). send_packet p status 0 False q)
          else Inr q))"

definition transmit_default :: "nd_status \<Rightarrow> qos \<Rightarrow> fault + qos" where
  "transmit_default stale q =
     (if FlowDataQueue q FLOW_DEFAULT = [] \<or> \<not> DefaultFlowEnabled q then Inr q else
      bnd (default_packet stale q) (\<lambda>q.
      bnd (MPQOS_CheckDefaultQueue q) (\<lambda>(_, q). Inr q)))"

definition MPQOS_TransmitPackets :: "nd_status \<Rightarrow> qos \<Rightarrow> fault + qos" where
  "MPQOS_TransmitPackets stale q = bnd (transmit_flows stale q) (transmit_default stale)"

section \<open>Taking everything down\<close>

text \<open>The flows of a queue: their filters and, but for the default flow, they themselves are freed.\<close>

fun purge_flows :: "nat list \<Rightarrow> qos \<Rightarrow> fault + qos" where
  "purge_flows [] q = Inr q"
| "purge_flows (a # as) q =
     bnd (flow_of a q) (\<lambda>f.
     let q = RemoveQosFilterFromPrecedenceList (FilterList f) q;
         q = q\<lparr>filter_at := (\<lambda>x. if x \<in> set (FilterList f) then None else filter_at q x),
               TxFailed := TxFailed q @ Packets f,
               flow_at := (flow_at q)(a := if a = DefaultQosFlow then Some (f\<lparr>FilterList := [], Packets := []\<rparr>) else None)\<rparr>
     in purge_flows as q)"

definition MPQOS_PurgeQueues :: "qos \<Rightarrow> fault + qos" where
  "MPQOS_PurgeQueues q =
     bnd (purge_flows (concat (map (FlowDataQueue q) (qos_queues @ [FLOW_DEFAULT]))) (q\<lparr>FlowDataQueue := (\<lambda>_. [])\<rparr>)) (\<lambda>q.
     bnd (flow_of DefaultQosFlow q) (\<lambda>f.
     Inr (set_flow DefaultQosFlow (f\<lparr>FlowState := FLOW_DEFAULT\<rparr>)
       (q\<lparr>FlowDataQueue := (FlowDataQueue q)(FLOW_DEFAULT := DefaultQosFlow # FlowDataQueue q FLOW_DEFAULT)\<rparr>))))"

definition MPQOS_EnableDefaultFlow :: "bool \<Rightarrow> qos \<Rightarrow> qos" where
  "MPQOS_EnableDefaultFlow b q = q\<lparr>DefaultFlowEnabled := b\<rparr>"

end
