(* ===== verification/QosReport.thy ===== *)
theory QosReport
  imports QosFlow
begin

text \<open>
  The parser of the flow reports that the modem sends, \<^verbatim>\<open>windows/ndis/MPQOSC.c\<close>: an indication holds reports,
  a report the id and the new state of a flow and its filters, a filter its fields; all are sequences of
  types, 16-bit lengths and values. A message is the array that holds it, and a read behind it is a fault.
  What the compiler makes of a prefix mask that C does not define is the parameter \<open>undef\<close>.
\<close>

declare bnd_cong [fundef_cong]

section \<open>The fields of a filter\<close>

text \<open>Each reads the field at \<open>p\<close> of type \<open>ty\<close> and returns the filter and the size of the field.\<close>

definition mask_of :: "(u8 \<Rightarrow> u64 \<times> u64) \<Rightarrow> u8 \<Rightarrow> u64 \<times> u64" where
  "mask_of undef len = (case QCQOS_ConstructIPPrefixMask len of None \<Rightarrow> undef len | Some m \<Rightarrow> m)"

definition v6_src_field :: "(u8 \<Rightarrow> u64 \<times> u64) \<Rightarrow> bytes \<Rightarrow> nat \<Rightarrow> qmi_filter \<Rightarrow> fault + (qmi_filter \<times> nat)" where
  "v6_src_field undef b p f =
     bnd (rd16 b (p + 1)) (\<lambda>len.
     if len > 16 then
       bnd (rdn b (p + 3) 16) (\<lambda>addr.
       bnd (rd8 b (p + 19)) (\<lambda>pl.
       Inr (if pl \<le> 128
         then f\<lparr>Ipv6SrcAddr := addr, Ipv6SrcAddrPrefixLen := pl, Ipv6SrcAddrMask := mask_of undef pl\<rparr>
         else f\<lparr>Ipv6SrcAddr := addr, Ipv6SrcAddrPrefixLen := 0\<rparr>, 20)))
     else Inr (f, 20))"

definition v6_dest_field :: "(u8 \<Rightarrow> u64 \<times> u64) \<Rightarrow> bytes \<Rightarrow> nat \<Rightarrow> qmi_filter \<Rightarrow> fault + (qmi_filter \<times> nat)" where
  "v6_dest_field undef b p f =
     bnd (rd16 b (p + 1)) (\<lambda>len.
     if len > 16 then
       bnd (rdn b (p + 3) 16) (\<lambda>addr.
       bnd (rd8 b (p + 19)) (\<lambda>pl.
       Inr (if pl \<le> 128
         then f\<lparr>Ipv6DestAddr := addr, Ipv6DestAddrPrefixLen := pl, Ipv6DestAddrMask := mask_of undef pl\<rparr>
         else f\<lparr>Ipv6DestAddr := addr, Ipv6DestAddrPrefixLen := 0\<rparr>, 20)))
     else Inr (f, 20))"

definition v6_field :: "(u8 \<Rightarrow> u64 \<times> u64) \<Rightarrow> u8 \<Rightarrow> bytes \<Rightarrow> nat \<Rightarrow> qmi_filter \<Rightarrow> fault + (qmi_filter \<times> nat)" where
  "v6_field undef ty b p f =
     (if ty = 0x16 then v6_src_field undef b p f
      else if ty = 0x17 then v6_dest_field undef b p f
      else if ty = 0x19 then
        bnd (rd8 b (p + 3)) (\<lambda>c. bnd (rd8 b (p + 4)) (\<lambda>m. Inr (f\<lparr>Ipv6TrafficClass := c, Ipv6TrafficClassMask := m\<rparr>, 5)))
      else if ty = 0x1A then bnd (rd32 b (p + 3)) (\<lambda>l. Inr (f\<lparr>Ipv6FlowLabel := l\<rparr>, 7))
      else bnd (rd16 b (p + 1)) (\<lambda>len. Inr (f, 3 + unat len)))"

definition rd_port :: "bytes \<Rightarrow> nat \<Rightarrow> ((u16 \<times> u16) option \<Rightarrow> qmi_filter) \<Rightarrow> fault + (qmi_filter \<times> nat)" where
  "rd_port b p g = bnd (rd16 b (p + 3)) (\<lambda>port. bnd (rd16 b (p + 5)) (\<lambda>range. Inr (g (Some (port, range)), 7)))"

definition port_field :: "u8 \<Rightarrow> bytes \<Rightarrow> nat \<Rightarrow> qmi_filter \<Rightarrow> (fault + (qmi_filter \<times> nat)) option" where
  "port_field ty b p f =
     (if ty = 0x1B then Some (rd_port b p (\<lambda>x. f\<lparr>TcpSrcPort := x\<rparr>))
      else if ty = 0x1C then Some (rd_port b p (\<lambda>x. f\<lparr>TcpDestPort := x\<rparr>))
      else if ty = 0x1D then Some (rd_port b p (\<lambda>x. f\<lparr>UdpSrcPort := x\<rparr>))
      else if ty = 0x1E then Some (rd_port b p (\<lambda>x. f\<lparr>UdpDestPort := x\<rparr>))
      else if ty = 0x24 then Some (rd_port b p (\<lambda>x. f\<lparr>TcpUdpSrcPort := x\<rparr>))
      else if ty = 0x25 then Some (rd_port b p (\<lambda>x. f\<lparr>TcpUdpDestPort := x\<rparr>))
      else None)"

text \<open>The index and the id of a filter are read, and nothing depends on them.\<close>

definition filter_field :: "(u8 \<Rightarrow> u64 \<times> u64) \<Rightarrow> bytes \<Rightarrow> nat \<Rightarrow> qmi_filter \<Rightarrow> fault + (qmi_filter \<times> nat)" where
  "filter_field undef b p f =
     bnd (rd8 b p) (\<lambda>ty.
     if ty = 0x10 then bnd (rd8 b (p + 3)) (\<lambda>_. Inr (f, 4))
     else if ty = 0x11 then bnd (rd8 b (p + 3)) (\<lambda>v. Inr (f\<lparr>IpVersion := v\<rparr>, 4))
     else if ty = 0x12 then bnd (rd32 b (p + 3)) (\<lambda>a. bnd (rd32 b (p + 7)) (\<lambda>m.
       Inr (f\<lparr>Ipv4SrcAddr := a, Ipv4SrcAddrSubnetMask := m\<rparr>, 11)))
     else if ty = 0x13 then bnd (rd32 b (p + 3)) (\<lambda>a. bnd (rd32 b (p + 7)) (\<lambda>m.
       Inr (f\<lparr>Ipv4DestAddr := a, Ipv4DestAddrSubnetMask := m\<rparr>, 11)))
     else if ty = 0x14 then bnd (rd8 b (p + 3)) (\<lambda>v. Inr (f\<lparr>Ipv4NextHdrProtocol := v, Ipv6NextHdrProtocol := v\<rparr>, 4))
     else if ty = 0x15 then bnd (rd8 b (p + 3)) (\<lambda>v. bnd (rd8 b (p + 4)) (\<lambda>m.
       Inr (f\<lparr>Ipv4TypeOfService := v, Ipv4TypeOfServiceMask := m\<rparr>, 5)))
     else case port_field ty b p f of Some m \<Rightarrow> m | None \<Rightarrow>
     if ty = 0x1F then bnd (rd8 b (p + 3)) (\<lambda>v. Inr (f\<lparr>IcmpFilterMsgType := Some v\<rparr>, 4))
     else if ty = 0x20 then bnd (rd8 b (p + 3)) (\<lambda>v. Inr (f\<lparr>IcmpFilterCodeField := Some v\<rparr>, 4))
     else if ty = 0x22 then bnd (rd16 b (p + 3)) (\<lambda>v. Inr (f\<lparr>Precedence := v\<rparr>, 5))
     else if ty = 0x23 then bnd (rd16 b (p + 3)) (\<lambda>_. Inr (f, 5))
     else v6_field undef ty b p f)"

lemma filter_field_size: "filter_field undef b p f = Inr (f', n) \<Longrightarrow> 3 \<le> n"
proof -
  have v6: "gives (\<lambda>_. True) (\<lambda>(f, n). 3 \<le> n) (v6_field undef ty b p f)" for ty
    by (simp add: v6_field_def v6_src_field_def v6_dest_field_def gives_if)
  have port: "gives (\<lambda>_. True) (\<lambda>(f, n). 3 \<le> n) m" if "port_field ty b p f = Some m" for ty m
    using that by (auto simp: port_field_def rd_port_def split: if_splits)
  have "gives (\<lambda>_. True) (\<lambda>(f, n). 3 \<le> n) (filter_field undef b p f)"
    unfolding filter_field_def by (auto simp: gives_if v6 port simp del: One_nat_def split: option.split)
  then show "filter_field undef b p f = Inr (f', n) \<Longrightarrow> 3 \<le> n" by (auto dest: givesD)
qed

text \<open>The loop over the fields: where it ends, and the filter.\<close>

function ParseQmiQosFilter :: "(u8 \<Rightarrow> u64 \<times> u64) \<Rightarrow> bytes \<Rightarrow> nat \<Rightarrow> int \<Rightarrow> qmi_filter \<Rightarrow> fault + (nat \<times> qmi_filter)" where
  "ParseQmiQosFilter undef b p rem f =
     (if rem \<le> 0 then Inr (p, f)
      else bnd (filter_field undef b p f) (\<lambda>(f, n). ParseQmiQosFilter undef b (p + n) (rem - int n) f))"
  by pat_completeness auto
termination
  by (relation "measure (\<lambda>(undef, b, p, rem, f). nat rem)") (auto dest: filter_field_size)

declare ParseQmiQosFilter.simps [simp del]

section \<open>Reports\<close>

definition new_filter :: qmi_filter where
  "new_filter = \<lparr>IpVersion = 0, Ipv4SrcAddr = 0, Ipv4SrcAddrSubnetMask = 0, Ipv4DestAddr = 0, Ipv4DestAddrSubnetMask = 0,
     Ipv4NextHdrProtocol = 0, Ipv4TypeOfService = 0, Ipv4TypeOfServiceMask = 0, TcpSrcPort = None, TcpDestPort = None,
     UdpSrcPort = None, UdpDestPort = None, TcpUdpSrcPort = None, TcpUdpDestPort = None, IcmpFilterMsgType = None,
     IcmpFilterCodeField = None, Ipv6SrcAddr = replicate 16 0, Ipv6SrcAddrPrefixLen = 0, Ipv6SrcAddrMask = (0, 0),
     Ipv6DestAddr = replicate 16 0, Ipv6DestAddrPrefixLen = 0, Ipv6DestAddrMask = (0, 0), Ipv6NextHdrProtocol = 0,
     Ipv6TrafficClass = 0, Ipv6TrafficClassMask = 0, Ipv6FlowLabel = 0, Precedence = QOS_FILTER_PRECEDENCE_INVALID,
     Flow = 0, PacketInfoList = []\<rparr>"

text \<open>The answers of the allocator: a success when they are used up.\<close>

definition granted :: "bool list \<Rightarrow> bool" where
  "granted ks \<longleftrightarrow> ks = [] \<or> hd ks"

text \<open>
  The filters of a report from \<open>p\<close> on: the position behind them, none after an error, what is left of their
  length, and the filters.
\<close>

function parse_filters :: "(u8 \<Rightarrow> u64 \<times> u64) \<Rightarrow> bytes \<Rightarrow> nat \<Rightarrow> int \<Rightarrow> bool list
    \<Rightarrow> fault + (nat option \<times> int \<times> qmi_filter list \<times> bool list)" where
  "parse_filters undef b p rem ks =
     (if rem \<le> 0 then Inr (Some p, rem, [], ks) else
      bnd (rd16 b (p + 1)) (\<lambda>len.
      bnd (rd8 b p) (\<lambda>ty.
      if ty \<noteq> 0x10 then Inr (None, rem, [], ks)
      else if \<not> granted ks then Inr (None, rem, [], tl ks)
      else bnd (ParseQmiQosFilter undef b (p + 3) (int (unat len)) new_filter) (\<lambda>(p, f).
      bnd (parse_filters undef b p (rem - 3 - int (unat len)) (tl ks)) (\<lambda>(p, rem, fs, ks).
      Inr (p, rem, f # fs, ks))))))"
  by pat_completeness auto
termination
  by (relation "measure (\<lambda>(undef, b, p, rem, ks). nat rem)") (auto intro: less_le_trans [OF _ uint_nonnegative])

declare parse_filters.simps [simp del]

record flow_report =
  rp_flow :: u32
  rp_action :: int
  rp_filters :: "qmi_filter list"

lemma ParseQmiQosFilter_forward: "ParseQmiQosFilter undef b p rem f = Inr (p', f') \<Longrightarrow> p \<le> p'"
proof (induction undef b p rem f rule: ParseQmiQosFilter.induct)
  case (1 undef b p rem f)
  show ?case
  proof (cases "rem \<le> 0")
    case True
    then show ?thesis using "1.prems" by (simp add: ParseQmiQosFilter.simps [of undef b p rem f])
  next
    case False
    then obtain g n where "filter_field undef b p f = Inr (g, n)"
        "ParseQmiQosFilter undef b (p + n) (rem - int n) g = Inr (p', f')"
      using "1.prems" by (auto simp: ParseQmiQosFilter.simps [of undef b p rem f] returns_iff)
    then show ?thesis using "1.IH" [OF False, of "(g, n)" g n] by simp
  qed
qed

lemma parse_filters_forward: "parse_filters undef b p rem ks = Inr (Some p', r) \<Longrightarrow> p \<le> p'"
proof (induction undef b p rem ks arbitrary: r rule: parse_filters.induct)
  case (1 undef b p rem ks)
  show ?case
  proof (cases "rem \<le> 0")
    case True
    then show ?thesis using "1.prems" by (simp add: parse_filters.simps [of undef b p rem ks])
  next
    case False
    then obtain len q f r' where l: "rd16 b (p + 1) = Inr len" "rd8 b p = Inr 0x10" "granted ks"
        and q: "ParseQmiQosFilter undef b (p + 3) (int (unat len)) new_filter = Inr (q, f)"
        and rest: "parse_filters undef b q (rem - 3 - int (unat len)) (tl ks) = Inr (Some p', r')"
      using "1.prems" by (auto simp: parse_filters.simps [of undef b p rem ks] returns_iff split: if_splits)
    have "p + 3 \<le> q" using ParseQmiQosFilter_forward [OF q] .
    moreover have "q \<le> p'" using "1.IH" [OF False l(1,2) _ _ q refl rest] l(3) by simp
    ultimately show ?thesis by simp
  qed
qed

text \<open>The loop over the parts of a report that ends at \<open>e\<close>.\<close>

function report_loop :: "(u8 \<Rightarrow> u64 \<times> u64) \<Rightarrow> bytes \<Rightarrow> nat \<Rightarrow> nat \<Rightarrow> flow_report \<Rightarrow> bool list
    \<Rightarrow> fault + (flow_report \<times> bool list)" where
  "report_loop undef b p e r ks =
     (if p \<ge> e then Inr (r, ks) else
      bnd (rd8 b p) (\<lambda>ty.
      if ty = 0x01 then report_loop undef b (p + 4) e r ks
      else if ty = 0x10 then
        bnd (rd32 b (p + 3)) (\<lambda>fid.
        bnd (rd8 b (p + 8)) (\<lambda>act.
        bnd (rd8 b (p + 7)) (\<lambda>_.
        report_loop undef b (p + 9) e (r\<lparr>rp_flow := fid, rp_action := int (unat act)\<rparr>) ks)))
      else if ty = 0x13 then
        bnd (rd16 b (p + 1)) (\<lambda>total.
        bnd (parse_filters undef b (p + 3) (int (unat total)) ks) (\<lambda>(pos, rem, fs, ks).
        let r = r\<lparr>rp_filters := rp_filters r @ fs\<rparr> in
        case pos of None \<Rightarrow> Inr (r, ks) | Some p' \<Rightarrow>
        if rem < 0 then Inr (r, ks) else report_loop undef b p' e r ks))
      else
        bnd (rd16 b (p + 1)) (\<lambda>len.
        if len = 0 then Inr (r, ks) else report_loop undef b (p + (3 + unat len)) e r ks)))"
  by pat_completeness auto
termination
  by (relation "measure (\<lambda>(undef, b, p, e, r, ks). e - p)") (auto dest!: parse_filters_forward)

declare report_loop.simps [simp del]

definition action_of :: "int \<Rightarrow> flow_action option" where
  "action_of n =
     (if n = 1 then Some FLOW_ACTIVATED else if n = 2 then Some FLOW_MODIFIED else if n = 3 then Some FLOW_DELETED
      else if n = 4 then Some FLOW_SUSPENDED else if n = 5 then Some FLOW_ENABLED else if n = 6 then Some FLOW_DISABLED
      else None)"

text \<open>A report of \<open>len\<close> bytes at \<open>p\<close>, from its bytes to the flows.\<close>

definition QosFlowReport :: "(u8 \<Rightarrow> u64 \<times> u64) \<Rightarrow> bytes \<Rightarrow> nat \<Rightarrow> nat \<Rightarrow> qos \<Rightarrow> fault + qos" where
  "QosFlowReport undef b p len q =
     (if \<not> granted (pool q) then Inr (q\<lparr>pool := tl (pool q)\<rparr>) else
      bnd (report_loop undef b p (p + len) \<lparr>rp_flow = 0, rp_action = -1, rp_filters = []\<rparr> (tl (pool q))) (\<lambda>(r, ks).
      let q = q\<lparr>pool := ks\<rparr> in
      case action_of (rp_action r) of None \<Rightarrow> Inr q
      | Some act \<Rightarrow> ProcessQosFlowReport act (rp_flow r) (rp_filters r) q))"

text \<open>The loop over an indication. The type and the length stay those of its first part.\<close>

function report_ind_loop :: "(u8 \<Rightarrow> u64 \<times> u64) \<Rightarrow> u8 \<Rightarrow> nat \<Rightarrow> bytes \<Rightarrow> nat \<Rightarrow> nat \<Rightarrow> qos \<Rightarrow> fault + qos" where
  "report_ind_loop undef ty len b p e q =
     (if p \<ge> e then Inr q else
      bnd (if ty = 0x10 then QosFlowReport undef b (p + 3) len q else Inr q) (\<lambda>q.
      if len = 0 then Inr q else report_ind_loop undef ty len b (p + (3 + len)) e q))"
  by pat_completeness auto
termination
  by (relation "measure (\<lambda>(undef, ty, len, b, p, e, q). e - p)") auto

declare report_ind_loop.simps [simp del]

definition ProcessQosEventReportInd :: "(u8 \<Rightarrow> u64 \<times> u64) \<Rightarrow> bytes \<Rightarrow> qos \<Rightarrow> fault + qos" where
  "ProcessQosEventReportInd undef b q =
     bnd (rd16 b 2) (\<lambda>len.
     if len = 0 then Inr q else
     bnd (rd8 b 4) (\<lambda>ty.
     bnd (rd16 b 5) (\<lambda>tlen.
     report_ind_loop undef ty (unat tlen) b 4 (4 + unat len) q)))"

section \<open>Reports as data\<close>

text \<open>A field of a filter, its bytes, and what it sets. A port field is one of six.\<close>

datatype filter_fld = Filter_Index u8 | Ip_Version u8 | V4_Src u32 u32 | V4_Dest u32 u32 | Next_Hdr u8 | Tos u8 u8
  | V6_Src bytes u8 | V6_Dest bytes u8 | Traffic_Class u8 u8 | Flow_Label u32
  | Tcp_Src u16 u16 | Tcp_Dest u16 u16 | Udp_Src u16 u16 | Udp_Dest u16 u16 | Tcp_Udp_Src u16 u16 | Tcp_Udp_Dest u16 u16
  | Icmp_Type u8 | Icmp_Code u8 | Filter_Precedence u16 | Filter_Id u16

definition enc_value :: "u8 \<Rightarrow> bytes \<Rightarrow> bytes" where
  "enc_value ty v = ty # le16 (word_of_nat (length v)) @ v"

fun enc_fld :: "filter_fld \<Rightarrow> bytes" where
  "enc_fld (Filter_Index v) = enc_value 0x10 [v]"
| "enc_fld (Ip_Version v) = enc_value 0x11 [v]"
| "enc_fld (V4_Src a m) = enc_value 0x12 (le32 a @ le32 m)"
| "enc_fld (V4_Dest a m) = enc_value 0x13 (le32 a @ le32 m)"
| "enc_fld (Next_Hdr v) = enc_value 0x14 [v]"
| "enc_fld (Tos v m) = enc_value 0x15 [v, m]"
| "enc_fld (V6_Src a n) = enc_value 0x16 (a @ [n])"
| "enc_fld (V6_Dest a n) = enc_value 0x17 (a @ [n])"
| "enc_fld (Traffic_Class c m) = enc_value 0x19 [c, m]"
| "enc_fld (Flow_Label l) = enc_value 0x1A (le32 l)"
| "enc_fld (Tcp_Src p r) = enc_value 0x1B (le16 p @ le16 r)"
| "enc_fld (Tcp_Dest p r) = enc_value 0x1C (le16 p @ le16 r)"
| "enc_fld (Udp_Src p r) = enc_value 0x1D (le16 p @ le16 r)"
| "enc_fld (Udp_Dest p r) = enc_value 0x1E (le16 p @ le16 r)"
| "enc_fld (Icmp_Type v) = enc_value 0x1F [v]"
| "enc_fld (Icmp_Code v) = enc_value 0x20 [v]"
| "enc_fld (Filter_Precedence v) = enc_value 0x22 (le16 v)"
| "enc_fld (Filter_Id v) = enc_value 0x23 (le16 v)"
| "enc_fld (Tcp_Udp_Src p r) = enc_value 0x24 (le16 p @ le16 r)"
| "enc_fld (Tcp_Udp_Dest p r) = enc_value 0x25 (le16 p @ le16 r)"

fun set_fld :: "(u8 \<Rightarrow> u64 \<times> u64) \<Rightarrow> filter_fld \<Rightarrow> qmi_filter \<Rightarrow> qmi_filter" where
  "set_fld undef (Filter_Index v) f = f"
| "set_fld undef (Ip_Version v) f = f\<lparr>IpVersion := v\<rparr>"
| "set_fld undef (V4_Src a m) f = f\<lparr>Ipv4SrcAddr := a, Ipv4SrcAddrSubnetMask := m\<rparr>"
| "set_fld undef (V4_Dest a m) f = f\<lparr>Ipv4DestAddr := a, Ipv4DestAddrSubnetMask := m\<rparr>"
| "set_fld undef (Next_Hdr v) f = f\<lparr>Ipv4NextHdrProtocol := v, Ipv6NextHdrProtocol := v\<rparr>"
| "set_fld undef (Tos v m) f = f\<lparr>Ipv4TypeOfService := v, Ipv4TypeOfServiceMask := m\<rparr>"
| "set_fld undef (V6_Src a n) f =
     f\<lparr>Ipv6SrcAddr := a, Ipv6SrcAddrPrefixLen := n, Ipv6SrcAddrMask := mask_of undef n\<rparr>"
| "set_fld undef (V6_Dest a n) f =
     f\<lparr>Ipv6DestAddr := a, Ipv6DestAddrPrefixLen := n, Ipv6DestAddrMask := mask_of undef n\<rparr>"
| "set_fld undef (Traffic_Class c m) f = f\<lparr>Ipv6TrafficClass := c, Ipv6TrafficClassMask := m\<rparr>"
| "set_fld undef (Flow_Label l) f = f\<lparr>Ipv6FlowLabel := l\<rparr>"
| "set_fld undef (Tcp_Src p r) f = f\<lparr>TcpSrcPort := Some (p, r)\<rparr>"
| "set_fld undef (Tcp_Dest p r) f = f\<lparr>TcpDestPort := Some (p, r)\<rparr>"
| "set_fld undef (Udp_Src p r) f = f\<lparr>UdpSrcPort := Some (p, r)\<rparr>"
| "set_fld undef (Udp_Dest p r) f = f\<lparr>UdpDestPort := Some (p, r)\<rparr>"
| "set_fld undef (Icmp_Type v) f = f\<lparr>IcmpFilterMsgType := Some v\<rparr>"
| "set_fld undef (Icmp_Code v) f = f\<lparr>IcmpFilterCodeField := Some v\<rparr>"
| "set_fld undef (Filter_Precedence v) f = f\<lparr>Precedence := v\<rparr>"
| "set_fld undef (Filter_Id v) f = f"
| "set_fld undef (Tcp_Udp_Src p r) f = f\<lparr>TcpUdpSrcPort := Some (p, r)\<rparr>"
| "set_fld undef (Tcp_Udp_Dest p r) f = f\<lparr>TcpUdpDestPort := Some (p, r)\<rparr>"

fun fld_ok :: "filter_fld \<Rightarrow> bool" where
  "fld_ok (V6_Src a n) \<longleftrightarrow> length a = 16 \<and> n \<le> 128"
| "fld_ok (V6_Dest a n) \<longleftrightarrow> length a = 16 \<and> n \<le> 128"
| "fld_ok _ \<longleftrightarrow> True"

text \<open>Loads behind a prefix.\<close>

lemma rd_behind:
  "n < length xs \<Longrightarrow> rd8 (pre @ xs) (length pre + n) = Inr (xs ! n)"
  "n + 2 \<le> length xs \<Longrightarrow> rd16 (pre @ xs) (length pre + n) = Inr (of_le16 (drop n xs))"
  "n + 4 \<le> length xs \<Longrightarrow> rd32 (pre @ xs) (length pre + n) = Inr (of_le32 (drop n xs))"
  "n + k \<le> length xs \<Longrightarrow> rdn (pre @ xs) (length pre + n) k = Inr (take k (drop n xs))"
  by (simp_all add: rd8_def rd16_def rd32_def rdn_def)

lemma rd_here:
  "xs \<noteq> [] \<Longrightarrow> rd8 (pre @ xs) (length pre) = Inr (hd xs)"
  using rd_behind(1) [of 0 xs pre] by (simp add: hd_conv_nth)

lemma enc_value_parts [simp]:
  "hd (enc_value ty v) = ty" "enc_value ty v \<noteq> []" "length (enc_value ty v) = 3 + length v"
  "drop 3 (enc_value ty v) = v"
  by (simp_all add: enc_value_def)

lemma rd_value:
  "rd8 (pre @ enc_value ty v @ post) (length pre) = Inr ty"
  "rd16 (pre @ enc_value ty v @ post) (Suc (length pre)) = Inr (word_of_nat (length v))"
  "n < length v \<Longrightarrow> rd8 (pre @ enc_value ty v @ post) (length pre + (3 + n)) = Inr (v ! n)"
  "n + 2 \<le> length v \<Longrightarrow> rd16 (pre @ enc_value ty v @ post) (length pre + (3 + n)) = Inr (of_le16 (drop n v @ post))"
  "n + 4 \<le> length v \<Longrightarrow> rd32 (pre @ enc_value ty v @ post) (length pre + (3 + n)) = Inr (of_le32 (drop n v @ post))"
  "n + k \<le> length v \<Longrightarrow> rdn (pre @ enc_value ty v @ post) (length pre + (3 + n)) k = Inr (take k (drop n v))"
proof -
  let ?x = "enc_value ty v @ post"
  have d: "drop (3 + n) ?x = drop n v @ post" if "n \<le> length v" for n
  proof -
    have "drop (3 + n) ?x = drop n (drop 3 ?x)" by (simp only: drop_drop add.commute)
    also have "drop 3 ?x = v @ post" by (simp add: enc_value_def)
    finally show ?thesis using that by simp
  qed
  have l: "length ?x = 3 + length v + length post" by simp
  show "rd8 (pre @ ?x) (length pre) = Inr ty"
    using rd_here [of ?x pre] by (simp add: enc_value_def)
  show "rd16 (pre @ ?x) (Suc (length pre)) = Inr (word_of_nat (length v))"
    using rd_behind(2) [of 1 ?x pre] by (simp add: enc_value_def le16.dec_enc_append)
  show "rd8 (pre @ ?x) (length pre + (3 + n)) = Inr (v ! n)" if "n < length v"
    using rd_behind(1) [of "3 + n" ?x pre] that d [of n] nth_drop [of "3 + n" ?x 0]
    by (simp add: nth_append enc_value_def)
  show "rd16 (pre @ ?x) (length pre + (3 + n)) = Inr (of_le16 (drop n v @ post))" if "n + 2 \<le> length v"
    using rd_behind(2) [of "3 + n" ?x pre] that d [of n] by simp
  show "rd32 (pre @ ?x) (length pre + (3 + n)) = Inr (of_le32 (drop n v @ post))" if "n + 4 \<le> length v"
    using rd_behind(3) [of "3 + n" ?x pre] that d [of n] by simp
  show "rdn (pre @ ?x) (length pre + (3 + n)) k = Inr (take k (drop n v))" if "n + k \<le> length v"
    using rd_behind(4) [of "3 + n" k ?x pre] that d [of n] by simp
qed

lemmas rd_value_at =
  rd_value(1,2)
  rd_value(3) [where n = 0, simplified] rd_value(3) [where n = 1, simplified] rd_value(3) [where n = 16, simplified]
  rd_value(4) [where n = 0, simplified] rd_value(4) [where n = 2, simplified]
  rd_value(5) [where n = 0, simplified] rd_value(5) [where n = 4, simplified]
  rd_value(6) [where n = 0 and k = 16, simplified]

lemma filter_field_enc:
  assumes "fld_ok x"
  shows "filter_field undef (pre @ enc_fld x @ post) (length pre) f = Inr (set_fld undef x f, length (enc_fld x))"
  using assms
  by (cases x) (simp_all add: filter_field_def port_field_def rd_port_def v6_field_def v6_src_field_def v6_dest_field_def
      rd_value_at le16.dec_enc_append le32.dec_enc_append nth_append)

lemma enc_fld_size: "3 \<le> length (enc_fld x)"
  by (cases x) simp_all

text \<open>The fields of a filter, one after the other.\<close>

definition enc_flds :: "filter_fld list \<Rightarrow> bytes" where
  "enc_flds xs = concat (map enc_fld xs)"

definition filter_with :: "(u8 \<Rightarrow> u64 \<times> u64) \<Rightarrow> filter_fld list \<Rightarrow> qmi_filter" where
  "filter_with undef xs = fold (set_fld undef) xs new_filter"

lemma ParseQmiQosFilter_enc:
  assumes "\<forall>x \<in> set xs. fld_ok x"
  shows "ParseQmiQosFilter undef (pre @ enc_flds xs @ post) (length pre) (int (length (enc_flds xs))) f
    = Inr (length pre + length (enc_flds xs), fold (set_fld undef) xs f)"
  using assms
proof (induction xs arbitrary: pre f)
  case Nil
  then show ?case by (simp add: enc_flds_def ParseQmiQosFilter.simps)
next
  case (Cons x xs)
  let ?b = "pre @ enc_fld x @ enc_flds xs @ post"
  have e: "enc_flds (x # xs) = enc_fld x @ enc_flds xs" by (simp add: enc_flds_def)
  have ih: "ParseQmiQosFilter undef ?b (length pre + length (enc_fld x)) (int (length (enc_flds xs))) (set_fld undef x f)
    = Inr (length pre + length (enc_fld x) + length (enc_flds xs), fold (set_fld undef) xs (set_fld undef x f))"
    using Cons.IH [of "pre @ enc_fld x" "set_fld undef x f"] Cons.prems by simp
  have pos: "\<not> int (length (enc_fld x) + length (enc_flds xs)) \<le> 0" using enc_fld_size [of x] by linarith
  have "ParseQmiQosFilter undef ?b (length pre) (int (length (enc_fld x) + length (enc_flds xs))) f
    = ParseQmiQosFilter undef ?b (length pre + length (enc_fld x)) (int (length (enc_flds xs))) (set_fld undef x f)"
    using pos filter_field_enc [of x undef pre "enc_flds xs @ post" f] Cons.prems
    by (subst ParseQmiQosFilter.simps) simp
  then show ?case using ih by (simp add: e add.assoc)
qed

definition enc_filters :: "filter_fld list list \<Rightarrow> bytes" where
  "enc_filters fss = concat (map (\<lambda>xs. enc_value 0x10 (enc_flds xs)) fss)"

lemma unat_len16: "n < 65536 \<Longrightarrow> unat (word_of_nat n :: u16) = n"
  by (simp add: unat_of_nat_widths)

lemma parse_filters_enc:
  assumes "\<forall>xs \<in> set fss. \<forall>x \<in> set xs. fld_ok x" and "length (enc_filters fss) < 65536"
  shows "parse_filters undef (pre @ enc_filters fss @ post) (length pre) (int (length (enc_filters fss))) []
    = Inr (Some (length pre + length (enc_filters fss)), 0, map (filter_with undef) fss, [])"
  using assms
proof (induction fss arbitrary: pre)
  case Nil
  then show ?case by (simp add: enc_filters_def parse_filters.simps)
next
  case (Cons xs fss)
  let ?v = "enc_value 0x10 (enc_flds xs)" and ?r = "enc_filters fss"
  let ?b = "pre @ ?v @ ?r @ post" and ?n = "length (enc_flds xs)"
  have e: "enc_filters (xs # fss) = ?v @ ?r" by (simp add: enc_filters_def)
  have n: "?n < 65536" "length ?r < 65536" using Cons.prems(2) by (simp_all add: e)
  have b: "?b = (pre @ 0x10 # le16 (word_of_nat ?n)) @ enc_flds xs @ (?r @ post)" by (simp add: enc_value_def)
  have body: "ParseQmiQosFilter undef ?b (length pre + 3) (int ?n) new_filter
    = Inr (length pre + 3 + ?n, filter_with undef xs)"
    using ParseQmiQosFilter_enc [of xs undef "pre @ 0x10 # le16 (word_of_nat ?n)" "?r @ post" new_filter] Cons.prems(1)
    unfolding b by (simp add: filter_with_def)
  have rest: "parse_filters undef ?b (length pre + 3 + ?n) (int (length ?r)) []
    = Inr (Some (length pre + 3 + ?n + length ?r), 0, map (filter_with undef) fss, [])"
    using Cons.IH [of "pre @ ?v"] Cons.prems(1) n by (simp add: add.assoc)
  have u: "uint (word_of_nat ?n :: u16) = int ?n" using unat_len16 [OF n(1)] by (metis uint_nat)
  have left: "int (3 + ?n + length ?r) - 3 - int ?n = int (length ?r)" by simp
  have "parse_filters undef ?b (length pre) (int (3 + ?n + length ?r)) []
    = Inr (Some (length pre + 3 + ?n + length ?r), 0, map (filter_with undef) (xs # fss), [])"
    using rd_value_at(1,2) [of pre "0x10" "enc_flds xs" "?r @ post"] body rest
    by (subst parse_filters.simps) (simp add: u left granted_def del: of_nat_add)
  then show ?case by (simp add: e)
qed

text \<open>A report, and an indication with one part.\<close>

definition enc_report :: "u32 \<Rightarrow> u8 \<Rightarrow> u8 \<Rightarrow> filter_fld list list \<Rightarrow> bytes" where
  "enc_report fid nf act fss = enc_value 0x10 (le32 fid @ [nf, act]) @ enc_value 0x13 (enc_filters fss)"

definition enc_indication :: "u8 \<Rightarrow> bytes \<Rightarrow> bytes" where
  "enc_indication ty v = le16 1 @ le16 (word_of_nat (3 + length v)) @ enc_value ty v"

lemma enc_report_length: "length (enc_report fid nf act fss) = 12 + length (enc_filters fss)"
  by (simp add: enc_report_def)

lemma report_loop_enc:
  assumes "\<forall>xs \<in> set fss. \<forall>x \<in> set xs. fld_ok x" and "length (enc_filters fss) < 65536"
  shows "report_loop undef (pre @ enc_report fid nf act fss @ post) (length pre)
      (length pre + length (enc_report fid nf act fss)) \<lparr>rp_flow = 0, rp_action = -1, rp_filters = []\<rparr> []
    = Inr (\<lparr>rp_flow = fid, rp_action = int (unat act), rp_filters = map (filter_with undef) fss\<rparr>, [])"
proof -
  let ?g = "enc_value 0x10 (le32 fid @ [nf, act])" and ?F = "enc_filters fss"
  let ?f = "enc_value 0x13 ?F" and ?n = "length ?F"
  let ?b = "pre @ ?g @ ?f @ post" and ?e = "length pre + (12 + ?n)"
  let ?r = "\<lparr>rp_flow = fid, rp_action = int (unat act), rp_filters = []\<rparr>"
  have b: "?b = (pre @ ?g @ 0x13 # le16 (word_of_nat ?n)) @ ?F @ post" by (simp add: enc_value_def [of "0x13"])
  have filters: "parse_filters undef ?b (length pre + 12) (int ?n) []
    = Inr (Some (length pre + 12 + ?n), 0, map (filter_with undef) fss, [])"
    using parse_filters_enc [OF assms, of undef "pre @ ?g @ 0x13 # le16 (word_of_nat ?n)" post] unfolding b by simp
  have u: "uint (word_of_nat ?n :: u16) = int ?n" using unat_len16 [OF assms(2)] by (metis uint_nat)
  have at2: "rd8 ?b (length pre + 9) = Inr 0x13" "rd16 ?b (Suc (length pre + 9)) = Inr (word_of_nat ?n)"
    using rd_value_at(1,2) [of "pre @ ?g" "0x13" ?F post] by simp_all
  have at3: "rd16 ?b (10 + length pre) = Inr (word_of_nat ?n)" using at2(2) by (simp add: add.commute)
  have second: "report_loop undef ?b (length pre + 9) ?e ?r [] = Inr (?r\<lparr>rp_filters := map (filter_with undef) fss\<rparr>, [])"
    using filters by (subst report_loop.simps) (simp add: at2 at3 u add.assoc report_loop.simps [of undef ?b "length pre + (12 + ?n)"])
  have at1: "rd8 ?b (length pre) = Inr 0x10" "rd32 ?b (length pre + 3) = Inr fid"
    "rd8 ?b (length pre + 7) = Inr nf" "rd8 ?b (length pre + 8) = Inr act"
    using rd_value(1) [of pre "0x10" "le32 fid @ [nf, act]" "?f @ post"]
      rd_value(5) [of 0 "le32 fid @ [nf, act]" pre "0x10" "?f @ post"]
      rd_value(3) [of 4 "le32 fid @ [nf, act]" pre "0x10" "?f @ post"]
      rd_value(3) [of 5 "le32 fid @ [nf, act]" pre "0x10" "?f @ post"]
    by (simp_all add: le32.dec_enc_append nth_append)
  have "report_loop undef ?b (length pre) ?e \<lparr>rp_flow = 0, rp_action = -1, rp_filters = []\<rparr> []
    = report_loop undef ?b (length pre + 9) ?e ?r []"
    by (subst report_loop.simps) (simp add: at1)
  then show ?thesis using second by (simp add: enc_report_def)
qed

lemma QosFlowReport_enc:
  assumes "\<forall>xs \<in> set fss. \<forall>x \<in> set xs. fld_ok x" and "length (enc_filters fss) < 65536"
    and "pool q = []" and "action_of (int (unat act)) = Some a"
  shows "QosFlowReport undef (pre @ enc_report fid nf act fss @ post) (length pre) (length (enc_report fid nf act fss)) q
    = ProcessQosFlowReport a fid (map (filter_with undef) fss) q"
proof -
  have same: "q\<lparr>pool := []\<rparr> = q" using assms(3) by (cases q) simp
  show ?thesis
    using assms(3,4) report_loop_enc [OF assms(1,2), of undef pre fid nf act post]
    by (simp add: QosFlowReport_def granted_def same)
qed

text \<open>C12: A flow report that is written field by field and sent as an indication is read as the same report: the flow, the
  action and, in order, the filters with every field of theirs.\<close>
theorem indication_round_trip:
  assumes "\<forall>xs \<in> set fss. \<forall>x \<in> set xs. fld_ok x" and "length (enc_filters fss) + 15 < 65536"
    and "pool q = []" and "action_of (int (unat act)) = Some a"
  shows "ProcessQosEventReportInd undef (enc_indication 0x10 (enc_report fid nf act fss)) q
    = ProcessQosFlowReport a fid (map (filter_with undef) fss) q"
proof -
  let ?v = "enc_report fid nf act fss" and ?t = "enc_value 0x10 (enc_report fid nf act fss)"
  let ?b = "enc_indication 0x10 ?v" and ?pre = "le16 1 @ le16 (word_of_nat (3 + length ?v))"
  have n: "length ?v < 65536" "3 + length ?v < 65536" using assms(2) by (simp_all add: enc_report_length)
  have b: "?b = ?pre @ ?t @ []" by (simp add: enc_indication_def)
  have b2: "?b = (?pre @ 0x10 # le16 (word_of_nat (length ?v))) @ ?v @ []"
    by (simp add: enc_indication_def enc_value_def)
  have rd: "rd16 ?b 2 = Inr (word_of_nat (3 + length ?v))" "rd8 ?b 4 = Inr 0x10" "rd16 ?b 5 = Inr (word_of_nat (length ?v))"
  proof -
    have "rd16 ?b 2 = rd16 (le16 1 @ le16 (word_of_nat (3 + length ?v)) @ ?t) (length (le16 1))" by (simp add: enc_indication_def)
    then show "rd16 ?b 2 = Inr (word_of_nat (3 + length ?v))" by (simp only: rd16_append_mid)
    show "rd8 ?b 4 = Inr 0x10" "rd16 ?b 5 = Inr (word_of_nat (length ?v))"
      using rd_value_at(1,2) [of ?pre "0x10" ?v "[]"] unfolding b by simp_all
  qed
  have report: "QosFlowReport undef ?b 7 (length ?v) q = ProcessQosFlowReport a fid (map (filter_with undef) fss) q"
    using QosFlowReport_enc [OF assms(1) _ assms(3,4), of undef "?pre @ 0x10 # le16 (word_of_nat (length ?v))" fid nf "[]"] assms(2)
    unfolding b2 by simp
  have pos: "length ?v \<noteq> 0" by (simp add: enc_report_length)
  have "report_ind_loop undef 0x10 (length ?v) ?b 4 (4 + (3 + length ?v)) q
    = ProcessQosFlowReport a fid (map (filter_with undef) fss) q"
    using report pos
    by (subst report_ind_loop.simps) (simp add: report_ind_loop.simps [of undef "0x10" "length ?v" ?b "7 + length ?v"])
  moreover have "(word_of_nat (3 + length ?v) :: u16) \<noteq> 0" using unat_len16 [OF n(2)] by auto
  ultimately show ?thesis
    unfolding ProcessQosEventReportInd_def rd bnd_simps unat_len16 [OF n(1)] unat_len16 [OF n(2)] by (simp only: if_False)
qed

text \<open>A filter on UDP packets from a network to a range of ports.\<close>

definition udp_filter :: "filter_fld list" where
  "udp_filter = [Ip_Version 4, V4_Src 0x0A000000 0xFF000000, Next_Hdr 0x11, Udp_Dest 5000 10, Filter_Precedence 7]"

definition no_flows :: qos where
  "no_flows = \<lparr>flow_at = Map.empty, filter_at = Map.empty, next_addr = 1, FlowDataQueue = (\<lambda>_. []), FilterPrecedenceList = [],
     DefaultFlowEnabled = True, QosPacketBuffer = [], QosHdrLen = 0, MPDisableQoS = False, Down = False,
     TxPendingList = [], TxBusyList = [], TxSent = [], TxFailed = [], QosDispThreadTxEvent = False, pool = []\<rparr>"

theorem indication_round_trip_witness:
  "ProcessQosEventReportInd (\<lambda>_. (0, 0)) (enc_indication 0x10 (enc_report 5 1 1 [udp_filter])) no_flows
   = ProcessQosFlowReport FLOW_ACTIVATED 5 [filter_with (\<lambda>_. (0, 0)) udp_filter] no_flows"
  using indication_round_trip [of "[udp_filter]" no_flows 1 FLOW_ACTIVATED "\<lambda>_. (0, 0)" 5 1]
  by (simp add: udp_filter_def enc_filters_def enc_flds_def action_of_def no_flows_def)

lemma other_part_ignored: "ty \<noteq> 0x10 \<Longrightarrow> report_ind_loop undef ty len b p e q = Inr q"
proof (induction undef ty len b p e q rule: report_ind_loop.induct)
  case (1 undef ty len b p e q)
  then show ?case by (subst report_ind_loop.simps) auto
qed

text \<open>C13: A flow report is lost when another part stands before it in its indication: the loop over the parts keeps the type
  of the first one.\<close>
theorem report_behind_other_part_lost:
  assumes "ty \<noteq> 0x10" and "length v < 65536"
  shows "ProcessQosEventReportInd undef (le16 1 @ le16 n @ enc_value ty v @ enc_value 0x10 (enc_report fid nf act fss)) q = Inr q"
proof -
  let ?r = "enc_value 0x10 (enc_report fid nf act fss)" and ?pre = "le16 1 @ le16 n"
  let ?b = "le16 1 @ le16 n @ enc_value ty v @ ?r"
  have "rd16 ?b 2 = Inr n" using rd16_append_mid [of "le16 1" n "enc_value ty v @ ?r"] by simp
  moreover have "rd8 ?b 4 = Inr ty" "rd16 ?b 5 = Inr (word_of_nat (length v))"
    using rd_value_at(1,2) [of ?pre ty v ?r] by simp_all
  ultimately show ?thesis
    using other_part_ignored [OF assms(1)] by (simp add: ProcessQosEventReportInd_def)
qed

theorem report_behind_other_part_lost_witness:
  "ProcessQosEventReportInd (\<lambda>_. (0, 0)) (le16 1 @ le16 19 @ enc_value 0x01 [1] @ enc_value 0x10 (enc_report 5 1 1 [])) no_flows
   = Inr no_flows"
  by (rule report_behind_other_part_lost) simp_all

section \<open>Every message\<close>

lemma rd32_reads [simp]: "gives over_read (\<lambda>_. True) (rd32 b i)"
  by (simp add: rd32_def over_read_def)

lemmas more_reads = reads_always rd32_reads [THEN gives_always]

lemma filter_field_reads: "gives over_read (\<lambda>_. True) (filter_field undef b p f)"
proof -
  have v6: "gives over_read (\<lambda>_. True) (v6_field undef ty b p f)" for ty
    unfolding v6_field_def v6_src_field_def v6_dest_field_def by (auto simp only: gives_if gives_bnd gives_simps intro!: more_reads)
  have port: "gives over_read (\<lambda>_. True) m" if "port_field ty b p f = Some m" for ty m
    using that unfolding port_field_def rd_port_def by (auto split: if_splits intro!: more_reads)
  show ?thesis
    unfolding filter_field_def
    by (auto simp only: gives_if gives_bnd gives_simps split: option.split intro!: more_reads v6 port)
qed

lemma ParseQmiQosFilter_reads: "gives over_read (\<lambda>_. True) (ParseQmiQosFilter undef b p rem f)"
proof (induction undef b p rem f rule: ParseQmiQosFilter.induct)
  case (1 undef b p rem f)
  show ?case
    by (subst ParseQmiQosFilter.simps, simp only: gives_if gives_bnd gives_simps simp_thms)
      (auto intro!: gives_mono [OF filter_field_reads] "1.IH")
qed

lemma parse_filters_reads: "gives over_read (\<lambda>_. True) (parse_filters undef b p rem ks)"
proof (induction undef b p rem ks rule: parse_filters.induct)
  case (1 undef b p rem ks)
  note eq = parse_filters.simps [of undef b p rem ks]
  show ?case
  proof (cases "rem \<le> 0")
    case True
    then show ?thesis by (simp add: eq)
  next
    case False
    have rest: "gives over_read (\<lambda>_. True) (parse_filters undef b q (rem - 3 - int (unat len)) (tl ks))"
      if "rd16 b (p + 1) = Inr len" "rd8 b p = Inr ty" "ty = 0x10" "granted ks"
        "ParseQmiQosFilter undef b (p + 3) (int (unat len)) new_filter = Inr (q, f)" for len ty q f
      using "1.IH" [OF False that(1,2) _ _ that(5) refl] that(3,4) by simp
    show ?thesis unfolding eq
      using False
      by (auto simp only: if_False gives_if gives_bnd gives_simps not_not prod.case
          intro!: gives_mono [OF gives_reads(2)] gives_mono [OF gives_reads(1)]
          gives_mono [OF ParseQmiQosFilter_reads] gives_always [OF rest])
  qed
qed

lemma report_loop_reads: "gives over_read (\<lambda>_. True) (report_loop undef b p e r ks)"
proof (induction undef b p e r ks rule: report_loop.induct)
  case (1 undef b p e r ks)
  note eq = report_loop.simps [of undef b p e r ks]
  show ?case
  proof (cases "p \<ge> e")
    case True
    then show ?thesis by (simp add: eq)
  next
    case False
    show ?thesis
    proof (cases "rd8 b p")
      case (Inl x)
      then show ?thesis using gives_reads(1) [of b p] False by (simp add: eq)
    next
      case (Inr ty)
      note IH = "1.IH" [OF False Inr]
      consider "ty = 0x01" | "ty = 0x10" | "ty = 0x13" | "ty \<noteq> 0x01 \<and> ty \<noteq> 0x10 \<and> ty \<noteq> 0x13" by blast
      then show ?thesis
      proof cases
        case 1
        then show ?thesis using IH(1) False by (simp add: eq Inr)
      next
        case 2
        then have t: "ty \<noteq> 0x01" by simp
        show ?thesis unfolding eq using False 2 t
          by (simp add: Inr) (auto intro!: gives_mono [OF rd32_reads] gives_mono [OF gives_reads(1)] IH(2) [simplified])
      next
        case 3
        then have t: "ty \<noteq> 0x01" "ty \<noteq> 0x10" by simp_all
        show ?thesis unfolding eq using False 3 t
          by (simp add: Inr del: One_nat_def)
            (auto simp: Let_def split: option.split intro!: gives_mono [OF gives_reads(2)] gives_mono [OF parse_filters_reads] IH(3))
      next
        case 4
        then show ?thesis unfolding eq using False
          by (simp add: Inr del: One_nat_def) (auto intro!: gives_mono [OF gives_reads(2)] IH(4))
      qed
    qed
  qed
qed

end
