(* ===== verification/QosSpec.thy ===== *)
theory QosSpec
  imports QosReport "HOL-Library.Multiset"
begin

text \<open>
  What the quality-of-service layer of the Windows miniport guarantees: the consistency of its flows, queues
  and filters under every order of packets, reports and transmissions; that packets are neither lost nor
  duplicated; where a packet goes; and what the filters match.
\<close>

section \<open>Consistency\<close>

text \<open>Every flow is in the queue of its state and nowhere else; a flow without data has no packets.\<close>

definition queues_ok :: "qos \<Rightarrow> bool" where
  "queues_ok q \<longleftrightarrow> (\<forall>t. distinct (FlowDataQueue q t))
     \<and> (\<forall>t a. a \<in> set (FlowDataQueue q t) \<longleftrightarrow> (\<exists>f. flow_at q a = Some f \<and> FlowState f = t))
     \<and> (\<forall>a f. flow_at q a = Some f \<and> FlowState f = FLOW_SEND_WITHOUT_DATA \<longrightarrow> Packets f = [])
     \<and> (\<exists>f. flow_at q DefaultQosFlow = Some f \<and> FlowState f = FLOW_DEFAULT \<and> FlowId f = 0)"

text \<open>A filter is in the list of its flow, which is not a deleted one, and by its precedence in the other.\<close>

definition filters_ok :: "qos \<Rightarrow> bool" where
  "filters_ok q \<longleftrightarrow>
     (\<forall>a f. flow_at q a = Some f \<longrightarrow> distinct (FilterList f)
        \<and> (\<forall>x \<in> set (FilterList f). FlowState f \<noteq> FLOW_DEFAULT \<and> (\<exists>r. filter_at q x = Some r \<and> Flow r = a)))
     \<and> (\<forall>x r. filter_at q x = Some r \<longrightarrow> (\<exists>f. flow_at q (Flow r) = Some f \<and> x \<in> set (FilterList f)))
     \<and> distinct (FilterPrecedenceList q) \<and> sorted (map (\<lambda>x. unat (prec_of q x)) (FilterPrecedenceList q))
     \<and> (\<forall>x. x \<in> set (FilterPrecedenceList q) \<longleftrightarrow> (\<exists>r. filter_at q x = Some r \<and> Precedence r < QOS_FILTER_PRECEDENCE_INVALID))"

definition addresses_ok :: "qos \<Rightarrow> bool" where
  "addresses_ok q \<longleftrightarrow> 0 < next_addr q \<and> (\<forall>a \<ge> next_addr q. flow_at q a = None \<and> filter_at q a = None)"

definition qos_inv :: "qos \<Rightarrow> bool" where
  "qos_inv q \<longleftrightarrow> queues_ok q \<and> filters_ok q \<and> addresses_ok q"

text \<open>A flow whose record changes, but for its filters, and which goes to the queue of its new state.\<close>

definition relocated :: "nat \<Rightarrow> flow_entry \<Rightarrow> qos \<Rightarrow> qos \<Rightarrow> bool" where
  "relocated a f' q q' \<longleftrightarrow> flow_at q' = (flow_at q)(a \<mapsto> f')
     \<and> (\<forall>t. distinct (FlowDataQueue q' t) \<and> set (FlowDataQueue q' t) =
          (if t = FlowState f' then insert a (set (FlowDataQueue q t)) else set (FlowDataQueue q t) - {a}))
     \<and> filter_at q' = filter_at q \<and> FilterPrecedenceList q' = FilterPrecedenceList q \<and> next_addr q' = next_addr q"

lemma relocated_inv:
  assumes "qos_inv q" and "relocated a f' q q'" and "flow_at q a = Some f"
    and "FilterList f' = FilterList f" and "FlowId f' = FlowId f"
    and "FlowState f' = FLOW_SEND_WITHOUT_DATA \<Longrightarrow> Packets f' = []"
    and "FlowState f' = FLOW_DEFAULT \<Longrightarrow> FilterList f = []" and "a = DefaultQosFlow \<Longrightarrow> FlowState f' = FLOW_DEFAULT"
  shows "qos_inv q'"
proof -
  note r = assms(2) [unfolded relocated_def]
  have pr: "prec_of q' = prec_of q" using r by (auto simp: prec_of_def fun_eq_iff)
  have "queues_ok q'"
    using assms(1,3,5,6,8) r unfolding qos_inv_def queues_ok_def by (auto split: if_splits)
  moreover have "filters_ok q'"
  proof -
    have nd: "x \<in> set (FilterList f) \<Longrightarrow> FlowState f' \<noteq> FLOW_DEFAULT" for x using assms(7) by auto
    have fo: "filters_ok q" using assms(1) by (simp add: qos_inv_def)
    have fl: "flow_at q' = (flow_at q)(a \<mapsto> f')" and fi: "filter_at q' = filter_at q"
      and fp: "FilterPrecedenceList q' = FilterPrecedenceList q" using r by auto
    have "distinct (FilterList g)
        \<and> (\<forall>x \<in> set (FilterList g). FlowState g \<noteq> FLOW_DEFAULT \<and> (\<exists>r. filter_at q x = Some r \<and> Flow r = b))"
      if "flow_at q' b = Some g" for b g
      using that fo assms(3,4) nd unfolding filters_ok_def fl by (auto split: if_splits)
    moreover have "\<exists>g. flow_at q' (Flow r) = Some g \<and> x \<in> set (FilterList g)" if x: "filter_at q x = Some r" for x r
    proof -
      obtain g where "flow_at q (Flow r) = Some g" "x \<in> set (FilterList g)"
        using fo x unfolding filters_ok_def by blast
      then show ?thesis using assms(3,4) by (cases "Flow r = a") (auto simp: fl)
    qed
    ultimately show ?thesis using fo unfolding filters_ok_def fi fp pr by blast
  qed
  moreover have "addresses_ok q'"
  proof -
    have "a < next_addr q" using assms(1,3) unfolding qos_inv_def addresses_ok_def by (metis linorder_not_less option.distinct(1))
    then show ?thesis using assms(1) r unfolding qos_inv_def addresses_ok_def by auto
  qed
  ultimately show ?thesis by (simp add: qos_inv_def)
qed

section \<open>Looking at packets\<close>

text \<open>The headers are read or over-read.\<close>

lemma GetIPHeaderV4_reads: "gives over_read (\<lambda>_. True) (MPQOS_GetIPHeaderV4 b p)"
  by (auto simp: MPQOS_GetIPHeaderV4_def v4_base_def Let_def gives_if intro!: reads_always)

lemma v6_ext_reads: "gives over_read (\<lambda>_. True) (v6_ext b p nx h)"
proof (induction b p nx h rule: v6_ext.induct)
  case (1 b p nextHdr h)
  note eq = v6_ext.simps [of b p nextHdr h]
  show ?case
  proof (cases "nextHdr = TYPE_ROUTING \<or> nextHdr = TYPE_HOP_BY_HOP_OPT")
    case True
    have "gives over_read (\<lambda>_. True) (v6_ext b (p + (8 + unat len * 8)) next h)"
      if "rd8 b p = Inr next" "rd8 b (p + 1) = Inr len" for "next" len
      using "1.IH"(1) True that by blast
    then show ?thesis unfolding eq
      using True by (auto intro!: gives_mono [OF gives_reads(1)])
  next
    case False
    show ?thesis
    proof (cases "nextHdr = TYPE_FRAGMENT")
      case True
      then show ?thesis unfolding eq
        using False "1.IH"(2) by (auto intro!: gives_mono [OF gives_reads(1)] gives_mono [OF gives_reads(4)])
    qed (use False in \<open>simp add: eq\<close>)
  qed
qed

lemma GetIPHeaderV6_reads: "gives over_read (\<lambda>_. True) (QCQOS_GetIPHeaderV6 b p)"
proof -
  have base: "gives over_read (\<lambda>_. True) (v6_base b p)"
    by (auto simp: v6_base_def intro!: reads_always)
  show ?thesis
    by (auto simp: QCQOS_GetIPHeaderV6_def Let_def gives_if
        intro!: gives_always [OF base] gives_always [OF v6_ext_reads] reads_always)
qed

text \<open>A match changes nothing of the filter but what it remembers.\<close>

definition forget :: "qmi_filter \<Rightarrow> qmi_filter" where
  "forget f = f\<lparr>PacketInfoList := []\<rparr>"

lemma match_fragment_forget:
  "match_fragment mf first i fm f ks = (m, f', ks') \<Longrightarrow> forget f' = forget f"
  by (auto simp: match_fragment_def MPQOS_CachePacketInfo_def forget_def split: if_splits option.splits)

lemma forget_fields [simp]: "Precedence (forget f) = Precedence f" "Flow (forget f) = Flow f"
  by (simp_all add: forget_def)

lemma DoesPktMatch_gives:
  "gives over_read (\<lambda>(m, f', ks'). forget f' = forget f) (MPQOS_DoesPktMatchThisFilterEx f b ks)"
proof -
  have mf: "case match_fragment mf first i fm f ks of (m, f', ks') \<Rightarrow> forget f' = forget f" for mf first i fm
    using match_fragment_forget by (fastforce split: prod.split)
  show ?thesis
    by (auto simp: MPQOS_DoesPktMatchThisFilterEx_def MPQOS_DoesPktMatchThisFilterV6_def gives_if
        intro!: gives_always [OF GetIPHeaderV4_reads] gives_always [OF GetIPHeaderV6_reads] mf)
qed

section \<open>The packets of a state\<close>

definition packets_at :: "flow_entry option \<Rightarrow> packet multiset" where
  "packets_at o' = (case o' of None \<Rightarrow> {#} | Some f \<Rightarrow> mset (Packets f))"

lemma packets_at_simps [simp]: "packets_at None = {#}" "packets_at (Some f) = mset (Packets f)"
  by (simp_all add: packets_at_def)

text \<open>The packets in the flows of a table whose addresses are below a bound.\<close>

definition flow_packets :: "(nat \<Rightarrow> flow_entry option) \<Rightarrow> packet multiset" where
  "flow_packets m = (\<Sum>a \<in> dom m. packets_at (m a))"

lemma flow_packets_superset: "finite A \<Longrightarrow> dom m \<subseteq> A \<Longrightarrow> flow_packets m = (\<Sum>a \<in> A. packets_at (m a))"
  unfolding flow_packets_def by (rule sum.mono_neutral_left) (auto simp: packets_at_def split: option.splits)

lemma flow_packets_upd:
  assumes "finite (dom m)"
  shows "flow_packets (m(a := o')) + packets_at (m a) = flow_packets m + packets_at o'"
proof -
  let ?A = "insert a (dom m)"
  have fin: "finite ?A" using assms by simp
  have "flow_packets (m(a := o')) = (\<Sum>b \<in> ?A. packets_at ((m(a := o')) b))"
    by (rule flow_packets_superset [OF fin]) auto
  also have "\<dots> = packets_at o' + (\<Sum>b \<in> ?A - {a}. packets_at (m b))"
    using fin by (auto simp: sum.remove [of ?A a] intro!: sum.cong)
  finally have 1: "flow_packets (m(a := o')) = packets_at o' + (\<Sum>b \<in> ?A - {a}. packets_at (m b))" .
  have "flow_packets m = (\<Sum>b \<in> ?A. packets_at (m b))" by (rule flow_packets_superset [OF fin]) auto
  also have "\<dots> = packets_at (m a) + (\<Sum>b \<in> ?A - {a}. packets_at (m b))"
    using fin by (simp add: sum.remove [of ?A a])
  finally show ?thesis using 1 by simp
qed

lemma qos_inv_finite: "qos_inv q \<Longrightarrow> finite (dom (flow_at q))"
proof -
  assume inv: "qos_inv q"
  have "a < next_addr q" if "flow_at q a \<noteq> None" for a
    using inv that unfolding qos_inv_def addresses_ok_def by (meson linorder_not_le)
  then have "dom (flow_at q) \<subseteq> {..<next_addr q}" by blast
  then show ?thesis by (rule finite_subset) simp
qed

text \<open>Everything that was handed to the layer and has not left it by \<open>TxSent\<close> or completion.\<close>

definition packets_of :: "qos \<Rightarrow> packet multiset" where
  "packets_of q = mset (TxPendingList q) + flow_packets (flow_at q) + mset (TxBusyList q) + mset (TxFailed q)"

text \<open>A consistent state with the packets \<open>P\<close>.\<close>

definition kept :: "packet multiset \<Rightarrow> qos \<Rightarrow> bool" where
  "kept P q \<longleftrightarrow> qos_inv q \<and> packets_of q = P"

lemma keptI [intro?]: "qos_inv q \<Longrightarrow> packets_of q = P \<Longrightarrow> kept P q"
  by (simp add: kept_def)

text \<open>What the invariant does not look at.\<close>

lemma qos_inv_frame:
  "qos_inv (q\<lparr>DefaultFlowEnabled := e\<rparr>) = qos_inv q"
  "qos_inv (q\<lparr>QosPacketBuffer := b\<rparr>) = qos_inv q"
  "qos_inv (q\<lparr>Down := d\<rparr>) = qos_inv q"
  "qos_inv (q\<lparr>TxPendingList := ps\<rparr>) = qos_inv q"
  "qos_inv (q\<lparr>TxBusyList := ps\<rparr>) = qos_inv q"
  "qos_inv (q\<lparr>TxSent := ss\<rparr>) = qos_inv q"
  "qos_inv (q\<lparr>TxFailed := ps\<rparr>) = qos_inv q"
  "qos_inv (q\<lparr>QosDispThreadTxEvent := v\<rparr>) = qos_inv q"
  by (simp_all add: qos_inv_def queues_ok_def filters_ok_def addresses_ok_def prec_of_def)

text \<open>A relocated flow, with its packets accounted for.\<close>

lemma relocated_move:
  assumes "qos_inv q" and "flow_at q a = Some f" and "FlowState f' = t"
  shows "relocated a f' q (insert_tail t a (unlink a (set_flow a f' q)))"
  using assms unfolding relocated_def qos_inv_def queues_ok_def
  by (auto simp: insert_tail_def unlink_def set_flow_def)

lemma relocated_set:
  assumes "qos_inv q" and "flow_at q a = Some f" and "FlowState f' = FlowState f"
  shows "relocated a f' q (set_flow a f' q)"
  using assms unfolding relocated_def qos_inv_def queues_ok_def
  by (auto simp: set_flow_def)

lemma relocated_packets:
  assumes "qos_inv q" and "relocated a f' q q'" and "flow_at q a = Some f"
  shows "flow_packets (flow_at q') + mset (Packets f) = flow_packets (flow_at q) + mset (Packets f')"
  using flow_packets_upd [OF qos_inv_finite [OF assms(1)], of a "Some f'"] assms(2,3)
  by (simp add: relocated_def)

section \<open>Trying filters\<close>

text \<open>Trying filters changes only what they remember and the answers of the allocator.\<close>

definition same_filters :: "qos \<Rightarrow> qos \<Rightarrow> bool" where
  "same_filters q q' \<longleftrightarrow> (\<exists>g k. q' = q\<lparr>filter_at := g, pool := k\<rparr> \<and> (\<forall>x. map_option forget (g x) = map_option forget (filter_at q x)))"

lemma same_filters_refl [simp]: "same_filters q q"
  unfolding same_filters_def by (rule exI [of _ "filter_at q"], rule exI [of _ "pool q"]) simp

lemma same_filters_trans: "same_filters q r \<Longrightarrow> same_filters r s \<Longrightarrow> same_filters q s"
  unfolding same_filters_def
proof (elim exE conjE)
  fix g k g' k'
  assume r: "r = q\<lparr>filter_at := g, pool := k\<rparr>" and s: "s = r\<lparr>filter_at := g', pool := k'\<rparr>"
    and "\<forall>x. map_option forget (g x) = map_option forget (filter_at q x)"
    and "\<forall>x. map_option forget (g' x) = map_option forget (filter_at r x)"
  then have "\<forall>x. map_option forget (g' x) = map_option forget (filter_at q x)" by simp
  moreover have "s = q\<lparr>filter_at := g', pool := k'\<rparr>" by (simp add: r s)
  ultimately show "\<exists>g k. s = q\<lparr>filter_at := g, pool := k\<rparr> \<and> (\<forall>x. map_option forget (g x) = map_option forget (filter_at q x))"
    by - (rule exI [of _ g'], rule exI [of _ k'], rule conjI, assumption+)
qed

lemma same_filters_fields [simp]:
  assumes "same_filters q q'"
  shows "flow_at q' = flow_at q" "FlowDataQueue q' = FlowDataQueue q" "FilterPrecedenceList q' = FilterPrecedenceList q"
    "next_addr q' = next_addr q" "TxPendingList q' = TxPendingList q" "TxBusyList q' = TxBusyList q"
    "TxFailed q' = TxFailed q" "TxSent q' = TxSent q" "Down q' = Down q" "MPDisableQoS q' = MPDisableQoS q"
    "DefaultFlowEnabled q' = DefaultFlowEnabled q" "QosPacketBuffer q' = QosPacketBuffer q" "QosHdrLen q' = QosHdrLen q"
    "QosDispThreadTxEvent q' = QosDispThreadTxEvent q"
  using assms unfolding same_filters_def by (elim exE conjE, simp)+

lemma same_filters_at:
  assumes "same_filters q q'"
  obtains "filter_at q x = None" "filter_at q' x = None"
  | r r' where "filter_at q x = Some r" "filter_at q' x = Some r'" "forget r' = forget r"
      "Precedence r' = Precedence r" "Flow r' = Flow r"
proof -
  have eq: "map_option forget (filter_at q' x) = map_option forget (filter_at q x)"
    using assms unfolding same_filters_def by (elim exE conjE, simp)
  show thesis
  proof (cases "filter_at q x")
    case None
    then show thesis using eq that(1) by simp
  next
    case (Some r)
    then obtain r' where r': "filter_at q' x = Some r'" "forget r' = forget r" using eq by auto
    then have "Precedence r' = Precedence r" "Flow r' = Flow r" by (metis forget_fields)+
    then show thesis using that(2) Some r' by blast
  qed
qed

lemma same_filters_prec: "same_filters q q' \<Longrightarrow> prec_of q' = prec_of q"
proof
  fix x assume s: "same_filters q q'"
  show "prec_of q' x = prec_of q x"
    by (rule same_filters_at [OF s, of x]) (simp_all add: prec_of_def)
qed

text \<open>The parts of the consistency of filters.\<close>

lemma filters_okD:
  assumes "filters_ok q"
  shows "flow_at q a = Some f \<Longrightarrow> distinct (FilterList f)"
    and "flow_at q a = Some f \<Longrightarrow> x \<in> set (FilterList f) \<Longrightarrow> FlowState f \<noteq> FLOW_DEFAULT \<and> (\<exists>r. filter_at q x = Some r \<and> Flow r = a)"
    and "filter_at q x = Some r \<Longrightarrow> \<exists>f. flow_at q (Flow r) = Some f \<and> x \<in> set (FilterList f)"
    and "distinct (FilterPrecedenceList q)"
    and "sorted (map (\<lambda>x. unat (prec_of q x)) (FilterPrecedenceList q))"
    and "x \<in> set (FilterPrecedenceList q) \<longleftrightarrow> (\<exists>r. filter_at q x = Some r \<and> Precedence r < QOS_FILTER_PRECEDENCE_INVALID)"
  using assms unfolding filters_ok_def by blast+

lemma filters_okI:
  assumes "\<And>a f. flow_at q a = Some f \<Longrightarrow> distinct (FilterList f)"
    and "\<And>a f x. flow_at q a = Some f \<Longrightarrow> x \<in> set (FilterList f) \<Longrightarrow> FlowState f \<noteq> FLOW_DEFAULT \<and> (\<exists>r. filter_at q x = Some r \<and> Flow r = a)"
    and "\<And>x r. filter_at q x = Some r \<Longrightarrow> \<exists>f. flow_at q (Flow r) = Some f \<and> x \<in> set (FilterList f)"
    and "distinct (FilterPrecedenceList q)"
    and "sorted (map (\<lambda>x. unat (prec_of q x)) (FilterPrecedenceList q))"
    and "\<And>x. x \<in> set (FilterPrecedenceList q) \<longleftrightarrow> (\<exists>r. filter_at q x = Some r \<and> Precedence r < QOS_FILTER_PRECEDENCE_INVALID)"
  shows "filters_ok q"
  unfolding filters_ok_def using assms by blast

lemma same_filters_inv:
  assumes "qos_inv q" and s: "same_filters q q'"
  shows "qos_inv q'"
proof -
  note fl = same_filters_fields [OF s]
  have fo: "filters_ok q" using assms(1) by (simp add: qos_inv_def)
  have "filters_ok q'"
  proof (rule filters_okI, unfold fl same_filters_prec [OF s])
    fix x show "(x \<in> set (FilterPrecedenceList q)) = (\<exists>r. filter_at q' x = Some r \<and> Precedence r < 256)"
      unfolding filters_okD(6) [OF fo] by (rule same_filters_at [OF s, of x]) simp_all
  next
    fix a f x assume "flow_at q a = Some f" "x \<in> set (FilterList f)"
    then have "FlowState f \<noteq> FLOW_DEFAULT" and ex: "\<exists>r. filter_at q x = Some r \<and> Flow r = a" using filters_okD(2) [OF fo] by blast+
    moreover have "\<exists>r. filter_at q' x = Some r \<and> Flow r = a"
      by (rule same_filters_at [OF s, of x]) (use ex in auto)
    ultimately show "FlowState f \<noteq> FLOW_DEFAULT \<and> (\<exists>r. filter_at q' x = Some r \<and> Flow r = a)" by blast
  next
    fix x r assume r: "filter_at q' x = Some r"
    show "\<exists>f. flow_at q (Flow r) = Some f \<and> x \<in> set (FilterList f)"
      by (rule same_filters_at [OF s, of x]) (use r filters_okD(3) [OF fo, of x] in auto)
  qed (use filters_okD [OF fo] in auto)
  moreover have "queues_ok q'" using assms(1) unfolding qos_inv_def queues_ok_def fl by blast
  moreover have "addresses_ok q'"
  proof -
    have "filter_at q' a = None" if "filter_at q a = None" for a
      by (rule same_filters_at [OF s, of a]) (use that in auto)
    then show ?thesis using assms(1) by (simp add: qos_inv_def addresses_ok_def fl)
  qed
  ultimately show ?thesis by (simp add: qos_inv_def)
qed

lemma find_filter_gives:
  assumes "\<forall>x \<in> set xs. filter_at q x \<noteq> None"
  shows "gives over_read (\<lambda>(o', q'). same_filters q q' \<and> (\<forall>x. o' = Some x \<longrightarrow> x \<in> set xs)) (find_filter P xs q)"
  using assms
proof (induction xs arbitrary: q)
  case (Cons x xs)
  then obtain f where f: "filter_at q x = Some f" by auto
  have IH: "gives over_read (\<lambda>(o', q'). same_filters q q' \<and> (\<forall>z. o' = Some z \<longrightarrow> z \<in> set (x # xs))) (find_filter P xs r)"
    if "same_filters q r" for r
  proof -
    have "\<forall>x \<in> set xs. filter_at r x \<noteq> None" using Cons.prems same_filters_at [OF that] by (metis list.set_intros(2) option.distinct(1))
    from Cons.IH [OF this] show ?thesis
      by (rule gives_mono) (auto intro: same_filters_trans [OF that])
  qed
  have same: "same_filters q (q\<lparr>filter_at := (filter_at q)(x \<mapsto> f'), pool := ks\<rparr>)" if "forget f' = forget f" for f' ks
    unfolding same_filters_def using f that by (intro exI [of _ "(filter_at q)(x \<mapsto> f')"] exI [of _ ks]) simp
  have "gives over_read (\<lambda>(m, f', ks'). gives over_read (\<lambda>(o', q'). same_filters q q' \<and> (\<forall>z. o' = Some z \<longrightarrow> z \<in> set (x # xs)))
       (let q = q\<lparr>filter_at := (filter_at q)(x \<mapsto> f'), pool := ks'\<rparr> in if m then Inr (Some x, q) else find_filter P xs q))
     (MPQOS_DoesPktMatchThisFilterEx f (QosPacketBuffer q) (pool q))"
    by (rule gives_mono [OF DoesPktMatch_gives]) (auto simp: Let_def gives_if simp del: set_simps intro!: IH same list.set_intros(1))
  then show ?case
    using f IH [OF same_filters_refl] by (simp add: filter_of_def case_prod_unfold)
qed simp

section \<open>A packet joins a flow\<close>

text \<open>The packet goes to the end of a flow; a flow that had none becomes one with data.\<close>

definition delivered :: "nat \<Rightarrow> packet \<Rightarrow> qos \<Rightarrow> qos" where
  "delivered a p q =
     (case flow_at q a of None \<Rightarrow> q | Some f \<Rightarrow>
      let f' = f\<lparr>Packets := Packets f @ [p]\<rparr> in
      if FlowState f = FLOW_SEND_WITHOUT_DATA
      then insert_tail FLOW_SEND_WITH_DATA a (unlink a (set_flow a (f'\<lparr>FlowState := FLOW_SEND_WITH_DATA\<rparr>) q))
      else set_flow a f' q)"

lemma queue_ops_fields [simp]:
  "flow_at (insert_tail t a q) = flow_at q" "flow_at (unlink a q) = flow_at q"
  "flow_at (set_flow a f q) = (flow_at q)(a \<mapsto> f)"
  "TxPendingList (insert_tail t a q) = TxPendingList q" "TxPendingList (unlink a q) = TxPendingList q"
  "TxPendingList (set_flow a f q) = TxPendingList q"
  "TxBusyList (insert_tail t a q) = TxBusyList q" "TxBusyList (unlink a q) = TxBusyList q"
  "TxBusyList (set_flow a f q) = TxBusyList q"
  "TxFailed (insert_tail t a q) = TxFailed q" "TxFailed (unlink a q) = TxFailed q"
  "TxFailed (set_flow a f q) = TxFailed q"
  by (simp_all add: insert_tail_def unlink_def set_flow_def)

lemma set_flow_twice [simp]: "set_flow a f (set_flow a g q) = set_flow a f q"
  by (simp add: set_flow_def)

lemma move_flow_eq:
  "flow_at q a = Some f \<Longrightarrow> move_flow a t q = Inr (insert_tail t a (unlink a (set_flow a (f\<lparr>FlowState := t\<rparr>) q)))"
  by (simp add: move_flow_def flow_of_def)

lemma push_packet_eq: "flow_at q a = Some f \<Longrightarrow> push_packet a p q = Inr (set_flow a (f\<lparr>Packets := Packets f @ [p]\<rparr>) q)"
  by (simp add: push_packet_def flow_of_def)

lemma packets_of_flow:
  assumes "TxPendingList q' = TxPendingList q" "TxBusyList q' = TxBusyList q" "TxFailed q' = TxFailed q"
    and "flow_packets (flow_at q') + mset (Packets f) = flow_packets (flow_at q) + mset (Packets f @ ps)"
  shows "packets_of q' = packets_of q + mset ps"
  using assms by (simp add: packets_of_def add.assoc add.left_commute add.commute)

lemma delivered_kept:
  assumes "kept P q" and "flow_at q a = Some f"
  shows "kept (add_mset p P) (delivered a p q)"
proof -
  have inv: "qos_inv q" and P: "packets_of q = P" using assms(1) by (simp_all add: kept_def)
  let ?f = "f\<lparr>Packets := Packets f @ [p], FlowState := if FlowState f = FLOW_SEND_WITHOUT_DATA then FLOW_SEND_WITH_DATA else FlowState f\<rparr>"
  have f: "f\<lparr>Packets := ps, FlowState := FlowState f\<rparr> = f\<lparr>Packets := ps\<rparr>" for ps by (cases f) simp
  have rel: "relocated a ?f q (delivered a p q)"
    using relocated_move [OF inv assms(2), of ?f FLOW_SEND_WITH_DATA] relocated_set [OF inv assms(2), of ?f] assms(2)
    by (simp add: delivered_def Let_def f)
  show ?thesis
  proof
    show "qos_inv (delivered a p q)"
    proof (rule relocated_inv [OF inv rel assms(2)])
      show "FlowState ?f = FLOW_DEFAULT \<Longrightarrow> FilterList f = []"
        using filters_okD(2) [of q a f] inv assms(2) by (cases "FilterList f") (auto simp: qos_inv_def split: if_splits)
      show "a = DefaultQosFlow \<Longrightarrow> FlowState ?f = FLOW_DEFAULT"
        using inv assms(2) by (auto simp: qos_inv_def queues_ok_def)
    qed (auto split: if_splits)
  next
    show "packets_of (delivered a p q) = add_mset p P"
      using packets_of_flow [of "delivered a p q" q f "[p]"] relocated_packets [OF inv rel assms(2)] P assms(2)
      by (auto simp: delivered_def Let_def)
  qed
qed

lemma same_filters_packets: "same_filters q q' \<Longrightarrow> packets_of q' = packets_of q"
  by (simp add: packets_of_def)

lemma kept_same_filters: "kept P q \<Longrightarrow> same_filters q q' \<Longrightarrow> kept P q'"
  using same_filters_inv by (auto simp: kept_def same_filters_packets)

text \<open>Where the code puts a packet, it is as \<open>delivered\<close> says.\<close>

definition goes_to :: "packet \<Rightarrow> qos \<Rightarrow> qos \<Rightarrow> bool" where
  "goes_to p q q' \<longleftrightarrow> (\<exists>a r. same_filters q r \<and> flow_at r a \<noteq> None \<and> q' = delivered a p r)"

definition placed :: "packet \<Rightarrow> qos \<Rightarrow> bool \<times> qos \<Rightarrow> bool" where
  "placed p q r \<longleftrightarrow> (if fst r then goes_to p q (snd r) else same_filters q (snd r))"

lemma not_placed: "same_filters q r \<Longrightarrow> placed p q (False, r)"
  by (simp add: placed_def)

lemma goes_toI: "same_filters q r \<Longrightarrow> flow_at r a = Some f \<Longrightarrow> goes_to p q (delivered a p r)"
  unfolding goes_to_def by blast

lemma goes_to_kept: "kept P q \<Longrightarrow> goes_to p q q' \<Longrightarrow> kept (add_mset p P) q'"
  unfolding goes_to_def using kept_same_filters delivered_kept by blast

lemma goes_to_trans: "same_filters q r \<Longrightarrow> goes_to p r q' \<Longrightarrow> goes_to p q q'"
  unfolding goes_to_def using same_filters_trans by blast

lemma placed_trans: "same_filters q r \<Longrightarrow> placed p r x \<Longrightarrow> placed p q x"
  unfolding placed_def using same_filters_trans goes_to_trans by (metis (full_types))

lemma filters_exist:
  assumes "qos_inv q"
  shows "\<forall>x \<in> set (FilterPrecedenceList q). filter_at q x \<noteq> None"
    and "flow_at q a = Some f \<Longrightarrow> \<forall>x \<in> set (FilterList f). filter_at q x \<noteq> None"
proof -
  have "filters_ok q" using assms by (simp add: qos_inv_def)
  note D = filters_okD [OF this]
  show "\<forall>x \<in> set (FilterPrecedenceList q). filter_at q x \<noteq> None" using D(6) by auto
  show "flow_at q a = Some f \<Longrightarrow> \<forall>x \<in> set (FilterList f). filter_at q x \<noteq> None" using D(2) by blast
qed

lemma push_and_move:
  assumes "flow_at q a = Some f"
  shows "bnd (push_packet a p q) (\<lambda>q. if FlowState f = FLOW_SEND_WITHOUT_DATA
      then bnd (move_flow a FLOW_SEND_WITH_DATA q) (\<lambda>q. Inr (True, q)) else Inr (True, q)) = Inr (True, delivered a p q)"
  using assms by (simp add: push_packet_eq [OF assms] move_flow_def flow_of_def delivered_def Let_def)

lemma EnqueueByPrecedence_gives:
  assumes "qos_inv q"
  shows "gives over_read (placed p q) (MPQOS_EnqueueByPrecedence p q)"
proof -
  have step: "gives over_read (placed p q) (bnd (filter_of x r) (\<lambda>y. bnd (push_packet (Flow y) p r) (\<lambda>q.
      bnd (flow_of (Flow y) q) (\<lambda>f. if FlowState f = FLOW_SEND_WITHOUT_DATA
        then bnd (move_flow (Flow y) FLOW_SEND_WITH_DATA q) (\<lambda>q. Inr (True, q)) else Inr (True, q)))))"
    if s: "same_filters q r" and x: "x \<in> set (FilterPrecedenceList q)" for r x
  proof -
    have inv: "qos_inv r" using same_filters_inv [OF assms s] .
    then obtain y where y: "filter_at r x = Some y" using filters_exist(1) [OF inv] x s by auto
    then obtain f where f: "flow_at r (Flow y) = Some f"
      using inv filters_okD(3) [of r x y] unfolding qos_inv_def by blast
    show ?thesis
      using push_and_move [OF f, of p] goes_toI [OF s f, of p]
      by (simp add: filter_of_def y push_packet_eq [OF f] flow_of_def placed_def)
  qed
  show ?thesis unfolding MPQOS_EnqueueByPrecedence_def gives_bnd
    by (rule gives_mono [OF find_filter_gives [OF filters_exist(1) [OF assms]]])
      (clarsimp simp del: gives_bnd split: option.split, blast intro: step not_placed)
qed

lemma try_flows_gives:
  assumes "qos_inv q" and "\<forall>a \<in> set as. \<exists>f. flow_at q a = Some f \<and> FlowState f = t"
  shows "gives over_read (placed p q) (try_flows t as p q)"
  using assms
proof (induction as arbitrary: q)
  case Nil
  then show ?case by (simp add: placed_def)
next
  case (Cons a as)
  then obtain f where f: "flow_at q a = Some f" "FlowState f = t" by auto
  have IH: "gives over_read (placed p q) (try_flows t as p r)" if "same_filters q r" for r
    using Cons.IH [of r] Cons.prems same_filters_inv [OF _ that] that
    by (auto intro: gives_mono placed_trans [OF that])
  have step: "gives over_read (placed p q) (bnd (push_packet a p r) (\<lambda>q.
      if t = FLOW_SEND_WITHOUT_DATA then bnd (move_flow a FLOW_SEND_WITH_DATA q) (\<lambda>q. Inr (True, q)) else Inr (True, q)))"
    if "same_filters q r" for r
    using push_and_move [of r a f p] goes_toI [OF that, of a f p] f that by (simp add: placed_def)
  show ?case
    by (simp add: flow_of_def f(1) case_prod_unfold)
      (rule gives_mono [OF find_filter_gives [OF filters_exist(2) [OF Cons.prems(1) f(1)]]],
        auto simp: case_prod_unfold simp del: gives_bnd split: option.split intro: IH step)
qed

lemma try_queues_gives:
  assumes "qos_inv q"
  shows "gives over_read (placed p q) (try_queues ts p q)"
  using assms
proof (induction ts arbitrary: q)
  case Nil
  then show ?case by (simp add: placed_def)
next
  case (Cons t ts)
  have members: "\<forall>a \<in> set (FlowDataQueue q t). \<exists>f. flow_at q a = Some f \<and> FlowState f = t"
    using Cons.prems unfolding qos_inv_def queues_ok_def by blast
  have step: "gives over_read (placed p q) (if found then Inr (True, r) else try_queues ts p r)"
    if r: "placed p q (found, r)" for found r
  proof (cases found)
    case True
    then show ?thesis using r by simp
  next
    case False
    then have s: "same_filters q r" using r by (simp add: placed_def)
    then have "gives over_read (placed p q) (try_queues ts p r)"
      using Cons.IH [of r] same_filters_inv [OF Cons.prems s] by (blast intro: gives_mono placed_trans [OF s])
    then show ?thesis using False by simp
  qed
  show ?case unfolding try_queues.simps gives_bnd
    by (rule gives_mono [OF try_flows_gives [OF Cons.prems members]]) (clarsimp simp only: prod.case, blast intro: step)+
qed

lemma Enqueue_gives:
  assumes "qos_inv q"
  shows "gives over_read (goes_to p q) (MPQOS_Enqueue p q)"
proof -
  have last: "gives over_read (goes_to p q) (push_packet DefaultQosFlow p r)" if s: "same_filters q r" for r
  proof -
    obtain f where f: "flow_at r 0 = Some f" "FlowState f = FLOW_DEFAULT"
      using same_filters_inv [OF assms s] unfolding qos_inv_def queues_ok_def by blast
    then have "push_packet DefaultQosFlow p r = Inr (delivered 0 p r)"
      by (simp add: push_packet_eq delivered_def)
    then show ?thesis using goes_toI [OF s f(1), of p] by simp
  qed
  have end': "gives over_read (goes_to p q) (if found then Inr r else push_packet DefaultQosFlow p r)"
    if "placed p q (found, r)" for found r
    using that last by (cases found) (simp_all add: placed_def)
  have mid: "gives over_read (\<lambda>x. gives over_read (goes_to p q) (case x of (found, r) \<Rightarrow>
      if found then Inr r else push_packet DefaultQosFlow p r))
      (if MPDisableQoS r then Inr (False, r) else try_queues qos_queues p r)" if s: "same_filters q r" for r
  proof -
    have "gives over_read (placed p q) (if MPDisableQoS r then Inr (False, r) else try_queues qos_queues p r)"
      using not_placed [OF s] gives_mono [OF try_queues_gives [OF same_filters_inv [OF assms s]] placed_trans [OF s]]
      by (simp del: try_queues.simps)
    then show ?thesis by (rule gives_mono) (clarsimp simp only: prod.case, blast intro: end')+
  qed
  have first: "gives over_read (goes_to p q) (if found then Inr r else
      bnd (if MPDisableQoS r then Inr (False, r) else try_queues qos_queues p r) (\<lambda>(found, q).
      if found then Inr q else push_packet DefaultQosFlow p q))" if x: "placed p q (found, r)" for found r
    using x mid [of r] by (cases found) (simp_all add: placed_def)
  show ?thesis unfolding MPQOS_Enqueue_def gives_bnd
    by (rule gives_mono [OF EnqueueByPrecedence_gives [OF assms]]) (clarsimp simp only: prod.case, rule first, assumption+)
qed

text \<open>A fault of a step that looks at a packet: a read or a write outside the packet buffer.\<close>

definition out_of_buffer :: "fault \<Rightarrow> bool" where
  "out_of_buffer e \<longleftrightarrow> (\<exists>i. e = OOB_Read i \<or> e = OOB_Write i)"

lemma kept_frame:
  "kept P (q\<lparr>QosPacketBuffer := b\<rparr>) = kept P q" "kept P (q\<lparr>QosDispThreadTxEvent := v\<rparr>) = kept P q"
  "kept P (q\<lparr>TxSent := ss\<rparr>) = kept P q" "kept P (q\<lparr>Down := d\<rparr>) = kept P q" "kept P (q\<lparr>DefaultFlowEnabled := d\<rparr>) = kept P q"
  by (simp_all add: kept_def qos_inv_frame packets_of_def)

lemma kept_pending:
  assumes "kept P q"
  shows "kept (add_mset p P) (q\<lparr>TxPendingList := TxPendingList q @ [p]\<rparr>)"
    and "TxPendingList q = p # ps \<Longrightarrow> kept (P - {#p#}) (q\<lparr>TxPendingList := ps\<rparr>)"
    and "kept (add_mset p P) (q\<lparr>TxFailed := TxFailed q @ [p]\<rparr>)"
    and "kept (add_mset p P) (q\<lparr>TxBusyList := TxBusyList q @ [p]\<rparr>)"
    and "kept (add_mset p P) (q\<lparr>TxPendingList := p # TxPendingList q\<rparr>)"
  using assms by (auto simp: kept_def qos_inv_frame packets_of_def)

lemma Categorize_gives:
  assumes "kept P q"
  shows "gives out_of_buffer (kept P) (MPQOS_CategorizePacketsEx q)"
proof (cases "TxPendingList q")
  case Nil
  then show ?thesis using assms by (simp add: MPQOS_CategorizePacketsEx_def)
next
  case (Cons p ps)
  let ?q = "q\<lparr>TxPendingList := ps\<rparr>"
  have k: "kept (P - {#p#}) ?q" using kept_pending(2) [OF assms Cons] .
  have "p \<in># P" using assms Cons by (auto simp: kept_def packets_of_def)
  then have P: "add_mset p (P - {#p#}) = P" by simp
  have fail: "kept P (r\<lparr>TxFailed := TxFailed r @ [p]\<rparr>)" if "kept (P - {#p#}) r" for r
    using kept_pending(3) [OF that, of p] P by simp
  have enq: "gives out_of_buffer (kept P) (bnd (MPQOS_Enqueue p r) (\<lambda>q. Inr (q\<lparr>QosDispThreadTxEvent := True\<rparr>)))"
    if "kept (P - {#p#}) r" for r
  proof -
    have "qos_inv r" using that by (simp add: kept_def)
    from Enqueue_gives [OF this, of p] show ?thesis unfolding gives_bnd
      by (rule gives_mono)
        (use goes_to_kept [OF that, of p] P in \<open>auto simp: kept_frame over_read_def out_of_buffer_def\<close>)
  qed
  have "gives out_of_buffer (\<lambda>(n, r). kept (P - {#p#}) r) (MPUSB_RetriveDataPacket (snd p) ?q)"
    using k kept_frame by (auto simp: MPUSB_RetriveDataPacket_def Let_def gives_if out_of_buffer_def)
  then have "gives out_of_buffer (\<lambda>x. gives out_of_buffer (kept P) (case x of (n, r) \<Rightarrow>
      if n = 0 then Inr (r\<lparr>TxFailed := TxFailed r @ [p]\<rparr>)
      else bnd (MPQOS_Enqueue p r) (\<lambda>q. Inr (q\<lparr>QosDispThreadTxEvent := True\<rparr>)))) (MPUSB_RetriveDataPacket (snd p) ?q)"
    by (rule gives_mono) (use fail enq in \<open>auto simp del: gives_bnd\<close>)
  then show ?thesis
    using fail [OF k] by (simp add: MPQOS_CategorizePacketsEx_def Cons Let_def)
qed

section \<open>Flows and filters that come and go\<close>

lemma move_flow_kept:
  assumes "kept P q" and "flow_at q a = Some f" and "t = FLOW_SEND_WITHOUT_DATA \<Longrightarrow> Packets f = []"
    and "t = FLOW_DEFAULT \<Longrightarrow> FilterList f = []" and "a = DefaultQosFlow \<Longrightarrow> t = FLOW_DEFAULT"
  obtains q' where "move_flow a t q = Inr q'" "kept P q'"
proof -
  let ?q = "insert_tail t a (unlink a (set_flow a (f\<lparr>FlowState := t\<rparr>) q))"
  have inv: "qos_inv q" and P: "packets_of q = P" using assms(1) by (simp_all add: kept_def)
  have rel: "relocated a (f\<lparr>FlowState := t\<rparr>) q ?q" by (rule relocated_move [OF inv assms(2)]) simp
  have "qos_inv ?q" by (rule relocated_inv [OF inv rel assms(2)]) (use assms in auto)
  moreover have "packets_of ?q = P"
    using packets_of_flow [of ?q q f "[]"] relocated_packets [OF inv rel assms(2)] P by simp
  ultimately show thesis using that move_flow_eq [OF assms(2)] by (simp add: kept_def)
qed

lemma FindQosFlow_Some:
  assumes "qos_inv q" and "FindQosFlow ts fid q = Some a"
  obtains f where "flow_at q a = Some f" "FlowState f \<in> set ts" "FlowId f = fid"
proof -
  have id: "flow_id_at q a = Some fid" and mem: "a \<in> set (concat (map (FlowDataQueue q) ts))"
    using assms(2) unfolding FindQosFlow_def find_Some_iff by (blast, metis nth_mem)
  then obtain t where "t \<in> set ts" "a \<in> set (FlowDataQueue q t)" by auto
  then obtain f where "flow_at q a = Some f" "FlowState f = t"
    using assms(1) unfolding qos_inv_def queues_ok_def by blast
  then show thesis using that \<open>t \<in> set ts\<close> id by (simp add: flow_id_at_def)
qed

lemma not_default_flow: "qos_inv q \<Longrightarrow> flow_at q a = Some f \<Longrightarrow> FlowState f \<noteq> FLOW_DEFAULT \<Longrightarrow> a \<noteq> DefaultQosFlow"
  unfolding qos_inv_def queues_ok_def by (metis option.inject)

lemma default_flow_filters: "qos_inv q \<Longrightarrow> flow_at q a = Some f \<Longrightarrow> FlowState f = FLOW_DEFAULT \<Longrightarrow> FilterList f = []"
  using filters_okD(2) [of q a f] by (cases "FilterList f") (auto simp: qos_inv_def)

text \<open>The list by precedence.\<close>

lemma set_insert_by_precedence [simp]: "set (insert_by_precedence pr x ys) = insert x (set ys)"
  by (induction ys) auto

lemma distinct_insert_by_precedence [simp]:
  "distinct (insert_by_precedence pr x ys) \<longleftrightarrow> x \<notin> set ys \<and> distinct ys"
  by (induction ys) auto

lemma sorted_insert_by_precedence:
  "sorted (map (\<lambda>x. unat (pr x)) ys) \<Longrightarrow> sorted (map (\<lambda>x. unat (pr x)) (insert_by_precedence pr x ys))"
proof (induction ys)
  case (Cons y ys)
  then show ?case
    by (auto simp: word_less_nat_alt not_less intro: order_trans less_imp_le_nat)
qed simp

lemma fold_insert_by_precedence:
  assumes "distinct xs" and "distinct ys" and "set xs \<inter> set ys = {}" and "sorted (map (\<lambda>x. unat (pr x)) ys)"
  shows "distinct (fold (insert_by_precedence pr) xs ys)
    \<and> set (fold (insert_by_precedence pr) xs ys) = set xs \<union> set ys
    \<and> sorted (map (\<lambda>x. unat (pr x)) (fold (insert_by_precedence pr) xs ys))"
  using assms
proof (induction xs arbitrary: ys)
  case (Cons x xs)
  then show ?case
    using Cons.IH [of "insert_by_precedence pr x ys"] by (auto simp: sorted_insert_by_precedence)
qed simp

lemma new_filters_eq:
  "new_filters fs q = ([next_addr q ..< next_addr q + length fs],
     q\<lparr>filter_at := (\<lambda>x. if next_addr q \<le> x \<and> x < next_addr q + length fs then Some (fs ! (x - next_addr q)) else filter_at q x),
       next_addr := next_addr q + length fs\<rparr>)"
proof (induction fs arbitrary: q)
  case Nil
  have "(\<lambda>x. if next_addr q \<le> x \<and> x < next_addr q then Some ([] ! (x - next_addr q)) else filter_at q x) = filter_at q"
    by (rule ext) auto
  then show ?case by simp
next
  case (Cons f fs)
  have "(\<lambda>x. if Suc (next_addr q) \<le> x \<and> x < Suc (next_addr q + length fs) then Some (fs ! (x - Suc (next_addr q)))
      else ((filter_at q)(next_addr q \<mapsto> f)) x)
    = (\<lambda>x. if next_addr q \<le> x \<and> x < Suc (next_addr q + length fs) then Some ((f # fs) ! (x - next_addr q)) else filter_at q x)"
    by (rule ext) (auto simp: nth_Cons' Suc_le_eq)
  moreover have "[next_addr q ..< Suc (next_addr q + length fs)] = next_addr q # [Suc (next_addr q) ..< Suc (next_addr q + length fs)]"
    by (simp only: upt_rec [of "next_addr q"]) simp
  ultimately show ?case
    by (simp add: Cons.IH Let_def cong: if_cong del: upt_Suc)
qed

lemma qos_invD:
  assumes "qos_inv q"
  shows "queues_ok q" "filters_ok q" "addresses_ok q"
  using assms by (simp_all add: qos_inv_def)

lemma below_next:
  assumes "qos_inv q"
  shows "flow_at q a = Some f \<Longrightarrow> a < next_addr q" and "filter_at q x = Some r \<Longrightarrow> x < next_addr q"
    and "0 < next_addr q"
proof -
  have D: "flow_at q b = None \<and> filter_at q b = None" if "next_addr q \<le> b" for b
    using qos_invD(3) [OF assms] that by (simp add: addresses_ok_def)
  show "flow_at q a = Some f \<Longrightarrow> a < next_addr q" using D [of a] by (cases "a < next_addr q") simp_all
  show "filter_at q x = Some r \<Longrightarrow> x < next_addr q" using D [of x] by (cases "x < next_addr q") simp_all
  show "0 < next_addr q" using qos_invD(3) [OF assms] by (simp add: addresses_ok_def)
qed

text \<open>The state when new filters have become those of a flow.\<close>

lemma add_filters_kept:
  assumes k: "kept P q" and f: "flow_at q a = Some f" and nd: "FlowState f \<noteq> FLOW_DEFAULT"
    and n: "new_filters fs q = (xs, r)"
  obtains q' where "AddQosFilter a xs r = Inr q'" "kept P q'"
proof -
  have inv: "qos_inv q" using k by (simp add: kept_def)
  note D = filters_okD [OF qos_invD(2) [OF inv]] and B = below_next [OF inv]
  let ?n = "next_addr q" and ?new = "\<lambda>x. next_addr q \<le> x \<and> x < next_addr q + length fs"
  have xs: "set xs = {x. ?new x}" "distinct xs" and r: "r = q\<lparr>filter_at := (\<lambda>x. if ?new x then Some (fs ! (x - ?n)) else filter_at q x), next_addr := ?n + length fs\<rparr>"
    using n by (auto simp: new_filters_eq)
  have old: "filter_at q x = None" if "?new x" for x using B(2) [of x] that by (cases "filter_at q x") auto
  let ?prio = "filter (\<lambda>x. prec_of r x < QOS_FILTER_PRECEDENCE_INVALID) xs"
  let ?pl = "fold (insert_by_precedence (prec_of r)) ?prio (FilterPrecedenceList q)"
  define g where "g x = (if ?new x then Some ((fs ! (x - ?n))\<lparr>Flow := a\<rparr>) else filter_at q x)" for x
  let ?q = "set_flow a (f\<lparr>FilterList := FilterList f @ xs\<rparr>) (r\<lparr>FilterPrecedenceList := ?pl, filter_at := g\<rparr>)"
  have add: "AddQosFilter a xs r = Inr ?q"
  proof -
    have "(\<lambda>x. if x \<in> set xs then map_option (\<lambda>f. f\<lparr>Flow := a\<rparr>) (filter_at r x) else filter_at r x) = g"
      by (rule ext) (auto simp: xs g_def r)
    moreover have "flow_at r = flow_at q" "FilterPrecedenceList r = FilterPrecedenceList q" by (simp_all add: r)
    ultimately show ?thesis using f
      by (simp add: AddQosFilter_def AddQosFilterToPrecedenceList_def Let_def flow_of_def set_flow_def cong: if_cong)
  qed
  have pr: "prec_of ?q = prec_of r" by (rule ext) (simp add: prec_of_def g_def r set_flow_def)
  have pl: "distinct ?pl \<and> set ?pl = set ?prio \<union> set (FilterPrecedenceList q) \<and> sorted (map (\<lambda>x. unat (prec_of r x)) ?pl)"
  proof (rule fold_insert_by_precedence)
    have mem: "\<not> ?new x" if "x \<in> set (FilterPrecedenceList q)" for x using that D(6) [of x] old [of x] by auto
    then show "set ?prio \<inter> set (FilterPrecedenceList q) = {}" using xs(1) by auto
    have eq: "map (\<lambda>x. unat (prec_of r x)) (FilterPrecedenceList q) = map (\<lambda>x. unat (prec_of q x)) (FilterPrecedenceList q)"
      using mem by (auto simp: prec_of_def r)
    show "sorted (map (\<lambda>x. unat (prec_of r x)) (FilterPrecedenceList q))" unfolding eq by (rule D(5))
  qed (use xs(2) D(4) in auto)
  have fl: "flow_at ?q = (flow_at q)(a \<mapsto> f\<lparr>FilterList := FilterList f @ xs\<rparr>)" "filter_at ?q = g"
    "FilterPrecedenceList ?q = ?pl" "FlowDataQueue ?q = FlowDataQueue q" "next_addr ?q = ?n + length fs"
    by (simp_all add: r set_flow_def)
  have "filters_ok ?q"
  proof (rule filters_okI, unfold fl pr)
    fix b h assume h: "((flow_at q)(a \<mapsto> f\<lparr>FilterList := FilterList f @ xs\<rparr>)) b = Some h"
    have dis: "\<not> ?new x" if "x \<in> set (FilterList f)" for x using D(2) [OF f that] old [of x] by auto
    then have "set (FilterList f) \<inter> set xs = {}" unfolding xs by blast
    then show "distinct (FilterList h)"
      using h D(1) [OF f] xs(2) D(1) by (auto split: if_splits)
    fix x assume x: "x \<in> set (FilterList h)"
    show "FlowState h \<noteq> FLOW_DEFAULT \<and> (\<exists>r. g x = Some r \<and> Flow r = b)"
    proof (cases "b = a \<and> x \<in> set xs")
      case True
      then have "FlowState h = FlowState f" using h by auto
      moreover have "?new x" using True xs(1) by blast
      then have "g x = Some ((fs ! (x - ?n))\<lparr>Flow := a\<rparr>)" by (simp add: g_def)
      ultimately show ?thesis using nd True by simp
    next
      case False
      have "FlowState h \<noteq> FLOW_DEFAULT \<and> (\<exists>r. filter_at q x = Some r \<and> Flow r = b)"
      proof (cases "b = a")
        case True
        then have "x \<in> set (FilterList f)" using False h x by auto
        from D(2) [OF f this] show ?thesis using True h by auto
      next
        case False
        then show ?thesis using D(2) [of b h x] h x by auto
      qed
      then show ?thesis using old [of x] by (auto simp: g_def)
    qed
  next
    fix x y assume y: "g x = Some y"
    show "\<exists>h. ((flow_at q)(a \<mapsto> f\<lparr>FilterList := FilterList f @ xs\<rparr>)) (Flow y) = Some h \<and> x \<in> set (FilterList h)"
    proof (cases "?new x")
      case True
      then show ?thesis using y xs(1) by (auto simp: g_def)
    next
      case False
      then obtain h where "flow_at q (Flow y) = Some h" "x \<in> set (FilterList h)" using y D(3) by (auto simp: g_def split: if_splits)
      then show ?thesis using f by auto
    qed
  next
    fix x
    have "x \<in> set ?prio \<longleftrightarrow> ?new x \<and> (\<exists>y. g x = Some y \<and> Precedence y < 256)"
      unfolding set_filter xs(1) by (auto simp: prec_of_def r g_def)
    moreover have "x \<in> set (FilterPrecedenceList q) \<longleftrightarrow> \<not> ?new x \<and> (\<exists>y. g x = Some y \<and> Precedence y < 256)"
      unfolding D(6) [of x] using old [of x] by (auto simp: g_def)
    ultimately show "x \<in> set ?pl \<longleftrightarrow> (\<exists>y. g x = Some y \<and> Precedence y < 256)"
      using pl by blast
  qed (use pl in auto)
  moreover have "queues_ok ?q"
    using qos_invD(1) [OF inv] f unfolding queues_ok_def fl by auto
  moreover have "addresses_ok ?q"
    using qos_invD(3) [OF inv] B(1) [OF f] unfolding addresses_ok_def fl by (auto simp: g_def)
  moreover have "packets_of ?q = P"
    using packets_of_flow [of ?q q f "[]"] flow_packets_upd [OF qos_inv_finite [OF inv], of a "Some (f\<lparr>FilterList := FilterList f @ xs\<rparr>)"] f k
    by (simp add: r set_flow_def kept_def)
  ultimately show thesis using that add by (simp add: kept_def qos_inv_def)
qed

lemma new_flow_kept:
  assumes k: "kept P q"
    and f: "FilterList f = []" "Packets f = []" "FlowState f = FLOW_SEND_WITHOUT_DATA"
    and r: "r = insert_tail FLOW_SEND_WITHOUT_DATA (next_addr q) (set_flow (next_addr q) f (q\<lparr>next_addr := next_addr q + 1\<rparr>))"
  shows "kept P r"
proof -
  let ?n = "next_addr q"
  have inv: "qos_inv q" using k by (simp add: kept_def)
  note D = filters_okD [OF qos_invD(2) [OF inv]] and B = below_next [OF inv] and Q = qos_invD(1) [OF inv, unfolded queues_ok_def]
  have none: "flow_at q ?n = None" using qos_invD(3) [OF inv] by (simp add: addresses_ok_def)
  have notin: "?n \<notin> set (FlowDataQueue q t)" for t
  proof
    assume "?n \<in> set (FlowDataQueue q t)"
    then have "\<exists>g. flow_at q ?n = Some g" using Q by blast
    then show False using none by simp
  qed
  have fl: "flow_at r = (flow_at q)(?n \<mapsto> f)" "filter_at r = filter_at q" "next_addr r = Suc ?n"
    "FilterPrecedenceList r = FilterPrecedenceList q"
    "FlowDataQueue r = (FlowDataQueue q)(FLOW_SEND_WITHOUT_DATA := FlowDataQueue q FLOW_SEND_WITHOUT_DATA @ [?n])"
    by (simp_all add: r insert_tail_def set_flow_def)
  have pr: "prec_of r = prec_of q" by (rule ext) (simp add: prec_of_def fl)
  have "queues_ok r" unfolding queues_ok_def fl
  proof (intro conjI allI)
    fix t show "distinct (((FlowDataQueue q)(FLOW_SEND_WITHOUT_DATA := FlowDataQueue q FLOW_SEND_WITHOUT_DATA @ [?n])) t)"
      using Q notin by simp
    fix a show "(a \<in> set (((FlowDataQueue q)(FLOW_SEND_WITHOUT_DATA := FlowDataQueue q FLOW_SEND_WITHOUT_DATA @ [?n])) t)) =
       (\<exists>fa. ((flow_at q)(?n \<mapsto> f)) a = Some fa \<and> FlowState fa = t)"
      using Q notin [of t] f(3) by (cases "a = ?n") auto
  next
    fix a g show "((flow_at q)(?n \<mapsto> f)) a = Some g \<and> FlowState g = FLOW_SEND_WITHOUT_DATA \<longrightarrow> Packets g = []"
      using Q f(2) by (cases "a = ?n") auto
  next
    show "\<exists>fa. ((flow_at q)(?n \<mapsto> f)) 0 = Some fa \<and> FlowState fa = FLOW_DEFAULT \<and> FlowId fa = 0"
      using Q B(3) by auto
  qed
  moreover have "filters_ok r"
  proof (rule filters_okI, unfold fl pr)
    fix x y assume "filter_at q x = Some y"
    then obtain h where "flow_at q (Flow y) = Some h" "x \<in> set (FilterList h)" using D(3) by blast
    then show "\<exists>h. ((flow_at q)(?n \<mapsto> f)) (Flow y) = Some h \<and> x \<in> set (FilterList h)" using none by auto
  next
    fix b h x assume "((flow_at q)(?n \<mapsto> f)) b = Some h" "x \<in> set (FilterList h)"
    then show "FlowState h \<noteq> FLOW_DEFAULT \<and> (\<exists>r. filter_at q x = Some r \<and> Flow r = b)"
      using D(2) f(1) by (cases "b = ?n") auto
  next
    fix b h assume "((flow_at q)(?n \<mapsto> f)) b = Some h"
    then show "distinct (FilterList h)" using D(1) f(1) by (cases "b = ?n") auto
  qed (use D in auto)
  moreover have "addresses_ok r"
    using qos_invD(3) [OF inv] unfolding addresses_ok_def fl by auto
  moreover have "packets_of r = P"
    using flow_packets_upd [OF qos_inv_finite [OF inv], of ?n "Some f"] none f(2) k
    by (simp add: kept_def packets_of_def fl(1)) (simp add: r insert_tail_def set_flow_def)
  ultimately show ?thesis by (simp add: kept_def qos_inv_def)
qed

text \<open>The state when a flow has lost its filters.\<close>

definition without_filters :: "nat \<Rightarrow> flow_entry \<Rightarrow> qos \<Rightarrow> qos" where
  "without_filters a f q = set_flow a (f\<lparr>FilterList := []\<rparr>)
     (q\<lparr>FilterPrecedenceList := filter (\<lambda>x. x \<notin> set (FilterList f)) (FilterPrecedenceList q),
        filter_at := (\<lambda>x. if x \<in> set (FilterList f) then None else filter_at q x)\<rparr>)"

lemma PurgeFilterList_eq: "flow_at q a = Some f \<Longrightarrow> MPQOSC_PurgeFilterList a q = Inr (without_filters a f q)"
  by (simp add: MPQOSC_PurgeFilterList_def flow_of_def RemoveQosFilterFromPrecedenceList_def without_filters_def Let_def cong: if_cong)

lemma without_filters_kept:
  assumes k: "kept P q" and f: "flow_at q a = Some f"
  shows "kept P (without_filters a f q)"
proof -
  let ?r = "without_filters a f q" and ?g = "\<lambda>x. if x \<in> set (FilterList f) then None else filter_at q x"
  have inv: "qos_inv q" using k by (simp add: kept_def)
  note D = filters_okD [OF qos_invD(2) [OF inv]] and B = below_next [OF inv]
  have fl: "flow_at ?r = (flow_at q)(a \<mapsto> f\<lparr>FilterList := []\<rparr>)" "filter_at ?r = ?g" "next_addr ?r = next_addr q"
    "FilterPrecedenceList ?r = filter (\<lambda>x. x \<notin> set (FilterList f)) (FilterPrecedenceList q)"
    "FlowDataQueue ?r = FlowDataQueue q"
    by (simp_all add: without_filters_def set_flow_def)
  have own: "x \<in> set (FilterList f) \<longleftrightarrow> Flow y = a" if "filter_at q x = Some y" for x y
    using D(2) [OF f, of x] D(3) [OF that] that f by auto
  have "queues_ok ?r" using qos_invD(1) [OF inv] f unfolding queues_ok_def fl by auto
  moreover have "filters_ok ?r"
  proof (rule filters_okI, unfold fl)
    fix b h x assume h: "((flow_at q)(a \<mapsto> f\<lparr>FilterList := []\<rparr>)) b = Some h" "x \<in> set (FilterList h)"
    then have b: "b \<noteq> a" "flow_at q b = Some h" by (auto split: if_splits)
    then obtain y where "filter_at q x = Some y" "Flow y = b" "FlowState h \<noteq> FLOW_DEFAULT" using D(2) [OF b(2) h(2)] by blast
    then show "FlowState h \<noteq> FLOW_DEFAULT \<and> (\<exists>r. ?g x = Some r \<and> Flow r = b)" using own b(1) by auto
  next
    fix x y assume "?g x = Some y"
    then have y: "filter_at q x = Some y" "x \<notin> set (FilterList f)" by (auto split: if_splits)
    then obtain h where "flow_at q (Flow y) = Some h" "x \<in> set (FilterList h)" using D(3) by blast
    then show "\<exists>h. ((flow_at q)(a \<mapsto> f\<lparr>FilterList := []\<rparr>)) (Flow y) = Some h \<and> x \<in> set (FilterList h)"
      using own y by auto
  next
    fix b h assume "((flow_at q)(a \<mapsto> f\<lparr>FilterList := []\<rparr>)) b = Some h"
    then show "distinct (FilterList h)" using D(1) by (cases "b = a") auto
  next
    have eq: "prec_of ?r x = prec_of q x" if "x \<notin> set (FilterList f)" for x using that by (simp add: prec_of_def fl)
    have "map (\<lambda>x. unat (prec_of ?r x)) (filter (\<lambda>x. x \<notin> set (FilterList f)) (FilterPrecedenceList q))
        = map (\<lambda>x. unat (prec_of q x)) (filter (\<lambda>x. x \<notin> set (FilterList f)) (FilterPrecedenceList q))"
      using eq by (intro map_cong) auto
    then show "sorted (map (\<lambda>x. unat (prec_of ?r x)) (filter (\<lambda>x. x \<notin> set (FilterList f)) (FilterPrecedenceList q)))"
      using sorted_filter [OF D(5), of "\<lambda>x. x \<notin> set (FilterList f)"] by (simp only:)
  next
    fix x show "(x \<in> set (filter (\<lambda>x. x \<notin> set (FilterList f)) (FilterPrecedenceList q)))
      = (\<exists>r. ?g x = Some r \<and> Precedence r < 256)"
      using D(6) [of x] by auto
  qed (use D in auto)
  moreover have "addresses_ok ?r"
    using qos_invD(3) [OF inv] B(1) [OF f] unfolding addresses_ok_def fl by auto
  moreover have "packets_of ?r = P"
    using packets_of_flow [of ?r q f "[]"] flow_packets_upd [OF qos_inv_finite [OF inv], of a "Some (f\<lparr>FilterList := []\<rparr>)"] f k
    by (simp add: kept_def without_filters_def set_flow_def)
  ultimately show ?thesis by (simp add: kept_def qos_inv_def)
qed

section \<open>Reports of the modem\<close>

abbreviation (input) "no_error \<equiv> (\<lambda>e :: fault. False)"

lemma kept_inv: "kept P q \<Longrightarrow> qos_inv q"
  by (simp add: kept_def)

lemma flow_activated_gives:
  assumes "kept P q"
  shows "gives no_error (kept P) (flow_activated fid fs q)"
proof (cases "FindQosFlow qos_queues fid q")
  case None
  define f where "f = \<lparr>FlowId = fid, FilterList = [], Packets = [], FlowState = FLOW_SEND_WITHOUT_DATA\<rparr>"
  define r where "r = insert_tail FLOW_SEND_WITHOUT_DATA (next_addr q) (set_flow (next_addr q) f (q\<lparr>next_addr := next_addr q + 1\<rparr>))"
  have k: "kept P r" by (rule new_flow_kept [OF assms _ _ _ r_def]) (simp_all add: f_def)
  have f: "flow_at r (next_addr q) = Some f" "FlowState f \<noteq> FLOW_DEFAULT" by (simp_all add: r_def f_def)
  obtain xs r' where n: "new_filters fs r = (xs, r')" by fastforce
  obtain q' where "AddQosFilter (next_addr q) xs r' = Inr q'" "kept P q'" by (rule add_filters_kept [OF k f n])
  moreover have "flow_activated fid fs q = AddQosFilter (next_addr q) xs r'"
    using None n by (simp add: flow_activated_def Let_def r_def f_def)
  ultimately show ?thesis by simp
qed (simp add: flow_activated_def assms)

lemma flow_modified_gives:
  assumes "kept P q"
  shows "gives no_error (kept P) (flow_modified fid fs q)"
proof (cases "FindQosFlow qos_queues fid q")
  case (Some a)
  obtain f where f: "flow_at q a = Some f" "FlowState f \<in> set qos_queues"
    by (rule FindQosFlow_Some [OF kept_inv [OF assms] Some]) auto
  let ?r = "without_filters a f q"
  have k: "kept P ?r" by (rule without_filters_kept [OF assms f(1)])
  have g: "flow_at ?r a = Some (f\<lparr>FilterList := []\<rparr>)" "FlowState (f\<lparr>FilterList := []\<rparr>) \<noteq> FLOW_DEFAULT"
    using f(2) by (auto simp: without_filters_def)
  obtain xs r' where n: "new_filters fs ?r = (xs, r')" by fastforce
  obtain q' where "AddQosFilter a xs r' = Inr q'" "kept P q'" by (rule add_filters_kept [OF k g n])
  then show ?thesis by (simp add: flow_modified_def Some PurgeFilterList_eq [OF f(1)] n)
qed (simp add: flow_modified_def assms)

lemma flow_deleted_gives:
  assumes "kept P q"
  shows "gives no_error (kept P) (flow_deleted fid q)"
proof (cases "FindQosFlow qos_queues fid q")
  case (Some a)
  obtain f where f: "flow_at q a = Some f" "FlowState f \<in> set qos_queues"
    by (rule FindQosFlow_Some [OF kept_inv [OF assms] Some]) auto
  let ?f = "f\<lparr>FilterList := []\<rparr>" and ?r = "without_filters a f q"
  have k: "kept P ?r" by (rule without_filters_kept [OF assms f(1)])
  have g: "flow_at ?r a = Some ?f" by (simp add: without_filters_def)
  obtain q' where q': "move_flow a FLOW_DEFAULT ?r = Inr q'" "kept P q'"
    by (rule move_flow_kept [OF k g, of FLOW_DEFAULT]) auto
  have "insert_tail FLOW_DEFAULT a (set_flow a (?f\<lparr>FlowState := FLOW_DEFAULT\<rparr>) (without_filters a f (unlink a q))) = q'"
    using q'(1) g by (simp add: move_flow_eq without_filters_def set_flow_def unlink_def insert_tail_def cong: if_cong)
  moreover have "flow_at (unlink a q) a = Some f" using f(1) by simp
  ultimately show ?thesis using q'(2)
    by (auto simp: flow_deleted_def Some PurgeFilterList_eq flow_of_def without_filters_def kept_frame)
qed (simp add: flow_deleted_def assms)

lemma flow_enabled_gives:
  assumes "kept P q"
  shows "gives no_error (kept P) (flow_enabled fid q)"
proof (cases "FindQosFlow [FLOW_QUEUED] fid q")
  case (Some a)
  obtain f where f: "flow_at q a = Some f" "FlowState f = FLOW_QUEUED"
    by (rule FindQosFlow_Some [OF kept_inv [OF assms] Some]) auto
  have nd: "a \<noteq> DefaultQosFlow" using not_default_flow [OF _ f(1)] assms f(2) by (simp add: kept_def)
  show ?thesis
  proof (cases "Packets f = []")
    case True
    obtain q' where "move_flow a FLOW_SEND_WITHOUT_DATA q = Inr q'" "kept P q'"
      by (rule move_flow_kept [OF assms f(1), of FLOW_SEND_WITHOUT_DATA]) (use True nd in auto)
    then show ?thesis using True assms by (simp add: flow_enabled_def Some flow_of_def f(1) kept_frame)
  next
    case False
    obtain q' where "move_flow a FLOW_SEND_WITH_DATA q = Inr q'" "kept P q'"
      by (rule move_flow_kept [OF assms f(1), of FLOW_SEND_WITH_DATA]) (use nd in auto)
    then show ?thesis using False assms by (simp add: flow_enabled_def Some flow_of_def f(1) kept_frame)
  qed
qed (simp add: flow_enabled_def assms kept_frame)

lemma flow_disabled_gives:
  assumes "kept P q"
  shows "gives no_error (kept P) (flow_disabled fid q)"
proof (cases "FindQosFlow [FLOW_SEND_WITH_DATA, FLOW_SEND_WITHOUT_DATA] fid q")
  case (Some a)
  obtain f where f: "flow_at q a = Some f" "FlowState f \<in> set [FLOW_SEND_WITH_DATA, FLOW_SEND_WITHOUT_DATA]"
    by (rule FindQosFlow_Some [OF kept_inv [OF assms] Some])
  have nd: "a \<noteq> DefaultQosFlow" using not_default_flow [OF _ f(1)] assms f(2) by (auto simp: kept_def)
  obtain q' where "move_flow a FLOW_QUEUED q = Inr q'" "kept P q'"
    by (rule move_flow_kept [OF assms f(1), of FLOW_QUEUED]) (use nd in auto)
  then show ?thesis using assms by (simp add: flow_disabled_def Some kept_frame)
qed (simp add: flow_disabled_def assms kept_frame)

lemmas report_gives = flow_activated_gives flow_modified_gives flow_deleted_gives flow_enabled_gives flow_disabled_gives

lemma ProcessQosFlowReport_gives: "kept P q \<Longrightarrow> gives no_error (kept P) (ProcessQosFlowReport act fid fs q)"
  by (cases act) (simp_all only: ProcessQosFlowReport_def flow_action.case report_gives)

text \<open>Whatever bytes a message has, the flows stay consistent: it is read, over-read or ignored.\<close>

lemma kept_pool: "kept P (q\<lparr>pool := ks\<rparr>) = kept P q"
  by (simp add: kept_def packets_of_def qos_inv_def queues_ok_def filters_ok_def addresses_ok_def prec_of_def)

lemma QosFlowReport_gives:
  assumes "kept P q"
  shows "gives over_read (kept P) (QosFlowReport undef b p len q)"
proof -
  have apply_report: "gives over_read (kept P) (case action_of n of None \<Rightarrow> Inr (q\<lparr>pool := ks\<rparr>)
      | Some act \<Rightarrow> ProcessQosFlowReport act fid fs (q\<lparr>pool := ks\<rparr>))" for n ks fid fs
    using assms ProcessQosFlowReport_gives [of P "q\<lparr>pool := ks\<rparr>"]
    by (auto simp: kept_pool split: option.split intro: gives_mono)
  show ?thesis
    unfolding QosFlowReport_def Let_def
    using assms by (auto simp: kept_pool apply_report intro!: gives_always [OF report_loop_reads])
qed

lemma report_ind_loop_gives: "kept P q \<Longrightarrow> gives over_read (kept P) (report_ind_loop undef ty len b p e q)"
proof (induction undef ty len b p e q rule: report_ind_loop.induct)
  case (1 undef ty len b p e q)
  note eq = report_ind_loop.simps [of undef ty len b p e q]
  show ?case
  proof (cases "p \<ge> e")
    case False
    have first: "gives over_read (kept P) (if ty = 0x10 then QosFlowReport undef b (p + 3) len q else Inr q)"
      using QosFlowReport_gives [OF "1.prems"] "1.prems" by simp
    have rest: "gives over_read (kept P) (if len = 0 then Inr r else report_ind_loop undef ty len b (p + (3 + len)) e r)"
      if "(if ty = 0x10 then QosFlowReport undef b (p + 3) len q else Inr q) = Inr r" "kept P r" for r
      using "1.IH" [OF False that(1) _ that(2)] that(2) by auto
    show ?thesis unfolding eq using False by (simp only: if_False gives_bnd) (rule gives_mono [OF first rest])
  qed (simp add: eq "1.prems")
qed

lemma ProcessQosEventReportInd_gives:
  "kept P q \<Longrightarrow> gives over_read (kept P) (ProcessQosEventReportInd undef b q)"
  unfolding ProcessQosEventReportInd_def
  by (auto simp only: gives_bnd gives_if gives_simps intro!: more_reads report_ind_loop_gives)

section \<open>Transmission\<close>

text \<open>The only fault of a transmission: a packet that was given back is sent, for the status is not set.\<close>

definition stale_status :: "nd_status \<Rightarrow> qos \<Rightarrow> fault \<Rightarrow> bool" where
  "stale_status stale q e \<longleftrightarrow> e = Wild_Pointer \<and> stale = ND_SUCCESS \<and> Down q \<and> TxBusyList q = []"

lemma take_packet_kept:
  assumes k: "kept P q" and f: "flow_at q a = Some f" "Packets f = p # ps"
  shows "kept (P - {#p#}) (set_flow a (f\<lparr>Packets := ps\<rparr>) q)" and "p \<in># P"
proof -
  let ?r = "set_flow a (f\<lparr>Packets := ps\<rparr>) q"
  have inv: "qos_inv q" and P: "packets_of q = P" using k by (simp_all add: kept_def)
  have rel: "relocated a (f\<lparr>Packets := ps\<rparr>) q ?r" by (rule relocated_set [OF inv f(1)]) simp
  have "FlowState f \<noteq> FLOW_SEND_WITHOUT_DATA" using inv f unfolding qos_inv_def queues_ok_def by (metis list.distinct(1))
  moreover have "a = DefaultQosFlow \<Longrightarrow> FlowState f = FLOW_DEFAULT" using not_default_flow [OF inv f(1)] by blast
  ultimately have "qos_inv ?r"
    by (intro relocated_inv [OF inv rel f(1)]) (use default_flow_filters [OF inv f(1)] in auto)
  moreover have eq: "flow_packets (flow_at ?r) + {#p#} = flow_packets (flow_at q)"
    using relocated_packets [OF inv rel f(1)] f(2) by simp
  then have p: "p \<in># flow_packets (flow_at q)" by (metis union_iff multi_member_last)
  moreover have "flow_packets (flow_at ?r) = flow_packets (flow_at q) - {#p#}" using eq by (metis add_diff_cancel_right')
  ultimately show "kept (P - {#p#}) ?r" using P by (auto simp: kept_def packets_of_def)
  show "p \<in># P" using p P by (auto simp: packets_of_def)
qed

lemma dequeue_and_send_gives:
  assumes k: "kept P q" and f: "flow_at q a = Some f" "Packets f \<noteq> []"
  shows "gives (stale_status stale q) (kept P)
     (bnd (MPQOS_DequeuePacket stale a q) (\<lambda>(p, status, q). send_packet p status fid hdr q))"
proof -
  obtain p ps where ps: "Packets f = p # ps" using f(2) by (cases "Packets f") auto
  let ?r = "set_flow a (f\<lparr>Packets := ps\<rparr>) q"
  note K = take_packet_kept [OF k f(1) ps]
  have ret: "kept (add_mset p (P - {#p#})) s \<Longrightarrow> kept P s" for s using K(2) by simp
  note out = kept_pending(3-5) [OF K(1), of p, THEN ret]
  have d: "Down ?r = Down q" by (simp add: set_flow_def)
  show ?thesis using out d
    by (auto simp: MPQOS_DequeuePacket_def send_packet_def flow_of_def f(1) ps Let_def stale_status_def kept_frame
        simp del: queue_ops_fields(3))
qed

text \<open>A queue whose members change places.\<close>

lemma requeue_kept:
  assumes "kept P q" and "mset xs = mset (FlowDataQueue q t)"
  shows "kept P (q\<lparr>FlowDataQueue := (FlowDataQueue q)(t := xs)\<rparr>)"
proof -
  have "set xs = set (FlowDataQueue q t)" "distinct xs = distinct (FlowDataQueue q t)"
    using assms(2) by (metis set_mset_mset, metis mset_eq_imp_distinct_iff)
  then show ?thesis using assms(1)
    unfolding kept_def qos_inv_def queues_ok_def filters_ok_def addresses_ok_def packets_of_def prec_of_def by (simp, blast)
qed

lemma transmit_step_gives:
  assumes k: "kept P q"
  shows "gives (stale_status stale q) (kept P) (transmit_step stale q)"
proof (cases "FlowDataQueue q FLOW_SEND_WITH_DATA")
  case Nil
  then show ?thesis using k by (simp add: transmit_step_def)
next
  case (Cons a as)
  have inv: "qos_inv q" using k by (rule kept_inv)
  obtain f where f: "flow_at q a = Some f" "FlowState f = FLOW_SEND_WITH_DATA"
    using inv Cons unfolding qos_inv_def queues_ok_def by (metis list.set_intros(1))
  let ?q = "q\<lparr>FlowDataQueue := (FlowDataQueue q)(FLOW_SEND_WITH_DATA := as)\<rparr>"
  have fl: "flow_at ?q a = Some f" using f(1) by simp
  show ?thesis
  proof (cases "Packets f = []")
    case True
    let ?f = "f\<lparr>FlowState := FLOW_SEND_WITHOUT_DATA\<rparr>"
    let ?r = "insert_tail FLOW_SEND_WITHOUT_DATA a (set_flow a ?f ?q)"
    have others: "a \<notin> set (FlowDataQueue q t)" if "t \<noteq> FLOW_SEND_WITH_DATA" for t
      using inv f that unfolding qos_inv_def queues_ok_def by (metis option.inject)
    have dist: "distinct (FlowDataQueue q t)" for t using inv unfolding qos_inv_def queues_ok_def by blast
    have rel: "relocated a ?f q ?r"
      using others dist [of FLOW_SEND_WITH_DATA] dist Cons unfolding relocated_def
      by (auto simp: insert_tail_def set_flow_def)
    have nd: "a \<noteq> DefaultQosFlow" using not_default_flow [OF inv f(1)] f(2) by simp
    have "qos_inv ?r" by (rule relocated_inv [OF inv rel f(1)]) (use True nd in auto)
    moreover have "packets_of ?r = P"
      using packets_of_flow [of ?r q f "[]"] relocated_packets [OF inv rel f(1)] k by (simp add: kept_def)
    ultimately show ?thesis using True by (simp add: transmit_step_def Cons flow_of_def f(1) kept_def Let_def)
  next
    case False
    let ?r = "insert_tail FLOW_SEND_WITH_DATA a ?q"
    have r: "?r = q\<lparr>FlowDataQueue := (FlowDataQueue q)(FLOW_SEND_WITH_DATA := as @ [a])\<rparr>"
      by (simp add: insert_tail_def)
    have "kept P ?r" unfolding r by (rule requeue_kept [OF k]) (simp add: Cons)
    moreover have "flow_at ?r a = Some f" using f(1) by simp
    ultimately have "gives (stale_status stale ?r) (kept P)
      (bnd (MPQOS_DequeuePacket stale a ?r) (\<lambda>(p, status, q). send_packet p status (FlowId f) True q))"
      using False by (rule dequeue_and_send_gives)
    moreover have "stale_status stale ?r = stale_status stale q" by (simp add: stale_status_def insert_tail_def fun_eq_iff)
    ultimately show ?thesis using False by (simp add: transmit_step_def Cons flow_of_def f(1) Let_def)
  qed
qed

lemma free_flow_kept:
  assumes k: "kept P q" and f: "flow_at q a = Some f" "FilterList f = []" "Packets f = []" and nd: "a \<noteq> DefaultQosFlow"
  shows "kept P ((unlink a q)\<lparr>flow_at := (flow_at q)(a := None)\<rparr>)"
proof -
  let ?r = "(unlink a q)\<lparr>flow_at := (flow_at q)(a := None)\<rparr>"
  have inv: "qos_inv q" using k by (rule kept_inv)
  note D = filters_okD [OF qos_invD(2) [OF inv]] and Q = qos_invD(1) [OF inv, unfolded queues_ok_def]
  have fl: "flow_at ?r = (flow_at q)(a := None)" "filter_at ?r = filter_at q" "next_addr ?r = next_addr q"
    "FilterPrecedenceList ?r = FilterPrecedenceList q" "FlowDataQueue ?r = (\<lambda>t. remove1 a (FlowDataQueue q t))"
    by (simp_all add: unlink_def)
  have pr: "prec_of ?r = prec_of q" by (rule ext) (simp add: prec_of_def fl)
  have "queues_ok ?r" unfolding queues_ok_def fl using Q nd by (auto simp: set_remove1_eq)
  moreover have "filters_ok ?r"
  proof (rule filters_okI, unfold fl pr)
    fix x y assume y: "filter_at q x = Some y"
    then obtain h where "flow_at q (Flow y) = Some h" "x \<in> set (FilterList h)" using D(3) by blast
    then show "\<exists>h. ((flow_at q)(a := None)) (Flow y) = Some h \<and> x \<in> set (FilterList h)" using f by auto
  next
    fix b h x assume "((flow_at q)(a := None)) b = Some h" "x \<in> set (FilterList h)"
    then show "FlowState h \<noteq> FLOW_DEFAULT \<and> (\<exists>r. filter_at q x = Some r \<and> Flow r = b)"
      using D(2) by (auto split: if_splits)
  next
    fix b h assume "((flow_at q)(a := None)) b = Some h"
    then show "distinct (FilterList h)" using D(1) by (auto split: if_splits)
  qed (use D in auto)
  moreover have "addresses_ok ?r"
    using qos_invD(3) [OF inv] unfolding addresses_ok_def fl by auto
  moreover have "packets_of ?r = P"
    using flow_packets_upd [OF qos_inv_finite [OF inv], of a None] f k
    by (simp add: kept_def packets_of_def unlink_def)
  ultimately show ?thesis by (simp add: kept_def qos_inv_def)
qed

lemma default_loop_gives:
  assumes "kept P q" and "distinct as" and "set as \<subseteq> set (FlowDataQueue q FLOW_DEFAULT)"
  shows "gives no_error (\<lambda>(empty, present, q'). kept P q') (default_loop as q)"
  using assms
proof (induction as arbitrary: q)
  case (Cons a as)
  obtain f where f: "flow_at q a = Some f" "FlowState f = FLOW_DEFAULT"
    using Cons.prems kept_inv [OF Cons.prems(1)] unfolding qos_inv_def queues_ok_def
    by (metis insert_subset list.simps(15))
  have nofilt: "FilterList f = []" using default_flow_filters [OF kept_inv [OF Cons.prems(1)] f] .
  have pf: "MPQOSC_PurgeFilterList a q = Inr q"
  proof -
    have "f\<lparr>FilterList := []\<rparr> = f" using nofilt by (cases f) simp
    then have "without_filters a f q = q" using f(1) nofilt
      by (cases q) (simp add: without_filters_def set_flow_def fun_upd_idem)
    then show ?thesis using PurgeFilterList_eq [OF f(1)] by simp
  qed
  have rest: "gives no_error (\<lambda>(empty, present, q'). kept P q') (default_loop as q)"
    using Cons by simp
  let ?r = "(unlink a q)\<lparr>flow_at := (flow_at q)(a := None)\<rparr>"
  have freed: "gives no_error (\<lambda>(empty, present, q'). kept P q') (default_loop as ?r)"
    if "Packets f = []" "a \<noteq> DefaultQosFlow"
  proof (rule Cons.IH)
    show "kept P ?r" by (rule free_flow_kept [OF Cons.prems(1) f(1) nofilt that])
    show "set as \<subseteq> set (FlowDataQueue ?r FLOW_DEFAULT)"
    proof
      fix x assume x: "x \<in> set as"
      then have "x \<noteq> a" "x \<in> set (FlowDataQueue q FLOW_DEFAULT)" using Cons.prems(2,3) by auto
      then show "x \<in> set (FlowDataQueue ?r FLOW_DEFAULT)" by (simp add: unlink_def in_set_remove1)
    qed
  qed (use Cons.prems in simp)
  show ?case
    using rest freed by (auto simp: flow_of_def f(1) pf Let_def case_prod_unfold simp del: fun_upd_apply intro: gives_mono)
qed simp

lemma CheckDefaultQueue_gives:
  assumes "kept P q"
  shows "gives no_error (\<lambda>(present, q'). kept P q') (MPQOS_CheckDefaultQueue q)"
proof -
  have mv: "gives no_error (kept P) (move_flow DefaultQosFlow FLOW_DEFAULT r)" if k: "kept P r" for r
  proof -
    obtain f where f: "flow_at r DefaultQosFlow = Some f" "FlowState f = FLOW_DEFAULT"
      using kept_inv [OF k] unfolding qos_inv_def queues_ok_def by blast
    obtain q' where "move_flow DefaultQosFlow FLOW_DEFAULT r = Inr q'" "kept P q'"
      by (rule move_flow_kept [OF k f(1), of FLOW_DEFAULT]) (use default_flow_filters [OF kept_inv [OF k] f] in auto)
    then show ?thesis by simp
  qed
  have "distinct (FlowDataQueue q FLOW_DEFAULT)" using kept_inv [OF assms] unfolding qos_inv_def queues_ok_def by blast
  from default_loop_gives [OF assms this order_refl] show ?thesis
    unfolding MPQOS_CheckDefaultQueue_def gives_bnd case_prod_unfold
    by (rule gives_mono) (auto simp: kept_frame simp del: gives_if intro!: gives_mono [OF mv])
qed

lemma default_packet_gives:
  assumes k: "kept P q"
  shows "gives (stale_status stale q) (kept P) (default_packet stale q)"
proof (cases "FlowDataQueue q FLOW_DEFAULT")
  case (Cons a as)
  obtain f where f: "flow_at q a = Some f"
    using kept_inv [OF k] Cons unfolding qos_inv_def queues_ok_def by (metis list.set_intros(1))
  show ?thesis
    using dequeue_and_send_gives [OF k f] k by (auto simp: default_packet_def Cons flow_of_def f simp del: gives_bnd)
qed (simp add: default_packet_def k)

section \<open>Taking down\<close>

abbreviation (input) "flow_rec q a \<equiv> the (flow_at q a)"

text \<open>What is left when the flows of a list are purged.\<close>

lemma purge_flows_eq:
  assumes "distinct as" and "\<forall>a \<in> set as. flow_at q a \<noteq> None"
  shows "\<exists>q'. purge_flows as q = Inr q'
    \<and> flow_at q' = (\<lambda>a. if a \<in> set as then
        (if a = DefaultQosFlow then Some ((flow_rec q a)\<lparr>FilterList := [], Packets := []\<rparr>) else None) else flow_at q a)
    \<and> filter_at q' = (\<lambda>x. if \<exists>a \<in> set as. x \<in> set (FilterList (flow_rec q a)) then None else filter_at q x)
    \<and> set (FilterPrecedenceList q') = set (FilterPrecedenceList q) - (\<Union>a \<in> set as. set (FilterList (flow_rec q a)))
    \<and> TxFailed q' = TxFailed q @ concat (map (\<lambda>a. Packets (flow_rec q a)) as)
    \<and> TxPendingList q' = TxPendingList q \<and> TxBusyList q' = TxBusyList q \<and> next_addr q' = next_addr q
    \<and> FlowDataQueue q' = FlowDataQueue q"
  using assms
proof (induction as arbitrary: q)
  case (Cons a as)
  obtain f where f: "flow_at q a = Some f" using Cons.prems(2) by auto
  define r where "r = (RemoveQosFilterFromPrecedenceList (FilterList f) q)
    \<lparr>filter_at := (\<lambda>x. if x \<in> set (FilterList f) then None else filter_at q x), TxFailed := TxFailed q @ Packets f,
     flow_at := (flow_at q)(a := if a = DefaultQosFlow then Some (f\<lparr>FilterList := [], Packets := []\<rparr>) else None)\<rparr>"
  have fl: "flow_at r = (flow_at q)(a := if a = DefaultQosFlow then Some (f\<lparr>FilterList := [], Packets := []\<rparr>) else None)"
    "filter_at r = (\<lambda>x. if x \<in> set (FilterList f) then None else filter_at q x)"
    "set (FilterPrecedenceList r) = set (FilterPrecedenceList q) - set (FilterList f)" "TxFailed r = TxFailed q @ Packets f"
    "TxPendingList r = TxPendingList q" "TxBusyList r = TxBusyList q" "next_addr r = next_addr q" "FlowDataQueue r = FlowDataQueue q"
    by (auto simp: r_def RemoveQosFilterFromPrecedenceList_def)
  have others: "flow_at r b = flow_at q b" if "b \<in> set as" for b using that Cons.prems(1) by (auto simp: fl)
  have step: "purge_flows (a # as) q = purge_flows as r"
    by (simp add: flow_of_def f r_def RemoveQosFilterFromPrecedenceList_def Let_def cong: if_cong)
  have pre: "distinct as" "\<forall>b \<in> set as. flow_at r b \<noteq> None" using Cons.prems others by simp_all
  obtain q' where q': "purge_flows as r = Inr q'"
    and fa: "flow_at q' = (\<lambda>b. if b \<in> set as then
        (if b = DefaultQosFlow then Some ((flow_rec r b)\<lparr>FilterList := [], Packets := []\<rparr>) else None) else flow_at r b)"
    and fi: "filter_at q' = (\<lambda>x. if \<exists>b \<in> set as. x \<in> set (FilterList (flow_rec r b)) then None else filter_at r x)"
    and fp: "set (FilterPrecedenceList q') = set (FilterPrecedenceList r) - (\<Union>b \<in> set as. set (FilterList (flow_rec r b)))"
    and tf: "TxFailed q' = TxFailed r @ concat (map (\<lambda>b. Packets (flow_rec r b)) as)"
    and re: "TxPendingList q' = TxPendingList r" "TxBusyList q' = TxBusyList r" "next_addr q' = next_addr r" "FlowDataQueue q' = FlowDataQueue r"
    using Cons.IH [OF pre] by blast
  have "flow_at q' = (\<lambda>b. if b \<in> set (a # as) then
        (if b = DefaultQosFlow then Some ((flow_rec q b)\<lparr>FilterList := [], Packets := []\<rparr>) else None) else flow_at q b)"
  proof
    fix b show "flow_at q' b = (if b \<in> set (a # as) then
        (if b = DefaultQosFlow then Some ((flow_rec q b)\<lparr>FilterList := [], Packets := []\<rparr>) else None) else flow_at q b)"
      using Cons.prems(1) f by (cases "b = a"; cases "b \<in> set as") (auto simp: fa others fl)
  qed
  moreover have "filter_at q' = (\<lambda>x. if \<exists>b \<in> set (a # as). x \<in> set (FilterList (flow_rec q b)) then None else filter_at q x)"
  proof
    fix x
    have "(\<exists>b \<in> set as. x \<in> set (FilterList (flow_rec r b))) \<longleftrightarrow> (\<exists>b \<in> set as. x \<in> set (FilterList (flow_rec q b)))"
      by (rule bex_cong) (simp_all only: others)
    then show "filter_at q' x = (if \<exists>b \<in> set (a # as). x \<in> set (FilterList (flow_rec q b)) then None else filter_at q x)"
      unfolding fi fl(2) by (simp add: f)
  qed
  moreover have "set (FilterPrecedenceList q') = set (FilterPrecedenceList q) - (\<Union>b \<in> set (a # as). set (FilterList (flow_rec q b)))"
  proof -
    have "(\<Union>b \<in> set as. set (FilterList (flow_rec r b))) = (\<Union>b \<in> set as. set (FilterList (flow_rec q b)))"
      by (rule SUP_cong [OF refl]) (simp only: others)
    then show ?thesis unfolding fp fl(3) by (auto simp: f)
  qed
  moreover have eq: "map (\<lambda>b. Packets (flow_rec r b)) as = map (\<lambda>b. Packets (flow_rec q b)) as"
    by (rule map_cong [OF refl]) (simp only: others)
  have "TxFailed q' = TxFailed q @ concat (map (\<lambda>b. Packets (flow_rec q b)) (a # as))" unfolding tf eq fl(4) by (simp add: f)
  ultimately show ?case unfolding step using q' re fl by (intro exI [of _ q'] conjI) simp_all
qed simp

lemma flow_packets_list:
  assumes "distinct as" and "set as = dom m"
  shows "flow_packets m = mset (concat (map (\<lambda>a. Packets (the (m a))) as))"
proof -
  have "flow_packets m = (\<Sum>a \<leftarrow> as. packets_at (m a))"
    unfolding flow_packets_def assms(2) [symmetric] by (rule sum.distinct_set_conv_list [OF assms(1)])
  also have "\<dots> = (\<Sum>a \<leftarrow> as. mset (Packets (the (m a))))"
  proof -
    have "packets_at (m a) = mset (Packets (the (m a)))" if "a \<in> set as" for a
      using that assms(2) by (auto simp: dom_def)
    then show ?thesis by (metis (no_types, lifting) map_cong)
  qed
  also have "\<dots> = mset (concat (map (\<lambda>a. Packets (the (m a))) as))" by (induction as) auto
  finally show ?thesis .
qed

lemma PurgeQueues_gives:
  assumes k: "kept P q"
  shows "gives no_error (kept P) (MPQOS_PurgeQueues q)"
proof -
  have inv: "qos_inv q" using k by (rule kept_inv)
  note Q = qos_invD(1) [OF inv, unfolded queues_ok_def] and D = filters_okD [OF qos_invD(2) [OF inv]]
  define as where "as = concat (map (FlowDataQueue q) (qos_queues @ [FLOW_DEFAULT]))"
  obtain f0 where f0: "flow_at q 0 = Some f0" "FlowState f0 = FLOW_DEFAULT" "FlowId f0 = 0" using Q by blast
  have mem: "a \<in> set as \<longleftrightarrow> flow_at q a \<noteq> None" for a
  proof -
    have "a \<in> set as \<longleftrightarrow> (\<exists>t. a \<in> set (FlowDataQueue q t))"
      unfolding as_def by (auto intro: flow_queue.exhaust) (metis flow_queue.exhaust)
    then show ?thesis using Q by auto
  qed
  have disj: "set (FlowDataQueue q s) \<inter> set (FlowDataQueue q t) = {}" if "s \<noteq> t" for s t
  proof -
    have "x \<notin> set (FlowDataQueue q t)" if x: "x \<in> set (FlowDataQueue q s)" for x
    proof
      assume "x \<in> set (FlowDataQueue q t)"
      then obtain g h where "flow_at q x = Some g" "FlowState g = s" "flow_at q x = Some h" "FlowState h = t" using Q x by blast
      then show False using \<open>s \<noteq> t\<close> by simp
    qed
    then show ?thesis by blast
  qed
  have dis: "distinct (FlowDataQueue q t)" for t using Q by blast
  have dist: "distinct as" unfolding as_def by (simp add: Int_Un_distrib disj dis)
  have all: "set as = dom (flow_at q)" using mem by blast
  let ?q = "q\<lparr>FlowDataQueue := (\<lambda>_. [])\<rparr>"
  obtain r where r: "purge_flows as ?q = Inr r"
    and fa: "flow_at r = (\<lambda>a. if a \<in> set as then
        (if a = DefaultQosFlow then Some ((flow_rec ?q a)\<lparr>FilterList := [], Packets := []\<rparr>) else None) else flow_at ?q a)"
    and fi: "filter_at r = (\<lambda>x. if \<exists>a \<in> set as. x \<in> set (FilterList (flow_rec ?q a)) then None else filter_at ?q x)"
    and fp: "set (FilterPrecedenceList r) = set (FilterPrecedenceList ?q) - (\<Union>a \<in> set as. set (FilterList (flow_rec ?q a)))"
    and tf: "TxFailed r = TxFailed ?q @ concat (map (\<lambda>a. Packets (flow_rec ?q a)) as)"
    and re: "TxPendingList r = TxPendingList ?q" "TxBusyList r = TxBusyList ?q" "next_addr r = next_addr ?q" "FlowDataQueue r = FlowDataQueue ?q"
    using purge_flows_eq [OF dist, of ?q] mem by auto
  let ?f = "f0\<lparr>FilterList := [], Packets := []\<rparr>"
  have fa': "flow_at r = [0 \<mapsto> ?f]"
    by (rule ext) (use mem f0 in \<open>auto simp: fa\<close>)
  have fi': "filter_at r = (\<lambda>_. None)"
  proof
    fix x show "filter_at r x = None"
    proof (cases "filter_at q x")
      case (Some y)
      then obtain h where "flow_at q (Flow y) = Some h" "x \<in> set (FilterList h)" using D(3) by blast
      then have "\<exists>a \<in> set as. x \<in> set (FilterList (flow_rec ?q a))" using mem by (intro bexI [of _ "Flow y"]) simp_all
      then show ?thesis by (simp add: fi)
    qed (simp add: fi)
  qed
  have "FilterPrecedenceList r = []"
  proof -
    have "x \<notin> set (FilterPrecedenceList r)" for x
    proof
      assume "x \<in> set (FilterPrecedenceList r)"
      then have x: "x \<in> set (FilterPrecedenceList q)" "\<not> (\<exists>a \<in> set as. x \<in> set (FilterList (flow_rec ?q a)))" by (auto simp: fp)
      obtain y where y: "filter_at q x = Some y" using x(1) D(6) by auto
      have "filter_at r x = Some y" unfolding fi using x(2) y by simp
      then show False by (simp add: fi')
    qed
    then show ?thesis by (cases "FilterPrecedenceList r") auto
  qed
  note fl = fa' fi' this re
  let ?r = "set_flow 0 (?f\<lparr>FlowState := FLOW_DEFAULT\<rparr>)
     (r\<lparr>FlowDataQueue := (FlowDataQueue r)(FLOW_DEFAULT := [0])\<rparr>)"
  have same: "?f\<lparr>FlowState := FLOW_DEFAULT\<rparr> = ?f" using f0(2) by (cases f0) simp
  have eq: "MPQOS_PurgeQueues q = Inr ?r"
    using r by (simp add: MPQOS_PurgeQueues_def as_def flow_of_def fl)
  have "queues_ok ?r" using f0 unfolding queues_ok_def same by (auto simp: set_flow_def fl)
  moreover have "filters_ok ?r" by (rule filters_okI) (auto simp: set_flow_def fl same split: if_splits)
  moreover have "addresses_ok ?r"
    using qos_invD(3) [OF inv] by (auto simp: addresses_ok_def set_flow_def fl)
  moreover have "packets_of ?r = P"
  proof -
    have "flow_packets (flow_at ?r) = {#}" unfolding same by (simp add: fl flow_packets_def)
    moreover have "mset (TxFailed ?r) = mset (TxFailed q) + flow_packets (flow_at q)"
      unfolding flow_packets_list [OF dist all] by (simp add: set_flow_def tf)
    moreover have "TxPendingList ?r = TxPendingList q" "TxBusyList ?r = TxBusyList q" by (simp_all add: set_flow_def fl)
    ultimately show ?thesis using k by (simp add: kept_def packets_of_def ac_simps)
  qed
  ultimately show ?thesis unfolding eq by (simp add: kept_def qos_inv_def)
qed

section \<open>All orders of events\<close>

text \<open>
  What can happen while the lock is free: the network stack hands over a packet, the USB layer completes the
  oldest one, the dispatch thread does one step, the modem reports, the device goes down or is purged.
\<close>

datatype qos_event = Arrive packet | Completed | Categorize | Report flow_action u32 "qmi_filter list"
  | Indication "u8 \<Rightarrow> u64 \<times> u64" bytes
  | Transmit nd_status | Transmit_Default nd_status | Check_Default | Purge | Enable_Default bool | Set_Down bool

definition qos_event_step :: "qos_event \<Rightarrow> qos \<Rightarrow> fault + qos" where
  "qos_event_step e q =
     (case e of
        Arrive p \<Rightarrow> Inr (q\<lparr>TxPendingList := TxPendingList q @ [p]\<rparr>)
      | Completed \<Rightarrow> Inr (q\<lparr>TxBusyList := tl (TxBusyList q)\<rparr>)
      | Categorize \<Rightarrow> MPQOS_CategorizePacketsEx q
      | Report act fid fs \<Rightarrow> ProcessQosFlowReport act fid fs q
      | Indication undef b \<Rightarrow> ProcessQosEventReportInd undef b q
      | Transmit stale \<Rightarrow> transmit_step stale q
      | Transmit_Default stale \<Rightarrow> default_packet stale q
      | Check_Default \<Rightarrow> bnd (MPQOS_CheckDefaultQueue q) (\<lambda>(_, q). Inr q)
      | Purge \<Rightarrow> MPQOS_PurgeQueues q
      | Enable_Default b \<Rightarrow> Inr (MPQOS_EnableDefaultFlow b q)
      | Set_Down b \<Rightarrow> Inr (q\<lparr>Down := b\<rparr>))"

text \<open>When the adapter has started there is the default flow and nothing else.\<close>

definition qos_start :: "qos \<Rightarrow> bool" where
  "qos_start q \<longleftrightarrow> flow_at q = [0 \<mapsto> \<lparr>FlowId = 0, FilterList = [], Packets = [], FlowState = FLOW_DEFAULT\<rparr>]
     \<and> filter_at q = Map.empty \<and> next_addr q = 1
     \<and> FlowDataQueue q = (\<lambda>t. if t = FLOW_DEFAULT then [DefaultQosFlow] else []) \<and> FilterPrecedenceList q = []
     \<and> TxPendingList q = [] \<and> TxBusyList q = [] \<and> TxFailed q = []"

inductive qos_reachable :: "qos \<Rightarrow> bool" where
  start: "qos_start q \<Longrightarrow> qos_reachable q"
| step: "qos_reachable q \<Longrightarrow> qos_event_step e q = Inr q' \<Longrightarrow> qos_reachable q'"

definition incoming :: "qos_event \<Rightarrow> packet multiset" where
  "incoming e = (case e of Arrive p \<Rightarrow> {#p#} | _ \<Rightarrow> {#})"

definition outgoing :: "qos_event \<Rightarrow> qos \<Rightarrow> packet multiset" where
  "outgoing e q = (case e of Completed \<Rightarrow> mset (take 1 (TxBusyList q)) | _ \<Rightarrow> {#})"

text \<open>The faults that a step can have.\<close>

definition qos_fault :: "qos_event \<Rightarrow> qos \<Rightarrow> fault \<Rightarrow> bool" where
  "qos_fault e q x = (case e of Categorize \<Rightarrow> out_of_buffer x | Indication _ _ \<Rightarrow> over_read x | Transmit s \<Rightarrow> stale_status s q x
     | Transmit_Default s \<Rightarrow> stale_status s q x | _ \<Rightarrow> False)"

lemma no_error_any: "gives no_error Q m \<Longrightarrow> gives E Q m"
  by (erule gives_mono) simp_all

lemma qos_event_step_gives:
  assumes k: "kept P q"
  shows "gives (qos_fault e q) (\<lambda>q'. qos_inv q' \<and> packets_of q' + outgoing e q = P + incoming e) (qos_event_step e q)"
proof -
  have same: "gives E (\<lambda>q'. qos_inv q' \<and> packets_of q' + {#} = P + {#}) m" if "gives E (kept P) m" for E m
    using that by (rule gives_mono) (simp_all add: kept_def)
  show ?thesis
  proof (cases e)
    case (Arrive p)
    then show ?thesis using kept_pending(1) [OF k, of p]
      by (simp add: qos_event_step_def kept_def incoming_def outgoing_def)
  next
    case Completed
    show ?thesis
      using k by (cases "TxBusyList q")
        (auto simp: Completed qos_event_step_def kept_def incoming_def outgoing_def qos_inv_frame packets_of_def)
  next
    case Check_Default
    have "gives no_error (kept P) (bnd (MPQOS_CheckDefaultQueue q) (\<lambda>(_, q). Inr q))"
      using CheckDefaultQueue_gives [OF k] by (auto elim: gives_mono simp: case_prod_unfold)
    then show ?thesis
      unfolding qos_event_step_def incoming_def outgoing_def Check_Default qos_event.case by (rule same [OF no_error_any])
  next
    case (Set_Down b)
    then show ?thesis using k by (simp add: qos_event_step_def incoming_def outgoing_def kept_def qos_inv_frame packets_of_def)
  next
    case (Enable_Default b)
    then show ?thesis using k
      by (simp add: qos_event_step_def MPQOS_EnableDefaultFlow_def incoming_def outgoing_def kept_def qos_inv_frame packets_of_def)
  next
    case Categorize
    show ?thesis using same [OF Categorize_gives [OF k]]
      by (simp add: qos_event_step_def incoming_def outgoing_def Categorize qos_fault_def [abs_def])
  next
    case (Transmit s)
    show ?thesis using same [OF transmit_step_gives [OF k, of s]]
      by (simp add: qos_event_step_def incoming_def outgoing_def Transmit qos_fault_def [abs_def])
  next
    case (Transmit_Default s)
    show ?thesis using same [OF default_packet_gives [OF k, of s]]
      by (simp add: qos_event_step_def incoming_def outgoing_def Transmit_Default qos_fault_def [abs_def])
  next
    case (Report act fid fs)
    show ?thesis using same [OF no_error_any [OF ProcessQosFlowReport_gives [OF k, of act fid fs]]]
      by (simp add: qos_event_step_def incoming_def outgoing_def Report)
  next
    case (Indication undef b)
    show ?thesis using same [OF ProcessQosEventReportInd_gives [OF k, of undef b]]
      by (simp add: qos_event_step_def incoming_def outgoing_def Indication qos_fault_def [abs_def])
  next
    case Purge
    show ?thesis using same [OF no_error_any [OF PurgeQueues_gives [OF k]]]
      by (simp add: qos_event_step_def incoming_def outgoing_def Purge)
  qed
qed

lemma qos_start_inv: "qos_start q \<Longrightarrow> qos_inv q"
  unfolding qos_start_def qos_inv_def queues_ok_def filters_ok_def addresses_ok_def
  by (auto split: if_splits)

lemma qos_reachable_inv: "qos_reachable q \<Longrightarrow> qos_inv q"
proof (induction rule: qos_reachable.induct)
  case (step q e q')
  have "kept (packets_of q) q" using step by (simp add: kept_def)
  from qos_event_step_gives [OF this, of e] show ?case using step by simp
qed (rule qos_start_inv)

lemma reachable_step_gives:
  assumes "qos_reachable q"
  shows "gives (qos_fault e q) (\<lambda>q'. qos_inv q' \<and> packets_of q' + outgoing e q = packets_of q + incoming e) (qos_event_step e q)"
  by (rule qos_event_step_gives) (simp add: kept_def qos_reachable_inv [OF assms])

definition qos_example :: qos where
  "qos_example = \<lparr>flow_at = [0 \<mapsto> \<lparr>FlowId = 0, FilterList = [], Packets = [], FlowState = FLOW_DEFAULT\<rparr>],
     filter_at = Map.empty, next_addr = 1, FlowDataQueue = (\<lambda>t. if t = FLOW_DEFAULT then [0] else []),
     FilterPrecedenceList = [], DefaultFlowEnabled = True, QosPacketBuffer = replicate 100 0, QosHdrLen = 0,
     MPDisableQoS = False, Down = False, TxPendingList = [], TxBusyList = [], TxSent = [], TxFailed = [],
     QosDispThreadTxEvent = False, pool = []\<rparr>"

lemma qos_example_start: "qos_start qos_example"
  by (simp add: qos_start_def qos_example_def)

text \<open>An Ethernet header and an IPv4 header without options, for the protocol \<open>1\<close>.\<close>

definition ping :: bytes where
  "ping = [0, 0, 0, 0, 0, 0, 0, 0, 0, 0, 0, 0, 8, 0,
           0x45, 0, 0, 28, 0, 1, 0, 0, 64, 1, 0, 0, 10, 0, 0, 1, 10, 0, 0, 2, 8, 0, 0, 0, 0, 1, 0, 1]"

section \<open>Properties\<close>



text \<open>
  An interface: a layer whose steps keep its consistency and hold on to what they are given. Whatever implements
  it keeps the account over every run.
\<close>

fun run_events :: "('e \<Rightarrow> 's \<Rightarrow> fault + 's) \<Rightarrow> 'e list \<Rightarrow> 's \<Rightarrow> fault + 's" where
  "run_events step [] q = Inr q"
| "run_events step (e # es) q = bnd (step e q) (run_events step es)"

fun released_by :: "('e \<Rightarrow> 's \<Rightarrow> fault + 's) \<Rightarrow> ('e \<Rightarrow> 's \<Rightarrow> 'p multiset) \<Rightarrow> 'e list \<Rightarrow> 's \<Rightarrow> 'p multiset" where
  "released_by step out [] q = {#}"
| "released_by step out (e # es) q =
     out e q + (case step e q of Inl _ \<Rightarrow> {#} | Inr q' \<Rightarrow> released_by step out es q')"

locale conserving_layer =
  fixes step :: "'e \<Rightarrow> 's \<Rightarrow> fault + 's"
    and ok :: "'s \<Rightarrow> bool"
    and held :: "'s \<Rightarrow> 'p multiset"
    and inn :: "'e \<Rightarrow> 'p multiset"
    and out :: "'e \<Rightarrow> 's \<Rightarrow> 'p multiset"
  assumes keeps: "ok q \<Longrightarrow> step e q = Inr q' \<Longrightarrow> ok q' \<and> held q' + out e q = held q + inn e"
begin

lemma run_keeps:
  "ok q \<Longrightarrow> run_events step es q = Inr q' \<Longrightarrow>
     ok q' \<and> held q' + released_by step out es q = held q + (\<Sum>e \<leftarrow> es. inn e)"
proof (induction es arbitrary: q)
  case (Cons e es)
  then obtain r where r: "step e q = Inr r" "run_events step es r = Inr q'" by (auto simp: returns_iff)
  note k = keeps [OF Cons.prems(1) r(1)]
  have "held q' + released_by step out es r = held r + (\<Sum>e \<leftarrow> es. inn e)" "ok q'"
    using Cons.IH [OF _ r(2)] k by blast+
  then show ?case
    using k r(1) by (simp add: add.assoc add.left_commute) (metis (no_types, lifting) add.assoc add.commute)
qed simp

lemma nothing_lost:
  "ok q \<Longrightarrow> run_events step es q = Inr q' \<Longrightarrow> p \<in># (\<Sum>e \<leftarrow> es. inn e) \<Longrightarrow>
     p \<in># held q' \<or> p \<in># released_by step out es q"
  using run_keeps by (metis union_iff)

end

interpretation qos_layer: conserving_layer qos_event_step qos_inv packets_of incoming outgoing
proof
  fix q e q' assume "qos_inv q" "qos_event_step e q = Inr q'"
  then show "qos_inv q' \<and> packets_of q' + outgoing e q = packets_of q + incoming e"
    using qos_event_step_gives [of "packets_of q" q e] by (simp add: kept_def)
qed

text \<open>C8: No packet is lost and none is duplicated: after any sequence of arrivals, reports, transmissions, purges and
  completions from the start of the adapter, the packets that are pending, in flows, being sent or given back
  are, as a multiset, those that arrived less those that were completed.\<close>
theorem qos_packets_conserved:
  assumes "qos_start q" and "run_events qos_event_step es q = Inr q'"
  shows "packets_of q' + released_by qos_event_step outgoing es q = (\<Sum>e \<leftarrow> es. incoming e)"
proof -
  have "packets_of q = {#}" using assms(1) by (simp add: qos_start_def packets_of_def flow_packets_def)
  then show ?thesis using qos_layer.run_keeps [OF qos_start_inv [OF assms(1)] assms(2)] by simp
qed

theorem qos_packets_conserved_witness:
  "packets_of (qos_example\<lparr>Down := True, TxFailed := [(7, ping)]\<rparr>)
     + released_by qos_event_step outgoing [Arrive (7, ping), Set_Down True, Categorize] qos_example
   = (\<Sum>e \<leftarrow> [Arrive (7, ping), Set_Down True, Categorize]. incoming e)"
  by (rule qos_packets_conserved [OF qos_example_start])
    (simp add: qos_event_step_def qos_example_def MPQOS_CategorizePacketsEx_def Let_def)

section \<open>Round robin\<close>

text \<open>The order in which flows with data are served: one packet of each in turn, until none has any.\<close>

function round_robin :: "(u32 \<times> packet list) list \<Rightarrow> (packet \<times> u32 \<times> bool) list" where
  "round_robin [] = []"
| "round_robin ((i, []) # fs) = round_robin fs"
| "round_robin ((i, p # ps) # fs) = (p, i, True) # round_robin (fs @ [(i, ps)])"
  by pat_completeness auto
termination
  by (relation "measure (\<lambda>fs. \<Sum>(i, ps) \<leftarrow> fs. Suc (length ps))") auto

definition flows_with_data :: "qos \<Rightarrow> (u32 \<times> packet list) list" where
  "flows_with_data q = map (\<lambda>a. (FlowId (flow_rec q a), Packets (flow_rec q a))) (FlowDataQueue q FLOW_SEND_WITH_DATA)"

lemma transmit_step_round_robin:
  assumes inv: "qos_inv q" and up: "\<not> Down q" and Cons: "FlowDataQueue q FLOW_SEND_WITH_DATA = a # as"
  obtains q' where "transmit_step stale q = Inr q'" "qos_inv q'" "\<not> Down q'"
    "TxSent q' @ round_robin (flows_with_data q') = TxSent q @ round_robin (flows_with_data q)"
    "TxBusyList q' @ map fst (round_robin (flows_with_data q')) = TxBusyList q @ map fst (round_robin (flows_with_data q))"
    "TxPendingList q' = TxPendingList q" "TxFailed q' = TxFailed q"
proof -
  have k: "kept (packets_of q) q" using inv by (simp add: kept_def)
  obtain f where f: "flow_at q a = Some f"
    using inv Cons unfolding qos_inv_def queues_ok_def by (metis list.set_intros(1))
  have dis: "a \<notin> set as" using inv Cons unfolding qos_inv_def queues_ok_def by (metis distinct.simps(2))
  have fwd: "flows_with_data q = (FlowId f, Packets f) # map (\<lambda>a. (FlowId (flow_rec q a), Packets (flow_rec q a))) as"
    by (simp add: flows_with_data_def Cons f)
  have others: "map (\<lambda>b. (FlowId (flow_rec r b), Packets (flow_rec r b))) as = map (\<lambda>b. (FlowId (flow_rec q b), Packets (flow_rec q b))) as"
    if "flow_at r = (flow_at q)(a \<mapsto> g)" for r g
    using dis that by auto
  have gv: "gives (stale_status stale q) (kept (packets_of q)) (transmit_step stale q)" by (rule transmit_step_gives [OF k])
  obtain r where r: "transmit_step stale q = Inr r" "flow_at r = (flow_at q)(a \<mapsto> case Packets f of [] \<Rightarrow> f\<lparr>FlowState := FLOW_SEND_WITHOUT_DATA\<rparr> | p # ps \<Rightarrow> f\<lparr>Packets := ps\<rparr>)"
      "FlowDataQueue r FLOW_SEND_WITH_DATA = (if Packets f = [] then as else as @ [a])" "\<not> Down r"
      "TxSent r = TxSent q @ (case Packets f of [] \<Rightarrow> [] | p # ps \<Rightarrow> [(p, FlowId f, True)])"
      "TxBusyList r = TxBusyList q @ (case Packets f of [] \<Rightarrow> [] | p # ps \<Rightarrow> [p])"
      "TxPendingList r = TxPendingList q" "TxFailed r = TxFailed q"
  proof (cases "Packets f")
    case Nil
    then show ?thesis using that up
      by (auto simp: transmit_step_def Cons flow_of_def f Let_def insert_tail_def set_flow_def)
  next
    case (Cons p ps)
    then show ?thesis using that up \<open>FlowDataQueue q FLOW_SEND_WITH_DATA = a # as\<close>
      by (auto simp: transmit_step_def flow_of_def f Let_def insert_tail_def set_flow_def MPQOS_DequeuePacket_def send_packet_def)
  qed
  have "qos_inv r" using gv r(1) by (simp add: kept_def)
  moreover have rwd: "flows_with_data r = map (\<lambda>b. (FlowId (flow_rec q b), Packets (flow_rec q b))) as
      @ (if Packets f = [] then [] else [(FlowId f, tl (Packets f))])"
    unfolding others [OF r(2), symmetric] flows_with_data_def r(3) by (cases "Packets f") (simp_all add: r(2))
  have "TxSent r @ round_robin (flows_with_data r) = TxSent q @ round_robin (flows_with_data q)
    \<and> TxBusyList r @ map fst (round_robin (flows_with_data r)) = TxBusyList q @ map fst (round_robin (flows_with_data q))"
    unfolding fwd rwd by (cases "Packets f") (simp_all add: r)
  ultimately show thesis using that r by blast
qed

text \<open>C9: When the adapter is up, the loop over the flows with data ends, leaves none of them, and hands the packets to the USB layer
  in round-robin order of the flows and in their order within each flow, marked with the id of their flow and
  with a header; no packet is given back.\<close>
theorem transmit_flows_is_round_robin:
  assumes "qos_inv q" and "\<not> Down q"
  shows "\<exists>q'. transmit_flows stale q = Inr q' \<and> FlowDataQueue q' FLOW_SEND_WITH_DATA = []
    \<and> TxSent q' = TxSent q @ round_robin (flows_with_data q)
    \<and> TxBusyList q' = TxBusyList q @ map fst (round_robin (flows_with_data q))
    \<and> TxPendingList q' = TxPendingList q \<and> TxFailed q' = TxFailed q"
  using assms
proof (induction "flow_load q" arbitrary: q rule: less_induct)
  case less
  show ?case
  proof (cases "FlowDataQueue q FLOW_SEND_WITH_DATA")
    case Nil
    then show ?thesis by (simp add: transmit_flows.simps [of stale q] flows_with_data_def)
  next
    case (Cons a as)
    obtain r where r: "transmit_step stale q = Inr r" "qos_inv r" "\<not> Down r"
      "TxSent r @ round_robin (flows_with_data r) = TxSent q @ round_robin (flows_with_data q)"
      "TxBusyList r @ map fst (round_robin (flows_with_data r)) = TxBusyList q @ map fst (round_robin (flows_with_data q))"
      "TxPendingList r = TxPendingList q" "TxFailed r = TxFailed q"
      by (rule transmit_step_round_robin [OF less.prems Cons])
    have "transmit_flows stale q = transmit_flows stale r"
      using r(1) Cons by (simp add: transmit_flows.simps [of stale q])
    then show ?thesis
      using less.hyps [OF transmit_step_load [OF r(1) Cons] r(2,3)] r(4-) by simp
  qed
qed


theorem transmit_flows_is_round_robin_witness:
  "\<exists>q'. transmit_flows ND_SUCCESS qos_example = Inr q' \<and> FlowDataQueue q' FLOW_SEND_WITH_DATA = []
    \<and> TxSent q' = TxSent qos_example @ round_robin (flows_with_data qos_example)
    \<and> TxBusyList q' = TxBusyList qos_example @ map fst (round_robin (flows_with_data qos_example))
    \<and> TxPendingList q' = TxPendingList qos_example \<and> TxFailed q' = TxFailed qos_example"
  by (rule transmit_flows_is_round_robin [OF qos_start_inv [OF qos_example_start]]) (simp add: qos_example_def)

lemma round_robin_keeps_order:
  "distinct (map fst fs) \<Longrightarrow> filter (\<lambda>(p, j, hdr). j = i) (round_robin fs)
     = map (\<lambda>p. (p, i, True)) (case map_of fs i of None \<Rightarrow> [] | Some ps \<Rightarrow> ps)"
proof (induction fs rule: round_robin.induct)
  case (2 j fs)
  have "map_of fs j = None" using 2(2) by (simp add: map_of_eq_None_iff)
  then show ?case using 2 by auto
next
  case (3 j p ps fs)
  have none: "map_of fs j = None" using 3(2) by (simp add: map_of_eq_None_iff)
  have "map_of (fs @ [(j, ps)]) i = (if i = j then Some ps else map_of fs i)"
    using none by (auto simp: map_add_def split: option.splits)
  then show ?case using 3 by (auto split: option.splits)
qed simp

section \<open>Where a packet goes\<close>

text \<open>Whether a filter matches a packet that is not a fragment and has not the version of IPv6.\<close>

definition matches_v4 :: "ref_ipv4_hdr \<Rightarrow> qmi_filter \<Rightarrow> bool" where
  "matches_v4 h r \<longleftrightarrow> IpVersion r = v4_Version h \<and> v4_fields_match r h"

definition hit :: "(qmi_filter \<Rightarrow> bool) \<Rightarrow> qos \<Rightarrow> nat \<Rightarrow> bool" where
  "hit P q x = (case filter_at q x of None \<Rightarrow> False | Some r \<Rightarrow> P r)"

text \<open>
  The flow of the first matching filter with a precedence; else the first flow, of the queues in their order,
  with a matching filter without one; else the default flow.
\<close>

definition classify :: "ref_ipv4_hdr \<Rightarrow> qos \<Rightarrow> nat" where
  "classify h q =
     (case find (hit (matches_v4 h) q) (FilterPrecedenceList q) of
        Some x \<Rightarrow> Flow (the (filter_at q x))
      | None \<Rightarrow>
          if MPDisableQoS q then DefaultQosFlow else
          case find (\<lambda>a. \<exists>x \<in> set (FilterList (flow_rec q a)).
              hit (\<lambda>r. Precedence r \<ge> QOS_FILTER_PRECEDENCE_INVALID \<and> matches_v4 h r) q x)
            (concat (map (FlowDataQueue q) qos_queues)) of
            Some a \<Rightarrow> a
          | None \<Rightarrow> DefaultQosFlow)"

definition plain_v4 :: "ref_ipv4_hdr \<Rightarrow> qos \<Rightarrow> bool" where
  "plain_v4 h q \<longleftrightarrow> MPQOS_GetIPHeaderV4 (QosPacketBuffer q) 14 = Inr h \<and> v4_Version h \<noteq> 6
     \<and> v4_Flags h AND 1 = 0 \<and> v4_FragmentOffset h = 0"

lemma match_plain:
  assumes "plain_v4 h q"
  shows "MPQOS_DoesPktMatchThisFilterEx f (QosPacketBuffer q) ks = Inr (matches_v4 h f, f, ks)"
  using assms by (auto simp: plain_v4_def MPQOS_DoesPktMatchThisFilterEx_def match_fragment_def matches_v4_def)

lemma find_filter_plain:
  assumes "plain_v4 h q" and "\<forall>x \<in> set xs. filter_at q x \<noteq> None"
  shows "find_filter P xs q = Inr (find (hit (\<lambda>r. P r \<and> matches_v4 h r) q) xs, q)"
  using assms(2)
proof (induction xs)
  case (Cons x xs)
  then obtain f where f: "filter_at q x = Some f" by auto
  have same: "q\<lparr>filter_at := (filter_at q)(x \<mapsto> f), pool := pool q\<rparr> = q"
    using f by (cases q) (simp add: fun_upd_idem)
  show ?case
    using Cons f by (simp add: filter_of_def match_plain [OF assms(1)] Let_def same hit_def)
qed simp

lemma try_flows_plain:
  assumes "qos_inv q" and "plain_v4 h q" and "\<forall>a \<in> set as. \<exists>f. flow_at q a = Some f \<and> FlowState f = t"
  shows "try_flows t as p q = Inr
    (case find (\<lambda>a. \<exists>x \<in> set (FilterList (flow_rec q a)).
              hit (\<lambda>r. Precedence r \<ge> QOS_FILTER_PRECEDENCE_INVALID \<and> matches_v4 h r) q x) as of
       None \<Rightarrow> (False, q) | Some a \<Rightarrow> (True, delivered a p q))"
  using assms(3)
proof (induction as)
  case (Cons a as)
  then obtain f where f: "flow_at q a = Some f" "FlowState f = t" by auto
  note ff = find_filter_plain [OF assms(2) filters_exist(2) [OF assms(1) f(1)]]
  have step: "bnd (push_packet a p q) (\<lambda>q.
      if t = FLOW_SEND_WITHOUT_DATA then bnd (move_flow a FLOW_SEND_WITH_DATA q) (\<lambda>q. Inr (True, q)) else Inr (True, q))
      = Inr (True, delivered a p q)"
    using push_and_move [OF f(1), of p] f(2) by simp
  show ?case
    using Cons step by (auto simp: flow_of_def f(1) ff find_None_iff find_Some_iff split: option.splits)
qed simp

lemma find_append: "find P (xs @ ys) = (case find P xs of None \<Rightarrow> find P ys | Some x \<Rightarrow> Some x)"
  by (induction xs) auto

lemma try_queues_plain:
  assumes "qos_inv q" and "plain_v4 h q"
  shows "try_queues ts p q = Inr
    (case find (\<lambda>a. \<exists>x \<in> set (FilterList (flow_rec q a)).
              hit (\<lambda>r. Precedence r \<ge> QOS_FILTER_PRECEDENCE_INVALID \<and> matches_v4 h r) q x) (concat (map (FlowDataQueue q) ts)) of
       None \<Rightarrow> (False, q) | Some a \<Rightarrow> (True, delivered a p q))"
proof (induction ts)
  case (Cons t ts)
  have members: "\<forall>a \<in> set (FlowDataQueue q t). \<exists>f. flow_at q a = Some f \<and> FlowState f = t"
    using assms(1) unfolding qos_inv_def queues_ok_def by blast
  show ?case
    using Cons by (auto simp: try_flows_plain [OF assms members] find_append split: option.splits)
qed simp

lemma enqueue_in_flow:
  assumes "qos_inv q" and "filter_at q x = Some r"
  shows "bnd (push_packet (Flow r) p q) (\<lambda>q. bnd (flow_of (Flow r) q) (\<lambda>f.
     if FlowState f = FLOW_SEND_WITHOUT_DATA
     then bnd (move_flow (Flow r) FLOW_SEND_WITH_DATA q) (\<lambda>q. Inr (True, q)) else Inr (True, q)))
     = Inr (True, delivered (Flow r) p q)"
proof -
  obtain f where f: "flow_at q (Flow r) = Some f"
    using assms filters_okD(3) [of q x r] unfolding qos_inv_def by blast
  show ?thesis using push_and_move [OF f, of p] by (simp add: push_packet_eq [OF f] flow_of_def)
qed

lemma default_delivered:
  assumes "qos_inv q"
  shows "push_packet DefaultQosFlow p q = Inr (delivered DefaultQosFlow p q)"
proof -
  obtain f where "flow_at q 0 = Some f" "FlowState f = FLOW_DEFAULT" using assms unfolding qos_inv_def queues_ok_def by blast
  then show ?thesis by (simp add: push_packet_eq delivered_def)
qed

lemma Enqueue_plain:
  assumes "qos_inv q" and "plain_v4 h q"
  shows "MPQOS_Enqueue p q = Inr (delivered (classify h q) p q)"
proof -
  note ff = find_filter_plain [OF assms(2) filters_exist(1) [OF assms(1)], of "\<lambda>_. True", simplified]
  have prec: "MPQOS_EnqueueByPrecedence p q = Inr
    (case find (hit (matches_v4 h) q) (FilterPrecedenceList q) of
       None \<Rightarrow> (False, q) | Some x \<Rightarrow> (True, delivered (Flow (the (filter_at q x))) p q))"
  proof (cases "find (hit (matches_v4 h) q) (FilterPrecedenceList q)")
    case None
    then show ?thesis by (simp add: MPQOS_EnqueueByPrecedence_def ff)
  next
    case (Some x)
    then obtain r where r: "filter_at q x = Some r"
      by (auto simp: find_Some_iff hit_def split: option.splits)
    then show ?thesis
      using enqueue_in_flow [OF assms(1) r, of p] by (simp add: MPQOS_EnqueueByPrecedence_def ff Some filter_of_def)
  qed
  show ?thesis
    by (auto simp: MPQOS_Enqueue_def prec classify_def try_queues_plain [OF assms] default_delivered [OF assms(1)]
        simp del: try_queues.simps split: option.split)
qed

lemma find_sorted_least:
  assumes "sorted (map f xs)" and "find P xs = Some x" and "y \<in> set xs" and "P y"
  shows "f x \<le> (f y :: nat)"
  using assms by (induction xs) (auto split: if_splits)

text \<open>C10: An IPv4 packet that is not a fragment goes to the end of the flow that the filters choose: the flow of a matching
  filter of least precedence, if one with a precedence matches, and the filters stay as they are.\<close>
theorem packet_goes_to_least_precedence:
  assumes "qos_reachable q" and "plain_v4 h q"
  shows "MPQOS_Enqueue p q = Inr (delivered (classify h q) p q)
    \<and> (\<forall>y r. filter_at q y = Some r \<and> Precedence r < QOS_FILTER_PRECEDENCE_INVALID \<and> matches_v4 h r \<longrightarrow>
        (\<exists>x s. filter_at q x = Some s \<and> matches_v4 h s \<and> Flow s = classify h q \<and> Precedence s \<le> Precedence r))"
proof (intro conjI allI impI)
  have inv: "qos_inv q" using qos_reachable_inv [OF assms(1)] .
  then show "MPQOS_Enqueue p q = Inr (delivered (classify h q) p q)" using Enqueue_plain assms(2) by blast
  note D = filters_okD [OF qos_invD(2) [OF inv]]
  fix y r assume r: "filter_at q y = Some r \<and> Precedence r < QOS_FILTER_PRECEDENCE_INVALID \<and> matches_v4 h r"
  then have y: "y \<in> set (FilterPrecedenceList q)" "hit (matches_v4 h) q y" using D(6) by (auto simp: hit_def)
  then obtain x where x: "find (hit (matches_v4 h) q) (FilterPrecedenceList q) = Some x"
    by (cases "find (hit (matches_v4 h) q) (FilterPrecedenceList q)") (auto simp: find_None_iff)
  then obtain s where s: "filter_at q x = Some s" "matches_v4 h s"
    by (auto simp: find_Some_iff hit_def split: option.splits)
  have "unat (prec_of q x) \<le> unat (prec_of q y)" by (rule find_sorted_least [OF D(5) x y])
  then have "Precedence s \<le> Precedence r" using r s by (simp add: prec_of_def word_le_nat_alt)
  then show "\<exists>x s. filter_at q x = Some s \<and> matches_v4 h s \<and> Flow s = classify h q \<and> Precedence s \<le> Precedence r"
    using s x by (intro exI [of _ x] exI [of _ s]) (simp add: classify_def)
qed

definition any_v4 :: qmi_filter where
  "any_v4 = \<lparr>IpVersion = 4, Ipv4SrcAddr = 0, Ipv4SrcAddrSubnetMask = 0, Ipv4DestAddr = 0, Ipv4DestAddrSubnetMask = 0,
     Ipv4NextHdrProtocol = 0, Ipv4TypeOfService = 0, Ipv4TypeOfServiceMask = 0, TcpSrcPort = None, TcpDestPort = None,
     UdpSrcPort = None, UdpDestPort = None, TcpUdpSrcPort = None, TcpUdpDestPort = None, IcmpFilterMsgType = None,
     IcmpFilterCodeField = None, Ipv6SrcAddr = [], Ipv6SrcAddrPrefixLen = 0, Ipv6SrcAddrMask = (0, 0), Ipv6DestAddr = [],
     Ipv6DestAddrPrefixLen = 0, Ipv6DestAddrMask = (0, 0), Ipv6NextHdrProtocol = 0, Ipv6TrafficClass = 0,
     Ipv6TrafficClassMask = 0, Ipv6FlowLabel = 0, Precedence = 10, Flow = 0, PacketInfoList = []\<rparr>"

definition ping_hdr :: ref_ipv4_hdr where
  "ping_hdr = \<lparr>v4_Version = 4, v4_HdrLen = 20, v4_TOS = 0, v4_TotalLength = 28, v4_Identification = 256, v4_Flags = 0,
     v4_FragmentOffset = 0, v4_Protocol = 1, v4_SrcAddr = 0x0A000001, v4_DestAddr = 0x0A000002, v4_SrcPort = 0,
     v4_DestPort = 0, icmp_Type = 8, icmp_Code = 0\<rparr>"

lemma ping_is: "MPQOS_GetIPHeaderV4 ping 14 = Inr ping_hdr"
  by (simp add: MPQOS_GetIPHeaderV4_def v4_base_def rd8_def rd16_def rd16be_def rd32be_def of_le16_def of_be16_def of_be32_def
      ping_def ping_hdr_def Let_def nth_Cons')

definition qos_flow5 :: qos where
  "qos_flow5 = qos_example\<lparr>
     flow_at := [0 \<mapsto> \<lparr>FlowId = 0, FilterList = [], Packets = [], FlowState = FLOW_DEFAULT\<rparr>,
       1 \<mapsto> \<lparr>FlowId = 5, FilterList = [2], Packets = [], FlowState = FLOW_SEND_WITHOUT_DATA\<rparr>],
     filter_at := [2 \<mapsto> any_v4\<lparr>Flow := 1\<rparr>], next_addr := 3,
     FlowDataQueue := (\<lambda>t. if t = FLOW_DEFAULT then [0] else [])(FLOW_SEND_WITHOUT_DATA := [1]),
     FilterPrecedenceList := [2], QosPacketBuffer := ping\<rparr>"

lemma qos_flow5_reachable: "qos_reachable qos_flow5"
proof (rule qos_reachable.step [OF qos_reachable.start])
  show "qos_start (qos_example\<lparr>QosPacketBuffer := ping\<rparr>)" by (simp add: qos_start_def qos_example_def)
  show "qos_event_step (Report FLOW_ACTIVATED 5 [any_v4]) (qos_example\<lparr>QosPacketBuffer := ping\<rparr>) = Inr qos_flow5"
    by (simp add: qos_event_step_def ProcessQosFlowReport_def flow_activated_def FindQosFlow_def flow_id_at_def
        qos_example_def qos_flow5_def insert_tail_def set_flow_def AddQosFilter_def AddQosFilterToPrecedenceList_def
        prec_of_def any_v4_def flow_of_def Let_def fun_eq_iff)
qed

theorem packet_goes_to_least_precedence_witness:
  "MPQOS_Enqueue (7, ping) qos_flow5 = Inr (delivered 1 (7, ping) qos_flow5)"
proof -
  have c: "classify ping_hdr qos_flow5 = 1"
    by (simp add: classify_def qos_flow5_def hit_def matches_v4_def v4_fields_match_def ping_hdr_def any_v4_def)
  have p: "plain_v4 ping_hdr qos_flow5"
    using ping_is by (simp add: plain_v4_def qos_flow5_def) (simp add: ping_hdr_def)
  show ?thesis
    using packet_goes_to_least_precedence [OF qos_flow5_reachable p, of "(7, ping)"] unfolding c by (rule conjunct1)
qed

section \<open>What the filters look at\<close>

text \<open>C14: When a header is put before the packets, the filters read the IP version of a packet from one of the
  source and destination addresses of its Ethernet header and not from its IP header, because they look at
  the buffer from its beginning.\<close>
theorem filters_ignore_room_for_header:
  assumes "MPUSB_RetriveDataPacket dat q = Inr (n, q')" and "dat \<noteq> []" and "QosHdrLen q \<le> 14" and "14 < QosHdrLen q + length dat"
    and "MPQOS_DoesPktMatchThisFilterEx f (QosPacketBuffer q') ks = Inr (m, f', ks')"
    and "drop_bit 4 (dat ! (14 - QosHdrLen q)) \<noteq> IpVersion f"
  shows "\<not> m"
proof -
  let ?b = "QosPacketBuffer q'"
  have b: "?b = take (QosHdrLen q) (QosPacketBuffer q) @ dat @ drop (QosHdrLen q + length dat) (QosPacketBuffer q)"
    and len: "QosHdrLen q + length dat \<le> length (QosPacketBuffer q)"
    using assms(1,2) by (auto simp: MPUSB_RetriveDataPacket_def Let_def split: if_splits)
  have at: "?b ! 14 = dat ! (14 - QosHdrLen q)"
  proof -
    have l: "length (take (QosHdrLen q) (QosPacketBuffer q)) = QosHdrLen q" using len by simp
    have "14 - QosHdrLen q < length dat" "\<not> 14 < QosHdrLen q" using assms(3,4) by linarith+
    then show ?thesis unfolding b nth_append l by simp
  qed
  have nib: "drop_bit 4 (x AND 0xF0) = drop_bit 4 x" for x :: u8
  proof (rule bit_word_eqI)
    fix n
    have m: "(15 :: u8) = mask 4" by (simp add: mask_eq_exp_minus_1)
    have "bit (15 :: u8) n \<longleftrightarrow> n < 4" unfolding m bit_mask_iff by auto
    then show "bit (drop_bit 4 (x AND 0xF0)) n \<longleftrightarrow> bit (drop_bit 4 x) n"
      using bit_imp_le_length [of x "4 + n"] by (auto simp: bit_simps)
  qed
  obtain h where "MPQOS_GetIPHeaderV4 ?b 14 = Inr h" and eq: "v4_Version h \<noteq> IpVersion f \<Longrightarrow> \<not> m"
    using assms(5) by (auto simp: MPQOS_DoesPktMatchThisFilterEx_def returns_iff split: if_splits)
  then have "v4_Version h = drop_bit 4 (?b ! 14 AND 0xF0)"
    by (auto simp: MPQOS_GetIPHeaderV4_def v4_base_def returns_iff rd8_def Let_def split: if_splits)
  then show ?thesis using eq assms(6) at nib by simp
qed

text \<open>The adapter of the example with a header of eight bytes; the packet is in the buffer behind it.\<close>

definition qos_header8 :: qos where
  "qos_header8 = qos_example\<lparr>QosHdrLen := 8, QosPacketBuffer := replicate 80 0\<rparr>"

theorem filters_ignore_room_for_header_witness:
  "\<exists>q' f' ks'. MPUSB_RetriveDataPacket ping qos_header8 = Inr (50, q')
    \<and> MPQOS_DoesPktMatchThisFilterEx any_v4 (QosPacketBuffer q') [] = Inr (False, f', ks')"
proof -
  let ?q = "qos_header8\<lparr>QosPacketBuffer := replicate 8 0 @ ping @ replicate 30 0\<rparr>"
  have copy: "MPUSB_RetriveDataPacket ping qos_header8 = Inr (50, ?q)"
    by (simp add: MPUSB_RetriveDataPacket_def qos_header8_def ping_def qos_example_def)
  have "\<exists>m f' ks'. MPQOS_DoesPktMatchThisFilterEx any_v4 (QosPacketBuffer ?q) [] = Inr (m, f', ks')"
    by (simp add: MPQOS_DoesPktMatchThisFilterEx_def MPQOS_GetIPHeaderV4_def v4_base_def rd8_def rd16_def rd16be_def
        rd32be_def ping_def Let_def nth_append nth_Cons' any_v4_def) (rule exI [of _ False], simp)
  then obtain m f' ks' where m: "MPQOS_DoesPktMatchThisFilterEx any_v4 (QosPacketBuffer ?q) [] = Inr (m, f', ks')" by blast
  have "\<not> m"
    by (rule filters_ignore_room_for_header [OF copy _ _ _ m])
      (simp_all add: ping_def qos_header8_def any_v4_def nth_Cons')
  then show ?thesis using copy m by auto
qed

text \<open>The headers of an IPv4 packet are read without leaving the buffer, whatever length they announce, if it has 64
  bytes from the header on.\<close>
theorem v4_header_in_bounds:
  assumes "p + 64 \<le> length b"
  shows "\<exists>h. MPQOS_GetIPHeaderV4 b p = Inr h"
proof -
  obtain h where h: "v4_base b p = Inr h" "v4_HdrLen h = (b ! p AND 0x0F) * 4"
    using assms by (auto simp: v4_base_def rd8_def rd16_def rd16be_def rd32be_def)
  have "unat (b ! p AND 0x0F) \<le> 15"
    using word_and_le1 [of "b ! p" "0x0F"] by (simp add: word_le_nat_alt)
  then have "unat (v4_HdrLen h) \<le> 60"
    unfolding h(2) by (simp add: unat_word_ariths)
  then show ?thesis
    using assms by (auto simp: MPQOS_GetIPHeaderV4_def h(1) Let_def rd8_def rd16be_def)
qed

theorem v4_header_in_bounds_witness: "\<exists>h. MPQOS_GetIPHeaderV4 (ping @ replicate 40 0) 14 = Inr h"
  by (rule v4_header_in_bounds) (simp add: ping_def)

text \<open>C15: The extension headers of an IPv6 packet are followed without a bound: an announced length that leads behind the
  buffer, in the first extension header, makes the filter read there.\<close>
theorem v6_extension_overreads:
  assumes "p + 42 \<le> length b" and "b ! (p + 6) = TYPE_HOP_BY_HOP_OPT \<or> b ! (p + 6) = TYPE_ROUTING"
    and "b ! (p + 40) = TYPE_HOP_BY_HOP_OPT \<or> b ! (p + 40) = TYPE_ROUTING \<or> b ! (p + 40) = TYPE_FRAGMENT"
    and "length b \<le> p + 48 + 8 * unat (b ! (p + 41))"
  shows "QCQOS_GetIPHeaderV6 b p = Inl (OOB_Read (p + 48 + 8 * unat (b ! (p + 41))))"
proof -
  let ?e = "p + 48 + 8 * unat (b ! (p + 41))"
  have second: "v6_ext b ?e (b ! (p + 40)) h = Inl (OOB_Read ?e)" for h
    using assms(3,4) by (subst v6_ext.simps) (auto simp: rd8_def)
  have first: "v6_ext b (p + 40) (b ! (p + 6)) h = Inl (OOB_Read ?e)" for h
  proof -
    have e: "p + 40 + (8 + unat (b ! (p + 41)) * 8) = ?e" by simp
    have rd: "rd8 b (p + 40) = Inr (b ! (p + 40))" "rd8 b (p + 40 + 1) = Inr (b ! (p + 41))"
      using assms(1) by (simp_all add: rd8_def add.commute)
    have "b ! (p + 6) = TYPE_ROUTING \<or> b ! (p + 6) = TYPE_HOP_BY_HOP_OPT" using assms(2) by blast
    then show ?thesis by (subst v6_ext.simps) (simp only: if_True rd bnd_simps e second)
  qed
  obtain h where "v6_base b p = Inr h" "v6_NextHeader h = b ! (p + 6)"
    using assms(1) by (auto simp: v6_base_def rd8_def rd16_def rdn_def)
  then show ?thesis by (simp add: QCQOS_GetIPHeaderV6_def first)
qed

theorem v6_extension_overreads_witness:
  "QCQOS_GetIPHeaderV6 (replicate 41 0 @ [255] @ replicate 1000 0) 0 = Inl (OOB_Read 2088)"
proof -
  let ?b = "replicate 41 0 @ [255] @ replicate 1000 (0 :: u8)"
  have n: "?b ! 41 = 255" "?b ! 6 = 0" "?b ! 40 = 0" by (simp_all only: nth_append) simp_all
  show ?thesis using v6_extension_overreads [of 0 ?b] n by simp
qed

text \<open>C16: A prefix mask of an IPv6 filter is not defined for any prefix but the empty one: the first bit is already built by a
  shift of a 32-bit integer by 63.\<close>
theorem prefix_mask_undefined: "QCQOS_ConstructIPPrefixMask len = None \<longleftrightarrow> len \<noteq> 0"
proof -
  have "prefix_loop (Suc n) m = None" for n m
  proof (induction n)
    case 0
    show ?case by (cases m) (simp add: shl_one_def)
  next
    case (Suc n)
    then show ?case by (simp only: prefix_loop.simps(2) [of "Suc n"] option.case)
  qed
  then have "0 < n \<Longrightarrow> prefix_loop n m = None" for n m by (cases n) simp_all
  then show ?thesis by (cases "len = 0") (simp_all add: QCQOS_ConstructIPPrefixMask_def unat_gt_0)
qed

text \<open>C11: The first fragment of an IPv4 datagram that matches a filter makes its other fragments match: every middle one, which
  leaves the filter as it is, and the last one, after which the filter is as it was before the first. Without
  the first fragment, no other one matches.\<close>
theorem fragments_follow_first:
  assumes "MPQOS_GetIPHeaderV4 b1 14 = Inr h1" "MPQOS_GetIPHeaderV4 b2 14 = Inr h2" "MPQOS_GetIPHeaderV4 b3 14 = Inr h3"
    and "v4_Version h1 = IpVersion f" "v4_Version h2 = IpVersion f" "v4_Version h3 = IpVersion f" "IpVersion f = 4"
    and "info_v4 h2 = info_v4 h1" "info_v4 h3 = info_v4 h1" "info_v4 h1 \<notin> set (PacketInfoList f)"
    and "v4_Flags h1 AND 1 \<noteq> 0" "v4_FragmentOffset h1 = 0" "v4_fields_match f h1" "ks = [] \<or> hd ks"
    and "v4_Flags h2 AND 1 \<noteq> 0" "v4_FragmentOffset h2 \<noteq> 0" "v4_Flags h3 AND 1 = 0" "v4_FragmentOffset h3 \<noteq> 0"
  shows "\<exists>g. MPQOS_DoesPktMatchThisFilterEx f b1 ks = Inr (True, g, tl ks)
    \<and> MPQOS_DoesPktMatchThisFilterEx g b2 ls = Inr (True, g, ls)
    \<and> MPQOS_DoesPktMatchThisFilterEx g b3 ls = Inr (True, f, ls)
    \<and> MPQOS_DoesPktMatchThisFilterEx f b2 ls = Inr (False, f, ls)
    \<and> MPQOS_DoesPktMatchThisFilterEx f b3 ls = Inr (False, f, ls)"
proof -
  let ?g = "f\<lparr>PacketInfoList := PacketInfoList f @ [info_v4 h1]\<rparr>"
  have found: "MPQOS_IpIdMatch (info_v4 h1) (PacketInfoList ?g) = Some (info_v4 h1)"
    "MPQOS_IpIdMatch (info_v4 h1) (PacketInfoList f) = None"
    using assms(4,7,10) by (auto simp: MPQOS_IpIdMatch_def info_v4_def find_append find_None_iff find_Some_iff split: option.split)
  have gone: "?g\<lparr>PacketInfoList := remove1 (info_v4 h1) (PacketInfoList ?g)\<rparr> = f"
    using assms(10) by (cases f) (simp add: remove1_append)
  have "MPQOS_DoesPktMatchThisFilterEx f b1 ks = Inr (True, ?g, tl ks)"
    using assms(1,4,7,11-14) by (auto simp: MPQOS_DoesPktMatchThisFilterEx_def match_fragment_def MPQOS_CachePacketInfo_def)
  moreover have "MPQOS_DoesPktMatchThisFilterEx ?g b2 ls = Inr (True, ?g, ls)"
    using assms(2,5,7,8,15,16) found(1) by (simp add: MPQOS_DoesPktMatchThisFilterEx_def match_fragment_def)
  moreover have "MPQOS_DoesPktMatchThisFilterEx ?g b3 ls = Inr (True, f, ls)"
    using assms(3,6,7,9,17,18) found(1) gone by (simp add: MPQOS_DoesPktMatchThisFilterEx_def match_fragment_def)
  moreover have "MPQOS_DoesPktMatchThisFilterEx f b2 ls = Inr (False, f, ls)" "MPQOS_DoesPktMatchThisFilterEx f b3 ls = Inr (False, f, ls)"
    using assms(2,3,5-9,15-18) found(2) by (simp_all add: MPQOS_DoesPktMatchThisFilterEx_def match_fragment_def)
  ultimately show ?thesis by blast
qed

theorem fragments_follow_first_witness:
  "\<exists>g. MPQOS_DoesPktMatchThisFilterEx any_v4 (ping[20 := 0x20]) [True] = Inr (True, g, [])
    \<and> MPQOS_DoesPktMatchThisFilterEx g (ping[20 := 0x20, 21 := 1]) [] = Inr (True, g, [])
    \<and> MPQOS_DoesPktMatchThisFilterEx g (ping[21 := 2]) [] = Inr (True, any_v4, [])
    \<and> MPQOS_DoesPktMatchThisFilterEx any_v4 (ping[20 := 0x20, 21 := 1]) [] = Inr (False, any_v4, [])
    \<and> MPQOS_DoesPktMatchThisFilterEx any_v4 (ping[21 := 2]) [] = Inr (False, any_v4, [])"
proof -
  have h: "MPQOS_GetIPHeaderV4 (ping[20 := 0x20]) 14 = Inr (ping_hdr\<lparr>v4_Flags := 1\<rparr>)"
    "MPQOS_GetIPHeaderV4 (ping[20 := 0x20, 21 := 1]) 14 = Inr (ping_hdr\<lparr>v4_Flags := 1, v4_FragmentOffset := 1\<rparr>)"
    "MPQOS_GetIPHeaderV4 (ping[21 := 2]) 14 = Inr (ping_hdr\<lparr>v4_FragmentOffset := 2\<rparr>)"
    by (simp_all add: MPQOS_GetIPHeaderV4_def v4_base_def rd8_def rd16_def rd16be_def rd32be_def of_le16_def of_be16_def of_be32_def
      ping_def ping_hdr_def Let_def nth_Cons')
  show ?thesis
    using fragments_follow_first [OF h, of any_v4 "[True]" "[]"]
    by (simp add: ping_hdr_def any_v4_def info_v4_def v4_fields_match_def)
qed

end
